(* ===== verification/Prelude.thy ===== *)
theory Prelude
  imports Main "HOL-Library.Word" "HOL-Library.Multiset"
begin

text \<open>
  Shared vocabulary of the development: the machine bounds of the types \<open>usize\<close>, \<open>u64\<close> and
  \<open>i64\<close> on the 64-bit targets the node runs on, the error-or-value results of fallible Rust
  functions with their sequencing operator (the \<open>?\<close> of the source), stateful
  computations that can fail, and generic facts on lists and options that several components use.
\<close>

named_theorems res_simps \<open>rewriting of sequenced results\<close>

section \<open>Results of fallible functions\<close>

text \<open>
  A Rust \<open>Result<T, E>\<close> is a value of the sum type, \<open>Inl\<close> the error; \<open>res_bind\<close> is the
  question-mark operator: it stops at the first error.
\<close>

type_synonym ('e, 'a) res = "'e + 'a"

definition res_bind :: "('e, 'a) res \<Rightarrow> ('a \<Rightarrow> ('e, 'b) res) \<Rightarrow> ('e, 'b) res" where
  "res_bind m f = (case m of Inl e \<Rightarrow> Inl e | Inr x \<Rightarrow> f x)"

lemma res_bind_Inl [simp, res_simps]: "res_bind (Inl e) f = Inl e"
  by (simp add: res_bind_def)

lemma res_bind_Inr [simp, res_simps]: "res_bind (Inr x) f = f x"
  by (simp add: res_bind_def)

lemma res_bind_eq_Inr [res_simps]:
  "res_bind m f = Inr y \<longleftrightarrow> (\<exists>x. m = Inr x \<and> f x = Inr y)"
  by (cases m) auto

lemma res_bind_eq_Inl [res_simps]:
  "res_bind m f = Inl e \<longleftrightarrow> m = Inl e \<or> (\<exists>x. m = Inr x \<and> f x = Inl e)"
  by (cases m) auto

lemma res_bind_cong [fundef_cong]:
  "m = m' \<Longrightarrow> (\<And>x. m' = Inr x \<Longrightarrow> f x = f' x) \<Longrightarrow> res_bind m f = res_bind m' f'"
  by (cases m') auto

text \<open>\<open>ok_or\<close>: an absent value becomes the given error.\<close>

definition ok_or :: "'a option \<Rightarrow> 'e \<Rightarrow> ('e, 'a) res" where
  "ok_or x e = (case x of None \<Rightarrow> Inl e | Some v \<Rightarrow> Inr v)"

lemma ok_or_simps [simp]: "ok_or None e = Inl e" "ok_or (Some v) e = Inr v"
  by (simp_all add: ok_or_def)

lemma ok_or_eq_Inr [res_simps]: "ok_or x e = Inr v \<longleftrightarrow> x = Some v"
  by (cases x) auto

section \<open>Stateful computations that can fail\<close>

text \<open>
  A Rust method on \<open>&mut self\<close> that returns a \<open>Result\<close> is a function from the state to the result
  and the state it leaves, also when it fails: what a failing method has already written stays
  written unless the code rolls it back.
\<close>

type_synonym ('s, 'e, 'a) sm = "'s \<Rightarrow> ('e, 'a) res \<times> 's"

definition sm_ret :: "'a \<Rightarrow> ('s, 'e, 'a) sm" where
  "sm_ret x s = (Inr x, s)"

definition sm_err :: "'e \<Rightarrow> ('s, 'e, 'a) sm" where
  "sm_err e s = (Inl e, s)"

definition sm_bind :: "('s, 'e, 'a) sm \<Rightarrow> ('a \<Rightarrow> ('s, 'e, 'b) sm) \<Rightarrow> ('s, 'e, 'b) sm" where
  "sm_bind m f s = (case m s of (Inl e, s') \<Rightarrow> (Inl e, s') | (Inr x, s') \<Rightarrow> f x s')"

definition sm_get :: "('s \<Rightarrow> 'a) \<Rightarrow> ('s, 'e, 'a) sm" where
  "sm_get f s = (Inr (f s), s)"

definition sm_upd :: "('s \<Rightarrow> 's) \<Rightarrow> ('s, 'e, unit) sm" where
  "sm_upd f s = (Inr (), f s)"

definition sm_lift :: "('e, 'a) res \<Rightarrow> ('s, 'e, 'a) sm" where
  "sm_lift r s = (r, s)"

text \<open>\<open>sm_when b e\<close> is the early return \<open>if b { return Err(e) }\<close>.\<close>

definition sm_when :: "bool \<Rightarrow> 'e \<Rightarrow> ('s, 'e, unit) sm" where
  "sm_when b e = (if b then sm_err e else sm_ret ())"

named_theorems sm_simps \<open>evaluation of stateful computations\<close>

lemma sm_basic_simps [sm_simps]:
  "sm_ret x s = (Inr x, s)" "sm_err e s = (Inl e, s)" "sm_get f s = (Inr (f s), s)"
  "sm_upd g s = (Inr (), g s)" "sm_lift r s = (r, s)"
  by (simp_all add: sm_ret_def sm_err_def sm_get_def sm_upd_def sm_lift_def)

lemma sm_when_apply [sm_simps]: "sm_when b e s = (if b then Inl e else Inr (), s)"
  by (simp add: sm_when_def sm_simps)

lemma sm_bind_Inr [sm_simps]: "m s = (Inr x, s') \<Longrightarrow> sm_bind m f s = f x s'"
  by (simp add: sm_bind_def)

lemma sm_bind_Inl [sm_simps]: "m s = (Inl e, s') \<Longrightarrow> sm_bind m f s = (Inl e, s')"
  by (simp add: sm_bind_def)

lemma sm_bind_eq_Inr:
  "sm_bind m f s = (Inr y, s') \<longleftrightarrow> (\<exists>x t. m s = (Inr x, t) \<and> f x t = (Inr y, s'))"
  by (auto simp: sm_bind_def split: prod.splits sum.splits)

lemma sm_bind_eq_Inl:
  "sm_bind m f s = (Inl e, s') \<longleftrightarrow>
     m s = (Inl e, s') \<or> (\<exists>x t. m s = (Inr x, t) \<and> f x t = (Inl e, s'))"
  by (auto simp: sm_bind_def split: prod.splits sum.splits)

lemma sm_bind_ret [simp]: "sm_bind (sm_ret x) f = f x"
  by (rule ext) (simp add: sm_bind_def sm_ret_def)

lemma sm_bind_assoc: "sm_bind (sm_bind m f) g = sm_bind m (\<lambda>x. sm_bind (f x) g)"
  by (rule ext) (auto simp: sm_bind_def split: prod.splits sum.splits)

text \<open>
  \<open>sm_keeps R m\<close>: whether it succeeds or fails, \<open>m\<close> leaves a state related by \<open>R\<close> to the one it
  started in.  For a preorder \<open>R\<close> it is closed under sequencing.
\<close>

definition sm_keeps :: "('s \<Rightarrow> 's \<Rightarrow> bool) \<Rightarrow> ('s, 'e, 'a) sm \<Rightarrow> bool" where
  "sm_keeps R m = (\<forall>s. R s (snd (m s)))"

lemma sm_keepsI: "(\<And>s r s'. m s = (r, s') \<Longrightarrow> R s s') \<Longrightarrow> sm_keeps R m"
  by (metis prod.collapse sm_keeps_def)

lemma sm_keepsD: "sm_keeps R m \<Longrightarrow> m s = (r, s') \<Longrightarrow> R s s'"
  by (metis snd_conv sm_keeps_def)

lemma sm_keeps_bind:
  assumes "transp R" "sm_keeps R m" "\<And>x. sm_keeps R (f x)"
  shows "sm_keeps R (sm_bind m f)"
  using assms by (intro sm_keepsI)
    (auto simp: sm_bind_def split: prod.splits sum.splits dest: sm_keepsD elim: transpE)

lemma sm_keeps_pure:
  assumes "reflp R"
  shows "sm_keeps R (sm_ret x)" "sm_keeps R (sm_err e)" "sm_keeps R (sm_get f)"
    "sm_keeps R (sm_lift r)" "sm_keeps R (sm_when b e)"
  using assms by (auto intro!: sm_keepsI simp: sm_simps dest: reflpD)

lemma sm_keeps_upd: "(\<And>s. R s (f s)) \<Longrightarrow> sm_keeps R (sm_upd f)"
  by (auto intro!: sm_keepsI simp: sm_simps)

section \<open>Machine bounds\<close>

definition USIZE_MAX :: nat where
  "USIZE_MAX = 2 ^ 64 - 1"

section \<open>Lists\<close>

lemma sorted_wrt_less_Cons_iff:
  "sorted_wrt (<) (x # y # ys) \<longleftrightarrow> (x :: 'a :: linorder) < y \<and> sorted_wrt (<) (y # ys)"
  by auto

lemma nth_list_update_if:
  "i < length xs \<Longrightarrow> xs[j := x] ! i = (if i = j then x else xs ! i)"
  by (auto simp: nth_list_update)

end
