(* ===== verification/Ranges.thy ===== *)
theory Ranges
  imports Prelude
begin

text \<open>
  The range iterators of \<open>src/utils/bitfield/src/iter\<close>. A \<open>RangeIterator\<close> is the finite list of
  the ranges it yields; the head of the list is what its \<open>Lookahead\<close> wrapper has peeked.
  \<open>valid_ranges\<close> is the documented requirement of the trait (non-empty ranges, ascending, no two
  overlap or touch), \<open>bits\<close> the set of indices the ranges stand for. The locale
  \<open>combinator_spec\<close> is the contract of the \<open>Combinator\<close> trait; it is interpreted on the union,
  intersection, difference and symmetric difference combinators, and \<open>Combine\<close> is proved correct
  once, inside it. The stateful cut combinator is treated after it.
\<close>

section \<open>Ranges and the set of bits they stand for\<close>

datatype range = Range (rstart: nat) (rend: nat)

definition range_len :: "range \<Rightarrow> nat" where
  "range_len r = rend r - rstart r"

definition range_bits :: "range \<Rightarrow> nat set" where
  "range_bits r = {rstart r..<rend r}"

definition bits :: "range list \<Rightarrow> nat set" where
  "bits rs = (\<Union>r\<in>set rs. range_bits r)"

fun valid_ranges :: "range list \<Rightarrow> bool" where
  "valid_ranges [] = True"
| "valid_ranges [r] = (rstart r < rend r)"
| "valid_ranges (r # s # rs) = (rstart r < rend r \<and> rend r < rstart s \<and> valid_ranges (s # rs))"

section \<open>The iterators\<close>

subsection \<open>\<open>Skip\<close>, \<open>Take\<close> and \<open>ranges_from_bits\<close>\<close>

fun skip_bits :: "range list \<Rightarrow> nat \<Rightarrow> range list" where
  "skip_bits [] n = []"
| "skip_bits (r # rs) n =
     (if range_len r > n then Range (rstart r + n) (rend r) # skip_bits rs 0
      else skip_bits rs (n - range_len r))"

fun take_bits :: "range list \<Rightarrow> nat \<Rightarrow> range list" where
  "take_bits [] n = []"
| "take_bits (r # rs) n =
     (if n = 0 then []
      else let r' = (if range_len r > n then Range (rstart r) (rstart r + n) else r)
           in r' # take_bits rs (n - range_len r'))"

text \<open>
  The inner loop of \<open>ranges_from_bits\<close>: while the next bit equals \<open>end\<close>, consume it and advance
  \<open>end\<close>. It returns the final \<open>end\<close> and what is left of the iterator.
\<close>

fun extend_end :: "nat \<Rightarrow> nat list \<Rightarrow> nat \<times> nat list" where
  "extend_end e [] = (e, [])"
| "extend_end e (b # bs) = (if b = e then extend_end (e + 1) bs else (e, b # bs))"

lemma extend_end_length [termination_simp]: "length (snd (extend_end e bs)) \<le> length bs"
  by (induction bs arbitrary: e) (auto simp: le_SucI)

lemma extend_end_length_eq [termination_simp]:
  "(e', bs') = extend_end e bs \<Longrightarrow> length bs' < Suc (length bs)"
  using extend_end_length [of e bs] by (metis less_Suc_eq_le snd_conv)

fun ranges_from_bits :: "nat list \<Rightarrow> range list" where
  "ranges_from_bits [] = []"
| "ranges_from_bits (b # bs) =
     (let (e, rest) = extend_end (b + 1) bs in Range b e # ranges_from_bits rest)"

subsection \<open>Combinators\<close>

text \<open>
  A value of the trait \<open>Combinator\<close> with state of type \<open>'c\<close>. The two advancing methods return the
  output range, the (possibly mutated) other range and the new state.
\<close>

record 'c combinator =
  advance_lhs :: "'c \<Rightarrow> range \<Rightarrow> range \<Rightarrow> range \<times> range \<times> 'c"
  advance_rhs :: "'c \<Rightarrow> range \<Rightarrow> range \<Rightarrow> range \<times> range \<times> 'c"
  advance_lhs_tail :: "'c \<Rightarrow> range \<Rightarrow> range option"
  advance_rhs_tail :: "'c \<Rightarrow> range \<Rightarrow> range option"
  default_state :: 'c

definition Union :: "unit combinator" where
  "Union = \<lparr>
     advance_lhs = (\<lambda>_ lhs rhs. (Range (min (rstart lhs) (rstart rhs)) (rend lhs), rhs, ())),
     advance_rhs = (\<lambda>_ lhs rhs. (Range (min (rstart lhs) (rstart rhs)) (rend rhs), lhs, ())),
     advance_lhs_tail = (\<lambda>_ lhs. Some lhs),
     advance_rhs_tail = (\<lambda>_ rhs. Some rhs),
     default_state = ()\<rparr>"

definition Intersection :: "unit combinator" where
  "Intersection = \<lparr>
     advance_lhs = (\<lambda>_ lhs rhs. (Range (max (rstart lhs) (rstart rhs)) (rend lhs), rhs, ())),
     advance_rhs = (\<lambda>_ lhs rhs. (Range (max (rstart lhs) (rstart rhs)) (rend rhs), lhs, ())),
     advance_lhs_tail = (\<lambda>_ _. None),
     advance_rhs_tail = (\<lambda>_ _. None),
     default_state = ()\<rparr>"

definition Difference :: "unit combinator" where
  "Difference = \<lparr>
     advance_lhs = (\<lambda>_ lhs rhs.
       (Range (rstart lhs) (min (rend lhs) (rstart rhs)), rhs, ())),
     advance_rhs = (\<lambda>_ lhs rhs.
       (Range (rstart lhs) (min (rend lhs) (rstart rhs)),
        Range (max (rstart lhs) (rend rhs)) (rend lhs), ())),
     advance_lhs_tail = (\<lambda>_ lhs. Some lhs),
     advance_rhs_tail = (\<lambda>_ _. None),
     default_state = ()\<rparr>"

text \<open>\<open>SymmetricDifference::advance\<close>: the output and the adjusted \<open>right\<close>.\<close>

definition symdiff_advance :: "range \<Rightarrow> range \<Rightarrow> range \<times> range" where
  "symdiff_advance left right =
     (if rstart left \<le> rstart right
      then (Range (rstart left) (min (rend left) (rstart right)),
            Range (max (rstart right) (rend left)) (rend right))
      else (Range (rstart right) (rstart left), Range (rend left) (rend right)))"

definition SymmetricDifference :: "unit combinator" where
  "SymmetricDifference = \<lparr>
     advance_lhs = (\<lambda>_ lhs rhs. let (d, rhs') = symdiff_advance lhs rhs in (d, rhs', ())),
     advance_rhs = (\<lambda>_ lhs rhs. let (d, lhs') = symdiff_advance rhs lhs in (d, lhs', ())),
     advance_lhs_tail = (\<lambda>_ lhs. Some lhs),
     advance_rhs_tail = (\<lambda>_ rhs. Some rhs),
     default_state = ()\<rparr>"

text \<open>
  The state of \<open>Cut\<close> is the number of bits cut out so far. The subtractions of \<open>Cut::offset\<close> are
  on \<open>usize\<close>; the lemma \<open>cut_reach_inv\<close> below shows that they never go below zero.
\<close>

definition cut_offset :: "nat \<Rightarrow> range \<Rightarrow> range" where
  "cut_offset off r = Range (rstart r - off) (rend r - off)"

definition Cut :: "nat combinator" where
  "Cut = \<lparr>
     advance_lhs = (\<lambda>off lhs rhs.
       (cut_offset off (Range (rstart lhs) (min (rend lhs) (rstart rhs))), rhs, off)),
     advance_rhs = (\<lambda>off lhs rhs.
       (cut_offset off (Range (rstart lhs) (min (rend lhs) (rstart rhs))),
        Range (max (rstart lhs) (rend rhs)) (rend lhs), off + range_len rhs)),
     advance_lhs_tail = (\<lambda>off lhs. Some (cut_offset off lhs)),
     advance_rhs_tail = (\<lambda>_ _. None),
     default_state = 0\<rparr>"

subsection \<open>\<open>Combine\<close> and \<open>Merge\<close>\<close>

text \<open>\<open>_Combine::next_range\<close>: the next output, the new state and what is left of both inputs.\<close>

fun next_range ::
  "'c combinator \<Rightarrow> 'c \<Rightarrow> range list \<Rightarrow> range list \<Rightarrow> range option \<times> 'c \<times> range list \<times> range list" where
  "next_range C c [] [] = (None, c, [], [])"
| "next_range C c (l # ls) [] = (advance_lhs_tail C c l, c, ls, [])"
| "next_range C c [] (r # rs) = (advance_rhs_tail C c r, c, [], rs)"
| "next_range C c (l # ls) (r # rs) =
     (if rend l \<le> rend r
      then let (out, r', c') = advance_lhs C c l r in (Some out, c', ls, r' # rs)
      else let (out, l', c') = advance_rhs C c l r in (Some out, c', l' # ls, rs))"

lemma next_range_decreases [termination_simp]:
  "(Some out, c', ls', rs') = next_range C c ls rs \<Longrightarrow>
     length ls' + length rs' < length ls + length rs"
  by (induction C c ls rs rule: next_range.induct) (auto split: if_splits prod.splits)

text \<open>
  The ranges \<open>_Combine\<close> yields: it repeats \<open>next_range\<close> until the first \<open>None\<close> and keeps the
  non-empty ones. \<open>Lookahead\<close> never asks again after a \<open>None\<close>.
\<close>

function (sequential) combine_ranges ::
  "'c combinator \<Rightarrow> 'c \<Rightarrow> range list \<Rightarrow> range list \<Rightarrow> range list" where
  "combine_ranges C c ls rs =
     (case next_range C c ls rs of
        (None, _, _, _) \<Rightarrow> []
      | (Some out, c', ls', rs') \<Rightarrow>
          (if rstart out < rend out then [out] else []) @ combine_ranges C c' ls' rs')"
  by pat_completeness auto
termination
  by (relation "measure (\<lambda>(C, c, ls, rs). length ls + length rs)")
     (auto intro: next_range_decreases)

declare combine_ranges.simps [simp del]

fun merge_ranges :: "range list \<Rightarrow> range list" where
  "merge_ranges [] = []"
| "merge_ranges [r] = [r]"
| "merge_ranges (r # next # rs) =
     (if rstart next > rend r then r # merge_ranges (next # rs)
      else merge_ranges (Range (rstart r) (max (rend r) (rend next)) # rs))"

definition Combine :: "'c combinator \<Rightarrow> range list \<Rightarrow> range list \<Rightarrow> range list" where
  "Combine C ls rs = merge_ranges (combine_ranges C (default_state C) ls rs)"

section \<open>Facts on ranges\<close>

lemma range_bits_simp [simp]: "range_bits (Range a b) = {a..<b}"
  by (simp add: range_bits_def)

lemma range_len_simp [simp]: "range_len (Range a b) = b - a"
  by (simp add: range_len_def)

lemma mem_range_bits [simp]: "p \<in> range_bits r \<longleftrightarrow> rstart r \<le> p \<and> p < rend r"
  by (cases r) simp

lemma bits_Nil [simp]: "bits [] = {}"
  by (simp add: bits_def)

lemma bits_Cons [simp]: "bits (r # rs) = range_bits r \<union> bits rs"
  by (simp add: bits_def)

lemma bits_append [simp]: "bits (rs @ ss) = bits rs \<union> bits ss"
  by (simp add: bits_def)

lemma finite_bits [simp]: "finite (bits rs)"
  by (induction rs) (auto simp: range_bits_def)

lemma valid_ranges_Cons:
  "valid_ranges (r # rs) \<longleftrightarrow>
     rstart r < rend r \<and> (\<forall>s\<in>set rs. rend r < rstart s) \<and> valid_ranges rs"
  by (induction rs arbitrary: r) fastforce+

lemma valid_ranges_tlD: "valid_ranges (r # rs) \<Longrightarrow> valid_ranges rs"
  by (simp add: valid_ranges_Cons)

lemma valid_ranges_beyond: "valid_ranges (r # rs) \<Longrightarrow> p \<in> bits rs \<Longrightarrow> rend r < p"
  by (auto simp: valid_ranges_Cons bits_def)

text \<open>A valid list of ranges is determined by the bits it stands for: the form is canonical.\<close>

lemma bits_rend_notin: "valid_ranges (r # rs) \<Longrightarrow> rend r \<notin> bits (r # rs)"
  using valid_ranges_beyond [of r rs "rend r"] by auto

lemma valid_ranges_Min: "valid_ranges (r # rs) \<Longrightarrow> p \<in> bits (r # rs) \<Longrightarrow> rstart r \<le> p"
  using valid_ranges_beyond [of r rs p] by (auto simp: valid_ranges_Cons)

lemma bits_eq_Nil: "valid_ranges rs \<Longrightarrow> bits rs = {} \<longleftrightarrow> rs = []"
  by (cases rs) (auto simp: valid_ranges_Cons range_bits_def)

lemma bits_tl_eq:
  assumes "valid_ranges (r # rs)"
  shows "bits rs = {p \<in> bits (r # rs). rend r < p}"
proof (rule set_eqI)
  fix p
  show "p \<in> bits rs \<longleftrightarrow> p \<in> {p \<in> bits (r # rs). rend r < p}"
    using valid_ranges_beyond [OF assms, of p] by auto
qed

lemma bits_Cons_eqD:
  assumes "valid_ranges (r # rs)" "valid_ranges (s # ss)" "bits (r # rs) = bits (s # ss)"
  shows "r = s \<and> bits rs = bits ss"
proof -
  have rr: "rstart r \<in> bits (r # rs)" and ss: "rstart s \<in> bits (s # ss)"
    using assms(1,2) by (auto simp: valid_ranges_Cons)
  then have st: "rstart r = rstart s"
    using valid_ranges_Min [OF assms(1)] valid_ranges_Min [OF assms(2)] assms(3)
    by (metis order_antisym)
  have "\<not> rend r < rend s"
    using bits_rend_notin [OF assms(1)] assms st by (auto simp: valid_ranges_Cons)
  moreover have "\<not> rend s < rend r"
    using bits_rend_notin [OF assms(2)] assms st by (auto simp: valid_ranges_Cons)
  ultimately have eq: "r = s" using st by (cases r; cases s) auto
  with assms show ?thesis by (metis bits_tl_eq)
qed

lemma valid_ranges_unique:
  "valid_ranges rs \<Longrightarrow> valid_ranges ss \<Longrightarrow> bits rs = bits ss \<Longrightarrow> rs = ss"
proof (induction rs arbitrary: ss)
  case Nil
  then show ?case by (metis bits_Nil bits_eq_Nil)
next
  case (Cons r rs)
  then obtain s ss' where ss: "ss = s # ss'"
    using bits_eq_Nil [of "r # rs"] by (cases ss) auto
  with Cons show ?case
    by (metis bits_Cons_eqD valid_ranges_tlD)
qed

section \<open>\<open>Merge\<close>\<close>

text \<open>What \<open>Merge\<close> asks of its input: non-empty ranges with non-decreasing lower bounds.\<close>

definition mergeable :: "range list \<Rightarrow> bool" where
  "mergeable rs \<longleftrightarrow> (\<forall>r\<in>set rs. rstart r < rend r) \<and> sorted (map rstart rs)"

lemma mergeable_Nil [simp]: "mergeable []"
  by (simp add: mergeable_def)

lemma mergeable_Cons [simp]:
  "mergeable (r # rs) \<longleftrightarrow>
     rstart r < rend r \<and> (\<forall>s\<in>set rs. rstart r \<le> rstart s) \<and> mergeable rs"
  by (auto simp: mergeable_def)

lemma mergeable_start_in_bits: "mergeable rs \<Longrightarrow> s \<in> set rs \<Longrightarrow> rstart s \<in> bits rs"
  by (auto simp: mergeable_def bits_def)

lemma valid_mergeable: "valid_ranges rs \<Longrightarrow> mergeable rs"
  by (induction rs) (fastforce simp: valid_ranges_Cons)+

lemma bits_merge_ranges: "mergeable rs \<Longrightarrow> bits (merge_ranges rs) = bits rs"
proof (induction rs rule: merge_ranges.induct)
  case (3 r n rs)
  show ?case
  proof (cases "rstart n > rend r")
    case False
    with "3.prems" have "mergeable (Range (rstart r) (max (rend r) (rend n)) # rs)" by auto
    with False "3.IH"(2) have
      "bits (merge_ranges (r # n # rs)) = bits (Range (rstart r) (max (rend r) (rend n)) # rs)"
      by simp
    also have "{rstart r..<max (rend r) (rend n)} = range_bits r \<union> range_bits n"
      using False "3.prems" by (auto simp: range_bits_def)
    ultimately show ?thesis by auto
  qed (use 3 in auto)
qed auto

lemma merge_ranges_hd:
  "mergeable (r # rs) \<Longrightarrow> \<exists>e ss. merge_ranges (r # rs) = Range (rstart r) e # ss \<and> rend r \<le> e"
proof (induction rs arbitrary: r)
  case (Cons n rs)
  show ?case
  proof (cases "rstart n > rend r")
    case True
    then show ?thesis by (cases r) auto
  next
    case False
    with Cons.prems Cons.IH [of "Range (rstart r) (max (rend r) (rend n))"] show ?thesis by fastforce
  qed
qed (metis merge_ranges.simps(2) order_refl range.collapse)

lemma valid_merge_ranges: "mergeable rs \<Longrightarrow> valid_ranges (merge_ranges rs)"
proof (induction rs rule: merge_ranges.induct)
  case (3 r n rs)
  show ?case
  proof (cases "rstart n > rend r")
    case True
    from "3.prems" have n: "mergeable (n # rs)" by simp
    then obtain e ss where ms: "merge_ranges (n # rs) = Range (rstart n) e # ss"
      using merge_ranges_hd by blast
    have "valid_ranges (merge_ranges (n # rs))"
      using "3.IH"(1) True n by simp
    with True "3.prems" show ?thesis by (simp add: ms)
  next
    case False
    with 3 show ?thesis by auto
  qed
qed auto

text \<open>
  The loop of \<open>_Combine\<close>: if every call of \<open>next_range\<close> splits the remaining result \<open>S\<close> into
  its output and what is still to come, and puts the smallest bits first, then the outputs can be
  merged and stand for \<open>S\<close>.
\<close>

lemma combine_ranges_by_step:
  assumes step: "\<And>c ls rs out c' ls' rs'. I c ls rs \<Longrightarrow>
      next_range C c ls rs = (Some out, c', ls', rs') \<Longrightarrow>
      I c' ls' rs' \<and> S c ls rs = range_bits out \<union> S c' ls' rs' \<and>
      (rstart out < rend out \<longrightarrow> (\<forall>p\<in>S c ls rs. rstart out \<le> p))"
    and stop: "\<And>c ls rs c' ls' rs'. I c ls rs \<Longrightarrow>
      next_range C c ls rs = (None, c', ls', rs') \<Longrightarrow> S c ls rs = {}"
    and "I c ls rs"
  shows "mergeable (combine_ranges C c ls rs) \<and> bits (combine_ranges C c ls rs) = S c ls rs"
  using assms(3)
proof (induction "length ls + length rs" arbitrary: c ls rs rule: less_induct)
  case less
  show ?case
  proof (cases "next_range C c ls rs")
    case (fields out_opt c' ls' rs')
    show ?thesis
    proof (cases out_opt)
      case None
      with fields stop [OF less.prems, of c' ls' rs'] show ?thesis
        by (simp add: combine_ranges.simps [of C c ls rs])
    next
      case (Some out)
      let ?rest = "combine_ranges C c' ls' rs'"
      from fields Some have nr: "next_range C c ls rs = (Some out, c', ls', rs')" by simp
      note st = step [OF less.prems nr]
      note IH = less.hyps [OF next_range_decreases [OF nr [symmetric]] st [THEN conjunct1]]
      have eq: "combine_ranges C c ls rs = (if rstart out < rend out then [out] else []) @ ?rest"
        by (simp add: combine_ranges.simps [of C c ls rs] nr)
      have "rstart out \<le> rstart s" if "rstart out < rend out" "s \<in> set ?rest" for s
        using IH mergeable_start_in_bits [of ?rest s] that st by auto
      then have "mergeable (combine_ranges C c ls rs)"
        using IH by (simp add: eq)
      moreover have "bits (combine_ranges C c ls rs) = range_bits out \<union> bits ?rest"
        by (auto simp: eq range_bits_def)
      ultimately show ?thesis using IH st by simp
    qed
  qed
qed

section \<open>The contract of a combinator\<close>

text \<open>
  While \<open>_Combine\<close> runs, the first range of an input may have been shortened by the combinator,
  possibly to an empty one; the others are untouched.
\<close>

definition loose :: "range list \<Rightarrow> bool" where
  "loose rs \<longleftrightarrow>
     (case rs of [] \<Rightarrow> True
      | r # rs' \<Rightarrow> rstart r \<le> rend r \<and> (\<forall>s\<in>set rs'. rend r < rstart s) \<and> valid_ranges rs')"

definition pointwise :: "(bool \<Rightarrow> bool \<Rightarrow> bool) \<Rightarrow> nat set \<Rightarrow> nat set \<Rightarrow> nat set" where
  "pointwise f A B = {p. f (p \<in> A) (p \<in> B)}"

lemma mem_pointwise [simp]: "p \<in> pointwise f A B \<longleftrightarrow> f (p \<in> A) (p \<in> B)"
  by (simp add: pointwise_def)

lemma loose_Nil [simp]: "loose []"
  by (simp add: loose_def)

lemma loose_Cons:
  "loose (r # rs) \<longleftrightarrow> rstart r \<le> rend r \<and> (\<forall>s\<in>set rs. rend r < rstart s) \<and> valid_ranges rs"
  by (simp add: loose_def)

lemma valid_loose: "valid_ranges rs \<Longrightarrow> loose rs"
  by (cases rs) (auto simp: loose_Cons valid_ranges_Cons)

lemma loose_tl: "loose (r # rs) \<Longrightarrow> loose rs"
  by (simp add: loose_Cons valid_loose)

lemma loose_beyond: "loose (r # rs) \<Longrightarrow> p \<in> bits rs \<Longrightarrow> rend r < p"
  by (auto simp: loose_Cons bits_def)

lemma loose_replace: "loose (r # rs) \<Longrightarrow> rend r' = rend r \<Longrightarrow> rstart r' \<le> rend r' \<Longrightarrow> loose (r' # rs)"
  by (simp add: loose_Cons)

lemma loose_nonempty_valid: "loose (r # rs) \<Longrightarrow> rstart r < rend r \<Longrightarrow> valid_ranges (r # rs)"
  by (simp add: loose_Cons valid_ranges_Cons)

text \<open>
  The contract of the trait: the combinator computes the pointwise boolean function \<open>f\<close>. For a
  bit \<open>p\<close>, \<open>x\<close> and \<open>y\<close> say whether it lies in the rest of the left and of the right input,
  which is beyond the current ranges. An output together with what is still to come is the result
  for the current inputs, and no bit of the result is below the lower bound of a non-empty output
  (the monotonicity that the documentation of the trait asks for).
\<close>

locale combinator_spec =
  fixes C :: "'c combinator" and f :: "bool \<Rightarrow> bool \<Rightarrow> bool"
  assumes f_none: "\<not> f False False"
    and lhs_range:
      "advance_lhs C c l r = (out, r', c') \<Longrightarrow> rstart l \<le> rend l \<Longrightarrow> rstart r \<le> rend r \<Longrightarrow>
       rend l \<le> rend r \<Longrightarrow> rend r' = rend r \<and> rstart r' \<le> rend r'"
    and lhs_bits:
      "advance_lhs C c l r = (out, r', c') \<Longrightarrow> rstart l \<le> rend l \<Longrightarrow> rstart r \<le> rend r \<Longrightarrow>
       rend l \<le> rend r \<Longrightarrow> (x \<longrightarrow> rend l < p) \<Longrightarrow> (y \<longrightarrow> rend r < p) \<Longrightarrow>
       (p \<in> range_bits out \<or> f x (p \<in> range_bits r' \<or> y)) =
         f (p \<in> range_bits l \<or> x) (p \<in> range_bits r \<or> y)"
    and lhs_low:
      "advance_lhs C c l r = (out, r', c') \<Longrightarrow> rstart l \<le> rend l \<Longrightarrow> rstart r \<le> rend r \<Longrightarrow>
       rend l \<le> rend r \<Longrightarrow> (x \<longrightarrow> rend l < p) \<Longrightarrow> (y \<longrightarrow> rend r < p) \<Longrightarrow>
       rstart out < rend out \<Longrightarrow> f (p \<in> range_bits l \<or> x) (p \<in> range_bits r \<or> y) \<Longrightarrow> rstart out \<le> p"
    and rhs_range:
      "advance_rhs C c l r = (out, l', c') \<Longrightarrow> rstart l \<le> rend l \<Longrightarrow> rstart r \<le> rend r \<Longrightarrow>
       rend r < rend l \<Longrightarrow> rend l' = rend l \<and> rstart l' \<le> rend l'"
    and rhs_bits:
      "advance_rhs C c l r = (out, l', c') \<Longrightarrow> rstart l \<le> rend l \<Longrightarrow> rstart r \<le> rend r \<Longrightarrow>
       rend r < rend l \<Longrightarrow> (x \<longrightarrow> rend l < p) \<Longrightarrow> (y \<longrightarrow> rend r < p) \<Longrightarrow>
       (p \<in> range_bits out \<or> f (p \<in> range_bits l' \<or> x) y) =
         f (p \<in> range_bits l \<or> x) (p \<in> range_bits r \<or> y)"
    and rhs_low:
      "advance_rhs C c l r = (out, l', c') \<Longrightarrow> rstart l \<le> rend l \<Longrightarrow> rstart r \<le> rend r \<Longrightarrow>
       rend r < rend l \<Longrightarrow> (x \<longrightarrow> rend l < p) \<Longrightarrow> (y \<longrightarrow> rend r < p) \<Longrightarrow>
       rstart out < rend out \<Longrightarrow> f (p \<in> range_bits l \<or> x) (p \<in> range_bits r \<or> y) \<Longrightarrow> rstart out \<le> p"
    and lhs_tail: "advance_lhs_tail C c l = (if f True False then Some l else None)"
    and rhs_tail: "advance_rhs_tail C c r = (if f False True then Some r else None)"
begin

text \<open>One call of \<open>next_range\<close>, for every shape of the inputs.\<close>

lemma next_range_both_lhs:
  assumes "advance_lhs C c l r = (out, r', c')" "loose (l # ls)" "loose (r # rs)" "rend l \<le> rend r"
  shows "loose (r' # rs)"
    "pointwise f (bits (l # ls)) (bits (r # rs)) = range_bits out \<union> pointwise f (bits ls) (bits (r' # rs))"
    "rstart out < rend out \<Longrightarrow> p \<in> pointwise f (bits (l # ls)) (bits (r # rs)) \<Longrightarrow> rstart out \<le> p"
proof -
  have l: "rstart l \<le> rend l" and r: "rstart r \<le> rend r"
    using assms(2,3) by (auto simp: loose_Cons)
  show "loose (r' # rs)"
    using lhs_range [OF assms(1) l r assms(4)] assms(3) by (metis loose_replace)
  note beyond = loose_beyond [OF assms(2)] loose_beyond [OF assms(3)]
  show "pointwise f (bits (l # ls)) (bits (r # rs)) = range_bits out \<union> pointwise f (bits ls) (bits (r' # rs))"
  proof (rule set_eqI)
    fix q
    show "q \<in> pointwise f (bits (l # ls)) (bits (r # rs)) \<longleftrightarrow>
          q \<in> range_bits out \<union> pointwise f (bits ls) (bits (r' # rs))"
      using lhs_bits [OF assms(1) l r assms(4), where x = "q \<in> bits ls" and y = "q \<in> bits rs" and p = q] beyond
      by simp
  qed
  show "rstart out \<le> p"
    if "rstart out < rend out" "p \<in> pointwise f (bits (l # ls)) (bits (r # rs))"
    using lhs_low [OF assms(1) l r assms(4), where x = "p \<in> bits ls" and y = "p \<in> bits rs" and p = p] beyond that
    by simp
qed

lemma next_range_both_rhs:
  assumes "advance_rhs C c l r = (out, l', c')" "loose (l # ls)" "loose (r # rs)" "rend r < rend l"
  shows "loose (l' # ls)"
    "pointwise f (bits (l # ls)) (bits (r # rs)) = range_bits out \<union> pointwise f (bits (l' # ls)) (bits rs)"
    "rstart out < rend out \<Longrightarrow> p \<in> pointwise f (bits (l # ls)) (bits (r # rs)) \<Longrightarrow> rstart out \<le> p"
proof -
  have l: "rstart l \<le> rend l" and r: "rstart r \<le> rend r"
    using assms(2,3) by (auto simp: loose_Cons)
  show "loose (l' # ls)"
    using rhs_range [OF assms(1) l r assms(4)] assms(2) by (metis loose_replace)
  note beyond = loose_beyond [OF assms(2)] loose_beyond [OF assms(3)]
  show "pointwise f (bits (l # ls)) (bits (r # rs)) = range_bits out \<union> pointwise f (bits (l' # ls)) (bits rs)"
  proof (rule set_eqI)
    fix q
    show "q \<in> pointwise f (bits (l # ls)) (bits (r # rs)) \<longleftrightarrow>
          q \<in> range_bits out \<union> pointwise f (bits (l' # ls)) (bits rs)"
      using rhs_bits [OF assms(1) l r assms(4), where x = "q \<in> bits ls" and y = "q \<in> bits rs" and p = q] beyond
      by simp
  qed
  show "rstart out \<le> p"
    if "rstart out < rend out" "p \<in> pointwise f (bits (l # ls)) (bits (r # rs))"
    using rhs_low [OF assms(1) l r assms(4), where x = "p \<in> bits ls" and y = "p \<in> bits rs" and p = p] beyond that
    by simp
qed

lemma pointwise_left: "pointwise f A {} = (if f True False then A else {})"
proof (rule set_eqI)
  fix p
  show "p \<in> pointwise f A {} \<longleftrightarrow> p \<in> (if f True False then A else {})"
    using f_none by (cases "p \<in> A") auto
qed

lemma pointwise_right: "pointwise f {} B = (if f False True then B else {})"
proof (rule set_eqI)
  fix p
  show "p \<in> pointwise f {} B \<longleftrightarrow> p \<in> (if f False True then B else {})"
    using f_none by (cases "p \<in> B") auto
qed

lemma next_range_step:
  assumes "next_range C c ls rs = (Some out, c', ls', rs')" "loose ls" "loose rs"
  shows "loose ls' \<and> loose rs' \<and>
    pointwise f (bits ls) (bits rs) = range_bits out \<union> pointwise f (bits ls') (bits rs') \<and>
    (\<forall>p. rstart out < rend out \<longrightarrow> p \<in> pointwise f (bits ls) (bits rs) \<longrightarrow> rstart out \<le> p)"
proof (cases ls; cases rs)
  fix l ls0 assume e: "ls = l # ls0" "rs = []"
  with assms have "f True False" "out = l" "ls' = ls0" "rs' = []"
    by (auto simp: lhs_tail split: if_splits)
  then show ?thesis
    using e assms(2) valid_ranges_Min [of l ls0] loose_nonempty_valid [of l ls0]
    by (auto simp: pointwise_left pointwise_right loose_tl simp del: mem_pointwise)
next
  fix r rs0 assume e: "ls = []" "rs = r # rs0"
  with assms have "f False True" "out = r" "ls' = []" "rs' = rs0"
    by (auto simp: rhs_tail split: if_splits)
  then show ?thesis
    using e assms(3) valid_ranges_Min [of r rs0] loose_nonempty_valid [of r rs0]
    by (auto simp: pointwise_left pointwise_right loose_tl simp del: mem_pointwise)
next
  fix l ls0 r rs0 assume e: "ls = l # ls0" "rs = r # rs0"
  show ?thesis
  proof (cases "rend l \<le> rend r")
    case True
    with assms(1) e obtain r' where a: "advance_lhs C c l r = (out, r', c')" "ls' = ls0" "rs' = r' # rs0"
      by (auto split: prod.splits)
    show ?thesis
      using next_range_both_lhs [OF a(1) assms(2)[unfolded e] assms(3)[unfolded e] True]
        loose_tl [OF assms(2)[unfolded e]] e a(2,3) by blast
  next
    case False
    with assms(1) e obtain l' where a: "advance_rhs C c l r = (out, l', c')" "ls' = l' # ls0" "rs' = rs0"
      by (auto split: prod.splits)
    from False have lt: "rend r < rend l" by simp
    show ?thesis
      using next_range_both_rhs [OF a(1) assms(2)[unfolded e] assms(3)[unfolded e] lt]
        loose_tl [OF assms(3)[unfolded e]] e a(2,3) by blast
  qed
qed (use assms in auto)

lemma next_range_stop:
  assumes "next_range C c ls rs = (None, c', ls', rs')"
  shows "pointwise f (bits ls) (bits rs) = {}"
  using assms
  by (cases ls; cases rs)
     (auto simp: lhs_tail rhs_tail pointwise_left pointwise_right simp del: mem_pointwise
        split: if_splits prod.splits)

lemma combine_ranges_correct:
  assumes "loose ls" "loose rs"
  shows "mergeable (combine_ranges C c ls rs) \<and>
     bits (combine_ranges C c ls rs) = pointwise f (bits ls) (bits rs)"
proof (rule combine_ranges_by_step [where I = "\<lambda>_ ls rs. loose ls \<and> loose rs"
      and S = "\<lambda>_ ls rs. pointwise f (bits ls) (bits rs)"])
  fix c ls rs out c' ls' rs'
  assume "loose ls \<and> loose rs" "next_range C c ls rs = (Some out, c', ls', rs')"
  then show "(loose ls' \<and> loose rs') \<and>
      pointwise f (bits ls) (bits rs) = range_bits out \<union> pointwise f (bits ls') (bits rs') \<and>
      (rstart out < rend out \<longrightarrow> (\<forall>p\<in>pointwise f (bits ls) (bits rs). rstart out \<le> p))"
    using next_range_step by blast
qed (use assms next_range_stop in blast)+

lemma Combine_correct:
  assumes "valid_ranges ls" "valid_ranges rs"
  shows "valid_ranges (Combine C ls rs)"
    and "bits (Combine C ls rs) = pointwise f (bits ls) (bits rs)"
  using combine_ranges_correct [OF valid_loose valid_loose, OF assms]
  by (auto simp: Combine_def valid_merge_ranges bits_merge_ranges)

end

section \<open>The combinators meet the contract\<close>

interpretation union_c: combinator_spec Union "\<lambda>a b. a \<or> b"
  by unfold_locales (auto simp: Union_def)

interpretation inter_c: combinator_spec Intersection "\<lambda>a b. a \<and> b"
  by unfold_locales (auto simp: Intersection_def)

interpretation diff_c: combinator_spec Difference "\<lambda>a b. a \<and> \<not> b"
  by unfold_locales (auto simp: Difference_def)

lemma symdiff_advance_range:
  "symdiff_advance l r = (out, r') \<Longrightarrow> rstart r \<le> rend r \<Longrightarrow> rend l \<le> rend r \<Longrightarrow>
     rend r' = rend r \<and> rstart r' \<le> rend r'"
  by (auto simp: symdiff_advance_def split: if_splits)

lemma symdiff_advance_bits:
  assumes "symdiff_advance l r = (out, r')" "rstart l \<le> rend l" "rend l \<le> rend r"
    "x \<longrightarrow> rend l < p" "y \<longrightarrow> rend r < p"
  shows "(p \<in> range_bits out \<or> x \<noteq> (p \<in> range_bits r' \<or> y)) =
         ((p \<in> range_bits l \<or> x) \<noteq> (p \<in> range_bits r \<or> y))"
  using assms by (cases x; cases y) (auto simp: symdiff_advance_def split: if_splits)

lemma symdiff_advance_low:
  assumes "symdiff_advance l r = (out, r')" "rstart l \<le> rend l" "rend l \<le> rend r"
    "x \<longrightarrow> rend l < p" "y \<longrightarrow> rend r < p" "rstart out < rend out"
    "(p \<in> range_bits l \<or> x) \<noteq> (p \<in> range_bits r \<or> y)"
  shows "rstart out \<le> p"
  using assms by (cases x; cases y) (auto simp: symdiff_advance_def split: if_splits)

interpretation symdiff_c: combinator_spec SymmetricDifference "\<lambda>a b. a \<noteq> b"
proof (unfold_locales, goal_cases)
  case (2 c l r out r' c')
  then show ?case
    using symdiff_advance_range [of l r out r']
    by (auto simp: SymmetricDifference_def split: prod.splits)
next
  case (3 c l r out r' c' x p y)
  then show ?case
    using symdiff_advance_bits [of l r out r' x p y]
    by (simp add: SymmetricDifference_def split: prod.splits)
next
  case (4 c l r out r' c' x p y)
  then show ?case
    using symdiff_advance_low [of l r out r' x p y]
    by (simp add: SymmetricDifference_def split: prod.splits)
next
  case (5 c l r out l' c')
  then show ?case
    using symdiff_advance_range [of r l out l']
    by (auto simp: SymmetricDifference_def split: prod.splits)
next
  case (6 c l r out l' c' x p y)
  then have "(p \<in> range_bits out \<or> y \<noteq> (p \<in> range_bits l' \<or> x)) =
         ((p \<in> range_bits r \<or> y) \<noteq> (p \<in> range_bits l \<or> x))"
    using symdiff_advance_bits [of r l out l' y p x]
    by (simp add: SymmetricDifference_def split: prod.splits)
  then show ?case by argo
next
  case (7 c l r out l' c' x p y)
  then show ?case
    using symdiff_advance_low [of r l out l' y p x]
    by (auto simp: SymmetricDifference_def split: prod.splits)
qed (auto simp: SymmetricDifference_def)

section \<open>\<open>flatten\<close>, \<open>skip_bits\<close>, \<open>take_bits\<close> and \<open>ranges_from_bits\<close>\<close>

text \<open>\<open>Iterator::flatten\<close> on ranges: the single bits, in the order of the ranges.\<close>

definition flatten :: "range list \<Rightarrow> nat list" where
  "flatten rs = concat (map (\<lambda>r. [rstart r..<rend r]) rs)"

lemma flatten_simps [simp]:
  "flatten [] = []" "flatten (r # rs) = [rstart r..<rend r] @ flatten rs"
  by (simp_all add: flatten_def)

lemma set_flatten [simp]: "set (flatten rs) = bits rs"
  by (induction rs) (auto simp: range_bits_def)

lemma length_flatten: "length (flatten rs) = sum_list (map range_len rs)"
  by (induction rs) (auto simp: range_len_def)

lemma strict_sorted_flatten: "valid_ranges rs \<Longrightarrow> sorted_wrt (<) (flatten rs)"
proof (induction rs)
  case (Cons r rs)
  have "p < q" if "p < rend r" "q \<in> bits rs" for p q
    using valid_ranges_beyond [OF Cons.prems that(2)] that(1) by simp
  with Cons show ?case
    by (auto simp: sorted_wrt_append valid_ranges_tlD)
qed simp

lemma flatten_eq_sorted_list:
  assumes "valid_ranges rs"
  shows "flatten rs = sorted_list_of_set (bits rs)"
  using strict_sorted_flatten [OF assms]
  by (metis set_flatten sorted_list_of_set.idem_if_sorted_distinct strict_sorted_iff)

lemma card_bits: "valid_ranges rs \<Longrightarrow> card (bits rs) = sum_list (map range_len rs)"
  by (metis flatten_eq_sorted_list length_flatten length_sorted_list_of_set)

lemma flatten_skip_bits: "flatten (skip_bits rs n) = drop n (flatten rs)"
  by (induction rs n rule: skip_bits.induct) (auto simp: range_len_def)

lemma flatten_take_bits: "flatten (take_bits rs n) = take n (flatten rs)"
  by (induction rs n rule: take_bits.induct) (auto simp: range_len_def Let_def min_def)

lemma set_skip_bits_start: "s \<in> set (skip_bits rs n) \<Longrightarrow> \<exists>r\<in>set rs. rstart r \<le> rstart s"
  by (induction rs n rule: skip_bits.induct) (fastforce split: if_splits)+

lemma valid_skip_bits: "valid_ranges rs \<Longrightarrow> valid_ranges (skip_bits rs n)"
proof (induction rs n rule: skip_bits.induct)
  case (2 r rs n)
  have "rend r < rstart s" if "s \<in> set (skip_bits rs 0)" for s
    using set_skip_bits_start [OF that] "2.prems" by (fastforce simp: valid_ranges_Cons)
  with 2 show ?case by (auto simp: valid_ranges_Cons range_len_def)
qed simp

lemma set_take_bits_start: "s \<in> set (take_bits rs n) \<Longrightarrow> \<exists>r\<in>set rs. rstart r = rstart s"
  by (induction rs n rule: take_bits.induct) (auto simp: Let_def split: if_splits)

lemma valid_take_bits: "valid_ranges rs \<Longrightarrow> valid_ranges (take_bits rs n)"
proof (induction rs n rule: take_bits.induct)
  case (2 r rs n)
  have beyond: "rend r < rstart s" if "s \<in> set (take_bits rs m)" for s m
    using set_take_bits_start [OF that] "2.prems" by (fastforce simp: valid_ranges_Cons)
  from 2 show ?case
    by (auto simp: valid_ranges_Cons range_len_def Let_def dest: beyond)
qed simp

lemma extend_end_spec:
  assumes "extend_end e bs = (e', rest)" "sorted_wrt (<) bs" "\<forall>b\<in>set bs. e \<le> b"
  shows "set bs = {e..<e'} \<union> set rest \<and> e \<le> e' \<and> sorted_wrt (<) rest \<and> (\<forall>b\<in>set rest. e' < b)"
  using assms
proof (induction e bs rule: extend_end.induct)
  case (2 e b bs)
  show ?case
  proof (cases "b = e")
    case True
    with 2 have "set bs = {e + 1..<e'} \<union> set rest \<and> e + 1 \<le> e' \<and> sorted_wrt (<) rest \<and>
        (\<forall>b\<in>set rest. e' < b)"
      by (simp add: Suc_le_eq)
    with True show ?thesis by auto
  next
    case False
    with 2 show ?thesis by fastforce
  qed
qed simp

lemma ranges_from_bits_correct:
  "sorted_wrt (<) bs \<Longrightarrow> valid_ranges (ranges_from_bits bs) \<and> bits (ranges_from_bits bs) = set bs"
proof (induction bs rule: ranges_from_bits.induct)
  case (2 b bs)
  obtain e rest where er': "extend_end (Suc b) bs = (e, rest)" by fastforce
  then have er: "extend_end (b + 1) bs = (e, rest)" by simp
  have spec: "set bs = {b + 1..<e} \<union> set rest" "b + 1 \<le> e" "sorted_wrt (<) rest" "\<forall>b\<in>set rest. e < b"
    using extend_end_spec [OF er] "2.prems" by (simp_all add: Suc_le_eq)
  have IH: "valid_ranges (ranges_from_bits rest)" "bits (ranges_from_bits rest) = set rest"
    using "2.IH" [OF er [symmetric]] spec(3) by auto
  have "e < rstart s" if "s \<in> set (ranges_from_bits rest)" for s
  proof -
    have "rstart s \<in> bits (ranges_from_bits rest)"
      using that IH(1) valid_mergeable mergeable_start_in_bits by blast
    with IH(2) spec(4) show ?thesis by auto
  qed
  with IH spec show ?case by (auto simp: er' valid_ranges_Cons)
qed simp

text \<open>
  The order requirement matters: a repeated bit makes the result overlap itself, so the collected
  list is no valid \<open>RangeIterator\<close> any more.
\<close>

lemma ranges_from_bits_repeated: "\<not> valid_ranges (ranges_from_bits [1, 1])"
  by simp

section \<open>\<open>Cut\<close>\<close>

text \<open>The number of bits of \<open>B\<close> below \<open>p\<close>: how far a bit at \<open>p\<close> moves to the left.\<close>

definition rank :: "nat set \<Rightarrow> nat \<Rightarrow> nat" where
  "rank B p = card {q \<in> B. q < p}"

lemma rank_empty [simp]: "rank {} p = 0"
  by (simp add: rank_def)

lemma rank_none: "\<forall>q\<in>B. p \<le> q \<Longrightarrow> rank B p = 0"
  by (auto simp: rank_def)

lemma rank_le: "rank B p \<le> p"
proof -
  have "card {q \<in> B. q < p} \<le> card {..<p}" by (rule card_mono) auto
  then show ?thesis by (simp add: rank_def)
qed

lemma rank_step: "p \<le> q \<Longrightarrow> rank B q \<le> rank B p + (q - p)"
proof -
  assume le: "p \<le> q"
  have "{x \<in> B. x < q} \<subseteq> {x \<in> B. x < p} \<union> {p..<q}" by auto
  then have "rank B q \<le> card ({x \<in> B. x < p} \<union> {p..<q})"
    unfolding rank_def by (rule card_mono [rotated]) auto
  also have "\<dots> \<le> rank B p + (q - p)"
    unfolding rank_def by (metis card_Un_le card_atLeastLessThan)
  finally show ?thesis .
qed

lemma shifted_mono: "p \<le> q \<Longrightarrow> p - (off + rank B p) \<le> q - (off + rank B q)"
  using rank_step [of p q B] by linarith

lemma rank_Cons:
  assumes "\<forall>q\<in>B. rend r < q" "rend r \<le> p"
  shows "rank (range_bits r \<union> B) p = range_len r + rank B p"
proof -
  have "{q \<in> range_bits r \<union> B. q < p} = range_bits r \<union> {q \<in> B. q < p}"
    using assms by auto
  moreover have "range_bits r \<inter> {q \<in> B. q < p} = {}" using assms by fastforce
  ultimately show ?thesis
    by (simp add: rank_def card_Un_disjoint range_len_def range_bits_def)
qed

text \<open>What is left of the left input, moved to the left by the bits cut so far.\<close>

definition cut_spec :: "nat \<Rightarrow> nat set \<Rightarrow> nat set \<Rightarrow> nat set" where
  "cut_spec off A B = (\<lambda>p. p - (off + rank B p)) ` (A - B)"

lemma image_minus_range: "off \<le> a \<Longrightarrow> (\<lambda>p. p - off) ` {a..<b} = {a - off..<b - (off::nat)}"
proof (rule set_eqI, rule iffI)
  fix x assume "off \<le> a" "x \<in> {a - off..<b - off}"
  then have "x = (x + off) - off" "x + off \<in> {a..<b}" by auto
  then show "x \<in> (\<lambda>p. p - off) ` {a..<b}" by blast
qed auto

lemma cut_spec_advance_lhs:
  assumes "loose (l # ls)" "valid_ranges (r # rs)" "rend l \<le> rend r" "off \<le> rstart l"
  shows "cut_spec off (bits (l # ls)) (bits (r # rs)) =
    range_bits (cut_offset off (Range (rstart l) (min (rend l) (rstart r)))) \<union>
    cut_spec off (bits ls) (bits (r # rs))"
proof -
  let ?first = "{rstart l..<min (rend l) (rstart r)}"
  have split: "bits (l # ls) - bits (r # rs) = ?first \<union> (bits ls - bits (r # rs))"
    using valid_ranges_beyond [OF assms(2)] assms(3) by fastforce
  have "rank (bits (r # rs)) p = 0" if "p \<in> ?first" for p
    using valid_ranges_Min [OF assms(2)] that by (intro rank_none) fastforce
  then have "(\<lambda>p. p - (off + rank (bits (r # rs)) p)) ` ?first = (\<lambda>p. p - off) ` ?first"
    by (intro image_cong) auto
  then show ?thesis
    using assms(4) unfolding cut_spec_def split image_Un by (simp add: image_minus_range cut_offset_def)
qed

lemma cut_spec_advance_rhs:
  assumes "loose (l # ls)" "valid_ranges (r # rs)" "rend r < rend l" "off \<le> rstart l"
  shows "cut_spec off (bits (l # ls)) (bits (r # rs)) =
    range_bits (cut_offset off (Range (rstart l) (min (rend l) (rstart r)))) \<union>
    cut_spec (off + range_len r) (bits (Range (max (rstart l) (rend r)) (rend l) # ls)) (bits rs)"
proof -
  let ?first = "{rstart l..<min (rend l) (rstart r)}"
  let ?l' = "Range (max (rstart l) (rend r)) (rend l)"
  have beyond: "\<forall>q\<in>bits rs. rend r < q" using valid_ranges_beyond [OF assms(2)] by blast
  have ord: "rstart r < rend r" using assms(2) by (simp add: valid_ranges_Cons)
  have late: "rend r \<le> p" if "p \<in> bits (?l' # ls)" for p
    using that loose_beyond [OF assms(1)] assms(3) by fastforce
  have split: "bits (l # ls) - bits (r # rs) = ?first \<union> (bits (?l' # ls) - bits rs)"
    using beyond ord loose_beyond [OF assms(1)] assms(3) by fastforce
  have "rank (bits (r # rs)) p = 0" if "p \<in> ?first" for p
    using valid_ranges_Min [OF assms(2)] that by (intro rank_none) fastforce
  then have 1: "(\<lambda>p. p - (off + rank (bits (r # rs)) p)) ` ?first = (\<lambda>p. p - off) ` ?first"
    by (intro image_cong) auto
  have "(\<lambda>p. p - (off + rank (bits (r # rs)) p)) ` (bits (?l' # ls) - bits rs) =
        (\<lambda>p. p - (off + range_len r + rank (bits rs) p)) ` (bits (?l' # ls) - bits rs)"
    using rank_Cons [OF beyond] late by (intro image_cong) (auto simp del: bits_Cons simp: bits_Cons [of r rs])
  with 1 show ?thesis
    using assms(4) unfolding cut_spec_def split image_Un by (simp add: image_minus_range cut_offset_def)
qed

lemma cut_spec_low:
  assumes "valid_ranges (l # ls)" "\<forall>q\<in>B. rstart l \<le> q" "x \<in> cut_spec off (bits (l # ls)) B"
  shows "rstart l - off \<le> x"
proof -
  obtain p where p: "p \<in> bits (l # ls)" "x = p - (off + rank B p)"
    using assms(3) unfolding cut_spec_def by blast
  show ?thesis
    using shifted_mono [OF valid_ranges_Min [OF assms(1) p(1)], of off B] rank_none [OF assms(2)] p(2)
    by simp
qed

text \<open>
  The invariant of a run of \<open>Cut\<close>: no bound that is still to be shifted is below the offset.
\<close>

definition cut_inv :: "nat \<Rightarrow> range list \<Rightarrow> range list \<Rightarrow> bool" where
  "cut_inv off ls rs \<longleftrightarrow> loose ls \<and> valid_ranges rs \<and> (\<forall>r\<in>set ls \<union> set rs. off \<le> rstart r)"

lemma cut_first_low:
  assumes "cut_inv off (l # ls) (r # rs)" "rstart l < min (rend l) (rstart r)"
    "x \<in> cut_spec off (bits (l # ls)) (bits (r # rs))"
  shows "rstart l - off \<le> x"
proof (rule cut_spec_low [OF _ _ assms(3)])
  show "valid_ranges (l # ls)"
    using assms by (auto simp: cut_inv_def intro: loose_nonempty_valid)
  show "\<forall>q\<in>bits (r # rs). rstart l \<le> q"
    using assms valid_ranges_Min [of r rs] by (fastforce simp: cut_inv_def)
qed

lemma cut_step:
  assumes "cut_inv off ls rs" "next_range Cut off ls rs = (Some out, off', ls', rs')"
  shows "cut_inv off' ls' rs' \<and>
    cut_spec off (bits ls) (bits rs) = range_bits out \<union> cut_spec off' (bits ls') (bits rs') \<and>
    (rstart out < rend out \<longrightarrow> (\<forall>x\<in>cut_spec off (bits ls) (bits rs). rstart out \<le> x))"
proof (cases ls; cases rs)
  fix l ls0 assume e: "ls = l # ls0" "rs = []"
  with assms have a: "out = cut_offset off l" "off' = off" "ls' = ls0" "rs' = []" "off \<le> rstart l"
    by (auto simp: Cut_def cut_inv_def)
  have "cut_spec off (bits ls) {} = range_bits out \<union> cut_spec off (bits ls0) {}"
    using a e by (cases l) (simp add: cut_spec_def image_Un image_minus_range cut_offset_def)
  moreover have "rstart out \<le> x" if "rstart out < rend out" "x \<in> cut_spec off (bits ls) {}" for x
  proof -
    have "valid_ranges (l # ls0)"
      using assms(1) that(1) a e by (auto simp: cut_inv_def cut_offset_def intro: loose_nonempty_valid)
    then show ?thesis using cut_spec_low [of l ls0 "{}" x off] that a e by (simp add: cut_offset_def)
  qed
  ultimately show ?thesis
    using a e assms(1) by (auto simp: cut_inv_def loose_tl)
next
  fix l ls0 r rs0 assume e: "ls = l # ls0" "rs = r # rs0"
  have inv: "loose (l # ls0)" "valid_ranges (r # rs0)" "off \<le> rstart l" "off \<le> rstart r"
    using assms(1) e by (auto simp: cut_inv_def)
  let ?out = "cut_offset off (Range (rstart l) (min (rend l) (rstart r)))"
  have low: "\<forall>x\<in>cut_spec off (bits ls) (bits rs). rstart ?out \<le> x" if "rstart ?out < rend ?out"
  proof
    fix x assume "x \<in> cut_spec off (bits ls) (bits rs)"
    moreover have "rstart l < min (rend l) (rstart r)"
      using that by (auto simp: cut_offset_def min_def split: if_splits)
    ultimately show "rstart ?out \<le> x"
      using cut_first_low [of off l ls0 r rs0 x] assms(1) e by (simp add: cut_offset_def)
  qed
  show ?thesis
  proof (cases "rend l \<le> rend r")
    case True
    with assms(2) e have a: "out = ?out"
      "off' = off" "ls' = ls0" "rs' = r # rs0" by (auto simp: Cut_def)
    have "cut_inv off' ls' rs'" using assms(1) e a by (auto simp: cut_inv_def loose_tl)
    then show ?thesis
      using cut_spec_advance_lhs [OF inv(1,2) True inv(3)] low e a by blast
  next
    case False
    then have lt: "rend r < rend l" by simp
    let ?l' = "Range (max (rstart l) (rend r)) (rend l)"
    from False assms(2) e have a: "out = ?out"
      "off' = off + range_len r" "ls' = ?l' # ls0" "rs' = rs0" by (auto simp: Cut_def)
    have "loose (?l' # ls0)" using inv(1) lt by (auto simp: loose_Cons)
    moreover have "off' \<le> rend r" using inv(2,4) a by (simp add: valid_ranges_Cons range_len_def)
    moreover have "\<forall>s\<in>set ls0 \<union> set rs0. rend r \<le> rstart s"
      using inv(1,2) lt by (fastforce simp: valid_ranges_Cons loose_Cons)
    moreover have "valid_ranges rs0" using inv(2) by (rule valid_ranges_tlD)
    ultimately have "cut_inv off' ls' rs'"
      unfolding cut_inv_def a(3,4) by (auto simp: le_max_iff_disj intro: order_trans)
    then show ?thesis
      using cut_spec_advance_rhs [OF inv(1,2) lt inv(3)] low e a by blast
  qed
qed (use assms in \<open>auto simp: Cut_def\<close>)

lemma cut_stop:
  assumes "next_range Cut off ls rs = (None, off', ls', rs')"
  shows "cut_spec off (bits ls) (bits rs) = {}"
  using assms by (cases ls; cases rs) (auto simp: Cut_def cut_spec_def split: if_splits)

lemma Combine_Cut_correct:
  assumes "valid_ranges ls" "valid_ranges rs"
  shows "valid_ranges (Combine Cut ls rs)"
    and "bits (Combine Cut ls rs) = (\<lambda>p. p - rank (bits rs) p) ` (bits ls - bits rs)"
proof -
  have "cut_inv 0 ls rs" using assms by (simp add: cut_inv_def valid_loose)
  then have "mergeable (combine_ranges Cut 0 ls rs) \<and>
        bits (combine_ranges Cut 0 ls rs) = cut_spec 0 (bits ls) (bits rs)"
    by (rule combine_ranges_by_step [where I = cut_inv and C = Cut
          and S = "\<lambda>off ls rs. cut_spec off (bits ls) (bits rs)", rotated 2])
       (rule cut_step, assumption+, rule cut_stop, assumption)
  moreover have "default_state Cut = 0" by (simp add: Cut_def)
  ultimately show "valid_ranges (Combine Cut ls rs)"
    and "bits (Combine Cut ls rs) = (\<lambda>p. p - rank (bits rs) p) ` (bits ls - bits rs)"
    by (auto simp: Combine_def valid_merge_ranges bits_merge_ranges cut_spec_def)
qed

text \<open>The states a run of \<open>Cut\<close> goes through, from the start on.\<close>

inductive cut_reach :: "range list \<Rightarrow> range list \<Rightarrow> nat \<Rightarrow> range list \<Rightarrow> range list \<Rightarrow> bool"
  for ls0 rs0 where
  start: "cut_reach ls0 rs0 (default_state Cut) ls0 rs0"
| step: "cut_reach ls0 rs0 off ls rs \<Longrightarrow> next_range Cut off ls rs = (Some out, off', ls', rs') \<Longrightarrow>
     cut_reach ls0 rs0 off' ls' rs'"

lemma cut_reach_inv:
  assumes "cut_reach ls0 rs0 off ls rs" "valid_ranges ls0" "valid_ranges rs0"
  shows "cut_inv off ls rs"
  using assms
proof (induction rule: cut_reach.induct)
  case start
  then show ?case by (simp add: cut_inv_def Cut_def valid_loose)
next
  case (step off ls rs out off' ls' rs')
  then show ?case using cut_step by blast
qed

lemma pointwise_ops:
  "pointwise (\<lambda>a b. a \<or> b) A B = A \<union> B" "pointwise (\<lambda>a b. a \<and> b) A B = A \<inter> B"
  "pointwise (\<lambda>a b. a \<and> \<not> b) A B = A - B" "pointwise (\<lambda>a b. a \<noteq> b) A B = (A - B) \<union> (B - A)"
  by auto

lemmas Combine_valid [simp] =
  union_c.Combine_correct(1) inter_c.Combine_correct(1) diff_c.Combine_correct(1)
  symdiff_c.Combine_correct(1) Combine_Cut_correct(1)

lemmas Combine_bits [simp] =
  union_c.Combine_correct(2) [unfolded pointwise_ops]
  inter_c.Combine_correct(2) [unfolded pointwise_ops]
  diff_c.Combine_correct(2) [unfolded pointwise_ops]
  symdiff_c.Combine_correct(2) [unfolded pointwise_ops]
  Combine_Cut_correct(2)

section \<open>Properties\<close>

text \<open>C1. On range lists that satisfy the requirements of \<open>RangeIterator\<close>, the iterators \<open>union\<close>,
  \<open>intersection\<close>, \<open>difference\<close> and \<open>symmetric_difference\<close> yield range lists that satisfy
  them again (non-empty, in order, with a gap between neighbours) and that stand for the union, the
  intersection, the difference and the symmetric difference of the two sets of bits.\<close>

theorem range_combinators_correct:
  assumes "valid_ranges ls" "valid_ranges rs"
  shows "valid_ranges (Combine Union ls rs) \<and> bits (Combine Union ls rs) = bits ls \<union> bits rs \<and>
    valid_ranges (Combine Intersection ls rs) \<and> bits (Combine Intersection ls rs) = bits ls \<inter> bits rs \<and>
    valid_ranges (Combine Difference ls rs) \<and> bits (Combine Difference ls rs) = bits ls - bits rs \<and>
    valid_ranges (Combine SymmetricDifference ls rs) \<and>
       bits (Combine SymmetricDifference ls rs) = (bits ls - bits rs) \<union> (bits rs - bits ls)"
  using assms by simp

theorem range_combinators_correct_witness:
  "valid_ranges [Range 0 4, Range 6 9] \<and> valid_ranges [Range 2 7] \<and>
   bits (Combine SymmetricDifference [Range 0 4, Range 6 9] [Range 2 7]) = {0, 1, 4, 5, 7, 8}"
proof -
  have "valid_ranges [Range 0 4, Range 6 9]" "valid_ranges [Range 2 7]" by simp_all
  note r = range_combinators_correct [OF this, THEN conjunct2, THEN conjunct2, THEN conjunct2,
      THEN conjunct2, THEN conjunct2, THEN conjunct2, THEN conjunct2]
  have "bits [Range 0 4, Range 6 9] = {0, 1, 2, 3, 6, 7, 8}" "bits [Range 2 7] = {2, 3, 4, 5, 6}" by auto
  then show ?thesis unfolding r by auto
qed

text \<open>C2. \<open>cut\<close> removes the bits of the second range list from the first one and moves every
  remaining bit down by the number of removed positions below it; the result satisfies the
  requirements of \<open>RangeIterator\<close>. In every state the iterator goes through, the number of positions
  cut so far is at most the start of every range it is subtracted from, so the unsigned
  subtractions of \<open>Cut::offset\<close> do not wrap.\<close>

theorem cut_correct:
  assumes "valid_ranges ls" "valid_ranges rs"
  shows "valid_ranges (Combine Cut ls rs) \<and>
      bits (Combine Cut ls rs) = (\<lambda>p. p - card {q \<in> bits rs. q < p}) ` (bits ls - bits rs) \<and>
      (\<forall>off ls' rs'. cut_reach ls rs off ls' rs' \<longrightarrow> (\<forall>r\<in>set ls' \<union> set rs'. off \<le> rstart r))"
  using Combine_Cut_correct [OF assms] cut_reach_inv [OF _ assms]
  by (auto simp: cut_inv_def rank_def)

theorem cut_correct_witness:
  "valid_ranges [Range 1 10] \<and> valid_ranges [Range 2 5, Range 7 8] \<and>
   valid_ranges (Combine Cut [Range 1 10] [Range 2 5, Range 7 8]) \<and>
   Combine Cut [Range 1 10] [Range 2 5, Range 7 8] = [Range 1 6]"
proof -
  have v: "valid_ranges [Range 1 10]" "valid_ranges [Range 2 5, Range 7 8]" by simp_all
  have "Combine Cut [Range 1 10] [Range 2 5, Range 7 8] = [Range 1 6]" by code_simp
  with cut_correct [OF v] v show ?thesis by simp
qed

end
