(* ===== verification/Bitfield.thy ===== *)
theory Bitfield
  imports Ranges
begin

text \<open>
  The bit field of \<open>src/utils/bitfield/src/lib.rs\<close>: ranges of ones with two buffers of single
  bits that have been set and unset since. \<open>bf_bits\<close> is the set of indices a bit field stands
  for, \<open>bf_inv\<close> its invariant. The locale \<open>index_set\<close> is the interface its clients (the miner,
  market and power actors) use; it is interpreted on the operations below. The JSON form of a bit
  field closes the theory. Indices are natural numbers: a bit field over \<open>usize\<close> holds bits below
  \<open>usize::MAX\<close>, and \<open>bf_ranges_bounded\<close> shows that no end of a range then exceeds the type.
\<close>

section \<open>The bit field\<close>

record bitfield =
  bf_ranges :: "range list"
  bf_set :: "nat set"
  bf_unset :: "nat set"

definition BitField_new :: bitfield where
  "BitField_new = \<lparr>bf_ranges = [], bf_set = {}, bf_unset = {}\<rparr>"

definition from_ranges :: "range list \<Rightarrow> bitfield" where
  "from_ranges rs = \<lparr>bf_ranges = rs, bf_set = {}, bf_unset = {}\<rparr>"

definition BitField_set :: "bitfield \<Rightarrow> nat \<Rightarrow> bitfield" where
  "BitField_set bf b = bf\<lparr>bf_unset := bf_unset bf - {b}, bf_set := insert b (bf_set bf)\<rparr>"

definition BitField_unset :: "bitfield \<Rightarrow> nat \<Rightarrow> bitfield" where
  "BitField_unset bf b = bf\<lparr>bf_set := bf_set bf - {b}, bf_unset := insert b (bf_unset bf)\<rparr>"

text \<open>\<open>slice::binary_search_by\<close> of the standard library, on the window from \<open>left\<close> to \<open>right\<close>.\<close>

datatype ordering = Less | Equal | Greater

function binary_search_by :: "('a \<Rightarrow> ordering) \<Rightarrow> 'a list \<Rightarrow> nat \<Rightarrow> nat \<Rightarrow> (nat, nat) res" where
  "binary_search_by cmp xs left right =
     (if left < right
      then let mid = left + (right - left) div 2
           in case cmp (xs ! mid) of
                Less \<Rightarrow> binary_search_by cmp xs (mid + 1) right
              | Greater \<Rightarrow> binary_search_by cmp xs left mid
              | Equal \<Rightarrow> Inr mid
      else Inl left)"
  by pat_completeness auto
termination
  by (relation "measure (\<lambda>(cmp, xs, left, right). right - left)") auto

declare binary_search_by.simps [simp del]

definition range_cmp :: "nat \<Rightarrow> range \<Rightarrow> ordering" where
  "range_cmp index r =
     (if index < rstart r then Greater else if index \<ge> rend r then Less else Equal)"

definition BitField_get :: "bitfield \<Rightarrow> nat \<Rightarrow> bool" where
  "BitField_get bf index =
     (if index \<in> bf_set bf then True
      else if index \<in> bf_unset bf then False
      else (case binary_search_by (range_cmp index) (bf_ranges bf) 0 (length (bf_ranges bf)) of
              Inr _ \<Rightarrow> True | Inl _ \<Rightarrow> False))"

definition inner_ranges :: "bitfield \<Rightarrow> range list" where
  "inner_ranges bf = bf_ranges bf"

text \<open>The closure of \<open>ranges\<close>: the elements of a hash set, sorted, as ranges.\<close>

definition ranges_of_set :: "nat set \<Rightarrow> range list" where
  "ranges_of_set S = ranges_from_bits (sorted_list_of_set S)"

definition BitField_ranges :: "bitfield \<Rightarrow> range list" where
  "BitField_ranges bf =
     Combine Difference (Combine Union (inner_ranges bf) (ranges_of_set (bf_set bf)))
       (ranges_of_set (bf_unset bf))"

definition BitField_iter :: "bitfield \<Rightarrow> nat list" where
  "BitField_iter bf =
     filter (\<lambda>i. i \<notin> bf_unset bf)
       (flatten (Combine Union (inner_ranges bf) (ranges_of_set (bf_set bf))))"

definition BitField_first :: "bitfield \<Rightarrow> nat option" where
  "BitField_first bf =
     (let min_range = (if bf_set bf = {} then []
                       else [Range (Min (bf_set bf)) (Min (bf_set bf) + 1)])
      in List.find (\<lambda>i. i \<notin> bf_unset bf) (flatten (Combine Union (inner_ranges bf) min_range)))"

definition BitField_last :: "bitfield \<Rightarrow> (string, nat) res" where
  "BitField_last bf =
     (let rs = BitField_ranges bf
      in if rs = [] then Inl ''no last bit set'' else Inr (rend (last rs) - 1))"

definition BitField_len :: "bitfield \<Rightarrow> nat" where
  "BitField_len bf = sum_list (map range_len (BitField_ranges bf))"

definition bounded_iter :: "bitfield \<Rightarrow> nat \<Rightarrow> (string, nat list) res" where
  "bounded_iter bf limit =
     (if BitField_len bf \<le> limit then Inr (BitField_iter bf)
      else Inl ''Bits set exceeds max in retrieval'')"

definition BitField_is_empty :: "bitfield \<Rightarrow> bool" where
  "BitField_is_empty bf \<longleftrightarrow>
     bf_set bf = {} \<and> list_all (\<lambda>b. b \<in> bf_unset bf) (flatten (inner_ranges bf))"

definition BitField_slice :: "bitfield \<Rightarrow> nat \<Rightarrow> nat \<Rightarrow> (string, bitfield) res" where
  "BitField_slice bf start len =
     (let slice = from_ranges (take_bits (skip_bits (BitField_ranges bf) start) len)
      in if BitField_len slice = len then Inr slice else Inl ''Not enough bits'')"

definition BitField_cut :: "bitfield \<Rightarrow> bitfield \<Rightarrow> bitfield" where
  "BitField_cut bf other = from_ranges (Combine Cut (BitField_ranges bf) (BitField_ranges other))"

definition bitor :: "bitfield \<Rightarrow> bitfield \<Rightarrow> bitfield" where
  "bitor bf rhs = from_ranges (Combine Union (BitField_ranges bf) (BitField_ranges rhs))"

definition bitand :: "bitfield \<Rightarrow> bitfield \<Rightarrow> bitfield" where
  "bitand bf rhs = from_ranges (Combine Intersection (BitField_ranges bf) (BitField_ranges rhs))"

definition BitField_sub :: "bitfield \<Rightarrow> bitfield \<Rightarrow> bitfield" where
  "BitField_sub bf rhs = from_ranges (Combine Difference (BitField_ranges bf) (BitField_ranges rhs))"

definition bitxor :: "bitfield \<Rightarrow> bitfield \<Rightarrow> bitfield" where
  "bitxor bf rhs =
     from_ranges (Combine SymmetricDifference (BitField_ranges bf) (BitField_ranges rhs))"

definition BitField_union :: "bitfield list \<Rightarrow> bitfield" where
  "BitField_union bfs = foldl bitor BitField_new bfs"

definition contains_any :: "bitfield \<Rightarrow> bitfield \<Rightarrow> bool" where
  "contains_any bf other \<longleftrightarrow> Combine Intersection (BitField_ranges bf) (BitField_ranges other) \<noteq> []"

definition contains_all :: "bitfield \<Rightarrow> bitfield \<Rightarrow> bool" where
  "contains_all bf other \<longleftrightarrow> Combine Difference (BitField_ranges other) (BitField_ranges bf) = []"

definition BitField_eq :: "bitfield \<Rightarrow> bitfield \<Rightarrow> bool" where
  "BitField_eq bf other \<longleftrightarrow> BitField_ranges bf = BitField_ranges other"

text \<open>The two \<open>FromIterator\<close> instances: from indices in any order, and from a list of booleans.\<close>

definition from_iter_usize :: "nat list \<Rightarrow> bitfield" where
  "from_iter_usize bs = from_ranges (ranges_from_bits (sort bs))"

definition from_iter_bool :: "bool list \<Rightarrow> bitfield" where
  "from_iter_bool bs =
     from_ranges (ranges_from_bits (map fst (filter snd (zip [0..<length bs] bs))))"

section \<open>JSON form\<close>

text \<open>
  \<open>json::serialize\<close> emits the alternating lengths of the runs of zeros and ones, each cast to
  \<open>u8\<close>; \<open>json::deserialize\<close> reads them back.
\<close>

fun json_runs :: "nat \<Rightarrow> range list \<Rightarrow> nat list" where
  "json_runs last_index [] = []"
| "json_runs last_index (r # rs) =
     (rstart r - last_index) mod 256 # (rend r - rstart r) mod 256 # json_runs (rend r) rs"

definition json_serialize :: "bitfield \<Rightarrow> nat list" where
  "json_serialize m =
     (if \<not> BitField_is_empty m then json_runs 0 (BitField_ranges m) else [0])"

fun json_fold :: "bool \<Rightarrow> nat \<Rightarrow> nat list \<Rightarrow> range list" where
  "json_fold should_set last_index [] = []"
| "json_fold should_set last_index (index # rest) =
     (let ending_index = index + last_index
      in (if should_set then [Range last_index ending_index] else []) @
         json_fold (\<not> should_set) ending_index rest)"

definition json_deserialize :: "nat list \<Rightarrow> bitfield" where
  "json_deserialize bytes = from_ranges (json_fold False 0 bytes)"

section \<open>Invariant and abstraction\<close>

definition bf_inv :: "bitfield \<Rightarrow> bool" where
  "bf_inv bf \<longleftrightarrow> valid_ranges (bf_ranges bf) \<and> finite (bf_set bf) \<and> finite (bf_unset bf) \<and>
     bf_set bf \<inter> bf_unset bf = {}"

definition bf_bits :: "bitfield \<Rightarrow> nat set" where
  "bf_bits bf = bits (bf_ranges bf) \<union> bf_set bf - bf_unset bf"

lemma ranges_of_set_correct [simp]:
  "finite S \<Longrightarrow> valid_ranges (ranges_of_set S)" "finite S \<Longrightarrow> bits (ranges_of_set S) = S"
  using ranges_from_bits_correct [of "sorted_list_of_set S"] by (simp_all add: ranges_of_set_def)

lemma valid_BitField_ranges [simp]: "bf_inv bf \<Longrightarrow> valid_ranges (BitField_ranges bf)"
  by (simp add: BitField_ranges_def inner_ranges_def bf_inv_def)

lemma bits_BitField_ranges [simp]: "bf_inv bf \<Longrightarrow> bits (BitField_ranges bf) = bf_bits bf"
  by (simp add: BitField_ranges_def inner_ranges_def bf_inv_def bf_bits_def)

lemma finite_bf_bits [simp]: "bf_inv bf \<Longrightarrow> finite (bf_bits bf)"
  by (simp add: bf_inv_def bf_bits_def)

lemma from_ranges_correct [simp]:
  "valid_ranges rs \<Longrightarrow> bf_inv (from_ranges rs)" "bf_bits (from_ranges rs) = bits rs"
  by (simp_all add: from_ranges_def bf_inv_def bf_bits_def)

lemma BitField_new_correct [simp]: "bf_inv BitField_new" "bf_bits BitField_new = {}"
  by (simp_all add: BitField_new_def bf_inv_def bf_bits_def)

lemma BitField_set_correct [simp]:
  "bf_inv bf \<Longrightarrow> bf_inv (BitField_set bf b)" "bf_bits (BitField_set bf b) = insert b (bf_bits bf)"
  by (auto simp: BitField_set_def bf_inv_def bf_bits_def)

lemma BitField_unset_correct [simp]:
  "bf_inv bf \<Longrightarrow> bf_inv (BitField_unset bf b)" "bf_bits (BitField_unset bf b) = bf_bits bf - {b}"
  by (auto simp: BitField_unset_def bf_inv_def bf_bits_def)

lemma bit_ops_correct [simp]:
  assumes "bf_inv a" "bf_inv b"
  shows "bf_inv (bitor a b)" "bf_bits (bitor a b) = bf_bits a \<union> bf_bits b"
    "bf_inv (bitand a b)" "bf_bits (bitand a b) = bf_bits a \<inter> bf_bits b"
    "bf_inv (BitField_sub a b)" "bf_bits (BitField_sub a b) = bf_bits a - bf_bits b"
    "bf_inv (bitxor a b)" "bf_bits (bitxor a b) = (bf_bits a - bf_bits b) \<union> (bf_bits b - bf_bits a)"
    "bf_inv (BitField_cut a b)"
    "bf_bits (BitField_cut a b) = (\<lambda>p. p - rank (bf_bits b) p) ` (bf_bits a - bf_bits b)"
  using assms
  by (simp_all add: bitor_def bitand_def BitField_sub_def bitxor_def BitField_cut_def)

lemma foldl_bitor:
  "bf_inv a \<Longrightarrow> list_all bf_inv bfs \<Longrightarrow>
     bf_inv (foldl bitor a bfs) \<and> bf_bits (foldl bitor a bfs) = bf_bits a \<union> (\<Union>b\<in>set bfs. bf_bits b)"
  by (induction bfs arbitrary: a) auto

lemma BitField_union_correct:
  "list_all bf_inv bfs \<Longrightarrow> bf_inv (BitField_union bfs) \<and> bf_bits (BitField_union bfs) = (\<Union>b\<in>set bfs. bf_bits b)"
  by (simp add: BitField_union_def foldl_bitor)

lemma contains_any_iff: "bf_inv a \<Longrightarrow> bf_inv b \<Longrightarrow> contains_any a b \<longleftrightarrow> bf_bits a \<inter> bf_bits b \<noteq> {}"
  by (simp add: contains_any_def flip: bits_eq_Nil)

lemma contains_all_iff: "bf_inv a \<Longrightarrow> bf_inv b \<Longrightarrow> contains_all a b \<longleftrightarrow> bf_bits b \<subseteq> bf_bits a"
  by (simp add: contains_all_def flip: bits_eq_Nil)

lemma BitField_eq_iff: "bf_inv a \<Longrightarrow> bf_inv b \<Longrightarrow> BitField_eq a b \<longleftrightarrow> bf_bits a = bf_bits b"
  unfolding BitField_eq_def using valid_ranges_unique by (metis bits_BitField_ranges valid_BitField_ranges)

lemma BitField_len_card: "bf_inv bf \<Longrightarrow> BitField_len bf = card (bf_bits bf)"
  by (simp add: BitField_len_def flip: card_bits)

lemma BitField_iter_sorted: "bf_inv bf \<Longrightarrow> BitField_iter bf = sorted_list_of_set (bf_bits bf)"
proof -
  assume inv: "bf_inv bf"
  let ?rs = "Combine Union (inner_ranges bf) (ranges_of_set (bf_set bf))"
  from inv have v: "valid_ranges ?rs" and b: "bits ?rs = bits (bf_ranges bf) \<union> bf_set bf"
    by (simp_all add: inner_ranges_def bf_inv_def)
  have "sorted_wrt (<) (BitField_iter bf)"
    using strict_sorted_flatten [OF v] by (simp add: BitField_iter_def sorted_wrt_filter)
  moreover have "set (BitField_iter bf) = bf_bits bf"
    by (auto simp: BitField_iter_def b bf_bits_def)
  ultimately show ?thesis
    by (metis sorted_list_of_set.idem_if_sorted_distinct strict_sorted_iff)
qed

subsection \<open>Binary search\<close>

lemma valid_ranges_sorted_nth:
  "valid_ranges rs \<Longrightarrow> i < j \<Longrightarrow> j < length rs \<Longrightarrow> rend (rs ! i) < rstart (rs ! j)"
proof (induction rs arbitrary: i j)
  case (Cons r rs)
  then show ?case by (cases i; cases j) (auto simp: valid_ranges_Cons)
qed simp

lemma valid_ranges_nonempty: "valid_ranges rs \<Longrightarrow> i < length rs \<Longrightarrow> rstart (rs ! i) < rend (rs ! i)"
  using valid_mergeable [of rs] by (simp add: mergeable_def)

lemma binary_search_finds:
  assumes "valid_ranges rs" "right \<le> length rs"
    "\<forall>i<length rs. p \<in> range_bits (rs ! i) \<longrightarrow> left \<le> i \<and> i < right"
  shows "(\<exists>i. binary_search_by (range_cmp p) rs left right = Inr i) \<longleftrightarrow> p \<in> bits rs"
  using assms
proof (induction "range_cmp p" rs left right rule: binary_search_by.induct)
  case (1 rs left right)
  define mid where "mid = left + (right - left) div 2"
  show ?case
  proof (cases "left < right")
    case False
    with "1.prems" have "p \<notin> bits rs" by (fastforce simp: bits_def in_set_conv_nth)
    with False show ?thesis by (simp add: binary_search_by.simps [of "range_cmp p" rs left right])
  next
    case True
    then have mid: "left \<le> mid" "mid < right" "mid < length rs"
      using "1.prems"(2) by (auto simp: mid_def)
    note ne = valid_ranges_nonempty [OF "1.prems"(1) mid(3)]
    note eq = binary_search_by.simps [of "range_cmp p" rs left right, folded mid_def]
    show ?thesis
    proof (cases "range_cmp p (rs ! mid)")
      case Less
      then have le: "rend (rs ! mid) \<le> p" by (auto simp: range_cmp_def split: if_splits)
      have "mid + 1 \<le> i" if "i < length rs" "p \<in> range_bits (rs ! i)" for i
        using valid_ranges_sorted_nth [OF "1.prems"(1) _ mid(3), of i] that le ne
        by (cases i mid rule: linorder_cases) auto
      with "1.prems" True Less "1.hyps"(1) [OF True mid_def Less] show ?thesis by (simp add: eq Let_def)
    next
      case Greater
      then have gt: "p < rstart (rs ! mid)" by (auto simp: range_cmp_def split: if_splits)
      have "i < mid" if "i < length rs" "p \<in> range_bits (rs ! i)" for i
        using valid_ranges_sorted_nth [OF "1.prems"(1), of mid i] that gt ne
        by (cases i mid rule: linorder_cases) auto
      with "1.prems" True mid Greater "1.hyps"(2) [OF True mid_def Greater] show ?thesis
        by (simp add: eq Let_def)
    next
      case Equal
      then have "p \<in> range_bits (rs ! mid)" by (auto simp: range_cmp_def split: if_splits)
      with mid(3) have "p \<in> bits rs" by (auto simp: bits_def)
      with True Equal show ?thesis by (simp add: eq Let_def)
    qed
  qed
qed

lemma BitField_get_iff: "bf_inv bf \<Longrightarrow> BitField_get bf p \<longleftrightarrow> p \<in> bf_bits bf"
proof -
  assume inv: "bf_inv bf"
  then have "(\<exists>i. binary_search_by (range_cmp p) (bf_ranges bf) 0 (length (bf_ranges bf)) = Inr i) \<longleftrightarrow>
      p \<in> bits (bf_ranges bf)"
    by (intro binary_search_finds) (auto simp: bf_inv_def)
  with inv show ?thesis
    by (auto simp: BitField_get_def bf_bits_def bf_inv_def split: sum.splits)
qed

subsection \<open>First, last, emptiness and slices\<close>

lemma find_sorted_Min:
  assumes "sorted_wrt (<) (xs :: nat list)"
  shows "List.find P xs = (if {x \<in> set xs. P x} = {} then None else Some (Min {x \<in> set xs. P x}))"
  using assms
proof (induction xs)
  case (Cons x xs)
  show ?case
  proof (cases "P x")
    case True
    with Cons.prems have "Min {y \<in> set (x # xs). P y} = x"
      by (intro Min_eqI) (auto intro: less_imp_le)
    with True show ?thesis by auto
  next
    case False
    then have "{y \<in> set (x # xs). P y} = {y \<in> set xs. P y}" by auto
    with False Cons show ?thesis by simp
  qed
qed simp

lemma Min_eq_if_dominates:
  assumes "finite A" "C \<subseteq> A" "C \<noteq> {}" "\<And>x. x \<in> A \<Longrightarrow> \<exists>y\<in>C. y \<le> x"
  shows "Min C = Min (A :: nat set)"
proof -
  have fin: "finite C" using assms(1,2) finite_subset by blast
  have "Min C \<le> x" if "x \<in> A" for x
    using assms(4) [OF that] fin by (meson Min_le order_trans)
  moreover have "Min C \<in> A" using Min_in [OF fin assms(3)] assms(2) by blast
  ultimately show ?thesis using assms(1) by (metis Min_eqI)
qed

lemma BitField_first_Min:
  assumes "bf_inv bf"
  shows "BitField_first bf = (if bf_bits bf = {} then None else Some (Min (bf_bits bf)))"
proof -
  define mr where "mr = (if bf_set bf = {} then [] else [Range (Min (bf_set bf)) (Min (bf_set bf) + 1)])"
  let ?rs = "Combine Union (inner_ranges bf) mr"
  let ?C = "{x \<in> set (flatten ?rs). x \<notin> bf_unset bf}"
  have fin: "finite (bf_set bf)" and dis: "bf_set bf \<inter> bf_unset bf = {}"
    using assms by (auto simp: bf_inv_def)
  have m: "Min (bf_set bf) \<in> bf_set bf" "Min (bf_set bf) \<notin> bf_unset bf" if "bf_set bf \<noteq> {}"
    using Min_in [OF fin that] dis by blast+
  have mr: "valid_ranges mr" "bits mr = (if bf_set bf = {} then {} else {Min (bf_set bf)})"
    by (auto simp: mr_def)
  then have v: "valid_ranges ?rs" "bits ?rs = bits (bf_ranges bf) \<union> bits mr"
    using assms by (simp_all add: inner_ranges_def bf_inv_def)
  have C: "?C = (bits (bf_ranges bf) - bf_unset bf) \<union> bits mr"
    using mr(2) m by (auto simp: v split: if_splits)
  have sub: "?C \<subseteq> bf_bits bf"
    unfolding C using mr(2) m by (auto simp: bf_bits_def split: if_splits)
  have dom: "\<exists>y\<in>?C. y \<le> x" if "x \<in> bf_bits bf" for x
    unfolding C using that mr(2) fin Min_le [of "bf_set bf" x] by (auto simp: bf_bits_def)
  have "BitField_first bf = (if ?C = {} then None else Some (Min ?C))"
    unfolding BitField_first_def Let_def mr_def [symmetric]
    by (rule find_sorted_Min [OF strict_sorted_flatten [OF v(1)]])
  moreover have "?C = {} \<longleftrightarrow> bf_bits bf = {}" using sub dom by blast
  moreover have "Min ?C = Min (bf_bits bf)" if "?C \<noteq> {}"
    using Min_eq_if_dominates [OF finite_bf_bits [OF assms] sub that dom] .
  ultimately show ?thesis by simp
qed

lemma Max_bits: "valid_ranges rs \<Longrightarrow> rs \<noteq> [] \<Longrightarrow> Max (bits rs) = rend (last rs) - 1"
proof (rule Max_eqI)
  assume v: "valid_ranges rs" "rs \<noteq> []"
  let ?n = "length rs - 1"
  have n: "?n < length rs" "last rs = rs ! ?n" using v(2) by (auto simp: last_conv_nth)
  note ne = valid_ranges_nonempty [OF v(1) n(1)]
  show "rend (last rs) - 1 \<in> bits rs"
    using n ne by (auto simp: bits_def intro!: bexI [of _ "rs ! ?n"])
  fix p assume "p \<in> bits rs"
  then obtain i where i: "i < length rs" "p \<in> range_bits (rs ! i)"
    by (auto simp: bits_def in_set_conv_nth)
  have "rend (rs ! i) < rstart (rs ! ?n)" if "i \<noteq> ?n"
    by (rule valid_ranges_sorted_nth [OF v(1)]) (use i(1) that in linarith)+
  with i ne have "p < rend (rs ! ?n)" by (cases "i = ?n") auto
  with n show "p \<le> rend (last rs) - 1" by simp
qed simp

lemma BitField_last_Max:
  assumes "bf_inv bf"
  shows "BitField_last bf = (if bf_bits bf = {} then Inl ''no last bit set'' else Inr (Max (bf_bits bf)))"
  using bits_eq_Nil [OF valid_BitField_ranges [OF assms]] Max_bits [OF valid_BitField_ranges [OF assms]] assms
  by (auto simp: BitField_last_def Let_def)

lemma BitField_is_empty_iff: "bf_inv bf \<Longrightarrow> BitField_is_empty bf \<longleftrightarrow> bf_bits bf = {}"
  by (auto simp: BitField_is_empty_def bf_bits_def list_all_iff inner_ranges_def bf_inv_def)

lemma BitField_slice_correct:
  fixes start len :: nat
  assumes "bf_inv bf"
  defines "s \<equiv> from_ranges (take_bits (skip_bits (BitField_ranges bf) start) len)"
  shows "BitField_slice bf start len =
      (if len = 0 \<or> start + len \<le> card (bf_bits bf) then Inr s else Inl ''Not enough bits'')"
    and "bf_inv s"
    and "bf_bits s = set (take len (drop start (sorted_list_of_set (bf_bits bf))))"
proof -
  let ?rs = "take_bits (skip_bits (BitField_ranges bf) start) len"
  have v: "valid_ranges ?rs" using assms by (simp add: valid_take_bits valid_skip_bits)
  then show inv: "bf_inv s" by (simp add: s_def)
  have fl: "flatten ?rs = take len (drop start (sorted_list_of_set (bf_bits bf)))"
    using assms by (simp add: flatten_take_bits flatten_skip_bits flatten_eq_sorted_list)
  then show "bf_bits s = set (take len (drop start (sorted_list_of_set (bf_bits bf))))"
    by (metis from_ranges_correct(2) s_def set_flatten)
  have "BitField_len s = length (flatten ?rs)"
    using BitField_len_card [OF inv] v by (simp add: s_def card_bits length_flatten)
  also have "\<dots> = min len (card (bf_bits bf) - start)" by (simp add: fl)
  finally show "BitField_slice bf start len =
      (if len = 0 \<or> start + len \<le> card (bf_bits bf) then Inr s else Inl ''Not enough bits'')"
    by (auto simp: BitField_slice_def Let_def s_def [symmetric])
qed

lemma from_iter_bool_correct:
  "bf_inv (from_iter_bool bs)" "bf_bits (from_iter_bool bs) = {i. i < length bs \<and> bs ! i}"
proof -
  let ?is = "map fst (filter snd (zip [0..<length bs] bs))"
  have "sorted_wrt (\<lambda>x y. fst x < fst y) (zip [0..<length bs] bs)"
    by (simp add: sorted_wrt_iff_nth_less)
  then have "sorted_wrt (<) ?is"
    by (simp add: sorted_wrt_map sorted_wrt_filter)
  moreover have "set ?is = {i. i < length bs \<and> bs ! i}"
    by (force simp: set_zip)
  ultimately show "bf_inv (from_iter_bool bs)" "bf_bits (from_iter_bool bs) = {i. i < length bs \<and> bs ! i}"
    using ranges_from_bits_correct [of ?is] by (simp_all add: from_iter_bool_def)
qed

lemma from_iter_usize_correct:
  assumes "distinct bs"
  shows "bf_inv (from_iter_usize bs)" "bf_bits (from_iter_usize bs) = set bs"
  using ranges_from_bits_correct [of "sort bs"] assms
  by (simp_all add: from_iter_usize_def strict_sorted_iff)

subsection \<open>Bounds\<close>

text \<open>The ends the operations compute are at most one above a bit they are given.\<close>

lemma valid_ranges_rend: "valid_ranges rs \<Longrightarrow> r \<in> set rs \<Longrightarrow> rend r - 1 \<in> bits rs \<and> 0 < rend r"
proof -
  assume v: "valid_ranges rs" "r \<in> set rs"
  then have "rstart r < rend r" using valid_mergeable [of rs] by (simp add: mergeable_def)
  with v(2) show ?thesis by (auto simp: bits_def intro!: bexI [of _ r])
qed

lemma bf_ranges_bounded:
  assumes "bf_inv bf" "\<forall>p\<in>bf_bits bf. p < USIZE_MAX" "r \<in> set (BitField_ranges bf)"
  shows "rend r \<le> USIZE_MAX"
  using valid_ranges_rend [OF valid_BitField_ranges [OF assms(1)] assms(3)] assms(1,2)
  by (metis Suc_leI Suc_pred' bits_BitField_ranges)

subsection \<open>JSON\<close>

text \<open>Every run of zeros and of ones, counted from \<open>from\<close>, fits into a byte.\<close>

fun short_runs :: "nat \<Rightarrow> range list \<Rightarrow> bool" where
  "short_runs from [] = True"
| "short_runs from (r # rs) =
     (rstart r - from < 256 \<and> rend r - rstart r < 256 \<and> short_runs (rend r) rs)"

lemma BitField_ranges_below:
  assumes "bf_inv bf" "\<forall>p\<in>bf_bits bf. p + 1 < B"
  shows "\<forall>r\<in>set (BitField_ranges bf). rend r < B"
  using valid_ranges_rend [OF valid_BitField_ranges [OF assms(1)]] assms
  by (metis Suc_eq_plus1 Suc_pred' bits_BitField_ranges)

lemma json_fold_runs:
  "valid_ranges rs \<Longrightarrow> \<forall>r\<in>set rs. from \<le> rstart r \<Longrightarrow> short_runs from rs \<Longrightarrow>
     json_fold False from (json_runs from rs) = rs"
proof (induction rs arbitrary: "from")
  case (Cons r rs)
  then have "json_fold False (rend r) (json_runs (rend r) rs) = rs"
    by (intro Cons.IH) (auto simp: valid_ranges_Cons intro: less_imp_le)
  with Cons.prems show ?case by (cases r) (auto simp: valid_ranges_Cons Let_def)
qed simp

lemma json_roundtrip:
  assumes "bf_inv bf" "short_runs 0 (BitField_ranges bf)"
  shows "bf_inv (json_deserialize (json_serialize bf)) \<and>
     bf_bits (json_deserialize (json_serialize bf)) = bf_bits bf"
proof (cases "BitField_is_empty bf")
  case True
  with assms show ?thesis
    by (auto simp: json_serialize_def json_deserialize_def BitField_is_empty_iff)
next
  case False
  with assms show ?thesis
    by (simp add: json_serialize_def json_deserialize_def json_fold_runs)
qed

section \<open>The interface of a bit field\<close>

text \<open>
  What the clients of a bit field rely on: an abstraction to a set of indices under which the
  operations are the set operations.
\<close>

locale index_set =
  fixes inv :: "'b \<Rightarrow> bool" and abs :: "'b \<Rightarrow> nat set" and empty :: 'b
    and set_bit :: "'b \<Rightarrow> nat \<Rightarrow> 'b" and unset_bit :: "'b \<Rightarrow> nat \<Rightarrow> 'b" and get :: "'b \<Rightarrow> nat \<Rightarrow> bool"
    and union :: "'b \<Rightarrow> 'b \<Rightarrow> 'b" and inter :: "'b \<Rightarrow> 'b \<Rightarrow> 'b" and diff :: "'b \<Rightarrow> 'b \<Rightarrow> 'b"
    and len :: "'b \<Rightarrow> nat" and all_of :: "'b \<Rightarrow> 'b \<Rightarrow> bool" and any_of :: "'b \<Rightarrow> 'b \<Rightarrow> bool"
  assumes empty_law: "inv empty" "abs empty = {}"
    and finite_law: "inv b \<Longrightarrow> finite (abs b)"
    and set_law: "inv b \<Longrightarrow> inv (set_bit b i)" "inv b \<Longrightarrow> abs (set_bit b i) = insert i (abs b)"
    and unset_law: "inv b \<Longrightarrow> inv (unset_bit b i)" "inv b \<Longrightarrow> abs (unset_bit b i) = abs b - {i}"
    and get_law: "inv b \<Longrightarrow> get b i \<longleftrightarrow> i \<in> abs b"
    and union_law: "inv a \<Longrightarrow> inv b \<Longrightarrow> inv (union a b)"
      "inv a \<Longrightarrow> inv b \<Longrightarrow> abs (union a b) = abs a \<union> abs b"
    and inter_law: "inv a \<Longrightarrow> inv b \<Longrightarrow> inv (inter a b)"
      "inv a \<Longrightarrow> inv b \<Longrightarrow> abs (inter a b) = abs a \<inter> abs b"
    and diff_law: "inv a \<Longrightarrow> inv b \<Longrightarrow> inv (diff a b)"
      "inv a \<Longrightarrow> inv b \<Longrightarrow> abs (diff a b) = abs a - abs b"
    and len_law: "inv b \<Longrightarrow> len b = card (abs b)"
    and all_law: "inv a \<Longrightarrow> inv b \<Longrightarrow> all_of a b \<longleftrightarrow> abs b \<subseteq> abs a"
    and any_law: "inv a \<Longrightarrow> inv b \<Longrightarrow> any_of a b \<longleftrightarrow> abs a \<inter> abs b \<noteq> {}"
begin

lemmas laws = empty_law finite_law set_law unset_law get_law union_law inter_law diff_law len_law
  all_law any_law

text \<open>Set and unset bits one after the other: the last operation on an index decides.\<close>

fun run :: "(nat \<times> bool) list \<Rightarrow> 'b \<Rightarrow> 'b" where
  "run [] b = b"
| "run ((i, v) # ops) b = run ops (if v then set_bit b i else unset_bit b i)"

lemma run_inv: "inv b \<Longrightarrow> inv (run ops b)"
  by (induction ops b rule: run.induct) (auto simp: laws)

lemma run_get:
  "inv b \<Longrightarrow> get (run ops b) i = (case map_of (rev ops) i of None \<Rightarrow> get b i | Some v \<Rightarrow> v)"
  by (induction ops b rule: run.induct) (auto simp: laws map_add_def split: option.splits)

lemma len_partition: "inv a \<Longrightarrow> inv b \<Longrightarrow> len (inter a b) + len (diff a b) = len a"
proof -
  assume inv: "inv a" "inv b"
  have "abs a = (abs a \<inter> abs b) \<union> (abs a - abs b)" by blast
  then have "card (abs a) = card (abs a \<inter> abs b) + card (abs a - abs b)"
    using inv by (metis Diff_disjoint Int_Diff card_Un_disjoint finite_Diff finite_Int finite_law inf_assoc inf_bot_right)
  with inv show ?thesis by (simp add: laws)
qed

lemma removed_not_contained: "inv a \<Longrightarrow> inv b \<Longrightarrow> \<not> any_of (diff a b) b"
  by (auto simp: laws)

lemma union_contains: "inv a \<Longrightarrow> inv b \<Longrightarrow> all_of (union a b) a \<and> all_of (union a b) b"
  by (auto simp: laws)

end

interpretation bf: index_set bf_inv bf_bits BitField_new BitField_set BitField_unset BitField_get
  bitor bitand BitField_sub BitField_len contains_all contains_any
  by unfold_locales
     (simp_all add: BitField_get_iff BitField_len_card contains_all_iff contains_any_iff)

section \<open>Properties\<close>

text \<open>C3. The operators of a bit field with pending \<open>set\<close> and \<open>unset\<close> changes are the operations
  on the sets of indices: \<open>|\<close>, \<open>&\<close>, \<open>-\<close> and \<open>^\<close> are union, intersection, difference and
  symmetric difference, \<open>cut\<close> removes and shifts, the containment tests decide overlap and
  inclusion, and \<open>==\<close> decides equality of the sets whatever changes are pending. Every result is
  a well-formed bit field.\<close>

theorem bitfield_operators_are_set_operations:
  assumes "bf_inv a" "bf_inv b"
  shows "bf_inv (bitor a b) \<and> bf_bits (bitor a b) = bf_bits a \<union> bf_bits b \<and>
    bf_inv (bitand a b) \<and> bf_bits (bitand a b) = bf_bits a \<inter> bf_bits b \<and>
    bf_inv (BitField_sub a b) \<and> bf_bits (BitField_sub a b) = bf_bits a - bf_bits b \<and>
    bf_inv (bitxor a b) \<and> bf_bits (bitxor a b) = (bf_bits a - bf_bits b) \<union> (bf_bits b - bf_bits a) \<and>
    bf_inv (BitField_cut a b) \<and>
    bf_bits (BitField_cut a b) = (\<lambda>p. p - rank (bf_bits b) p) ` (bf_bits a - bf_bits b) \<and>
    (contains_any a b \<longleftrightarrow> bf_bits a \<inter> bf_bits b \<noteq> {}) \<and> (contains_all a b \<longleftrightarrow> bf_bits b \<subseteq> bf_bits a) \<and>
    (BitField_eq a b \<longleftrightarrow> bf_bits a = bf_bits b)"
  using assms by (simp add: contains_any_iff contains_all_iff BitField_eq_iff)

theorem bitfield_operators_are_set_operations_witness:
  "bf_inv (BitField_unset (from_ranges [Range 0 3]) 1) \<and> bf_inv (BitField_set (from_ranges [Range 5 6]) 2) \<and>
   bf_bits (bitand (BitField_unset (from_ranges [Range 0 3]) 1) (BitField_set (from_ranges [Range 5 6]) 2)) = {2}"
proof -
  have inv: "bf_inv (BitField_unset (from_ranges [Range 0 3]) 1)"
    "bf_inv (BitField_set (from_ranges [Range 5 6]) 2)" by simp_all
  with bitfield_operators_are_set_operations [OF inv] show ?thesis by auto
qed

text \<open>C4. \<open>get\<close>, which looks at the pending changes and then does a binary search in the ranges,
  tells whether an index is in the set; it sees the effect of every \<open>set\<close> and \<open>unset\<close>, which
  leave the other indices alone, and both keep the bit field well-formed.\<close>

theorem bitfield_get_set_unset:
  assumes "bf_inv bf"
  shows "(BitField_get bf p \<longleftrightarrow> p \<in> bf_bits bf) \<and>
    bf_inv (BitField_set bf q) \<and> (BitField_get (BitField_set bf q) p \<longleftrightarrow> p = q \<or> BitField_get bf p) \<and>
    bf_inv (BitField_unset bf q) \<and> (BitField_get (BitField_unset bf q) p \<longleftrightarrow> p \<noteq> q \<and> BitField_get bf p)"
  using assms by (auto simp: BitField_get_iff)

theorem bitfield_get_set_unset_witness:
  "bf_inv (from_ranges [Range 1 4, Range 8 9, Range 11 20]) \<and>
   BitField_get (BitField_unset (from_ranges [Range 1 4, Range 8 9, Range 11 20]) 3) 12 \<and>
   \<not> BitField_get (BitField_unset (from_ranges [Range 1 4, Range 8 9, Range 11 20]) 3) 3"
proof -
  have inv: "bf_inv (from_ranges [Range 1 4, Range 8 9, Range 11 20])" by simp
  from bitfield_get_set_unset [OF this, of 12 3] bitfield_get_set_unset [OF this, of 3 3] inv
  show ?thesis by simp
qed

text \<open>C5. The queries of a bit field: \<open>iter\<close> yields the indices in ascending order, \<open>len\<close> counts
  them, \<open>first\<close> and \<open>last\<close> give the least and the greatest one and fail only on the empty bit
  field.  \<open>slice(start, len)\<close> gives the indices number \<open>start\<close> to \<open>start + len\<close>; it fails exactly when
  \<open>len\<close> is positive and there are fewer than \<open>start + len\<close> indices.  A slice of length zero never fails, also when
  fewer than \<open>start\<close> bits are set, although the comment of \<open>slice\<close> promises an error for fewer than \<open>start + len\<close> bits.\<close>

theorem bitfield_queries:
  assumes "bf_inv bf"
  shows "BitField_iter bf = sorted_list_of_set (bf_bits bf) \<and> BitField_len bf = card (bf_bits bf) \<and>
    BitField_first bf = (if bf_bits bf = {} then None else Some (Min (bf_bits bf))) \<and>
    BitField_last bf = (if bf_bits bf = {} then Inl ''no last bit set'' else Inr (Max (bf_bits bf))) \<and>
    (case BitField_slice bf start len of
       Inl _ \<Rightarrow> 0 < len \<and> card (bf_bits bf) < start + len
     | Inr s \<Rightarrow> (len = 0 \<or> start + len \<le> card (bf_bits bf)) \<and> bf_inv s \<and>
         bf_bits s = set (take len (drop start (sorted_list_of_set (bf_bits bf)))))"
  using assms BitField_slice_correct [OF assms, of start len]
  by (auto simp: BitField_iter_sorted BitField_len_card BitField_first_Min BitField_last_Max)

theorem bitfield_queries_witness:
  "bf_inv (BitField_set (from_ranges [Range 2 4]) 9) \<and>
   BitField_iter (BitField_set (from_ranges [Range 2 4]) 9) = [2, 3, 9] \<and>
   BitField_first (BitField_set (from_ranges [Range 2 4]) 9) = Some 2"
proof -
  have inv: "bf_inv (BitField_set (from_ranges [Range 2 4]) 9)" by simp
  have b: "bf_bits (BitField_set (from_ranges [Range 2 4]) 9) = {2, 3, 9}" by auto
  from bitfield_queries [OF inv, of 0 0, unfolded b] inv show ?thesis by simp
qed

text \<open>The JSON form of a bit field reads back as the same set of indices, provided that every run
  of zeros and every run of ones is shorter than 256; the serializer stores each run length in a
  byte.\<close>

theorem bitfield_json_roundtrip:
  assumes "bf_inv bf" "short_runs 0 (BitField_ranges bf)"
  shows "bf_inv (json_deserialize (json_serialize bf)) \<and>
     BitField_eq (json_deserialize (json_serialize bf)) bf"
  using json_roundtrip [OF assms] assms(1) by (simp add: BitField_eq_iff)

theorem bitfield_json_roundtrip_witness:
  "bf_inv (from_ranges [Range 2 4, Range 9 12]) \<and> short_runs 0 (BitField_ranges (from_ranges [Range 2 4, Range 9 12])) \<and>
   BitField_eq (json_deserialize (json_serialize (from_ranges [Range 2 4, Range 9 12]))) (from_ranges [Range 2 4, Range 9 12])"
proof -
  have inv: "bf_inv (from_ranges [Range 2 4, Range 9 12])" by simp
  have short: "short_runs 0 (BitField_ranges (from_ranges [Range 2 4, Range 9 12]))" by code_simp
  from bitfield_json_roundtrip [OF inv short] inv short show ?thesis by simp
qed

text \<open>A run of 256 ones is stored as a length of zero: the index set is lost.\<close>

lemma json_long_run_lost:
  "json_serialize (from_ranges [Range 0 256]) = [0, 0] \<and>
   \<not> BitField_get (json_deserialize (json_serialize (from_ranges [Range 0 256]))) 7"
  by code_simp

end
