(* ===== verification/Bitstream.thy ===== *)
theory Bitstream
  imports Bitfield
begin

text \<open>
  \<open>BitReader\<close> and \<open>BitWriter\<close> of \<open>src/utils/bitfield/src/rleplus\<close>, kept at their machine
  widths: a 16-bit window over the bytes. \<open>rd_stream\<close> abstracts a reader to the endless stream of
  the bits still to be read (zeros after the last byte), \<open>wr_list\<close> a writer to the list of bits
  written so far. Reading takes bits off the front of the stream, writing appends to the list, and
  the bytes of a finished writer stand for the bits written.
\<close>

unbundle bit_operations_syntax

section \<open>\<open>BitReader\<close>\<close>

record bit_reader =
  rd_bytes :: "8 word list"
  rd_next_byte :: "8 word"
  rd_bits :: "16 word"
  rd_num_bits :: nat

definition byte_at :: "8 word list \<Rightarrow> nat \<Rightarrow> 8 word" where
  "byte_at bytes i = (if i < length bytes then bytes ! i else 0)"

definition BitReader_new :: "8 word list \<Rightarrow> bit_reader" where
  "BitReader_new bytes =
     \<lparr>rd_bytes = (if length bytes > 2 then drop 2 bytes else []),
      rd_next_byte = byte_at bytes 1,
      rd_bits = ucast (byte_at bytes 0),
      rd_num_bits = 8\<rparr>"

text \<open>
  \<open>read\<close> takes at most 8 bits (its debug assertion); \<open>num_bits\<close> of the reader is then at least
  the number of bits taken.
\<close>

definition BitReader_read :: "nat \<Rightarrow> bit_reader \<Rightarrow> 8 word \<times> bit_reader" where
  "BitReader_read n r =
     (let mask = push_bit n 1 - 1;
          res = ucast (rd_bits r AND mask);
          bits1 = drop_bit n (rd_bits r);
          num1 = rd_num_bits r - n;
          bits2 = bits1 OR push_bit num1 (ucast (rd_next_byte r))
      in (res,
          if num1 < 8
          then \<lparr>rd_bytes = tl (rd_bytes r), rd_next_byte = byte_at (rd_bytes r) 0,
                rd_bits = bits2, rd_num_bits = num1 + 8\<rparr>
          else r\<lparr>rd_bits := bits2, rd_num_bits := num1\<rparr>))"

section \<open>\<open>BitWriter\<close>\<close>

record bit_writer =
  wr_bytes :: "8 word list"
  wr_bits :: "16 word"
  wr_num_bits :: nat

definition BitWriter_new :: bit_writer where
  "BitWriter_new = \<lparr>wr_bytes = [], wr_bits = 0, wr_num_bits = 0\<rparr>"

definition BitWriter_write :: "8 word \<Rightarrow> nat \<Rightarrow> bit_writer \<Rightarrow> bit_writer" where
  "BitWriter_write byte n w =
     (let bits1 = wr_bits w OR push_bit (wr_num_bits w) (ucast byte);
          num1 = wr_num_bits w + n
      in if num1 \<ge> 8
         then \<lparr>wr_bytes = wr_bytes w @ [ucast bits1], wr_bits = drop_bit 8 bits1, wr_num_bits = num1 - 8\<rparr>
         else w\<lparr>wr_bits := bits1, wr_num_bits := num1\<rparr>)"

fun pop_zeros :: "8 word list \<Rightarrow> 8 word list" where
  "pop_zeros [] = []"
| "pop_zeros (b # bs) = (if b = 0 then pop_zeros bs else b # bs)"

text \<open>\<open>finish\<close>: \<open>pop_zeros\<close> works on the reversed buffer, where the last byte is the head.\<close>

definition BitWriter_finish :: "bit_writer \<Rightarrow> 8 word list" where
  "BitWriter_finish w =
     rev (pop_zeros (rev (if wr_bits w > 0 then wr_bytes w @ [ucast (wr_bits w)] else wr_bytes w)))"

section \<open>The reader as a stream of bits\<close>

text \<open>The bits of a byte list, least significant first, followed by zeros without end.\<close>

definition bytes_bit :: "8 word list \<Rightarrow> nat \<Rightarrow> bool" where
  "bytes_bit bs i \<longleftrightarrow> i div 8 < length bs \<and> bit (bs ! (i div 8)) (i mod 8)"

definition rd_stream :: "bit_reader \<Rightarrow> nat \<Rightarrow> bool" where
  "rd_stream r i =
     (if i < rd_num_bits r then bit (rd_bits r) i
      else bytes_bit (rd_next_byte r # rd_bytes r) (i - rd_num_bits r))"

text \<open>
  \<open>bits\<close> always holds the next 8 to 15 bits; above them it may already hold bits of \<open>next_byte\<close>,
  in their places.
\<close>

definition rd_inv :: "bit_reader \<Rightarrow> bool" where
  "rd_inv r \<longleftrightarrow> 8 \<le> rd_num_bits r \<and> rd_num_bits r \<le> 15 \<and>
     (\<forall>i\<ge>rd_num_bits r. bit (rd_bits r) i \<longrightarrow>
        i - rd_num_bits r < 8 \<and> bit (rd_next_byte r) (i - rd_num_bits r))"

lemma bytes_bit_Nil [simp]: "\<not> bytes_bit [] i"
  by (simp add: bytes_bit_def)

lemma bytes_bit_Cons: "bytes_bit (b # bs) i = (if i < 8 then bit b i else bytes_bit bs (i - 8))"
  by (auto simp: bytes_bit_def nth_Cons' div_nat_eqI le_mod_geq le_div_geq)

lemma bytes_bit_first: "bytes_bit bs i = bytes_bit (byte_at bs 0 # tl bs) i"
  by (cases bs) (auto simp: byte_at_def bytes_bit_Cons)

lemma bit_word8_bound: "bit (b :: 8 word) i \<Longrightarrow> i < 8"
  by (metis bit_imp_le_length numeral_Bit0 len_bit0 len_num1 mult_2 mult.right_neutral) 

lemma BitReader_new_stream: "rd_stream (BitReader_new bytes) = bytes_bit bytes"
proof (rule ext)
  fix i
  consider "bytes = []" | a where "bytes = [a]" | a b bs where "bytes = a # b # bs"
    by (metis list.exhaust)
  then show "rd_stream (BitReader_new bytes) i = bytes_bit bytes i"
    by cases
       (auto simp: rd_stream_def BitReader_new_def byte_at_def bytes_bit_Cons bit_simps)
qed

lemma BitReader_new_inv: "rd_inv (BitReader_new bytes)"
  by (auto simp: rd_inv_def BitReader_new_def bit_simps dest: bit_word8_bound)

lemma bit_read_window:
  "bit (drop_bit n v OR push_bit m (ucast (b :: 8 word)) :: 16 word) i \<longleftrightarrow>
     bit v (i + n) \<or> m \<le> i \<and> i < 16 \<and> bit b (i - m)"
  by (auto simp: bit_simps add.commute)

lemma rd_inv_window:
  assumes "rd_inv r" "n \<le> 8" "bit (rd_bits r) (i + n)" "rd_num_bits r - n \<le> i"
  shows "i - (rd_num_bits r - n) < 8 \<and> bit (rd_next_byte r) (i - (rd_num_bits r - n))"
proof -
  have "i + n - rd_num_bits r = i - (rd_num_bits r - n)" "rd_num_bits r \<le> i + n"
    using assms by (auto simp: rd_inv_def)
  with assms(1,3) show ?thesis by (metis rd_inv_def)
qed

lemma BitReader_read_bit:
  assumes "rd_inv r" "n \<le> 8" "BitReader_read n r = (b, r')"
  shows "bit b i \<longleftrightarrow> i < n \<and> rd_stream r i"
proof -
  have "b = ucast (rd_bits r AND (mask n))"
    using assms(3) by (simp add: BitReader_read_def Let_def mask_eq_exp_minus_1)
  then show ?thesis
    using assms(1,2) by (auto simp: bit_simps rd_stream_def rd_inv_def)
qed

lemma BitReader_read_stream:
  assumes "rd_inv r" "n \<le> 8" "BitReader_read n r = (b, r')"
  shows "rd_stream r' i = rd_stream r (i + n)"
proof -
  define num1 where "num1 = rd_num_bits r - n"
  have num: "rd_num_bits r = num1 + n" using assms(1,2) by (simp add: rd_inv_def num1_def)
  have win: "bit (rd_bits r) (i + n) \<Longrightarrow> num1 \<le> i \<Longrightarrow> i - num1 < 8 \<and> bit (rd_next_byte r) (i - num1)"
    using rd_inv_window [OF assms(1,2), of i] by (simp add: num1_def)
  show ?thesis
  proof (cases "num1 < 8")
    case True
    with assms(3) have r': "rd_num_bits r' = num1 + 8" "rd_bytes r' = tl (rd_bytes r)"
      "rd_next_byte r' = byte_at (rd_bytes r) 0"
      "rd_bits r' = drop_bit n (rd_bits r) OR push_bit num1 (ucast (rd_next_byte r))"
      by (auto simp: BitReader_read_def Let_def num1_def)
    consider "i < num1" | "num1 \<le> i" "i < num1 + 8" | "num1 + 8 \<le> i" by linarith
    then show ?thesis
    proof cases
      case 3
      then have "\<not> i - num1 < 8" by simp
      with 3 show ?thesis
        by (simp add: rd_stream_def r' num bytes_bit_Cons [of "rd_next_byte r"] flip: bytes_bit_first)
    qed (use True win in \<open>auto simp: rd_stream_def r' num bit_read_window bytes_bit_Cons\<close>)
  next
    case False
    with assms(3) have r': "rd_num_bits r' = num1" "rd_bytes r' = rd_bytes r"
      "rd_next_byte r' = rd_next_byte r"
      "rd_bits r' = drop_bit n (rd_bits r) OR push_bit num1 (ucast (rd_next_byte r))"
      by (auto simp: BitReader_read_def Let_def num1_def)
    show ?thesis by (auto simp: rd_stream_def r' num bit_read_window)
  qed
qed

lemma BitReader_read_inv:
  assumes "rd_inv r" "n \<le> 8" "BitReader_read n r = (b, r')"
  shows "rd_inv r'"
proof -
  define num1 where "num1 = rd_num_bits r - n"
  have num: "rd_num_bits r = num1 + n" using assms(1,2) by (simp add: rd_inv_def num1_def)
  have win: "bit (rd_bits r) (i + n) \<Longrightarrow> num1 \<le> i \<Longrightarrow> i - num1 < 8 \<and> bit (rd_next_byte r) (i - num1)" for i
    using rd_inv_window [OF assms(1,2), of i] by (simp add: num1_def)
  have bits: "rd_bits r' = drop_bit n (rd_bits r) OR push_bit num1 (ucast (rd_next_byte r))"
    using assms(3) by (auto simp: BitReader_read_def Let_def num1_def)
  show ?thesis
  proof (cases "num1 < 8")
    case True
    with assms(3) have "rd_num_bits r' = num1 + 8"
      by (auto simp: BitReader_read_def Let_def num1_def)
    with True show ?thesis
      using win by (fastforce simp: rd_inv_def bits bit_read_window dest: bit_word8_bound)
  next
    case False
    with assms(3) have "rd_num_bits r' = num1" "rd_next_byte r' = rd_next_byte r"
      by (auto simp: BitReader_read_def Let_def num1_def)
    with False show ?thesis
      using win assms(1,2)
      by (auto simp: rd_inv_def bits bit_read_window num1_def dest: bit_word8_bound)
  qed
qed

text \<open>A stream that starts with the bits \<open>l\<close> and goes on with \<open>t\<close>.\<close>

definition prepend :: "bool list \<Rightarrow> (nat \<Rightarrow> bool) \<Rightarrow> nat \<Rightarrow> bool" where
  "prepend l t i = (if i < length l then l ! i else t (i - length l))"

lemma prepend_Nil [simp]: "prepend [] t = t"
  by (simp add: prepend_def fun_eq_iff)

lemma prepend_append: "prepend (l @ m) t = prepend l (prepend m t)"
  by (auto simp: prepend_def fun_eq_iff nth_append)

definition low_bits :: "nat \<Rightarrow> 8 word \<Rightarrow> bool list" where
  "low_bits n b = map (bit b) [0..<n]"

lemma length_low_bits [simp]: "length (low_bits n b) = n"
  by (simp add: low_bits_def)

lemma read_prepend:
  assumes "rd_inv r" "n \<le> 8" "rd_stream r = prepend (low_bits n b) t" "\<forall>i\<ge>n. \<not> bit b i"
  shows "\<exists>r'. BitReader_read n r = (b, r') \<and> rd_inv r' \<and> rd_stream r' = t"
proof -
  obtain b' r' where rd: "BitReader_read n r = (b', r')" by fastforce
  note spec = BitReader_read_inv [OF assms(1,2) rd] BitReader_read_stream [OF assms(1,2) rd]
    BitReader_read_bit [OF assms(1,2) rd]
  have "rd_stream r' = t"
    by (rule ext) (simp add: spec(2) assms(3) prepend_def)
  moreover have "b' = b"
    by (rule bit_eqI) (use assms(4) in \<open>auto simp: spec(3) assms(3) prepend_def low_bits_def not_le\<close>)
  ultimately show ?thesis using rd spec(1) by blast
qed

section \<open>The writer as a list of bits\<close>

definition wr_inv :: "bit_writer \<Rightarrow> bool" where
  "wr_inv w \<longleftrightarrow> wr_num_bits w < 8 \<and> (\<forall>i\<ge>wr_num_bits w. \<not> bit (wr_bits w) i)"

definition bytes_list :: "8 word list \<Rightarrow> bool list" where
  "bytes_list bs = concat (map (low_bits 8) bs)"

definition wr_list :: "bit_writer \<Rightarrow> bool list" where
  "wr_list w = bytes_list (wr_bytes w) @ map (bit (wr_bits w)) [0..<wr_num_bits w]"

lemma bytes_list_simps [simp]:
  "bytes_list [] = []" "bytes_list (b # bs) = low_bits 8 b @ bytes_list bs"
  "bytes_list (bs @ cs) = bytes_list bs @ bytes_list cs"
  by (simp_all add: bytes_list_def)

lemma bytes_bit_Cons_prepend: "bytes_bit (b # bs) = prepend (low_bits 8 b) (bytes_bit bs)"
  by (rule ext) (simp add: bytes_bit_Cons prepend_def, simp add: low_bits_def)

lemma bytes_bit_prepend: "bytes_bit bs = prepend (bytes_list bs) (\<lambda>_. False)"
proof (induction bs)
  case Nil
  show ?case by (simp add: fun_eq_iff)
next
  case (Cons b bs)
  then show ?case
    by (simp only: bytes_bit_Cons_prepend bytes_list_simps prepend_append)
qed

lemma BitWriter_new_correct: "wr_inv BitWriter_new" "wr_list BitWriter_new = []"
  by (simp_all add: wr_inv_def BitWriter_new_def wr_list_def)

lemma BitWriter_write_correct:
  assumes "wr_inv w" "n \<le> 8" "\<forall>i\<ge>n. \<not> bit b i"
  shows "wr_inv (BitWriter_write b n w) \<and> wr_list (BitWriter_write b n w) = wr_list w @ low_bits n b"
proof -
  define num where "num = wr_num_bits w"
  define v where "v = wr_bits w OR push_bit num (ucast b)"
  have num: "num < 8" and low: "\<And>i. num \<le> i \<Longrightarrow> \<not> bit (wr_bits w) i"
    using assms(1) by (auto simp: wr_inv_def num_def)
  have v: "bit v i \<longleftrightarrow> (if i < num then bit (wr_bits w) i else i < num + n \<and> bit b (i - num))" for i
  proof -
    have "bit v i \<longleftrightarrow> bit (wr_bits w) i \<or> num \<le> i \<and> i < 16 \<and> bit b (i - num)"
      using bit_read_window [of 0 "wr_bits w" num b i] by (simp add: v_def)
    moreover have "bit b (i - num) \<Longrightarrow> i - num < n" using assms(3) not_le by blast
    ultimately show ?thesis using low [of i] num assms(2) by (cases "i < num") auto
  qed
  have list: "map (bit v) [0..<num + n] = map (bit (wr_bits w)) [0..<num] @ low_bits n b"
    by (rule nth_equalityI) (auto simp: v low_bits_def nth_append)
  show ?thesis
  proof (cases "num + n \<ge> 8")
    case True
    have w': "BitWriter_write b n w =
        \<lparr>wr_bytes = wr_bytes w @ [ucast v], wr_bits = drop_bit 8 v, wr_num_bits = num + n - 8\<rparr>"
      using True by (simp add: BitWriter_write_def Let_def num_def v_def)
    have "map (bit v) [0..<num + n] = low_bits 8 (ucast v) @ map (bit (drop_bit 8 v)) [0..<num + n - 8]"
      using True by (intro nth_equalityI) (auto simp: low_bits_def nth_append bit_simps)
    moreover have "wr_inv (BitWriter_write b n w)"
      using True num assms(2) by (auto simp: wr_inv_def w' bit_drop_bit_eq v)
    ultimately show ?thesis using list by (simp add: wr_list_def w' num_def)
  next
    case False
    then have w': "BitWriter_write b n w = w\<lparr>wr_bits := v, wr_num_bits := num + n\<rparr>"
      by (simp add: BitWriter_write_def Let_def num_def v_def)
    moreover have "wr_inv (BitWriter_write b n w)"
      using False by (auto simp: wr_inv_def w' v)
    ultimately show ?thesis using list by (simp add: wr_list_def num_def)
  qed
qed

lemma pop_zeros_stream: "bytes_bit (rev (pop_zeros (rev bs))) = bytes_bit bs"
proof (induction bs rule: rev_induct)
  case (snoc b bs)
  have "bytes_bit (bs @ [0]) = bytes_bit bs"
    by (auto simp: fun_eq_iff bytes_bit_def nth_append)
  with snoc show ?case by simp
qed simp

lemma BitWriter_finish_stream:
  assumes "wr_inv w"
  shows "bytes_bit (BitWriter_finish w) = prepend (wr_list w) (\<lambda>_. False)"
proof -
  have num: "wr_num_bits w < 8" and low: "\<And>i. wr_num_bits w \<le> i \<Longrightarrow> \<not> bit (wr_bits w) i"
    using assms by (auto simp: wr_inv_def)
  let ?rest = "map (bit (wr_bits w)) [0..<wr_num_bits w]"
  have last_byte: "prepend (low_bits 8 (ucast (wr_bits w))) (\<lambda>_. False) = prepend ?rest (\<lambda>_. False)"
    using num low by (auto simp: fun_eq_iff prepend_def low_bits_def bit_simps not_less)
  have zero: "prepend ?rest (\<lambda>_. False) = (\<lambda>_. False)" if "wr_bits w = 0"
    using that by (auto simp: fun_eq_iff prepend_def)
  have "bytes_bit (BitWriter_finish w) =
      bytes_bit (if wr_bits w > 0 then wr_bytes w @ [ucast (wr_bits w)] else wr_bytes w)"
    by (simp only: BitWriter_finish_def pop_zeros_stream)
  also have "\<dots> = prepend (bytes_list (wr_bytes w)) (prepend ?rest (\<lambda>_. False))"
    using zero by (auto simp: bytes_bit_prepend prepend_append last_byte word_neq_0_conv [symmetric])
  finally show ?thesis by (simp add: wr_list_def prepend_append)
qed

lemma BitWriter_finish_last: "BitWriter_finish w \<noteq> [] \<Longrightarrow> last (BitWriter_finish w) \<noteq> 0"
proof -
  have "pop_zeros bs \<noteq> [] \<Longrightarrow> hd (pop_zeros bs) \<noteq> 0" for bs
    by (induction bs) auto
  then show "BitWriter_finish w \<noteq> [] \<Longrightarrow> last (BitWriter_finish w) \<noteq> 0"
    by (simp add: BitWriter_finish_def last_rev)
qed

end
