(* ===== verification/Rleplus.thy ===== *)
theory Rleplus
  imports Bitstream
begin

text \<open>
  The RLE+ encoding of bit fields, \<open>src/utils/bitfield/src/rleplus\<close>, and the deferred validation of
  \<open>src/utils/bitfield/src/unvalidated.rs\<close>. The varint encoder of the \<open>unsigned_varint\<close> crate is a
  parameter; the predicate \<open>varint_encoder\<close> states the documented format. The lemmas show that
  decoding inverts encoding, that decoding untrusted bytes always returns, and that it only yields
  well-formed bit fields.
\<close>

unbundle bit_operations_syntax

section \<open>Lengths\<close>

definition VERSION :: "8 word" where
  "VERSION = 0"

definition VARINT_MAX_BYTES :: nat where
  "VARINT_MAX_BYTES = 9"

definition MAX_ENCODED_SIZE :: nat where
  "MAX_ENCODED_SIZE = 32768"

function read_varint_loop :: "nat \<Rightarrow> 64 word \<Rightarrow> bit_reader \<Rightarrow> (string, 64 word \<times> bit_reader) res" where
  "read_varint_loop i len r =
     (if i < VARINT_MAX_BYTES
      then let (byte, r1) = BitReader_read 8 r;
               len1 = len OR push_bit (i * 7) (ucast byte AND 0x7f)
           in if byte AND 0x80 = 0
              then (if i = 0 \<or> byte \<noteq> 0 then Inr (len1, r1) else Inl ''Invalid varint'')
              else read_varint_loop (i + 1) len1 r1
      else Inl ''Invalid varint'')"
  by pat_completeness auto
termination
  by (relation "measure (\<lambda>(i, len, r). VARINT_MAX_BYTES - i)") auto

declare read_varint_loop.simps [simp del]

definition read_varint :: "bit_reader \<Rightarrow> (string, nat \<times> bit_reader) res" where
  "read_varint r = res_bind (read_varint_loop 0 0 r) (\<lambda>(len, r1). Inr (unat len, r1))"

definition read_len :: "bit_reader \<Rightarrow> (string, nat option \<times> bit_reader) res" where
  "read_len r =
     (let (prefix_0, r1) = BitReader_read 1 r
      in res_bind
           (if prefix_0 = 1 then Inr (1, r1)
            else let (prefix_1, r2) = BitReader_read 1 r1
                 in if prefix_1 = 1
                    then (let (len, r3) = BitReader_read 4 r2 in Inr (unat len, r3))
                    else read_varint r2)
           (\<lambda>(len, r4). Inr (if len > 0 then Some len else None, r4)))"

definition write_len :: "(nat \<Rightarrow> 8 word list) \<Rightarrow> nat \<Rightarrow> bit_writer \<Rightarrow> bit_writer" where
  "write_len varint len w =
     (if len = 1 then BitWriter_write 1 1 w
      else if len < 16 then BitWriter_write (of_nat len) 4 (BitWriter_write 2 2 w)
      else fold (\<lambda>byte. BitWriter_write byte 8) (varint len) (BitWriter_write 0 2 w))"

section \<open>Encoding and decoding bit fields\<close>

text \<open>
  The loop of \<open>from_bytes\<close>. It ends at the first length of zero; \<open>fuel\<close> bounds the number of
  lengths read, and \<open>from_bytes_returns\<close> shows that the fuel given by \<open>from_bytes\<close> is enough.
\<close>

datatype decode_error = DecodeErr string | OutOfFuel

fun from_bytes_loop ::
  "nat \<Rightarrow> bit_reader \<Rightarrow> bool \<Rightarrow> nat \<Rightarrow> nat \<Rightarrow> range list \<Rightarrow> (decode_error, range list) res" where
  "from_bytes_loop 0 r next_value index total_len ranges = Inl OutOfFuel"
| "from_bytes_loop (Suc fuel) r next_value index total_len ranges =
     (case read_len r of
        Inl e \<Rightarrow> Inl (DecodeErr e)
      | Inr (None, _) \<Rightarrow> Inr ranges
      | Inr (Some len, r1) \<Rightarrow>
          if total_len + len \<ge> 2 ^ 64 then Inl (DecodeErr ''RLE+ overflow'')
          else from_bytes_loop fuel r1 (\<not> next_value) (index + len) (total_len + len)
                 (if next_value then ranges @ [Range index (index + len)] else ranges))"

definition from_bytes :: "8 word list \<Rightarrow> (decode_error, bitfield) res" where
  "from_bytes bytes =
     (if bytes \<noteq> [] \<and> last bytes = 0 then Inl (DecodeErr ''not minimally encoded'')
      else let (version, r1) = BitReader_read 2 (BitReader_new bytes)
           in if version \<noteq> VERSION then Inl (DecodeErr ''incorrect version'')
              else let (first, r2) = BitReader_read 1 r1
                   in res_bind (from_bytes_loop (8 * length bytes + 1) r2 (first = 1) 0 0 [])
                        (\<lambda>ranges. Inr (from_ranges ranges)))"

fun write_ranges :: "(nat \<Rightarrow> 8 word list) \<Rightarrow> nat \<Rightarrow> range list \<Rightarrow> bit_writer \<Rightarrow> bit_writer" where
  "write_ranges varint index [] w = w"
| "write_ranges varint index (r # rs) w =
     write_ranges varint (rend r) rs
       (write_len varint (range_len r) (write_len varint (rstart r - index) w))"

definition to_bytes :: "(nat \<Rightarrow> 8 word list) \<Rightarrow> bitfield \<Rightarrow> 8 word list" where
  "to_bytes varint bf =
     (case BitField_ranges bf of
        [] \<Rightarrow> []
      | first_range # rest \<Rightarrow>
          let w0 = BitWriter_write 0 2 BitWriter_new;
              w1 = (if rstart first_range = 0 then BitWriter_write 1 1 w0
                    else write_len varint (rstart first_range) (BitWriter_write 0 1 w0));
              w2 = write_len varint (range_len first_range) w1
          in BitWriter_finish (write_ranges varint (rend first_range) rest w2))"

datatype codec_error = TooLarge nat | InvalidVersion | Decode decode_error

definition BitField_serialize :: "(nat \<Rightarrow> 8 word list) \<Rightarrow> bitfield \<Rightarrow> (codec_error, 8 word list) res" where
  "BitField_serialize varint bf =
     (let bytes = to_bytes varint bf
      in if length bytes > MAX_ENCODED_SIZE then Inl (TooLarge (length bytes)) else Inr bytes)"

definition BitField_deserialize :: "8 word list \<Rightarrow> (codec_error, bitfield) res" where
  "BitField_deserialize bytes =
     (if length bytes > MAX_ENCODED_SIZE then Inl (TooLarge (length bytes))
      else case from_bytes bytes of Inl e \<Rightarrow> Inl (Decode e) | Inr bf \<Rightarrow> Inr bf)"

section \<open>Deferred validation\<close>

datatype unvalidated_bitfield = Validated bitfield | Unvalidated "8 word list"

text \<open>\<open>validate_mut\<close> returns the outcome and the new value of \<open>self\<close>.\<close>

definition validate_mut ::
  "unvalidated_bitfield \<Rightarrow> (decode_error, bitfield) res \<times> unvalidated_bitfield" where
  "validate_mut u =
     (case u of
        Unvalidated bytes \<Rightarrow>
          (case from_bytes bytes of Inl e \<Rightarrow> (Inl e, u) | Inr bf \<Rightarrow> (Inr bf, Validated bf))
      | Validated bf \<Rightarrow> (Inr bf, u))"

definition Unvalidated_deserialize :: "8 word list \<Rightarrow> (codec_error, unvalidated_bitfield) res" where
  "Unvalidated_deserialize bytes =
     (if length bytes > MAX_ENCODED_SIZE then Inl (TooLarge (length bytes))
      else if bytes \<noteq> [] \<and> bytes ! 0 AND 3 \<noteq> VERSION then Inl InvalidVersion
      else Inr (Unvalidated bytes))"

section \<open>Reading back a length\<close>

text \<open>
  The documented format of unsigned varints: base-128 digits, least significant first, the top bit
  set on every byte but the last, and no redundant zero byte at the end.
\<close>

fun varint_value :: "8 word list \<Rightarrow> nat" where
  "varint_value [] = 0"
| "varint_value (b # bs) = unat (b AND 0x7f) + 128 * varint_value bs"

definition varint_encoder :: "(nat \<Rightarrow> 8 word list) \<Rightarrow> bool" where
  "varint_encoder enc \<longleftrightarrow>
     (\<forall>n. enc n \<noteq> [] \<and> varint_value (enc n) = n \<and>
        (\<forall>b\<in>set (butlast (enc n)). b AND 0x80 \<noteq> 0) \<and> last (enc n) AND 0x80 = 0 \<and>
        (1 < length (enc n) \<longrightarrow> last (enc n) \<noteq> 0))"

lemma add_eq_or_push_7: "(x :: nat) < 128 \<Longrightarrow> x + 128 * v = x OR push_bit 7 v"
proof (rule bit_eqI)
  fix i assume x: "x < 128"
  let ?a = "x + 128 * v"
  have t: "take_bit 7 ?a = x" and d: "drop_bit 7 ?a = v"
    using x by (simp_all add: take_bit_eq_mod drop_bit_eq_div)
  show "bit ?a i = bit (x OR push_bit 7 v) i"
  proof (cases "i < 7")
    case True
    then have "bit ?a i = bit x i" by (metis t bit_take_bit_iff)
    with True show ?thesis by (simp add: bit_or_iff bit_push_bit_iff)
  next
    case False
    then have "bit ?a i = bit v (i - 7)" by (metis d bit_drop_bit_eq comp_apply le_add_diff_inverse not_less)
    moreover have "\<not> bit x i" using False by (metis t bit_take_bit_iff d)
    ultimately show ?thesis using False by (simp add: bit_or_iff bit_push_bit_iff)
  qed
qed

lemma unat_and_7f: "unat ((b :: 8 word) AND 0x7f) < 128"
proof -
  have "b AND 0x7f \<le> 0x7f" by (rule word_and_le1)
  then have "unat (b AND 0x7f) \<le> unat (0x7f :: 8 word)" by (simp add: word_le_nat_alt)
  then show ?thesis by simp
qed

lemma ucast_and_7f: "ucast (b :: 8 word) AND 0x7f = (of_nat (unat (b AND 0x7f)) :: 64 word)"
proof -
  have "(of_nat (unat (b AND 0x7f)) :: 64 word) = ucast (b AND 0x7f)"
    by (rule of_nat_unat)
  also have "\<dots> = ucast b AND ucast (0x7f :: 8 word)"
    by (rule bit_eqI) (auto simp: bit_simps dest: bit_word8_bound)
  finally show ?thesis by simp
qed

lemma varint_step_value:
  "len OR push_bit (i * 7) (of_nat (varint_value (b # bs)) :: 64 word) =
   (len OR push_bit (i * 7) (ucast b AND 0x7f)) OR push_bit ((i + 1) * 7) (of_nat (varint_value bs))"
proof -
  have "(of_nat (varint_value (b # bs)) :: 64 word) =
      of_nat (unat (b AND 0x7f)) OR push_bit 7 (of_nat (varint_value bs))"
    using unat_and_7f [of b] by (simp add: add_eq_or_push_7 of_nat_or_eq push_bit_of_nat
        del: of_nat_add of_nat_mult)
  then show ?thesis
    by (simp add: ucast_and_7f push_bit_or or.assoc algebra_simps)
qed

lemma read_byte_prepend:
  assumes "rd_inv r" "rd_stream r = prepend (bytes_list (b # bs)) t"
  shows "\<exists>r'. BitReader_read 8 r = (b, r') \<and> rd_inv r' \<and> rd_stream r' = prepend (bytes_list bs) t"
  using assms by (intro read_prepend) (auto simp: prepend_append dest: bit_word8_bound)

lemma read_varint_loop_prepend:
  assumes "bs \<noteq> []" "\<forall>b\<in>set (butlast bs). b AND 0x80 \<noteq> 0" "last bs AND 0x80 = 0"
    "0 < i \<or> 1 < length bs \<longrightarrow> last bs \<noteq> 0" "i + length bs \<le> VARINT_MAX_BYTES"
    "rd_inv r" "rd_stream r = prepend (bytes_list bs) t"
  shows "\<exists>r'. read_varint_loop i len r = Inr (len OR push_bit (i * 7) (of_nat (varint_value bs)), r') \<and>
    rd_inv r' \<and> rd_stream r' = t"
  using assms
proof (induction bs arbitrary: i len r)
  case (Cons b bs)
  obtain r1 where r1: "BitReader_read 8 r = (b, r1)" "rd_inv r1" "rd_stream r1 = prepend (bytes_list bs) t"
    using read_byte_prepend [OF Cons.prems(6,7)] by blast
  let ?len1 = "len OR push_bit (i * 7) (ucast b AND 0x7f)"
  have i: "i < VARINT_MAX_BYTES" using Cons.prems(5) by simp
  show ?case
  proof (cases "bs = []")
    case True
    with Cons.prems i r1 show ?thesis
      by (auto simp: read_varint_loop.simps [of i len r] ucast_and_7f)
  next
    case False
    with Cons.prems have top: "b AND 0x80 \<noteq> 0" by simp
    have "\<exists>r'. read_varint_loop (i + 1) ?len1 r1 =
        Inr (?len1 OR push_bit ((i + 1) * 7) (of_nat (varint_value bs)), r') \<and>
      rd_inv r' \<and> rd_stream r' = t"
      using False Cons.prems r1 by (intro Cons.IH) auto
    with top i r1(1) show ?thesis
      unfolding varint_step_value by (simp add: read_varint_loop.simps [of i len r])
  qed
qed simp

lemma varint_value_ge:
  "bs \<noteq> [] \<Longrightarrow> last bs AND 0x80 = 0 \<Longrightarrow> last bs \<noteq> 0 \<Longrightarrow> 128 ^ (length bs - 1) \<le> varint_value bs"
proof (induction bs)
  case (Cons b bs)
  show ?case
  proof (cases "bs = []")
    case True
    have "(0x7f :: 8 word) OR 0x80 = - 1" by simp
    then have "b = (b AND 0x7f) OR (b AND 0x80)" by (metis and.right_neutral bit.conj_disj_distrib)
    with True Cons.prems have "b AND 0x7f \<noteq> 0" by auto
    with True show ?thesis by (simp add: Suc_le_eq unat_gt_0)
  next
    case False
    then obtain m where "length bs = Suc m" by (cases bs) auto
    with False Cons show ?thesis by simp
  qed
qed simp

lemma varint_length:
  assumes "varint_encoder enc" "n < 2 ^ 63"
  shows "length (enc n) \<le> VARINT_MAX_BYTES"
proof (rule ccontr)
  assume "\<not> length (enc n) \<le> VARINT_MAX_BYTES"
  then have len: "9 \<le> length (enc n) - 1" "1 < length (enc n)" by (auto simp: VARINT_MAX_BYTES_def)
  have "(128 :: nat) ^ 9 \<le> 128 ^ (length (enc n) - 1)" using len(1) by (intro power_increasing) auto
  also have "\<dots> \<le> varint_value (enc n)"
    using assms(1) len(2) by (intro varint_value_ge) (auto simp: varint_encoder_def)
  also have "\<dots> = n" using assms(1) by (simp add: varint_encoder_def)
  finally show False using assms(2) by simp
qed

lemma read_varint_prepend:
  assumes "varint_encoder enc" "n < 2 ^ 63" "rd_inv r" "rd_stream r = prepend (bytes_list (enc n)) t"
  shows "\<exists>r'. read_varint r = Inr (n, r') \<and> rd_inv r' \<and> rd_stream r' = t"
proof -
  have "\<exists>r'. read_varint_loop 0 0 r = Inr (0 OR push_bit (0 * 7) (of_nat (varint_value (enc n))), r') \<and>
      rd_inv r' \<and> rd_stream r' = t"
    using assms varint_length [OF assms(1,2)]
    by (intro read_varint_loop_prepend) (auto simp: varint_encoder_def)
  moreover have "varint_value (enc n) = n" using assms(1) by (simp add: varint_encoder_def)
  moreover have "unat (of_nat n :: 64 word) = n" using assms(2) by (simp add: unat_of_nat)
  ultimately show ?thesis by (auto simp: read_varint_def)
qed

text \<open>The bits of a length in RLE+: single, short and long blocks.\<close>

definition len_bits :: "(nat \<Rightarrow> 8 word list) \<Rightarrow> nat \<Rightarrow> bool list" where
  "len_bits varint n =
     (if n = 1 then low_bits 1 1
      else if n < 16 then low_bits 2 2 @ low_bits 4 (of_nat n)
      else low_bits 2 0 @ bytes_list (varint n))"

lemma low_bits_small: "n < 2 ^ k \<Longrightarrow> k \<le> 8 \<Longrightarrow> \<forall>i\<ge>k. \<not> bit (of_nat n :: 8 word) i"
proof (intro allI impI notI)
  fix i assume n: "n < 2 ^ k" "k \<le> i" "bit (of_nat n :: 8 word) i"
  then have "bit n i" by (simp add: bit_of_nat_iff)
  moreover have "n < 2 ^ i" using n(1,2) by (metis less_le_trans one_le_numeral power_increasing)
  ultimately show False by (simp add: bit_iff_odd)
qed

lemma fold_write_bytes:
  "wr_inv w \<Longrightarrow> wr_inv (fold (\<lambda>b. BitWriter_write b 8) bs w) \<and>
     wr_list (fold (\<lambda>b. BitWriter_write b 8) bs w) = wr_list w @ bytes_list bs"
proof (induction bs arbitrary: w)
  case (Cons b bs)
  have "\<forall>i\<ge>8. \<not> bit b i" using bit_word8_bound not_le by blast
  with Cons BitWriter_write_correct [of w 8 b] show ?case by simp
qed simp

lemma write_len_correct:
  assumes "wr_inv w" "0 < n"
  shows "wr_inv (write_len enc n w) \<and> wr_list (write_len enc n w) = wr_list w @ len_bits enc n"
proof -
  have small: "\<forall>i\<ge>1. \<not> bit (1 :: 8 word) i" "\<forall>i\<ge>2. \<not> bit (2 :: 8 word) i" "\<forall>i\<ge>2. \<not> bit (0 :: 8 word) i"
    using low_bits_small [of 1 1] low_bits_small [of 2 2] by simp_all
  show ?thesis
  proof (cases "n < 16")
    case True
    then show ?thesis
      using assms small low_bits_small [of n 4]
        BitWriter_write_correct [of w 1 1] BitWriter_write_correct [of w 2 2]
        BitWriter_write_correct [of "BitWriter_write 2 2 w" 4 "of_nat n"]
      by (auto simp: write_len_def len_bits_def)
  next
    case False
    then show ?thesis
      using assms small BitWriter_write_correct [of w 2 0] fold_write_bytes [of "BitWriter_write 0 2 w" "enc n"]
      by (auto simp: write_len_def len_bits_def)
  qed
qed

lemma low_bits_prefix:
  "low_bits 1 1 = [True]" "low_bits 2 2 = low_bits 1 0 @ low_bits 1 1" "low_bits 2 0 = low_bits 1 0 @ low_bits 1 0"
  by (simp_all add: low_bits_def upt_rec [of 0] upt_rec [of 1] bit_numeral_rec numeral_2_eq_2)

lemma read_bit_prepend:
  "rd_inv r \<Longrightarrow> rd_stream r = prepend (low_bits 1 0) t \<Longrightarrow>
     \<exists>r'. BitReader_read 1 r = (0, r') \<and> rd_inv r' \<and> rd_stream r' = t"
  "rd_inv r \<Longrightarrow> rd_stream r = prepend (low_bits 1 1) t \<Longrightarrow>
     \<exists>r'. BitReader_read 1 r = (1, r') \<and> rd_inv r' \<and> rd_stream r' = t"
  using read_prepend [of r 1 0 t] read_prepend [of r 1 1 t] low_bits_small [of 1 1] by simp_all

lemma read_len_prepend:
  assumes "varint_encoder enc" "0 < n" "n < 2 ^ 63" "rd_inv r" "rd_stream r = prepend (len_bits enc n) t"
  shows "\<exists>r'. read_len r = Inr (Some n, r') \<and> rd_inv r' \<and> rd_stream r' = t"
proof -
  consider "n = 1" | "n \<noteq> 1" "n < 16" | "n \<ge> 16" by linarith
  then show ?thesis
  proof cases
    case 1
    with assms have "rd_stream r = prepend (low_bits 1 1) t" by (simp add: len_bits_def)
    from read_bit_prepend(2) [OF assms(4) this] 1 show ?thesis by (auto simp: read_len_def)
  next
    case 2
    with assms(5) have "rd_stream r = prepend (low_bits 1 0) (prepend (low_bits 1 1) (prepend (low_bits 4 (of_nat n)) t))"
      by (simp only: len_bits_def low_bits_prefix(2) prepend_append if_False if_True append_assoc)
    from read_bit_prepend(1) [OF assms(4) this] obtain r1 where
      r1: "BitReader_read 1 r = (0, r1)" "rd_inv r1"
        "rd_stream r1 = prepend (low_bits 1 1) (prepend (low_bits 4 (of_nat n)) t)" by blast
    from read_bit_prepend(2) [OF this(2,3)] obtain r2 where
      r2: "BitReader_read 1 r1 = (1, r2)" "rd_inv r2" "rd_stream r2 = prepend (low_bits 4 (of_nat n)) t"
      by blast
    have "\<exists>r3. BitReader_read 4 r2 = (of_nat n, r3) \<and> rd_inv r3 \<and> rd_stream r3 = t"
      using r2(2,3) 2 low_bits_small [of n 4] by (intro read_prepend) auto
    moreover have "unat (of_nat n :: 8 word) = n" using 2 by (simp add: unat_of_nat)
    ultimately show ?thesis using r1(1) r2(1) assms(2) by (auto simp: read_len_def)
  next
    case 3
    with assms(5) have "rd_stream r = prepend (low_bits 1 0) (prepend (low_bits 1 0) (prepend (bytes_list (enc n)) t))"
      by (auto simp: len_bits_def low_bits_prefix(3) prepend_append)
    from read_bit_prepend(1) [OF assms(4) this] obtain r1 where
      r1: "BitReader_read 1 r = (0, r1)" "rd_inv r1"
        "rd_stream r1 = prepend (low_bits 1 0) (prepend (bytes_list (enc n)) t)" by blast
    from read_bit_prepend(1) [OF this(2,3)] obtain r2 where
      r2: "BitReader_read 1 r1 = (0, r2)" "rd_inv r2" "rd_stream r2 = prepend (bytes_list (enc n)) t"
      by blast
    from read_varint_prepend [OF assms(1,3) this(2,3)] r1(1) r2(1) assms(2) show ?thesis
      by (auto simp: read_len_def)
  qed
qed

lemma read_len_end:
  assumes "rd_inv r" "rd_stream r = (\<lambda>_. False)"
  shows "\<exists>r'. read_len r = Inr (None, r')"
proof -
  have z: "(\<lambda>_. False) = prepend (low_bits n 0) (\<lambda>_. False)" for n
    by (rule ext) (simp add: prepend_def low_bits_def)
  have read0: "\<exists>r'. BitReader_read n r = (0, r') \<and> rd_inv r' \<and> rd_stream r' = (\<lambda>_. False)"
    if "rd_inv r" "rd_stream r = (\<lambda>_. False)" "n \<le> 8" for n r
    using that z [of n] by (intro read_prepend) auto
  obtain r1 where r1: "BitReader_read 1 r = (0, r1)" "rd_inv r1" "rd_stream r1 = (\<lambda>_. False)"
    using read0 [OF assms, of 1] by auto
  obtain r2 where r2: "BitReader_read 1 r1 = (0, r2)" "rd_inv r2" "rd_stream r2 = (\<lambda>_. False)"
    using read0 [OF r1(2,3), of 1] by auto
  obtain r3 where r3: "BitReader_read 8 r2 = (0, r3)"
    using read0 [OF r2(2,3), of 8] by auto
  show ?thesis
    by (simp add: read_len_def r1(1) r2(1) read_varint_def read_varint_loop.simps [of 0] r3 VARINT_MAX_BYTES_def
        del: One_nat_def)
qed

section \<open>Decoding always returns\<close>

text \<open>\<open>r'\<close> is the reader \<open>r\<close> after \<open>n\<close> more bits.\<close>

definition rd_ones :: "bit_reader \<Rightarrow> nat" where
  "rd_ones r = card {i. rd_stream r i}"

definition advanced :: "nat \<Rightarrow> bit_reader \<Rightarrow> bit_reader \<Rightarrow> bool" where
  "advanced n r r' \<longleftrightarrow> rd_inv r' \<and> rd_stream r' = (\<lambda>i. rd_stream r (i + n))"

lemma read_advanced: "rd_inv r \<Longrightarrow> n \<le> 8 \<Longrightarrow> BitReader_read n r = (b, r') \<Longrightarrow> advanced n r r'"
  by (simp add: advanced_def BitReader_read_inv BitReader_read_stream fun_eq_iff)

lemma advanced_trans: "advanced m r s \<Longrightarrow> advanced n s t \<Longrightarrow> advanced (n + m) r t"
  by (simp add: advanced_def fun_eq_iff ac_simps)

lemma read_varint_loop_advanced:
  "rd_inv r \<Longrightarrow> read_varint_loop i len r = Inr (v, r') \<Longrightarrow> \<exists>n\<ge>8. advanced n r r'"
proof (induction i len r rule: read_varint_loop.induct)
  case (1 i len r)
  obtain b r1 where rd: "BitReader_read 8 r = (b, r1)" by fastforce
  then have adv: "advanced 8 r r1" using "1.prems"(1) by (intro read_advanced) auto
  then have inv: "rd_inv r1" by (simp add: advanced_def)
  show ?case
  proof (cases "b AND 0x80 = 0")
    case True
    with "1.prems" rd adv show ?thesis
      by (auto simp: read_varint_loop.simps [of i len r] split: if_splits)
  next
    case False
    with "1.prems" rd have i: "i < VARINT_MAX_BYTES" and
      rec: "read_varint_loop (i + 1) (len OR push_bit (i * 7) (ucast b AND 0x7f)) r1 = Inr (v, r')"
      by (auto simp: read_varint_loop.simps [of i len r] split: if_splits)
    obtain n where "n \<ge> 8" "advanced n r1 r'"
      using "1.IH" [OF i rd [symmetric] refl refl False inv rec] by blast
    with advanced_trans [OF adv] show ?thesis by (meson trans_le_add1)
  qed
qed

lemma read_one_bit_set:
  assumes "rd_inv r" "BitReader_read 1 r = (1, r')"
  shows "rd_stream r 0"
  using BitReader_read_bit [OF assms(1) _ assms(2), of 0] by simp

lemma read_varint_consumes:
  assumes "rd_inv r" "read_varint r = Inr (len, r')" "0 < len"
  shows "\<exists>n. advanced n r r' \<and> (\<exists>i<n. rd_stream r i)"
proof -
  obtain v where v: "read_varint_loop 0 0 r = Inr (v, r')" "len = unat v"
    using assms(2) by (auto simp: read_varint_def res_simps)
  obtain n where n: "n \<ge> 8" "advanced n r r'" using read_varint_loop_advanced [OF assms(1) v(1)] by blast
  obtain b r1 where rd: "BitReader_read 8 r = (b, r1)" by fastforce
  have "b \<noteq> 0"
  proof
    assume "b = 0"
    with v rd have "v = 0" by (auto simp: read_varint_loop.simps [of 0] VARINT_MAX_BYTES_def)
    with v(2) assms(3) show False by simp
  qed
  then obtain i where "bit b i" using bit_eqI [of b 0] by auto
  then have "i < 8 \<and> rd_stream r i" using BitReader_read_bit [OF assms(1) _ rd, of i] by simp
  with n show ?thesis by (meson less_le_trans)
qed

lemma read_len_advanced:
  assumes "rd_inv r" "read_len r = Inr (Some len, r')"
  shows "0 < len \<and> (\<exists>n. advanced n r r' \<and> (\<exists>i<n. rd_stream r i))"
proof -
  obtain p0 r1 where rd1: "BitReader_read 1 r = (p0, r1)" by fastforce
  note adv1 = read_advanced [OF assms(1) _ rd1, simplified]
  then have inv1: "rd_inv r1" by (simp add: advanced_def)
  show ?thesis
  proof (cases "p0 = 1")
    case True
    with assms(2) rd1 have "len = 1" "r' = r1" by (auto simp: read_len_def)
    moreover have "rd_stream r 0" using read_one_bit_set [OF assms(1)] rd1 True by simp
    ultimately show ?thesis using adv1 by (auto simp del: One_nat_def)
  next
    case p0: False
    obtain p1 r2 where rd2: "BitReader_read 1 r1 = (p1, r2)" by fastforce
    note adv2 = advanced_trans [OF adv1 read_advanced [OF inv1 _ rd2, simplified]]
    then have inv2: "rd_inv r2" by (simp add: advanced_def)
    have later: "rd_stream r2 i = rd_stream r (i + 2)" for i
      using adv2 by (simp add: advanced_def)
    show ?thesis
    proof (cases "p1 = 1")
      case True
      obtain l r3 where rd3: "BitReader_read 4 r2 = (l, r3)" by fastforce
      from True p0 assms(2) rd1 rd2 rd3 have "r' = r3" "0 < len"
        by (auto simp: read_len_def split: if_splits)
      moreover have "rd_stream r 1"
        using read_one_bit_set [OF inv1] rd2 True adv1 by (auto simp: advanced_def)
      ultimately show ?thesis
        using advanced_trans [OF adv2 read_advanced [OF inv2 _ rd3, simplified]]
        by (intro conjI exI [of _ "4 + (Suc 0 + Suc 0)"] exI [of _ 1]) auto
    next
      case False
      with p0 assms(2) rd1 rd2 have "read_varint r2 = Inr (len, r')" "0 < len"
        by (auto simp: read_len_def res_simps split: if_splits)
      with read_varint_consumes [OF inv2] obtain n i where
        "advanced n r2 r'" "i < n" "rd_stream r2 i" by blast
      then have "advanced (n + (1 + 1)) r r'" "i + 2 < n + (1 + 1)" "rd_stream r (i + 2)"
        using advanced_trans [OF adv2] later by auto
      with \<open>0 < len\<close> show ?thesis by blast
    qed
  qed
qed

lemma advanced_ones:
  assumes "advanced n r r'" "i < n" "rd_stream r i" "finite {i. rd_stream r i}"
  shows "finite {i. rd_stream r' i} \<and> rd_ones r' < rd_ones r"
proof -
  let ?A = "{i. rd_stream r i}"
  have img: "(\<lambda>i. i + n) ` {i. rd_stream r' i} \<subseteq> ?A - {i}"
    using assms(1,2) by (auto simp: advanced_def)
  have "finite {i. rd_stream r' i}"
    using finite_subset [OF img] assms(4) by (simp add: finite_image_iff inj_on_def)
  moreover have "rd_ones r' \<le> card (?A - {i})"
    using card_mono [OF _ img] assms(4) by (simp add: rd_ones_def card_image inj_on_def)
  moreover have "card (?A - {i}) < card ?A"
    using assms(3,4) by (intro psubset_card_mono) auto
  ultimately show ?thesis by (simp add: rd_ones_def)
qed

lemma from_bytes_loop_returns:
  "rd_inv r \<Longrightarrow> finite {i. rd_stream r i} \<Longrightarrow> rd_ones r < fuel \<Longrightarrow>
     from_bytes_loop fuel r nv index tot ranges \<noteq> Inl OutOfFuel"
proof (induction fuel arbitrary: r nv index tot ranges)
  case (Suc fuel)
  show ?case
  proof (cases "read_len r")
    case (Inr p)
    show ?thesis
    proof (cases p)
      case (Pair o_len r1)
      show ?thesis
      proof (cases o_len)
        case (Some len)
        with Inr Pair have rl: "read_len r = Inr (Some len, r1)" by simp
        then obtain n i where adv: "advanced n r r1" "i < n" "rd_stream r i"
          using read_len_advanced [OF Suc.prems(1)] by blast
        then have inv: "rd_inv r1" by (simp add: advanced_def)
        from advanced_ones [OF adv Suc.prems(2)] Suc.prems(3)
        have "finite {i. rd_stream r1 i}" "rd_ones r1 < fuel" by simp_all
        from Suc.IH [OF inv this] rl show ?thesis by simp
      qed (use Inr Pair in simp)
    qed
  qed simp
qed simp

lemma bytes_bit_finite: "finite {i. bytes_bit bs i} \<and> card {i. bytes_bit bs i} \<le> 8 * length bs"
proof -
  have "{i. bytes_bit bs i} \<subseteq> {..<8 * length bs}" by (auto simp: bytes_bit_def)
  then show ?thesis using card_mono [of "{..<8 * length bs}"] finite_subset by fastforce
qed

lemma from_bytes_returns: "from_bytes bs \<noteq> Inl OutOfFuel"
proof -
  obtain v r1 where rd1: "BitReader_read 2 (BitReader_new bs) = (v, r1)" by fastforce
  obtain b r2 where rd2: "BitReader_read 1 r1 = (b, r2)" by fastforce
  have adv1: "advanced 2 (BitReader_new bs) r1"
    by (rule read_advanced [OF BitReader_new_inv _ rd1]) simp
  then have adv2: "advanced 1 r1 r2"
    by (intro read_advanced [OF _ _ rd2]) (simp_all add: advanced_def)
  have inv: "rd_inv r2" using adv2 by (simp add: advanced_def)
  have st: "rd_stream r2 = (\<lambda>i. bytes_bit bs (i + 3))"
    using adv1 adv2 by (simp add: advanced_def BitReader_new_stream numeral_3_eq_3)
  have img: "(\<lambda>i. i + 3) ` {i. rd_stream r2 i} \<subseteq> {i. bytes_bit bs i}" by (auto simp: st)
  have fin: "finite {i. rd_stream r2 i}"
    using finite_subset [OF img] bytes_bit_finite by (simp add: finite_image_iff inj_on_def)
  have "rd_ones r2 \<le> card {i. bytes_bit bs i}"
    using card_mono [OF _ img] bytes_bit_finite by (simp add: rd_ones_def card_image inj_on_def)
  then have "rd_ones r2 < 8 * length bs + 1" using bytes_bit_finite [of bs] by linarith
  from from_bytes_loop_returns [OF inv fin this, of "b = 1" 0 0 "[]"] show ?thesis
    by (cases "from_bytes_loop (8 * length bs + 1) r2 (b = 1) 0 0 []")
      (auto simp: from_bytes_def rd1 rd2 simp del: One_nat_def)
qed

section \<open>Decoding yields valid bit fields\<close>

lemma valid_ranges_snoc:
  "valid_ranges rs \<Longrightarrow> \<forall>r\<in>set rs. rend r < rstart s \<Longrightarrow> rstart s < rend s \<Longrightarrow> valid_ranges (rs @ [s])"
  by (induction rs rule: valid_ranges.induct) auto

lemma from_bytes_loop_valid:
  assumes "from_bytes_loop fuel r nv index index ranges = Inr rs" "rd_inv r" "index < 2 ^ 64"
    "valid_ranges ranges" "\<forall>q\<in>set ranges. rend q \<le> index \<and> (nv \<longrightarrow> rend q < index)"
  shows "valid_ranges rs \<and> (\<forall>q\<in>set rs. rend q < 2 ^ 64)"
  using assms
proof (induction fuel arbitrary: r nv index ranges)
  case (Suc fuel)
  obtain o_len r1 where rl: "read_len r = Inr (o_len, r1)"
    using Suc.prems(1) by (auto split: sum.splits)
  show ?case
  proof (cases o_len)
    case None
    with rl Suc.prems show ?thesis by fastforce
  next
    case (Some len)
    with read_len_advanced [OF Suc.prems(2)] rl have len: "0 < len" and inv: "rd_inv r1"
      by (auto simp: advanced_def)
    let ?ranges = "if nv then ranges @ [Range index (index + len)] else ranges"
    have small: "index + len < 2 ^ 64"
      and rec: "from_bytes_loop fuel r1 (\<not> nv) (index + len) (index + len) ?ranges = Inr rs"
      using Suc.prems(1) rl Some by (auto split: if_splits)
    have "valid_ranges ?ranges" using Suc.prems(4,5) len by (auto intro!: valid_ranges_snoc)
    moreover have "\<forall>q\<in>set ?ranges. rend q \<le> index + len \<and> (\<not> nv \<longrightarrow> rend q < index + len)"
      using Suc.prems(5) len by (auto intro: le_less_trans le_trans)
    ultimately show ?thesis by (rule Suc.IH [OF rec inv small])
  qed
qed simp

lemma from_bytes_valid:
  assumes "from_bytes bytes = Inr bf"
  shows "bf_inv bf \<and> (\<forall>q\<in>set (bf_ranges bf). rend q < 2 ^ 64) \<and> bf_set bf = {} \<and> bf_unset bf = {}"
proof -
  obtain v r1 where rd1: "BitReader_read 2 (BitReader_new bytes) = (v, r1)" by fastforce
  obtain b r2 where rd2: "BitReader_read 1 r1 = (b, r2)" by fastforce
  have "rd_inv r1" by (rule BitReader_read_inv [OF BitReader_new_inv _ rd1]) simp
  then have inv: "rd_inv r2" by (rule BitReader_read_inv [OF _ _ rd2]) simp
  obtain rs where rs: "from_bytes_loop (8 * length bytes + 1) r2 (b = 1) 0 0 [] = Inr rs" "bf = from_ranges rs"
    using assms rd1 rd2
    by (cases "from_bytes_loop (8 * length bytes + 1) r2 (b = 1) 0 0 []")
      (auto simp: from_bytes_def simp del: One_nat_def split: if_splits)
  from from_bytes_loop_valid [OF rs(1) inv] rs(2) show ?thesis
    by (simp add: bf_inv_def from_ranges_def)
qed

section \<open>Decoding what was encoded\<close>

text \<open>The lengths that \<open>to_bytes\<close> writes for the ranges after the first one.\<close>

fun run_lens :: "nat \<Rightarrow> range list \<Rightarrow> nat list" where
  "run_lens index [] = []"
| "run_lens index (r # rs) = (rstart r - index) # range_len r # run_lens (rend r) rs"

lemma from_bytes_loop_decode:
  assumes "varint_encoder enc" "rd_inv r" "rd_stream r = prepend (concat (map (len_bits enc) ns)) (\<lambda>_. False)"
    "\<forall>n\<in>set ns. 0 < n" "tot + sum_list ns < 2 ^ 63"
  shows "from_bytes_loop fuel r nv index tot ranges \<in> {Inr (ranges @ json_fold nv index ns), Inl OutOfFuel}"
  using assms(2-)
proof (induction fuel arbitrary: ns r nv index tot ranges)
  case (Suc fuel)
  show ?case
  proof (cases ns)
    case Nil
    with Suc.prems read_len_end [of r] show ?thesis by auto
  next
    case (Cons n ms)
    with Suc.prems have "\<exists>r'. read_len r = Inr (Some n, r') \<and> rd_inv r' \<and>
        rd_stream r' = prepend (concat (map (len_bits enc) ms)) (\<lambda>_. False)"
      by (intro read_len_prepend [OF assms(1)]) (auto simp: prepend_append)
    then obtain r' where r': "read_len r = Inr (Some n, r')" "rd_inv r'"
      "rd_stream r' = prepend (concat (map (len_bits enc) ms)) (\<lambda>_. False)" by blast
    have rec: "from_bytes_loop fuel r' (\<not> nv) (index + n) (tot + n) qs
        \<in> {Inr (qs @ json_fold (\<not> nv) (index + n) ms), Inl OutOfFuel}" for qs
      using Suc.prems(3,4) Cons by (intro Suc.IH [OF r'(2,3)]) auto
    show ?thesis
      using r'(1) Cons Suc.prems(4) rec [of "ranges @ [Range index (index + n)]"] rec [of ranges]
      by (auto simp: add.commute Let_def)
  qed
qed simp

lemma from_bytes_decode:
  assumes enc: "varint_encoder enc" and ns: "\<forall>n\<in>set ns. 0 < n" "sum_list ns < 2 ^ 63"
    and last: "bytes \<noteq> [] \<longrightarrow> last bytes \<noteq> 0"
    and st: "bytes_bit bytes = prepend (low_bits 2 0 @ low_bits 1 (of_bool nv) @ concat (map (len_bits enc) ns)) (\<lambda>_. False)"
  shows "from_bytes bytes = Inr (from_ranges (json_fold nv 0 ns))"
proof -
  let ?t = "prepend (concat (map (len_bits enc) ns)) (\<lambda>_. False)"
  have "\<exists>r1. BitReader_read 2 (BitReader_new bytes) = (0, r1) \<and> rd_inv r1 \<and>
      rd_stream r1 = prepend (low_bits 1 (of_bool nv)) ?t"
    using st by (intro read_prepend BitReader_new_inv) (auto simp: BitReader_new_stream prepend_append)
  then obtain r1 where r1: "BitReader_read 2 (BitReader_new bytes) = (0, r1)" "rd_inv r1"
    "rd_stream r1 = prepend (low_bits 1 (of_bool nv)) ?t" by blast
  have "\<exists>r2. BitReader_read 1 r1 = (of_bool nv, r2) \<and> rd_inv r2 \<and> rd_stream r2 = ?t"
    using read_bit_prepend [OF r1(2), of ?t] r1(3) by (cases nv) auto
  then obtain r2 where r2: "BitReader_read 1 r1 = (of_bool nv, r2)" "rd_inv r2" "rd_stream r2 = ?t" by blast
  have eq: "from_bytes bytes = res_bind (from_bytes_loop (8 * length bytes + 1) r2 nv 0 0 [])
      (\<lambda>ranges. Inr (from_ranges ranges))"
    using last r1(1) r2(1) by (auto simp: from_bytes_def VERSION_def simp del: One_nat_def)
  have "from_bytes_loop (8 * length bytes + 1) r2 nv 0 0 [] \<in> {Inr ([] @ json_fold nv 0 ns), Inl OutOfFuel}"
    using ns by (intro from_bytes_loop_decode [OF enc r2(2,3)]) auto
  with eq from_bytes_returns [of bytes] show ?thesis by auto
qed

lemma json_fold_run_lens:
  "valid_ranges rs \<Longrightarrow> \<forall>r\<in>set rs. index \<le> rstart r \<Longrightarrow> json_fold False index (run_lens index rs) = rs"
proof (induction rs arbitrary: index)
  case (Cons r rs)
  then have "json_fold False (rend r) (run_lens (rend r) rs) = rs"
    by (intro Cons.IH) (auto simp: valid_ranges_Cons intro: less_imp_le)
  with Cons.prems show ?case by (cases r) (simp add: range_len_def valid_ranges_Cons)
qed simp

lemma run_lens_pos:
  "valid_ranges rs \<Longrightarrow> \<forall>r\<in>set rs. index < rstart r \<Longrightarrow> \<forall>n\<in>set (run_lens index rs). 0 < n"
  by (induction rs arbitrary: index) (auto simp: valid_ranges_Cons range_len_def)

lemma run_lens_sum:
  "valid_ranges rs \<Longrightarrow> \<forall>r\<in>set rs. index \<le> rstart r \<and> rend r < B \<Longrightarrow> index < B \<Longrightarrow>
     index + sum_list (run_lens index rs) < B"
proof (induction rs arbitrary: index)
  case (Cons r rs)
  then have "rend r + sum_list (run_lens (rend r) rs) < B"
    by (intro Cons.IH) (auto simp: valid_ranges_Cons intro: less_imp_le)
  with Cons.prems show ?case by (simp add: range_len_def valid_ranges_Cons)
qed simp

lemma write_ranges_correct:
  "valid_ranges rs \<Longrightarrow> \<forall>r\<in>set rs. index < rstart r \<Longrightarrow> wr_inv w \<Longrightarrow>
     wr_inv (write_ranges enc index rs w) \<and>
     wr_list (write_ranges enc index rs w) = wr_list w @ concat (map (len_bits enc) (run_lens index rs))"
proof (induction rs arbitrary: index w)
  case (Cons r rs)
  let ?w1 = "write_len enc (rstart r - index) w"
  have 1: "wr_inv ?w1 \<and> wr_list ?w1 = wr_list w @ len_bits enc (rstart r - index)"
    using Cons.prems by (intro write_len_correct) auto
  then have 2: "wr_inv (write_len enc (range_len r) ?w1) \<and>
      wr_list (write_len enc (range_len r) ?w1) = wr_list ?w1 @ len_bits enc (range_len r)"
    using Cons.prems by (intro write_len_correct) (auto simp: valid_ranges_Cons range_len_def)
  from Cons.IH [of "rend r" "write_len enc (range_len r) ?w1"] 1 2 Cons.prems show ?case
    by (auto simp: valid_ranges_Cons)
qed simp

text \<open>The bits of an encoding: the version, the value of the first run and the lengths of the runs.\<close>

lemma write_header:
  defines "w nv \<equiv> BitWriter_write (of_bool nv) 1 (BitWriter_write 0 2 BitWriter_new)"
  shows "wr_inv (w nv) \<and> wr_list (w nv) = low_bits 2 0 @ low_bits 1 (of_bool nv)"
proof -
  have 1: "wr_inv (BitWriter_write 0 2 BitWriter_new) \<and> wr_list (BitWriter_write 0 2 BitWriter_new) = low_bits 2 0"
    using BitWriter_write_correct [OF BitWriter_new_correct(1), of 2 0] by (simp add: BitWriter_new_correct)
  moreover have "\<forall>i\<ge>1. \<not> bit (of_bool nv :: 8 word) i" using low_bits_small [of "of_bool nv" 1] by simp
  ultimately show ?thesis
    using BitWriter_write_correct [of "BitWriter_write 0 2 BitWriter_new" 1 "of_bool nv"]
    by (simp add: w_def)
qed

definition stored_runs :: "range list \<Rightarrow> bool \<times> nat list" where
  "stored_runs rs =
     (case rs of
        r # rest \<Rightarrow> if rstart r = 0 then (True, range_len r # run_lens (rend r) rest) else (False, run_lens 0 rs)
      | [] \<Rightarrow> (False, []))"

lemma stored_runs_correct:
  assumes "valid_ranges rs" "\<forall>r\<in>set rs. rend r < 2 ^ 63" "stored_runs rs = (nv, ns)"
  shows "(\<forall>n\<in>set ns. 0 < n) \<and> sum_list ns < 2 ^ 63 \<and> json_fold nv 0 ns = rs"
proof (cases rs)
  case (Cons r rest)
  have rest: "valid_ranges rest" "\<forall>q\<in>set rest. rend r < rstart q" and r: "rstart r < rend r"
    using assms(1) Cons by (auto simp: valid_ranges_Cons)
  have all: "json_fold False (rend r) (run_lens (rend r) rest) = rest"
    "rend r + sum_list (run_lens (rend r) rest) < 2 ^ 63"
    "\<forall>n\<in>set (run_lens (rend r) rest). 0 < n"
    using rest assms(2) Cons
    by (auto intro!: json_fold_run_lens run_lens_sum run_lens_pos [rule_format] intro: less_imp_le)
  show ?thesis
  proof (cases "rstart r = 0")
    case True
    with assms(3) Cons all r show ?thesis by (cases r) (auto simp: stored_runs_def range_len_def)
  next
    case False
    with assms(3) Cons all r show ?thesis by (cases r) (auto simp: stored_runs_def range_len_def)
  qed
qed (use assms in \<open>simp add: stored_runs_def\<close>)

lemma to_bytes_writes:
  assumes "valid_ranges (r # rest)" "BitField_ranges bf = r # rest" "stored_runs (r # rest) = (nv, ns)"
  shows "\<exists>w. to_bytes enc bf = BitWriter_finish w \<and> wr_inv w \<and>
    wr_list w = low_bits 2 0 @ low_bits 1 (of_bool nv) @ concat (map (len_bits enc) ns)"
proof -
  have rest: "valid_ranges rest" "\<forall>q\<in>set rest. rend r < rstart q" and r: "0 < range_len r"
    using assms(1) by (auto simp: valid_ranges_Cons range_len_def)
  let ?h = "\<lambda>nv. BitWriter_write (of_bool nv) 1 (BitWriter_write 0 2 BitWriter_new)"
  let ?w1 = "if rstart r = 0 then ?h True else write_len enc (rstart r) (?h False)"
  let ?w2 = "write_len enc (range_len r) ?w1"
  have w1: "wr_inv ?w1 \<and> wr_list ?w1 = low_bits 2 0 @ low_bits 1 (of_bool nv) @
      (if rstart r = 0 then [] else len_bits enc (rstart r))"
    using write_header [of True] write_header [of False] write_len_correct [of "?h False" "rstart r"]
      assms(3) by (auto simp: stored_runs_def)
  have w2: "wr_inv ?w2 \<and> wr_list ?w2 = wr_list ?w1 @ len_bits enc (range_len r)"
    using w1 r by (intro write_len_correct) auto
  note w3 = write_ranges_correct [OF rest w2 [THEN conjunct1], of enc]
  have "to_bytes enc bf = BitWriter_finish (write_ranges enc (rend r) rest ?w2)"
    using assms(2) by (auto simp: to_bytes_def Let_def)
  moreover have "wr_list (write_ranges enc (rend r) rest ?w2) =
      low_bits 2 0 @ low_bits 1 (of_bool nv) @ concat (map (len_bits enc) ns)"
    using w1 w2 w3 assms(3) by (auto simp: stored_runs_def split: if_splits)
  ultimately show ?thesis using w3 by blast
qed

lemma rleplus_roundtrip:
  assumes "varint_encoder enc" "bf_inv bf" "\<forall>r\<in>set (BitField_ranges bf). rend r < 2 ^ 63"
  shows "from_bytes (to_bytes enc bf) = Inr (from_ranges (BitField_ranges bf))"
proof -
  obtain nv ns where runs: "stored_runs (BitField_ranges bf) = (nv, ns)" by fastforce
  have valid: "valid_ranges (BitField_ranges bf)" using assms(2) by simp
  note ns = stored_runs_correct [OF valid assms(3) runs]
  have "(to_bytes enc bf \<noteq> [] \<longrightarrow> last (to_bytes enc bf) \<noteq> 0) \<and> bytes_bit (to_bytes enc bf) =
      prepend (low_bits 2 0 @ low_bits 1 (of_bool nv) @ concat (map (len_bits enc) ns)) (\<lambda>_. False)"
  proof (cases "BitField_ranges bf")
    case Nil
    with runs have nv: "nv = False" "ns = []" by (auto simp: stored_runs_def)
    have "prepend (low_bits 2 0 @ low_bits 1 0) (\<lambda>_. False) = (\<lambda>_. False)"
      by (rule ext) (simp add: prepend_def low_bits_def nth_append)
    with Nil nv show ?thesis by (simp add: to_bytes_def bytes_bit_prepend)
  next
    case (Cons r rest)
    with to_bytes_writes [of r rest bf nv ns enc] valid runs obtain w where
      "to_bytes enc bf = BitWriter_finish w" "wr_inv w"
      "wr_list w = low_bits 2 0 @ low_bits 1 (of_bool nv) @ concat (map (len_bits enc) ns)" by auto
    with BitWriter_finish_stream [of w] BitWriter_finish_last [of w] show ?thesis by simp
  qed
  with from_bytes_decode [OF assms(1), of ns "to_bytes enc bf" nv] ns show ?thesis by simp
qed

lemma to_bytes_canonical:
  assumes "varint_encoder enc" "bf_inv bf" "bf_inv cf"
    "\<forall>r\<in>set (BitField_ranges bf). rend r < 2 ^ 63" "\<forall>r\<in>set (BitField_ranges cf). rend r < 2 ^ 63"
  shows "to_bytes enc bf = to_bytes enc cf \<longleftrightarrow> bf_bits bf = bf_bits cf"
proof
  assume "to_bytes enc bf = to_bytes enc cf"
  then have "from_ranges (BitField_ranges bf) = from_ranges (BitField_ranges cf)"
    using rleplus_roundtrip [of enc bf] rleplus_roundtrip [of enc cf] assms by simp
  then have "bits (BitField_ranges bf) = bits (BitField_ranges cf)" by (simp add: from_ranges_def)
  then show "bf_bits bf = bf_bits cf" using assms(2,3) by simp
next
  assume "bf_bits bf = bf_bits cf"
  then have "BitField_ranges bf = BitField_ranges cf"
    using assms(2,3) by (intro valid_ranges_unique) auto
  then show "to_bytes enc bf = to_bytes enc cf" by (simp add: to_bytes_def)
qed

section \<open>A concrete encoder\<close>

text \<open>An encoder with the documented format, as an instance of the parameter.\<close>

fun leb128 :: "nat \<Rightarrow> 8 word list" where
  "leb128 n = (if n < 128 then [of_nat n] else of_nat (n mod 128 + 128) # leb128 (n div 128))"

declare leb128.simps [simp del]

lemma nat_and_127: "(n :: nat) AND 127 = n mod 128"
  using take_bit_eq_mask [of 7 n] by (simp add: take_bit_eq_mod mask_eq_exp_minus_1)

lemma nat_and_128: "(n :: nat) AND 128 = (if odd (n div 128) then 128 else 0)"
proof (rule bit_eqI)
  fix i
  have p: "bit (128 :: nat) i \<longleftrightarrow> i = 7" using bit_exp_iff [of 7 i, where ?'a = nat] by auto
  show "bit (n AND 128) i = bit (if odd (n div 128) then 128 else 0 :: nat) i"
    by (auto simp: bit_and_iff p) (auto simp: bit_iff_odd)
qed

lemma byte_and_of_nat:
  "(of_nat m :: 8 word) AND 0x7f = of_nat (m mod 128)"
  "(of_nat m :: 8 word) AND 0x80 = (if odd (m div 128) then 0x80 else 0)"
  using of_nat_and_eq [of m 127, where ?'a = "8 word"] of_nat_and_eq [of m 128, where ?'a = "8 word"]
  by (auto simp: nat_and_127 nat_and_128 split: if_splits)

lemma byte_digit:
  assumes "n < 128"
  shows "(of_nat n :: 8 word) AND 0x7f = of_nat n" "(of_nat n :: 8 word) AND 0x80 = 0"
    "(of_nat (n + 128) :: 8 word) AND 0x7f = of_nat n" "(of_nat (n + 128) :: 8 word) AND 0x80 \<noteq> 0"
    "0 < n \<Longrightarrow> (of_nat n :: 8 word) \<noteq> 0"
proof -
  have "(n + 128) div 128 = 1" using assms by simp
  then show "(of_nat n :: 8 word) AND 0x7f = of_nat n" "(of_nat n :: 8 word) AND 0x80 = 0"
    "(of_nat (n + 128) :: 8 word) AND 0x7f = of_nat n" "(of_nat (n + 128) :: 8 word) AND 0x80 \<noteq> 0"
    "0 < n \<Longrightarrow> (of_nat n :: 8 word) \<noteq> 0"
    using assms byte_and_of_nat [of n] byte_and_of_nat [of "n + 128"]
    by (auto simp: word_of_nat_eq_0_iff dest: nat_dvd_not_less simp del: of_nat_add)
qed

lemma varint_encoder_leb128: "varint_encoder leb128"
proof -
  have "leb128 n \<noteq> [] \<and> varint_value (leb128 n) = n \<and>
      (\<forall>b\<in>set (butlast (leb128 n)). b AND 0x80 \<noteq> 0) \<and> last (leb128 n) AND 0x80 = 0 \<and>
      (0 < n \<longrightarrow> last (leb128 n) \<noteq> 0) \<and> (1 < length (leb128 n) \<longrightarrow> 0 < n)" for n
  proof (induction n rule: leb128.induct)
    case (1 n)
    show ?case
    proof (cases "n < 128")
      case True
      then show ?thesis
        using byte_digit(1,2,5) [of n] by (auto simp: leb128.simps [of n] unat_of_nat)
    next
      case False
      then have "0 < n div 128" by simp
      with 1 [OF False] False byte_digit(3,4) [of "n mod 128"] show ?thesis
        by (auto simp: leb128.simps [of n] unat_of_nat)
    qed
  qed
  then show ?thesis unfolding varint_encoder_def by (metis less_numeral_extra(3))
qed

lemmas to_bytes_eval =
  to_bytes_def BitField_ranges_def from_ranges_def inner_ranges_def ranges_of_set_def Combine_def
  combine_ranges.simps Union_def Difference_def write_len_def BitWriter_write_def BitWriter_new_def
  BitWriter_finish_def leb128.simps

lemma to_bytes_example: "to_bytes leb128 (from_ranges [Range 1 2, Range 4 40]) = [88, 129, 4]"
  by (simp add: to_bytes_eval)

lemma from_bytes_example: "from_bytes [88, 129, 4] = Inr (from_ranges [Range 1 2, Range 4 40])"
proof -
  let ?bf = "from_ranges [Range 1 2, Range 4 40]"
  have r: "BitField_ranges ?bf = [Range 1 2, Range 4 40]" by code_simp
  have "from_bytes (to_bytes leb128 ?bf) = Inr (from_ranges (BitField_ranges ?bf))"
    by (rule rleplus_roundtrip [OF varint_encoder_leb128]) (simp, simp add: r del: One_nat_def)
  then show ?thesis unfolding to_bytes_example r .
qed

section \<open>Properties\<close>

text \<open>C6. Encoding a bit field as RLE+ bytes and decoding the bytes gives the same set of indices: what
  \<open>serialize\<close> accepts, \<open>deserialize\<close> accepts too and returns an equal bit field, with no
  pending changes. This holds for every encoder of variable-length integers with the documented
  format and for indices below $2^{63}$.\<close>

theorem rleplus_serialize_deserialize:
  assumes "varint_encoder enc" "bf_inv bf" "\<forall>p\<in>bf_bits bf. p + 1 < 2 ^ 63"
    "BitField_serialize enc bf = Inr bytes"
  shows "\<exists>bf'. BitField_deserialize bytes = Inr bf' \<and> bf_inv bf' \<and> BitField_eq bf' bf \<and>
    bf' = from_ranges (BitField_ranges bf)"
proof -
  have "from_bytes (to_bytes enc bf) = Inr (from_ranges (BitField_ranges bf))"
    using assms(1,2) BitField_ranges_below [OF assms(2,3)] by (intro rleplus_roundtrip) auto
  with assms(2,4) show ?thesis
    by (auto simp: BitField_serialize_def BitField_deserialize_def Let_def BitField_eq_iff split: if_splits)
qed

theorem rleplus_serialize_deserialize_witness:
  "varint_encoder leb128 \<and> bf_inv (from_ranges [Range 1 2, Range 4 40]) \<and>
   BitField_serialize leb128 (from_ranges [Range 1 2, Range 4 40]) = Inr [88, 129, 4] \<and>
   (\<exists>bf'. BitField_deserialize [88, 129, 4] = Inr bf' \<and> BitField_eq bf' (from_ranges [Range 1 2, Range 4 40]))"
proof -
  have inv: "bf_inv (from_ranges [Range 1 2, Range 4 40])" by simp
  have small: "\<forall>p\<in>bf_bits (from_ranges [Range 1 2, Range 4 40]). p + 1 < 2 ^ 63" by auto
  have ser: "BitField_serialize leb128 (from_ranges [Range 1 2, Range 4 40]) = Inr [88, 129, 4]"
    unfolding BitField_serialize_def to_bytes_example by (simp add: MAX_ENCODED_SIZE_def)
  from rleplus_serialize_deserialize [OF varint_encoder_leb128 inv small ser] inv ser varint_encoder_leb128
  show ?thesis by blast
qed

text \<open>C7. The decoder is safe on arbitrary bytes: its loop ends on every input (the bound on the number of
  lengths it may read is never hit), and every bit field it accepts is well-formed, has no index
  above the range of \<open>u64\<close> and no pending changes; so \<open>validate_mut\<close> on an unvalidated bit
  field either leaves it alone and reports an error or replaces it by a well-formed bit field.\<close>

theorem rleplus_decoder_safe:
  "from_bytes bytes \<noteq> Inl OutOfFuel \<and>
   (\<forall>bf. from_bytes bytes = Inr bf \<longrightarrow>
      bf_inv bf \<and> (\<forall>p\<in>bf_bits bf. p < 2 ^ 64) \<and> bf_set bf = {} \<and> bf_unset bf = {}) \<and>
   (case validate_mut (Unvalidated bytes) of
      (Inl e, u) \<Rightarrow> u = Unvalidated bytes
    | (Inr bf, u) \<Rightarrow> u = Validated bf \<and> bf_inv bf \<and> validate_mut u = (Inr bf, u))"
proof (cases "from_bytes bytes")
  case (Inl e)
  then show ?thesis using from_bytes_returns [of bytes] by (simp add: validate_mut_def)
next
  case (Inr bf)
  note valid = from_bytes_valid [OF Inr]
  then have "bf_bits bf = bits (bf_ranges bf)" by (simp add: bf_bits_def)
  moreover have "\<forall>p\<in>bits (bf_ranges bf). p < 2 ^ 64"
    using valid by (auto simp: bits_def intro: less_trans)
  ultimately show ?thesis using valid Inr by (simp add: validate_mut_def)
qed

theorem rleplus_decoder_safe_witness:
  "from_bytes [88, 129, 4] = Inr (from_ranges [Range 1 2, Range 4 40]) \<and>
   bf_inv (from_ranges [Range 1 2, Range 4 40])"
  using rleplus_decoder_safe [of "[88, 129, 4]"] from_bytes_example by blast

text \<open>C8. The encoding is canonical: two well-formed bit fields (with indices below $2^{63}$) have the
  same bytes exactly when they hold the same indices, whatever changes are pending.\<close>

theorem rleplus_canonical:
  assumes "varint_encoder enc" "bf_inv a" "bf_inv b" "\<forall>p\<in>bf_bits a \<union> bf_bits b. p + 1 < 2 ^ 63"
  shows "to_bytes enc a = to_bytes enc b \<longleftrightarrow> BitField_eq a b"
  using to_bytes_canonical [OF assms(1-3) BitField_ranges_below BitField_ranges_below] assms
  by (simp add: BitField_eq_iff)

theorem rleplus_canonical_witness:
  "varint_encoder leb128 \<and> bf_inv (from_ranges [Range 3 5]) \<and> bf_inv (BitField_set (from_ranges [Range 3 4]) 4) \<and>
   to_bytes leb128 (from_ranges [Range 3 5]) = to_bytes leb128 (BitField_set (from_ranges [Range 3 4]) 4)"
proof -
  let ?a = "from_ranges [Range 3 5]" and ?b = "BitField_set (from_ranges [Range 3 4]) 4"
  have inv: "bf_inv ?a" "bf_inv ?b" by simp_all
  have "bf_bits ?a = bf_bits ?b" "\<forall>p\<in>bf_bits ?a \<union> bf_bits ?b. p + 1 < 2 ^ 63" by auto
  with rleplus_canonical [OF varint_encoder_leb128 inv] inv varint_encoder_leb128 show ?thesis
    by (simp add: BitField_eq_iff)
qed

end
