(* ===== verification/Blockstore.thy ===== *)
theory Blockstore
  imports Prelude
begin

text \<open>
  The content-addressed store that the IPLD data structures are kept in: the trait \<open>BlockStore\<close> of
  \<open>src/ipld/blockstore/src/lib.rs\<close> over the in-memory key-value store. A store maps content
  identifiers to blocks. The CBOR encoding and the hash function are third-party code: a block stands
  for its encoding, and the function from a block to its identifier is the parameter \<open>cid_of\<close>,
  assumed injective (no two blocks that are ever stored collide) where a lemma needs it.
\<close>

type_synonym ('c, 'b) store = "'c \<rightharpoonup> 'b"

section \<open>\<open>BlockStore\<close>\<close>

definition bs_get :: "('c, 'b) store \<Rightarrow> 'c \<Rightarrow> 'b option" where
  "bs_get s c = s c"

definition bs_put :: "('b \<Rightarrow> 'c) \<Rightarrow> 'b \<Rightarrow> ('c, 'b) store \<Rightarrow> 'c \<times> ('c, 'b) store" where
  "bs_put cid_of b s = (let c = cid_of b in (c, s(c \<mapsto> b)))"

fun bulk_put :: "('b \<Rightarrow> 'c) \<Rightarrow> 'b list \<Rightarrow> ('c, 'b) store \<Rightarrow> 'c list \<times> ('c, 'b) store" where
  "bulk_put cid_of [] s = ([], s)"
| "bulk_put cid_of (b # bs) s =
     (let (c, s1) = bs_put cid_of b s; (cs, s2) = bulk_put cid_of bs s1 in (c # cs, s2))"

section \<open>Well-formed stores\<close>

text \<open>Every block is stored under its own identifier.\<close>

definition store_ok :: "('b \<Rightarrow> 'c) \<Rightarrow> ('c, 'b) store \<Rightarrow> bool" where
  "store_ok cid_of s \<longleftrightarrow> (\<forall>c b. s c = Some b \<longrightarrow> c = cid_of b)"

lemma store_ok_empty [simp]: "store_ok cid_of Map.empty"
  by (simp add: store_ok_def)

lemma store_okD: "store_ok cid_of s \<Longrightarrow> s c = Some b \<Longrightarrow> c = cid_of b"
  by (simp add: store_ok_def)

lemma bs_put_ok:
  assumes "bs_put cid_of b s = (c, s')" "store_ok cid_of s"
  shows "store_ok cid_of s'" "c = cid_of b" "s' c = Some b"
  using assms by (auto simp: bs_put_def store_ok_def Let_def split: if_splits)

lemma bs_put_mono:
  assumes "bs_put cid_of b s = (c, s')" "store_ok cid_of s" "inj cid_of"
  shows "s \<subseteq>\<^sub>m s'"
proof (unfold map_le_def, rule ballI)
  fix a assume "a \<in> dom s"
  then obtain y where y: "s a = Some y" by blast
  with assms(2) have "a = cid_of y" by (rule store_okD)
  with assms(1,3) y show "s a = s' a" by (auto simp: bs_put_def Let_def inj_eq)
qed

end
