(* ===== verification/Amt.thy ===== *)
theory Amt
  imports Blockstore "HOL-Library.While_Combinator"
begin

text \<open>
  The array-mapped trie of \<open>src/ipld/amt/src\<close>: a persistent vector whose nodes are blocks of a
  content-addressed store. A node holds its values or the links to its children; a link is the
  identifier of a stored child, with a cache of the loaded child, or a modified child that is not
  stored yet. Every operation that the code performs through \<open>&mut self\<close> or through a cache returns
  the new node. The type \<open>'c\<close> is the type of content identifiers, \<open>'v\<close> that of the values.
\<close>

unbundle bit_operations_syntax

section \<open>Nodes, blocks and errors\<close>

datatype ('c, 'v) amt_node =
    Link (node_links: "('c, 'v) amt_link option list")
  | Leaf (node_vals: "'v option list")
and ('c, 'v) amt_link =
    LCid 'c "('c, 'v) amt_node option"
  | Dirty "('c, 'v) amt_node"

text \<open>The stored form of a node: a bitmap of the occupied slots, the links and the values.\<close>

datatype ('c, 'v) collapsed_node = CollapsedNode "8 word list" "'c list" "'v list"

datatype ('c, 'v) amt_block =
    NodeBlock "('c, 'v) collapsed_node"
  | RootBlock nat nat nat "('c, 'v) collapsed_node"

type_synonym ('c, 'v) amt_store = "('c, ('c, 'v) amt_block) store"

text \<open>
  The errors of the crate. \<open>Panic\<close> stands for a panic of the code (an index out of bounds, a
  subtraction below zero, an \<open>unreachable!\<close>), \<open>Diverges\<close> for a loop that does not end.
\<close>

datatype 'c amt_error =
    OutOfRange nat | MaxHeight nat nat | Cached | CidNotFound 'c | LinksAndValues
  | Other string | Panic string | Diverges

record ('c, 'v) amt =
  bit_width :: nat
  height :: nat
  count :: nat
  root_node :: "('c, 'v) amt_node"

definition DEFAULT_BIT_WIDTH :: nat where
  "DEFAULT_BIT_WIDTH = 3"

definition MAX_HEIGHT :: nat where
  "MAX_HEIGHT = 64"

definition MAX_INDEX :: nat where
  "MAX_INDEX = 2 ^ 64 - 2"

definition nodes_for_height :: "nat \<Rightarrow> nat \<Rightarrow> nat" where
  "nodes_for_height bw h = (if bw * h \<ge> 64 then USIZE_MAX else 2 ^ (bw * h))"

definition init_sized_vec :: "nat \<Rightarrow> 'a option list" where
  "init_sized_vec bw = replicate (2 ^ bw) None"

definition bmap_bytes :: "nat \<Rightarrow> nat" where
  "bmap_bytes bw = (if bw \<le> 3 then 1 else 2 ^ (bw - 3))"

section \<open>The stored form\<close>

text \<open>
  \<open>Serialize for Node\<close>: the loops over the slots of a leaf and of a link node; the latter fails
  on a modified child.
\<close>

definition set_bmap :: "nat \<Rightarrow> 8 word list \<Rightarrow> 8 word list" where
  "set_bmap i bmap = bmap[i div 8 := bmap ! (i div 8) OR push_bit (i mod 8) 1]"

fun collapse_vals :: "nat \<Rightarrow> 'a option list \<Rightarrow> 8 word list \<Rightarrow> 'a list \<Rightarrow> 8 word list \<times> 'a list" where
  "collapse_vals i [] bmap values = (bmap, values)"
| "collapse_vals i (None # vs) bmap values = collapse_vals (i + 1) vs bmap values"
| "collapse_vals i (Some v # vs) bmap values = collapse_vals (i + 1) vs (set_bmap i bmap) (values @ [v])"

fun collapse_links ::
  "nat \<Rightarrow> ('c, 'v) amt_link option list \<Rightarrow> 8 word list \<Rightarrow> 'c list \<Rightarrow> ('c amt_error, 8 word list \<times> 'c list) res" where
  "collapse_links i [] bmap cids = Inr (bmap, cids)"
| "collapse_links i (None # ls) bmap cids = collapse_links (i + 1) ls bmap cids"
| "collapse_links i (Some (LCid c cache) # ls) bmap cids = collapse_links (i + 1) ls (set_bmap i bmap) (cids @ [c])"
| "collapse_links i (Some (Dirty n) # ls) bmap cids = Inl Cached"

definition empty_bmap :: "nat \<Rightarrow> 8 word list" where
  "empty_bmap len = replicate ((len - 1) div 8 + 1) 0"

definition node_collapse :: "('c, 'v) amt_node \<Rightarrow> ('c amt_error, ('c, 'v) collapsed_node) res" where
  "node_collapse n =
     (case n of
        Leaf vals \<Rightarrow>
          let (bmap, values) = collapse_vals 0 vals (empty_bmap (length vals)) []
          in Inr (CollapsedNode bmap [] values)
      | Link links \<Rightarrow>
          res_bind (collapse_links 0 links (empty_bmap (length links)) [])
            (\<lambda>(bmap, cids). Inr (CollapsedNode bmap cids [])))"

text \<open>
  \<open>CollapsedNode::expand\<close>: the loop over the slots, for the links or the values; it returns the
  slots and what is left of the iterator.
\<close>

definition bmap_test :: "8 word list \<Rightarrow> nat \<Rightarrow> bool" where
  "bmap_test bmap i \<longleftrightarrow> bmap ! (i div 8) AND push_bit (i mod 8) 1 \<noteq> 0"

fun expand_slots :: "nat \<Rightarrow> nat \<Rightarrow> 8 word list \<Rightarrow> 'a list \<Rightarrow> ('c amt_error, 'a option list \<times> 'a list) res" where
  "expand_slots i 0 bmap it = Inr ([], it)"
| "expand_slots i (Suc k) bmap it =
     (if bmap_test bmap i
      then case it of
             [] \<Rightarrow> Inl (Other ''Bitmap contained more set bits than provided'')
           | x # rest \<Rightarrow>
               res_bind (expand_slots (i + 1) k bmap rest) (\<lambda>(slots, it'). Inr (Some x # slots, it'))
      else res_bind (expand_slots (i + 1) k bmap it) (\<lambda>(slots, it'). Inr (None # slots, it')))"

definition expand_all :: "nat \<Rightarrow> 8 word list \<Rightarrow> 'a list \<Rightarrow> ('c amt_error, 'a option list) res" where
  "expand_all bw bmap xs =
     res_bind (expand_slots 0 (2 ^ bw) bmap xs)
       (\<lambda>(slots, rest). if rest \<noteq> [] then Inl (Other ''Bitmap contained less set bits than provided'')
                        else Inr slots)"

definition node_expand :: "nat \<Rightarrow> ('c, 'v) collapsed_node \<Rightarrow> ('c amt_error, ('c, 'v) amt_node) res" where
  "node_expand bw cn =
     (case cn of CollapsedNode bmap links values \<Rightarrow>
        if links \<noteq> [] \<and> values \<noteq> [] then Inl LinksAndValues
        else if bmap_bytes bw \<noteq> length bmap then Inl (Other ''unexpected bitfield length'')
        else if links \<noteq> [] then
          res_bind (expand_all bw bmap links)
            (\<lambda>slots. Inr (Link (map (map_option (\<lambda>c. LCid c None)) slots)))
        else res_bind (expand_all bw bmap values) (\<lambda>slots. Inr (Leaf slots)))"

text \<open>The typed reads of the store.\<close>

definition get_collapsed :: "('c, 'v) amt_store \<Rightarrow> 'c \<Rightarrow> ('c amt_error, ('c, 'v) collapsed_node) res" where
  "get_collapsed s c =
     (case bs_get s c of
        None \<Rightarrow> Inl (CidNotFound c)
      | Some (NodeBlock cn) \<Rightarrow> Inr cn
      | Some (RootBlock _ _ _ _) \<Rightarrow> Inl (Other ''cannot decode node''))"

text \<open>The node behind a link: the modified child, the cache, or the expanded block.\<close>

definition link_load :: "('c, 'v) amt_store \<Rightarrow> nat \<Rightarrow> ('c, 'v) amt_link \<Rightarrow> ('c amt_error, ('c, 'v) amt_node) res" where
  "link_load s bw l =
     (case l of
        Dirty n \<Rightarrow> Inr n
      | LCid c (Some n) \<Rightarrow> Inr n
      | LCid c None \<Rightarrow> res_bind (get_collapsed s c) (node_expand bw))"

text \<open>The link after its node was loaded or changed in place (the cache is filled).\<close>

definition link_with :: "('c, 'v) amt_link \<Rightarrow> ('c, 'v) amt_node \<Rightarrow> ('c, 'v) amt_link" where
  "link_with l n = (case l of Dirty _ \<Rightarrow> Dirty n | LCid c _ \<Rightarrow> LCid c (Some n))"

section \<open>Operations on nodes\<close>

definition node_empty :: "('c, 'v) amt_node" where
  "node_empty = Leaf []"

definition node_is_empty :: "('c, 'v) amt_node \<Rightarrow> bool" where
  "node_is_empty n =
     (case n of Link links \<Rightarrow> list_all (\<lambda>l. l = None) links | Leaf vals \<Rightarrow> list_all (\<lambda>v. v = None) vals)"

definition can_collapse :: "('c, 'v) amt_node \<Rightarrow> bool" where
  "can_collapse n =
     (case n of
        Link (Some l # ls) \<Rightarrow> list_all (\<lambda>l. l = None) ls
      | _ \<Rightarrow> False)"

text \<open>\<open>slice::get\<close> on a list of optional entries, flattened.\<close>

definition slot :: "'a option list \<Rightarrow> nat \<Rightarrow> 'a option" where
  "slot xs i = (if i < length xs then xs ! i else None)"

fun node_get ::
  "('c, 'v) amt_store \<Rightarrow> nat \<Rightarrow> nat \<Rightarrow> ('c, 'v) amt_node \<Rightarrow> nat \<Rightarrow>
   ('c amt_error, 'v option) res \<times> ('c, 'v) amt_node" where
  "node_get s bw h (Leaf vals) i = (Inr (slot vals i), Leaf vals)"
| "node_get s bw h (Link links) i =
     (let sub_i = i div nodes_for_height bw h in
      case slot links sub_i of
        None \<Rightarrow> (Inr None, Link links)
      | Some l \<Rightarrow>
          (case link_load s bw l of
             Inl e \<Rightarrow> (Inl e, Link links)
           | Inr sub \<Rightarrow>
               (case h of
                  0 \<Rightarrow> (Inl (Panic ''height underflow''), Link links)
                | Suc h' \<Rightarrow>
                    let (r, sub') = node_get s bw h' sub (i mod nodes_for_height bw h)
                    in (r, Link (links[sub_i := Some (link_with l sub')])))))"

definition set_leaf :: "('c, 'v) amt_node \<Rightarrow> nat \<Rightarrow> 'v \<Rightarrow> ('c amt_error, 'v option) res \<times> ('c, 'v) amt_node" where
  "set_leaf n i val =
     (case n of
        Leaf vals \<Rightarrow>
          if i < length vals then (Inr (vals ! i), Leaf (vals[i := Some val]))
          else (Inl (Panic ''unwrap of None''), n)
      | Link _ \<Rightarrow> (Inl (Panic ''set_leaf should never be called on a shard of links''), n))"

fun node_set ::
  "('c, 'v) amt_store \<Rightarrow> nat \<Rightarrow> nat \<Rightarrow> ('c, 'v) amt_node \<Rightarrow> nat \<Rightarrow> 'v \<Rightarrow>
   ('c amt_error, 'v option) res \<times> ('c, 'v) amt_node" where
  "node_set s bw 0 n i val = set_leaf n i val"
| "node_set s bw (Suc h) (Leaf vals) i val = (Inl (Panic ''should not be handled''), Leaf vals)"
| "node_set s bw (Suc h) (Link links) i val =
     (let nfh = nodes_for_height bw (Suc h); idx = i div nfh in
      if idx \<ge> length links then (Inl (Panic ''index out of bounds''), Link links)
      else
        case (case links ! idx of
                Some l \<Rightarrow> link_load s bw l
              | None \<Rightarrow> Inr (if h = 0 then Leaf (init_sized_vec bw) else Link (init_sized_vec bw))) of
          Inl e \<Rightarrow> (Inl e, Link links)
        | Inr sub \<Rightarrow>
            let (r, sub') = node_set s bw h sub (i mod nfh) val
            in (r, Link (links[idx := Some (Dirty sub')])))"

fun node_delete ::
  "('c, 'v) amt_store \<Rightarrow> nat \<Rightarrow> nat \<Rightarrow> ('c, 'v) amt_node \<Rightarrow> nat \<Rightarrow>
   ('c amt_error, 'v option) res \<times> ('c, 'v) amt_node" where
  "node_delete s bw h (Leaf vals) i = (Inr (slot vals i), Leaf (vals[i := None]))"
| "node_delete s bw h (Link links) i =
     (let sub_i = i div nodes_for_height bw h in
      if sub_i \<ge> length links then (Inl (Panic ''index out of bounds''), Link links)
      else
        case links ! sub_i of
          None \<Rightarrow> (Inr None, Link links)
        | Some l \<Rightarrow>
            (case link_load s bw l of
               Inl e \<Rightarrow> (Inl e, Link links)
             | Inr sub \<Rightarrow>
                 (case h of
                    0 \<Rightarrow> (Inl (Panic ''height underflow''), Link links)
                  | Suc h' \<Rightarrow>
                      (case node_delete s bw h' sub (i mod nodes_for_height bw h) of
                         (Inr (Some v), sub') \<Rightarrow>
                           (Inr (Some v),
                            Link (links[sub_i := if node_is_empty sub' then None else Some (Dirty sub')]))
                       | (r, sub') \<Rightarrow> (r, Link (links[sub_i := Some (link_with l sub')]))))))"

text \<open>
  \<open>Node::flush\<close>: the loop over the links; a modified child is flushed, stored and replaced by its
  identifier, with the child in the cache. It stops at the first error.
\<close>

fun node_flush ::
  "(('c, 'v) amt_block \<Rightarrow> 'c) \<Rightarrow> ('c, 'v) amt_node \<Rightarrow> ('c, 'v) amt_store \<Rightarrow>
   ('c amt_error, unit) res \<times> ('c, 'v) amt_node \<times> ('c, 'v) amt_store"
and flush_links ::
  "(('c, 'v) amt_block \<Rightarrow> 'c) \<Rightarrow> ('c, 'v) amt_link option list \<Rightarrow> ('c, 'v) amt_store \<Rightarrow>
   ('c amt_error, unit) res \<times> ('c, 'v) amt_link option list \<times> ('c, 'v) amt_store" where
  "node_flush cid_of (Leaf vals) s = (Inr (), Leaf vals, s)"
| "node_flush cid_of (Link links) s =
     (let (r, links', s') = flush_links cid_of links s in (r, Link links', s'))"
| "flush_links cid_of [] s = (Inr (), [], s)"
| "flush_links cid_of (Some (Dirty n) # ls) s =
     (case node_flush cid_of n s of
        (Inl e, n', s1) \<Rightarrow> (Inl e, Some (Dirty n') # ls, s1)
      | (Inr _, n', s1) \<Rightarrow>
          (case node_collapse n' of
             Inl e \<Rightarrow> (Inl e, Some (Dirty n') # ls, s1)
           | Inr cn \<Rightarrow>
               let (c, s2) = bs_put cid_of (NodeBlock cn) s1;
                   (r, ls', s3) = flush_links cid_of ls s2
               in (r, Some (LCid c (Some n')) # ls', s3)))"
| "flush_links cid_of (l # ls) s =
     (let (r, ls', s') = flush_links cid_of ls s in (r, l # ls', s'))"

text \<open>
  The loops of \<open>for_each_while\<close> and \<open>for_each_while_mut\<close> over the occupied slots of a node. The
  function is given the position, the entry and the state of the closure; it returns whether to go
  on, the new entry and the new state.
\<close>

fun each_slot ::
  "(nat \<Rightarrow> 'x \<Rightarrow> 'a \<Rightarrow> ('e, bool) res \<times> 'x \<times> 'a) \<Rightarrow> nat \<Rightarrow> 'x option list \<Rightarrow> 'a \<Rightarrow>
   ('e, bool) res \<times> 'x option list \<times> 'a" where
  "each_slot f i [] a = (Inr True, [], a)"
| "each_slot f i (None # xs) a = (let (r, ys, a') = each_slot f (i + 1) xs a in (r, None # ys, a'))"
| "each_slot f i (Some x # xs) a =
     (case f i x a of
        (Inr True, x', a1) \<Rightarrow> let (r, ys, a2) = each_slot f (i + 1) xs a1 in (r, Some x' # ys, a2)
      | (r, x', a1) \<Rightarrow> (r, Some x' # xs, a1))"

fun node_for_each_while ::
  "('c, 'v) amt_store \<Rightarrow> nat \<Rightarrow> nat \<Rightarrow> nat \<Rightarrow> (nat \<Rightarrow> 'v \<Rightarrow> 'a \<Rightarrow> ('c amt_error, bool) res \<times> 'a) \<Rightarrow>
   ('c, 'v) amt_node \<Rightarrow> 'a \<Rightarrow> ('c amt_error, bool) res \<times> ('c, 'v) amt_node \<times> 'a" where
  "node_for_each_while s bw h offset f (Leaf vals) a =
     (let (r, vals', a') = each_slot (\<lambda>i v a. let (r, a') = f (offset + i) v a in (r, v, a')) 0 vals a
      in (r, Leaf vals', a'))"
| "node_for_each_while s bw h offset f (Link links) a =
     (let (r, links', a') =
        each_slot (\<lambda>i l a.
          case link_load s bw l of
            Inl e \<Rightarrow> (Inl e, l, a)
          | Inr sub \<Rightarrow>
              (case h of
                 0 \<Rightarrow> (Inl (Panic ''height underflow''), l, a)
               | Suc h' \<Rightarrow>
                   let (r, sub', a') =
                     node_for_each_while s bw h' (offset + i * nodes_for_height bw h) f sub a
                   in (r, link_with l sub', a'))) 0 links a
      in (r, Link links', a'))"

text \<open>
  In \<open>for_each_while_mut\<close> the closure also returns the value and whether it took it mutably (the
  flag of \<open>ValueMut\<close>). A stored child in which a value was taken mutably becomes a modified child.
\<close>

fun node_for_each_while_mut ::
  "('c, 'v) amt_store \<Rightarrow> nat \<Rightarrow> nat \<Rightarrow> nat \<Rightarrow>
   (nat \<Rightarrow> 'v \<Rightarrow> 'a \<Rightarrow> ('c amt_error, bool) res \<times> ('v \<times> bool) \<times> 'a) \<Rightarrow>
   ('c, 'v) amt_node \<Rightarrow> 'a \<Rightarrow> ('c amt_error, bool \<times> bool) res \<times> ('c, 'v) amt_node \<times> 'a" where
  "node_for_each_while_mut s bw h offset f (Leaf vals) a =
     (let (r, vals', (a', did_mutate)) =
        each_slot (\<lambda>i v (a, did_mutate).
          let (r, (v', changed), a') = f (offset + i) v a in (r, v', (a', did_mutate \<or> changed))) 0 vals (a, False)
      in (res_bind r (\<lambda>keep_going. Inr (keep_going, did_mutate)), Leaf vals', a'))"
| "node_for_each_while_mut s bw h offset f (Link links) a =
     (let (r, links', (a', did_mutate)) =
        each_slot (\<lambda>i l (a, did_mutate).
          case link_load s bw l of
            Inl e \<Rightarrow> (Inl e, l, (a, did_mutate))
          | Inr sub \<Rightarrow>
              (case h of
                 0 \<Rightarrow> (Inl (Panic ''height underflow''), l, (a, did_mutate))
               | Suc h' \<Rightarrow>
                   (case node_for_each_while_mut s bw h' (offset + i * nodes_for_height bw h) f sub a of
                      (Inl e, sub', a') \<Rightarrow> (Inl e, link_with l sub', (a', did_mutate))
                    | (Inr (keep_going, did_mutate_node), sub', a') \<Rightarrow>
                        (Inr keep_going,
                         if did_mutate_node then Dirty sub' else link_with l sub',
                         (a', did_mutate \<or> did_mutate_node))))) 0 links (a, False)
      in (res_bind r (\<lambda>keep_going. Inr (keep_going, did_mutate)), Link links', a'))"

section \<open>Operations on the trie\<close>

definition amt_new_with_bit_width :: "nat \<Rightarrow> ('c, 'v) amt" where
  "amt_new_with_bit_width bw = \<lparr>bit_width = bw, height = 0, count = 0, root_node = Leaf (init_sized_vec bw)\<rparr>"

definition amt_new :: "('c, 'v) amt" where
  "amt_new = amt_new_with_bit_width DEFAULT_BIT_WIDTH"

definition amt_load :: "('c, 'v) amt_store \<Rightarrow> 'c \<Rightarrow> ('c amt_error, ('c, 'v) amt) res" where
  "amt_load s c =
     (case bs_get s c of
        None \<Rightarrow> Inl (CidNotFound c)
      | Some (NodeBlock _) \<Rightarrow> Inl (Other ''cannot decode root'')
      | Some (RootBlock bw h cnt cn) \<Rightarrow>
          res_bind (node_expand bw cn) (\<lambda>n.
            if h > MAX_HEIGHT then Inl (MaxHeight h MAX_HEIGHT)
            else Inr \<lparr>bit_width = bw, height = h, count = cnt, root_node = n\<rparr>))"

definition amt_get ::
  "('c, 'v) amt_store \<Rightarrow> ('c, 'v) amt \<Rightarrow> nat \<Rightarrow> ('c amt_error, 'v option) res \<times> ('c, 'v) amt" where
  "amt_get s a i =
     (if i > MAX_INDEX then (Inl (OutOfRange i), a)
      else if i \<ge> nodes_for_height (bit_width a) (height a + 1) then (Inr None, a)
      else let (r, n) = node_get s (bit_width a) (height a) (root_node a) i in (r, a\<lparr>root_node := n\<rparr>))"

text \<open>One iteration of the loop of \<open>set\<close> that adds a level at the root.\<close>

definition grow_root :: "('c, 'v) amt \<Rightarrow> ('c, 'v) amt" where
  "grow_root a =
     (let n = (if \<not> node_is_empty (root_node a)
               then Link ((init_sized_vec (bit_width a))[0 := Some (Dirty (root_node a))])
               else Link (init_sized_vec (bit_width a)))
      in a\<lparr>root_node := n, height := height a + 1\<rparr>)"

definition grow_loop :: "nat \<Rightarrow> ('c, 'v) amt \<Rightarrow> ('c, 'v) amt option" where
  "grow_loop i = while_option (\<lambda>a. i \<ge> nodes_for_height (bit_width a) (height a + 1)) grow_root"

definition amt_set ::
  "('c, 'v) amt_store \<Rightarrow> ('c, 'v) amt \<Rightarrow> nat \<Rightarrow> 'v \<Rightarrow> ('c amt_error, unit) res \<times> ('c, 'v) amt" where
  "amt_set s a i val =
     (if i > MAX_INDEX then (Inl (OutOfRange i), a)
      else case grow_loop i a of
             None \<Rightarrow> (Inl Diverges, a)
           | Some a1 \<Rightarrow>
               (case node_set s (bit_width a1) (height a1) (root_node a1) i val of
                  (Inl e, n) \<Rightarrow> (Inl e, a1\<lparr>root_node := n\<rparr>)
                | (Inr prev, n) \<Rightarrow>
                    (Inr (), a1\<lparr>root_node := n, count := (if prev = None then count a1 + 1 else count a1)\<rparr>)))"

fun batch_set_from ::
  "('c, 'v) amt_store \<Rightarrow> nat \<Rightarrow> 'v list \<Rightarrow> ('c, 'v) amt \<Rightarrow> ('c amt_error, unit) res \<times> ('c, 'v) amt" where
  "batch_set_from s i [] a = (Inr (), a)"
| "batch_set_from s i (v # vs) a =
     (case amt_set s a i v of
        (Inl e, a') \<Rightarrow> (Inl e, a')
      | (Inr _, a') \<Rightarrow> batch_set_from s (i + 1) vs a')"

definition amt_batch_set ::
  "('c, 'v) amt_store \<Rightarrow> ('c, 'v) amt \<Rightarrow> 'v list \<Rightarrow> ('c amt_error, unit) res \<times> ('c, 'v) amt" where
  "amt_batch_set s a vals = batch_set_from s 0 vals a"

text \<open>The loop of \<open>delete\<close> that moves the only child up into the root; it returns node and height.\<close>

fun collapse_root ::
  "('c, 'v) amt_store \<Rightarrow> nat \<Rightarrow> nat \<Rightarrow> ('c, 'v) amt_node \<Rightarrow>
   ('c amt_error, unit) res \<times> nat \<times> ('c, 'v) amt_node" where
  "collapse_root s bw 0 n = (Inr (), 0, n)"
| "collapse_root s bw (Suc h) n =
     (if can_collapse n
      then case node_links n of
             Some l # _ \<Rightarrow>
               (case link_load s bw l of
                  Inl e \<Rightarrow> (Inl e, Suc h, n)
                | Inr sub \<Rightarrow> collapse_root s bw h sub)
           | _ \<Rightarrow> (Inl (Panic ''First index checked to be Some in can_collapse''), Suc h, n)
      else (Inr (), Suc h, n))"

definition amt_delete ::
  "('c, 'v) amt_store \<Rightarrow> ('c, 'v) amt \<Rightarrow> nat \<Rightarrow> ('c amt_error, 'v option) res \<times> ('c, 'v) amt" where
  "amt_delete s a i =
     (if i > MAX_INDEX then (Inl (OutOfRange i), a)
      else if i \<ge> nodes_for_height (bit_width a) (height a + 1) then (Inr None, a)
      else
        case node_delete s (bit_width a) (height a) (root_node a) i of
          (Inr (Some v), n) \<Rightarrow>
            let a1 = a\<lparr>root_node := n, count := count a - 1\<rparr> in
            if node_is_empty n
            then (Inr (Some v), a1\<lparr>root_node := Leaf (init_sized_vec (bit_width a)), height := 0\<rparr>)
            else (case collapse_root s (bit_width a) (height a) n of
                    (Inl e, h, n') \<Rightarrow> (Inl e, a1\<lparr>root_node := n', height := h\<rparr>)
                  | (Inr _, h, n') \<Rightarrow> (Inr (Some v), a1\<lparr>root_node := n', height := h\<rparr>))
        | (r, n) \<Rightarrow> (r, a\<lparr>root_node := n\<rparr>))"

text \<open>The loop of \<open>batch_delete\<close> over the sorted indices.\<close>

fun batch_delete_sorted ::
  "('c, 'v) amt_store \<Rightarrow> bool \<Rightarrow> bool \<Rightarrow> nat list \<Rightarrow> ('c, 'v) amt \<Rightarrow> ('c amt_error, bool) res \<times> ('c, 'v) amt" where
  "batch_delete_sorted s strict modified [] a = (Inr modified, a)"
| "batch_delete_sorted s strict modified (i # is) a =
     (case amt_delete s a i of
        (Inl e, a') \<Rightarrow> (Inl e, a')
      | (Inr deleted, a') \<Rightarrow>
          let found = (deleted = None) in
          if strict \<and> found then (Inl (Other ''no such index in Amt for batch delete''), a')
          else batch_delete_sorted s strict (modified \<or> found) is a')"

definition amt_batch_delete ::
  "('c, 'v) amt_store \<Rightarrow> ('c, 'v) amt \<Rightarrow> nat list \<Rightarrow> bool \<Rightarrow> ('c amt_error, bool) res \<times> ('c, 'v) amt" where
  "amt_batch_delete s a is strict = batch_delete_sorted s strict False (sort is) a"

definition amt_flush ::
  "(('c, 'v) amt_block \<Rightarrow> 'c) \<Rightarrow> ('c, 'v) amt_store \<Rightarrow> ('c, 'v) amt \<Rightarrow>
   ('c amt_error, 'c) res \<times> ('c, 'v) amt \<times> ('c, 'v) amt_store" where
  "amt_flush cid_of s a =
     (case node_flush cid_of (root_node a) s of
        (Inl e, n, s1) \<Rightarrow> (Inl e, a\<lparr>root_node := n\<rparr>, s1)
      | (Inr _, n, s1) \<Rightarrow>
          (case node_collapse n of
             Inl e \<Rightarrow> (Inl e, a\<lparr>root_node := n\<rparr>, s1)
           | Inr cn \<Rightarrow>
               let (c, s2) = bs_put cid_of (RootBlock (bit_width a) (height a) (count a) cn) s1
               in (Inr c, a\<lparr>root_node := n\<rparr>, s2)))"

definition amt_new_from_iter ::
  "(('c, 'v) amt_block \<Rightarrow> 'c) \<Rightarrow> ('c, 'v) amt_store \<Rightarrow> 'v list \<Rightarrow> ('c amt_error, 'c) res \<times> ('c, 'v) amt_store" where
  "amt_new_from_iter cid_of s vals =
     (case amt_batch_set s amt_new vals of
        (Inl e, _) \<Rightarrow> (Inl e, s)
      | (Inr _, t) \<Rightarrow> let (r, _, s') = amt_flush cid_of s t in (r, s'))"

definition amt_for_each_while ::
  "('c, 'v) amt_store \<Rightarrow> (nat \<Rightarrow> 'v \<Rightarrow> 'a \<Rightarrow> ('c amt_error, bool) res \<times> 'a) \<Rightarrow> ('c, 'v) amt \<Rightarrow> 'a \<Rightarrow>
   ('c amt_error, unit) res \<times> ('c, 'v) amt \<times> 'a" where
  "amt_for_each_while s f a x =
     (let (r, n, x') = node_for_each_while s (bit_width a) (height a) 0 f (root_node a) x
      in (res_bind r (\<lambda>_. Inr ()), a\<lparr>root_node := n\<rparr>, x'))"

definition amt_for_each ::
  "('c, 'v) amt_store \<Rightarrow> (nat \<Rightarrow> 'v \<Rightarrow> 'a \<Rightarrow> ('c amt_error, unit) res \<times> 'a) \<Rightarrow> ('c, 'v) amt \<Rightarrow> 'a \<Rightarrow>
   ('c amt_error, unit) res \<times> ('c, 'v) amt \<times> 'a" where
  "amt_for_each s f a x =
     amt_for_each_while s (\<lambda>i v x. let (r, x') = f i v x in (res_bind r (\<lambda>_. Inr True), x')) a x"

text \<open>\<open>for_each_while_mut\<close> without the feature \<open>go-interop\<close>.\<close>

definition amt_for_each_while_mut ::
  "('c, 'v) amt_store \<Rightarrow> (nat \<Rightarrow> 'v \<Rightarrow> 'a \<Rightarrow> ('c amt_error, bool) res \<times> ('v \<times> bool) \<times> 'a) \<Rightarrow> ('c, 'v) amt \<Rightarrow> 'a \<Rightarrow>
   ('c amt_error, unit) res \<times> ('c, 'v) amt \<times> 'a" where
  "amt_for_each_while_mut s f a x =
     (let (r, n, x') = node_for_each_while_mut s (bit_width a) (height a) 0 f (root_node a) x
      in (res_bind r (\<lambda>_. Inr ()), a\<lparr>root_node := n\<rparr>, x'))"

end
