(* ===== verification/Amt_Correct.thy ===== *)
theory Amt_Correct
  imports Amt
begin

text \<open>
  Correctness of the array-mapped trie. \<open>node_map\<close> abstracts a node, together with the store, to
  the partial function from indices to values it stands for, and \<open>node_inv\<close> is the invariant of
  nodes: full width, children of the right height and not empty, and caches that agree with the
  store. The operations are then the operations on partial functions; a flushed trie reads back as
  itself; and its root identifier is determined by the contents alone.
\<close>

unbundle bit_operations_syntax

section \<open>The stored form of a node\<close>

lemma bmap_test_bit: "bmap_test bmap i \<longleftrightarrow> bit (bmap ! (i div 8)) (i mod 8)"
  by (simp add: bmap_test_def push_bit_eq_mult and_exp_eq_0_iff_not_bit)

lemma length_set_bmap [simp]: "length (set_bmap i bmap) = length bmap"
  by (simp add: set_bmap_def)

lemma bmap_test_set_bmap:
  assumes "i < 8 * length bmap" "j < 8 * length bmap"
  shows "bmap_test (set_bmap i bmap) j \<longleftrightarrow> bmap_test bmap j \<or> i = j"
proof -
  have "i div 8 < length bmap" "j div 8 < length bmap" using assms by linarith+
  moreover have "j mod 8 < 8" by simp
  moreover have "i = j \<longleftrightarrow> i div 8 = j div 8 \<and> i mod 8 = j mod 8" by (metis div_mod_decomp)
  ultimately show ?thesis
    by (auto simp: bmap_test_bit set_bmap_def nth_list_update bit_or_iff push_bit_eq_mult bit_exp_iff)
qed

definition slot_vals :: "'a option list \<Rightarrow> 'a list" where
  "slot_vals vs = concat (map (\<lambda>v. case v of None \<Rightarrow> [] | Some x \<Rightarrow> [x]) vs)"

lemma slot_vals_simps [simp]:
  "slot_vals [] = []" "slot_vals (None # vs) = slot_vals vs" "slot_vals (Some x # vs) = x # slot_vals vs"
  by (simp_all add: slot_vals_def)

lemma slot_vals_Nil: "slot_vals vs = [] \<longleftrightarrow> list_all (\<lambda>v. v = None) vs"
  by (auto simp: slot_vals_def list_all_iff split: option.splits)

lemma collapse_vals_spec:
  assumes "collapse_vals i vs bmap xs = (bmap', xs')" "i + length vs \<le> 8 * length bmap"
  shows "xs' = xs @ slot_vals vs \<and> length bmap' = length bmap \<and>
    (\<forall>j<8 * length bmap. bmap_test bmap' j \<longleftrightarrow>
       bmap_test bmap j \<or> i \<le> j \<and> j < i + length vs \<and> vs ! (j - i) \<noteq> None)"
  using assms
proof (induction i vs bmap xs rule: collapse_vals.induct)
  case (2 i vs bmap xs)
  then have IH: "xs' = xs @ slot_vals vs" "length bmap' = length bmap"
    "\<forall>j<8 * length bmap. bmap_test bmap' j \<longleftrightarrow>
       bmap_test bmap j \<or> Suc i \<le> j \<and> j < Suc i + length vs \<and> vs ! (j - Suc i) \<noteq> None" by auto
  moreover have "(i \<le> j \<and> j < i + length (None # vs) \<and> (None # vs) ! (j - i) \<noteq> None) \<longleftrightarrow>
      (Suc i \<le> j \<and> j < Suc i + length vs \<and> vs ! (j - Suc i) \<noteq> None)" for j
    by (auto simp: nth_Cons' dest: le_neq_implies_less)
  ultimately show ?case by simp
next
  case (3 i v vs bmap xs)
  then have IH: "xs' = (xs @ [v]) @ slot_vals vs" "length bmap' = length bmap"
    "\<forall>j<8 * length bmap. bmap_test bmap' j \<longleftrightarrow>
       bmap_test (set_bmap i bmap) j \<or> Suc i \<le> j \<and> j < Suc i + length vs \<and> vs ! (j - Suc i) \<noteq> None" by auto
  moreover have "(i \<le> j \<and> j < i + length (Some v # vs) \<and> (Some v # vs) ! (j - i) \<noteq> None) \<longleftrightarrow>
      i = j \<or> (Suc i \<le> j \<and> j < Suc i + length vs \<and> vs ! (j - Suc i) \<noteq> None)" for j
    by (auto simp: nth_Cons' dest: le_neq_implies_less)
  moreover have "bmap_test (set_bmap i bmap) j \<longleftrightarrow> bmap_test bmap j \<or> i = j" if "j < 8 * length bmap" for j
    using that 3 by (intro bmap_test_set_bmap) auto
  ultimately show ?case by auto
qed auto

lemma expand_slots_spec:
  assumes "\<forall>j<length vs. bmap_test bmap (i + j) \<longleftrightarrow> vs ! j \<noteq> None"
  shows "expand_slots i (length vs) bmap (slot_vals vs @ rest) = Inr (vs, rest)"
  using assms
proof (induction vs arbitrary: i)
  case (Cons v vs)
  have "\<forall>j<length vs. bmap_test bmap (i + 1 + j) \<longleftrightarrow> vs ! j \<noteq> None"
    using Cons.prems by (auto dest: spec [of _ "Suc _"])
  from Cons.IH [OF this] Cons.prems show ?case by (cases v) auto
qed simp

lemma length_empty_bmap: "length (empty_bmap (2 ^ bw)) = bmap_bytes bw"
proof (cases "bw \<le> 3")
  case True
  then have "(2 :: nat) ^ bw \<le> 2 ^ 3" by (intro power_increasing) auto
  then have "((2 :: nat) ^ bw - 1) div 8 = 0" by simp
  with True show ?thesis by (simp add: empty_bmap_def bmap_bytes_def)
next
  case False
  define m :: nat where "m = 2 ^ (bw - 3)"
  have "(2 :: nat) ^ bw = 8 * m" using False power_add [of "2 :: nat" 3 "bw - 3"] by (simp add: m_def)
  moreover have "0 < m" by (simp add: m_def)
  then have "(8 * m - 1) div 8 + 1 = m" by (cases m) auto
  ultimately show ?thesis using False by (simp add: empty_bmap_def bmap_bytes_def m_def)
qed

lemma bmap_test_empty: "j < 8 * length (empty_bmap n) \<Longrightarrow> \<not> bmap_test (empty_bmap n) j"
  using nth_replicate [of "j div 8" "length (empty_bmap n)" "0 :: 8 word"]
  by (simp add: bmap_test_bit empty_bmap_def del: replicate_Suc)

lemma empty_bmap_room: "n \<le> 8 * length (empty_bmap n)"
  by (simp add: empty_bmap_def)

lemma expand_all_collapse_vals:
  assumes "length vs = 2 ^ bw" "collapse_vals 0 vs (empty_bmap (length vs)) [] = (bmap, xs)"
  shows "expand_all bw bmap xs = Inr vs \<and> length bmap = bmap_bytes bw \<and> xs = slot_vals vs"
proof -
  have room: "0 + length vs \<le> 8 * length (empty_bmap (length vs))" using empty_bmap_room by simp
  note spec = collapse_vals_spec [OF assms(2) room]
  have "\<forall>j<length vs. bmap_test bmap (0 + j) \<longleftrightarrow> vs ! j \<noteq> None"
    using spec room bmap_test_empty [of _ "length vs"] by auto
  note slots = expand_slots_spec [OF this, of "[]", simplified]
  from spec assms(1) show ?thesis
    by (simp add: expand_all_def length_empty_bmap slots [unfolded assms(1)])
qed

text \<open>The identifier of a link, and the lists of links that can be serialized.\<close>

fun link_cid :: "('c, 'v) amt_link \<Rightarrow> 'c" where
  "link_cid (LCid c cache) = c"
| "link_cid (Dirty n) = undefined"

definition is_dirty :: "('c, 'v) amt_link \<Rightarrow> bool" where
  "is_dirty l = (case l of Dirty _ \<Rightarrow> True | LCid _ _ \<Rightarrow> False)"

lemma is_dirty_simps [simp]: "is_dirty (Dirty n)" "\<not> is_dirty (LCid c cache)"
  by (simp_all add: is_dirty_def)

definition clean_links :: "('c, 'v) amt_link option list \<Rightarrow> bool" where
  "clean_links links = list_all (\<lambda>l. case l of None \<Rightarrow> True | Some l \<Rightarrow> \<not> is_dirty l) links"

lemma clean_links_iff: "clean_links links \<longleftrightarrow> (\<forall>l. Some l \<in> set links \<longrightarrow> \<not> is_dirty l)"
  by (auto simp: clean_links_def list_all_iff split: option.splits)

lemma clean_links_simps [simp]:
  "clean_links []" "clean_links (None # ls) = clean_links ls"
  "clean_links (Some l # ls) \<longleftrightarrow> \<not> is_dirty l \<and> clean_links ls"
  by (auto simp: clean_links_def)

lemma clean_links_update:
  "k < length links \<Longrightarrow> links ! k = Some l \<Longrightarrow> is_dirty l' = is_dirty l \<Longrightarrow>
     clean_links (links[k := Some l']) = clean_links links"
  unfolding clean_links_def list_all_length length_list_update
  by (rule all_cong) (auto simp: nth_list_update)

lemma collapse_links_clean:
  "collapse_links i ls bmap cids =
     (if clean_links ls then Inr (collapse_vals i (map (map_option link_cid) ls) bmap cids) else Inl Cached)"
  by (induction i ls bmap cids rule: collapse_links.induct) auto

lemma node_collapse_Link:
  "node_collapse (Link links) =
     (if clean_links links
      then let (bmap, cids) = collapse_vals 0 (map (map_option link_cid) links) (empty_bmap (length links)) []
           in Inr (CollapsedNode bmap cids [])
      else Inl Cached)"
  by (simp add: node_collapse_def collapse_links_clean Let_def split: prod.splits)

lemma node_collapse_Link_cong:
  "clean_links ls = clean_links ms \<Longrightarrow>
   map (map_option link_cid) ls = map (map_option link_cid) ms \<Longrightarrow> length ls = length ms \<Longrightarrow>
   node_collapse (Link ls) = node_collapse (Link ms)"
  by (simp add: node_collapse_Link)

text \<open>Expanding the stored form gives the node back, with empty caches.\<close>

lemma node_expand_Leaf:
  assumes "length vals = 2 ^ bw"
  shows "\<exists>cn. node_collapse (Leaf vals) = Inr cn \<and> node_expand bw cn = Inr (Leaf vals)"
proof -
  obtain bmap xs where c: "collapse_vals 0 vals (empty_bmap (length vals)) [] = (bmap, xs)" by fastforce
  note e = expand_all_collapse_vals [OF assms c]
  show ?thesis
    by (simp add: node_collapse_def c node_expand_def e [THEN conjunct1] e [THEN conjunct2, THEN conjunct1])
qed

lemma node_expand_Link:
  assumes "length links = 2 ^ bw" "node_collapse (Link links) = Inr cn" "\<not> node_is_empty (Link links)"
  shows "node_expand bw cn = Inr (Link (map (map_option (\<lambda>l. LCid (link_cid l) None)) links))"
proof -
  let ?cs = "map (map_option link_cid) links"
  obtain bmap xs where c: "collapse_vals 0 ?cs (empty_bmap (length ?cs)) [] = (bmap, xs)" by fastforce
  have "length ?cs = 2 ^ bw" by (simp add: assms(1))
  note e = expand_all_collapse_vals [OF this c]
  have "cn = CollapsedNode bmap xs []" using assms(2) c by (auto simp: node_collapse_Link split: if_splits)
  moreover have "xs \<noteq> []" using e assms(3)
    by (auto simp: slot_vals_Nil node_is_empty_def list_all_iff)
  ultimately show ?thesis
    by (simp add: node_expand_def option.map_comp o_def e [THEN conjunct1] e [THEN conjunct2, THEN conjunct1])
qed

section \<open>Abstraction and invariant\<close>

text \<open>The number of indices below a node at the given height.\<close>

definition span :: "nat \<Rightarrow> nat \<Rightarrow> nat" where
  "span bw h = 2 ^ (bw * h)"

lemma span_pos [simp]: "0 < span bw h"
  by (simp add: span_def)

lemma span_0 [simp]: "span bw 0 = 1"
  by (simp add: span_def)

lemma span_Suc: "span bw (Suc h) = 2 ^ bw * span bw h"
  by (simp add: span_def power_add)

fun node_map :: "('c, 'v) amt_store \<Rightarrow> nat \<Rightarrow> nat \<Rightarrow> ('c, 'v) amt_node \<Rightarrow> nat \<Rightarrow> 'v option" where
  "node_map s bw 0 n i = (case n of Leaf vals \<Rightarrow> slot vals i | Link _ \<Rightarrow> None)"
| "node_map s bw (Suc h) n i =
     (case n of
        Leaf _ \<Rightarrow> None
      | Link links \<Rightarrow>
          (case slot links (i div span bw (Suc h)) of
             None \<Rightarrow> None
           | Some l \<Rightarrow>
               (case link_load s bw l of
                  Inl _ \<Rightarrow> None
                | Inr sub \<Rightarrow> node_map s bw h sub (i mod span bw (Suc h)))))"

definition link_map :: "('c, 'v) amt_store \<Rightarrow> nat \<Rightarrow> nat \<Rightarrow> ('c, 'v) amt_link \<Rightarrow> nat \<Rightarrow> 'v option" where
  "link_map s bw h l i = (case link_load s bw l of Inl _ \<Rightarrow> None | Inr sub \<Rightarrow> node_map s bw h sub i)"

fun node_inv :: "('c, 'v) amt_store \<Rightarrow> nat \<Rightarrow> nat \<Rightarrow> ('c, 'v) amt_node \<Rightarrow> bool" where
  "node_inv s bw 0 n \<longleftrightarrow> (\<exists>vals. n = Leaf vals \<and> length vals = 2 ^ bw)"
| "node_inv s bw (Suc h) n \<longleftrightarrow>
     (\<exists>links. n = Link links \<and> length links = 2 ^ bw \<and>
        (\<forall>l. Some l \<in> set links \<longrightarrow>
           (\<exists>sub. link_load s bw l = Inr sub \<and> node_inv s bw h sub \<and> \<not> node_is_empty sub \<and>
              (\<forall>c cache. l = LCid c cache \<longrightarrow>
                 (\<exists>cn. node_collapse sub = Inr cn \<and> s c = Some (NodeBlock cn))))))"

definition link_inv :: "('c, 'v) amt_store \<Rightarrow> nat \<Rightarrow> nat \<Rightarrow> ('c, 'v) amt_link \<Rightarrow> bool" where
  "link_inv s bw h l \<longleftrightarrow>
     (\<exists>sub. link_load s bw l = Inr sub \<and> node_inv s bw h sub \<and> \<not> node_is_empty sub \<and>
        (\<forall>c cache. l = LCid c cache \<longrightarrow> (\<exists>cn. node_collapse sub = Inr cn \<and> s c = Some (NodeBlock cn))))"

text \<open>Nodes that differ only in what their caches hold.\<close>

definition node_same ::
  "('c, 'v) amt_store \<Rightarrow> nat \<Rightarrow> nat \<Rightarrow> ('c, 'v) amt_node \<Rightarrow> ('c, 'v) amt_node \<Rightarrow> bool" where
  "node_same s bw h n n' \<longleftrightarrow> node_inv s bw h n' \<and> node_map s bw h n' = node_map s bw h n \<and>
     node_collapse n' = node_collapse n \<and> node_is_empty n' = node_is_empty n"

lemma node_same_refl [simp]: "node_inv s bw h n \<Longrightarrow> node_same s bw h n n"
  by (simp add: node_same_def)

lemma node_inv_Suc:
  "node_inv s bw (Suc h) n \<longleftrightarrow>
     (\<exists>links. n = Link links \<and> length links = 2 ^ bw \<and> (\<forall>l. Some l \<in> set links \<longrightarrow> link_inv s bw h l))"
  by (simp add: link_inv_def)

lemma node_map_Link:
  "node_map s bw (Suc h) (Link links) i =
     (case slot links (i div span bw (Suc h)) of
        None \<Rightarrow> None | Some l \<Rightarrow> link_map s bw h l (i mod span bw (Suc h)))"
  by (simp add: link_map_def split: option.splits)

declare node_inv.simps(2) [simp del] node_map.simps(2) [simp del]

lemma slot_Some: "slot xs k = Some x \<longleftrightarrow> k < length xs \<and> xs ! k = Some x"
  by (auto simp: slot_def)

lemma slot_update: "k < length xs \<Longrightarrow> slot (xs[k := x]) j = (if j = k then x else slot xs j)"
  by (auto simp: slot_def)

lemma slot_replicate_None [simp]: "slot (replicate n None) k = None"
  by (auto simp: slot_def)

lemma block_lt: "(i :: nat) < span bw (Suc (Suc h)) \<longleftrightarrow> i div span bw (Suc h) < 2 ^ bw"
  by (simp add: span_Suc [of bw "Suc h"] div_less_iff_less_mult)

lemma node_map_bound: "node_inv s bw h n \<Longrightarrow> node_map s bw h n i \<noteq> None \<Longrightarrow> i < span bw (Suc h)"
proof (cases h)
  case 0
  then show "node_inv s bw h n \<Longrightarrow> node_map s bw h n i \<noteq> None \<Longrightarrow> i < span bw (Suc h)"
    by (auto simp: slot_def span_def split: if_splits)
next
  case (Suc k)
  then show "node_inv s bw h n \<Longrightarrow> node_map s bw h n i \<noteq> None \<Longrightarrow> i < span bw (Suc h)"
    unfolding Suc block_lt by (auto simp: node_inv_Suc node_map_Link slot_def split: option.splits if_splits)
qed

lemma node_map_finite: "node_inv s bw h n \<Longrightarrow> finite (dom (node_map s bw h n))"
  by (rule finite_subset [of _ "{..<span bw (Suc h)}"]) (auto dest: node_map_bound)

lemma node_nonempty_iff:
  "node_inv s bw h n \<Longrightarrow> node_is_empty n \<longleftrightarrow> node_map s bw h n = Map.empty"
proof (induction h arbitrary: n)
  case 0
  then obtain vals where n: "n = Leaf vals" by auto
  have "list_all (\<lambda>v. v = None) vals \<longleftrightarrow> (\<forall>i. slot vals i = None)"
    by (auto simp: slot_def list_all_length)
  with n show ?case by (auto simp: node_is_empty_def fun_eq_iff)
next
  case (Suc h)
  then obtain links where n: "n = Link links" and links: "\<And>l. Some l \<in> set links \<Longrightarrow> link_inv s bw h l"
    by (auto simp: node_inv_Suc)
  show ?case
  proof (cases "node_is_empty n")
    case True
    then have "slot links k = None" for k by (auto simp: n node_is_empty_def slot_def list_all_length)
    with True show ?thesis by (simp add: n node_map_Link fun_eq_iff)
  next
    case False
    then obtain k l where k: "k < length links" "links ! k = Some l"
      by (auto simp: n node_is_empty_def list_all_length)
    then have "link_inv s bw h l" using links by (metis nth_mem)
    then obtain sub where sub: "link_load s bw l = Inr sub" "node_inv s bw h sub" "\<not> node_is_empty sub"
      by (auto simp: link_inv_def)
    then obtain i where i: "node_map s bw h sub i \<noteq> None" using Suc.IH by (auto simp: fun_eq_iff)
    then have "i < span bw (Suc h)" using node_map_bound sub(2) by blast
    then have "node_map s bw (Suc h) n (k * span bw (Suc h) + i) \<noteq> None"
      using k i sub(1) by (simp add: n node_map_Link slot_def link_map_def)
    with False show ?thesis by auto
  qed
qed

section \<open>Changing one link\<close>

lemma link_inv_Dirty [simp]: "link_inv s bw h (Dirty n) \<longleftrightarrow> node_inv s bw h n \<and> \<not> node_is_empty n"
  by (auto simp: link_inv_def link_load_def)

lemma link_map_Dirty [simp]: "link_map s bw h (Dirty n) = node_map s bw h n"
  by (simp add: link_map_def link_load_def fun_eq_iff)

lemma link_load_link_with [simp]: "link_load s bw (link_with l n) = Inr n"
  by (cases l) (simp_all add: link_load_def link_with_def)

lemma link_with_simps [simp]: "link_cid (link_with (LCid c cache) n) = c" "is_dirty (link_with l n) = is_dirty l"
  "map_option link_cid (Some (link_with (LCid c cache) n)) = Some c"
  by (cases l; simp add: link_with_def)+

lemma link_with_same:
  assumes "link_inv s bw h l" "link_load s bw l = Inr sub" "node_same s bw h sub sub'"
  shows "link_inv s bw h (link_with l sub')" "link_map s bw h (link_with l sub') = link_map s bw h l"
proof -
  show "link_inv s bw h (link_with l sub')"
    using assms by (cases l) (auto simp: link_inv_def node_same_def link_with_def link_load_def)
  show "link_map s bw h (link_with l sub') = link_map s bw h l"
    using assms(2,3) by (auto simp: link_map_def node_same_def fun_eq_iff)
qed

lemma link_invE:
  assumes "link_inv s bw h l"
  obtains sub where "link_load s bw l = Inr sub" "node_inv s bw h sub" "\<not> node_is_empty sub"
    "link_map s bw h l = node_map s bw h sub"
  using assms that by (auto simp: link_inv_def link_map_def fun_eq_iff)

text \<open>Replacing the entry at position \<open>k\<close> of a link node.\<close>

lemma node_update_link:
  assumes "node_inv s bw (Suc h) (Link links)" "k < 2 ^ bw" "\<And>l. entry = Some l \<Longrightarrow> link_inv s bw h l"
  shows "node_inv s bw (Suc h) (Link (links[k := entry]))"
    and "node_map s bw (Suc h) (Link (links[k := entry])) i =
      (if i div span bw (Suc h) = k
       then (case entry of None \<Rightarrow> None | Some l \<Rightarrow> link_map s bw h l (i mod span bw (Suc h)))
       else node_map s bw (Suc h) (Link links) i)"
  using assms
  by (auto simp: node_inv_Suc node_map_Link slot_update dest!: set_update_subset_insert [THEN subsetD])

lemma node_update_same:
  assumes "node_inv s bw (Suc h) (Link links)" "k < 2 ^ bw" "links ! k = Some l"
    "link_load s bw l = Inr sub" "node_same s bw h sub sub'"
  shows "node_same s bw (Suc h) (Link links) (Link (links[k := Some (link_with l sub')]))"
proof -
  have k: "k < length links" using assms(1,2) by (simp add: node_inv_Suc)
  then have inv: "link_inv s bw h l" using assms(1,3) by (auto simp: node_inv_Suc) (metis nth_mem)
  note same = link_with_same [OF inv assms(4,5)]
  let ?ls = "links[k := Some (link_with l sub')]"
  have "node_map s bw (Suc h) (Link ?ls) i = node_map s bw (Suc h) (Link links) i" for i
    using node_update_link(2) [OF assms(1,2), of "Some (link_with l sub')"] same k assms(3)
    by (auto simp: node_map_Link slot_def)
  moreover have "node_collapse (Link ?ls) = node_collapse (Link links)"
  proof (cases "is_dirty l")
    case True
    have "Some l \<in> set links" "Some (link_with l sub') \<in> set ?ls"
      using k assms(3) by (metis nth_mem, metis set_update_memI)
    with True show ?thesis by (auto simp: node_collapse_Link clean_links_iff)
  next
    case False
    then obtain c cache where l: "l = LCid c cache" by (cases l) auto
    have "clean_links ?ls = clean_links links"
      using clean_links_update [OF k assms(3)] by simp
    moreover have "map (map_option link_cid) ?ls = map (map_option link_cid) links"
      using k assms(3) l by (auto simp: map_update list_update_same_conv)
    ultimately show ?thesis by (intro node_collapse_Link_cong) simp_all
  qed
  moreover have "node_is_empty (Link ?ls) = node_is_empty (Link links)"
    using k assms(3) by (auto simp: node_is_empty_def list_all_length nth_list_update)
  ultimately show ?thesis
    using node_update_link(1) [OF assms(1,2), of "Some (link_with l sub')"] same(1)
    by (auto simp: node_same_def fun_eq_iff)
qed

section \<open>\<open>get\<close>, \<open>set\<close> and \<open>delete\<close> on nodes\<close>

lemma nodes_for_height_span: "bw * h < 64 \<Longrightarrow> nodes_for_height bw h = span bw h"
  by (simp add: nodes_for_height_def span_def)

lemma node_get_correct:
  assumes "node_inv s bw h n" "bw * h < 64"
  shows "fst (node_get s bw h n i) = Inr (node_map s bw h n i) \<and> node_same s bw h n (snd (node_get s bw h n i))"
  using assms
proof (induction h arbitrary: n i)
  case (Suc h)
  then obtain links where n: "n = Link links" and len: "length links = 2 ^ bw"
    and links: "\<And>l. Some l \<in> set links \<Longrightarrow> link_inv s bw h l" by (auto simp: node_inv_Suc)
  have w: "nodes_for_height bw (Suc h) = span bw (Suc h)" using Suc.prems by (simp add: nodes_for_height_span)
  let ?k = "i div span bw (Suc h)"
  show ?case
  proof (cases "slot links ?k")
    case None
    with Suc.prems show ?thesis by (simp add: n w node_map_Link)
  next
    case (Some l)
    then have k: "?k < 2 ^ bw" "links ! ?k = Some l" using len by (auto simp: slot_Some)
    then have "link_inv s bw h l" using links len by (metis nth_mem)
    then obtain sub where sub: "link_load s bw l = Inr sub" "node_inv s bw h sub" "link_map s bw h l = node_map s bw h sub"
      by (rule link_invE)
    obtain r sub' where g: "node_get s bw h sub (i mod span bw (Suc h)) = (r, sub')" by fastforce
    have IH: "r = Inr (node_map s bw h sub (i mod span bw (Suc h)))" "node_same s bw h sub sub'"
      using Suc.IH [OF sub(2), of "i mod span bw (Suc h)"] Suc.prems(2) g by auto
    from node_update_same [OF Suc.prems(1) [unfolded n] k sub(1) IH(2)] show ?thesis
      using sub IH(1) Some g by (simp add: n w node_map_Link)
  qed
qed auto

lemma fresh_node:
  "node_inv s bw h (if h = 0 then Leaf (init_sized_vec bw) else Link (init_sized_vec bw))"
  "node_map s bw h (if h = 0 then Leaf (init_sized_vec bw) else Link (init_sized_vec bw)) i = None"
  by (cases h; auto simp: node_inv_Suc node_map_Link init_sized_vec_def)+

lemma node_set_correct:
  assumes "node_inv s bw h n" "bw * h < 64" "i < span bw (Suc h)"
  shows "\<exists>n'. node_set s bw h n i v = (Inr (node_map s bw h n i), n') \<and> node_inv s bw h n' \<and>
    node_map s bw h n' = (node_map s bw h n)(i \<mapsto> v)"
  using assms
proof (induction h arbitrary: n i)
  case 0
  then obtain vals where "n = Leaf vals" "length vals = 2 ^ bw" by auto
  with 0 show ?case by (auto simp: set_leaf_def slot_def span_def fun_eq_iff)
next
  case (Suc h)
  then obtain links where n: "n = Link links" and len: "length links = 2 ^ bw"
    and links: "\<And>l. Some l \<in> set links \<Longrightarrow> link_inv s bw h l" by (auto simp: node_inv_Suc)
  have w: "nodes_for_height bw (Suc h) = span bw (Suc h)" using Suc.prems by (simp add: nodes_for_height_span)
  define k where "k = i div span bw (Suc h)"
  define j where "j = i mod span bw (Suc h)"
  have k: "k < 2 ^ bw" using Suc.prems(3) block_lt by (simp add: k_def)
  define ld where "ld = (case links ! k of Some l \<Rightarrow> link_load s bw l
    | None \<Rightarrow> Inr (if h = 0 then Leaf (init_sized_vec bw) else Link (init_sized_vec bw)))"
  obtain sub where sub: "ld = Inr sub" "node_inv s bw h sub"
    "\<And>j. node_map s bw h sub j = (case links ! k of None \<Rightarrow> None | Some l \<Rightarrow> link_map s bw h l j)"
  proof (cases "links ! k")
    case None
    show ?thesis by (rule that [OF _ fresh_node(1)]) (simp_all only: ld_def None fresh_node(2) option.case)
  next
    case (Some l)
    then have "link_inv s bw h l" using links len k by (metis nth_mem)
    with that Some show ?thesis by (elim link_invE) (simp add: ld_def)
  qed
  have j: "j < span bw (Suc h)" and bw: "bw * h < 64" using Suc.prems(2) by (simp_all add: j_def)
  obtain sub' where sub': "node_set s bw h sub j v = (Inr (node_map s bw h sub j), sub')"
    "node_inv s bw h sub'" "node_map s bw h sub' = (node_map s bw h sub)(j \<mapsto> v)"
    using Suc.IH [OF sub(2) bw j] by blast
  have "\<not> node_is_empty sub'" using node_nonempty_iff [OF sub'(2)] sub'(3) by (auto simp: fun_eq_iff)
  then have upd: "node_inv s bw (Suc h) (Link (links[k := Some (Dirty sub')]))"
    "\<And>i'. node_map s bw (Suc h) (Link (links[k := Some (Dirty sub')])) i' =
      (if i' div span bw (Suc h) = k then node_map s bw h sub' (i' mod span bw (Suc h))
       else node_map s bw (Suc h) (Link links) i')"
    using node_update_link [OF Suc.prems(1) [unfolded n] k, of "Some (Dirty sub')"] sub'(2) by auto
  have old: "node_map s bw (Suc h) n i' =
      (case slot links (i' div span bw (Suc h)) of None \<Rightarrow> None | Some l \<Rightarrow> link_map s bw h l (i' mod span bw (Suc h)))" for i'
    by (simp add: n node_map_Link)
  have "node_map s bw (Suc h) (Link (links[k := Some (Dirty sub')])) = (node_map s bw (Suc h) n)(i \<mapsto> v)"
  proof
    fix i'
    have "i' = i \<longleftrightarrow> i' div span bw (Suc h) = k \<and> i' mod span bw (Suc h) = j"
      unfolding k_def j_def by (metis div_mod_decomp)
    then show "node_map s bw (Suc h) (Link (links[k := Some (Dirty sub')])) i' = ((node_map s bw (Suc h) n)(i \<mapsto> v)) i'"
      using k len by (auto simp: upd old sub'(3) sub(3) slot_def n [symmetric])
  qed
  moreover have "node_map s bw (Suc h) n i = node_map s bw h sub j"
    using k len by (cases "links ! k") (simp_all add: old sub(3) slot_def k_def [symmetric] j_def [symmetric])
  moreover have "node_set s bw (Suc h) n i v = (Inr (node_map s bw h sub j), Link (links[k := Some (Dirty sub')]))"
    using sub'(1) sub(1) k len by (simp add: n w k_def [symmetric] j_def [symmetric] ld_def [symmetric])
  ultimately show ?case using upd(1) by metis
qed

lemma node_delete_correct:
  assumes "node_inv s bw h n" "bw * h < 64" "i < span bw (Suc h)"
  shows "\<exists>n'. node_delete s bw h n i = (Inr (node_map s bw h n i), n') \<and> node_inv s bw h n' \<and>
    node_map s bw h n' = (node_map s bw h n)(i := None) \<and>
    (node_map s bw h n i = None \<longrightarrow> node_same s bw h n n')"
  using assms
proof (induction h arbitrary: n i)
  case 0
  then obtain vals where "n = Leaf vals" "length vals = 2 ^ bw" by auto
  moreover have "vals ! i = None \<Longrightarrow> vals[i := None] = vals" by (metis list_update_id)
  ultimately show ?case using 0 by (auto simp: slot_def span_def fun_eq_iff)
next
  case (Suc h)
  then obtain links where n: "n = Link links" and len: "length links = 2 ^ bw"
    and links: "\<And>l. Some l \<in> set links \<Longrightarrow> link_inv s bw h l" by (auto simp: node_inv_Suc)
  have w: "nodes_for_height bw (Suc h) = span bw (Suc h)" using Suc.prems by (simp add: nodes_for_height_span)
  define k where "k = i div span bw (Suc h)"
  define j where "j = i mod span bw (Suc h)"
  have k: "k < 2 ^ bw" using Suc.prems(3) block_lt by (simp add: k_def)
  have j: "j < span bw (Suc h)" and bw: "bw * h < 64" using Suc.prems(2) by (simp_all add: j_def)
  have eqi: "i' = i \<longleftrightarrow> i' div span bw (Suc h) = k \<and> i' mod span bw (Suc h) = j" for i'
    unfolding k_def j_def by (metis div_mod_decomp)
  have old: "node_map s bw (Suc h) n i' =
      (case slot links (i' div span bw (Suc h)) of None \<Rightarrow> None | Some l \<Rightarrow> link_map s bw h l (i' mod span bw (Suc h)))" for i'
    by (simp add: n node_map_Link)
  show ?case
  proof (cases "links ! k")
    case None
    then have "node_map s bw (Suc h) n i = None" using k len by (simp add: old slot_def k_def)
    with None Suc.prems(1) k len show ?thesis
      by (auto simp: n w k_def [symmetric] fun_upd_idem_iff)
  next
    case (Some l)
    then have "link_inv s bw h l" using links len k by (metis nth_mem)
    then obtain sub where sub: "link_load s bw l = Inr sub" "node_inv s bw h sub" "link_map s bw h l = node_map s bw h sub"
      by (rule link_invE)
    obtain sub' where sub': "node_delete s bw h sub j = (Inr (node_map s bw h sub j), sub')"
      "node_inv s bw h sub'" "node_map s bw h sub' = (node_map s bw h sub)(j := None)"
      "node_map s bw h sub j = None \<longrightarrow> node_same s bw h sub sub'"
      using Suc.IH [OF sub(2) bw j] by (elim exE conjE) (rule that)
    have at_i: "node_map s bw (Suc h) n i = node_map s bw h sub j"
      using k len Some by (simp add: old sub(3) slot_def k_def [symmetric] j_def [symmetric])
    show ?thesis
    proof (cases "node_map s bw h sub j")
      case None
      with sub' have same: "node_same s bw (Suc h) n (Link (links[k := Some (link_with l sub')]))"
        unfolding n by (intro node_update_same [OF Suc.prems(1) [unfolded n] k Some sub(1)]) simp
      then have "node_map s bw (Suc h) (Link (links[k := Some (link_with l sub')])) = (node_map s bw (Suc h) n)(i := None)"
        using at_i None by (simp add: node_same_def fun_upd_idem)
      moreover have "node_delete s bw (Suc h) n i = (Inr None, Link (links[k := Some (link_with l sub')]))"
        using None Some sub(1) sub'(1) k len by (simp add: n w k_def [symmetric] j_def [symmetric])
      ultimately show ?thesis using same at_i None unfolding node_same_def by metis
    next
      case (Some v)
      let ?e = "if node_is_empty sub' then None else Some (Dirty sub')"
      note upd = node_update_link [OF Suc.prems(1) [unfolded n] k, of ?e]
      have "node_inv s bw (Suc h) (Link (links[k := ?e]))" using upd(1) sub'(2) by (auto split: if_splits)
      moreover have "node_map s bw (Suc h) (Link (links[k := ?e])) = (node_map s bw (Suc h) n)(i := None)"
      proof
        fix i'
        have e: "(case ?e of None \<Rightarrow> None | Some l \<Rightarrow> link_map s bw h l x) = ((node_map s bw h sub)(j := None)) x" for x
          using node_nonempty_iff [OF sub'(2)] sub'(3) by (auto simp: fun_eq_iff)
        show "node_map s bw (Suc h) (Link (links[k := ?e])) i' = ((node_map s bw (Suc h) n)(i := None)) i'"
          using e [of "i' mod span bw (Suc h)"] upd(2) [of i'] sub'(2) eqi [of i'] k len \<open>links ! k = Some l\<close> sub(3)
          by (auto simp: old slot_def n [symmetric] split: if_splits)
      qed
      moreover have "node_delete s bw (Suc h) n i = (Inr (Some v), Link (links[k := ?e]))"
        using Some \<open>links ! k = Some l\<close> sub(1) sub'(1) k len
        by (simp add: n w k_def [symmetric] j_def [symmetric])
      ultimately show ?thesis using Some at_i by (metis option.distinct(1))
    qed
  qed
qed

section \<open>Growing stores\<close>

lemma link_load_mono:
  assumes "s \<subseteq>\<^sub>m s'" "link_inv s bw h l"
  shows "link_load s' bw l = link_load s bw l"
proof (cases l)
  case (LCid c cache)
  with assms(2) obtain cn where "s c = Some (NodeBlock cn)" by (auto simp: link_inv_def)
  moreover from this assms(1) have "s' c = Some (NodeBlock cn)" by (auto simp: map_le_def dom_def)
  ultimately show ?thesis using LCid
    by (cases cache) (simp_all add: link_load_def get_collapsed_def bs_get_def)
qed (simp add: link_load_def)

lemma node_mono:
  assumes "s \<subseteq>\<^sub>m s'" "node_inv s bw h n"
  shows "node_inv s' bw h n \<and> node_map s' bw h n = node_map s bw h n"
  using assms(2)
proof (induction h arbitrary: n)
  case (Suc h)
  then obtain links where n: "n = Link links" and len: "length links = 2 ^ bw"
    and links: "\<And>l. Some l \<in> set links \<Longrightarrow> link_inv s bw h l" by (auto simp: node_inv_Suc)
  have step: "link_inv s' bw h l \<and> link_map s' bw h l = link_map s bw h l" if "link_inv s bw h l" for l
  proof -
    obtain sub where sub: "link_load s bw l = Inr sub" "node_inv s bw h sub" "\<not> node_is_empty sub"
      using \<open>link_inv s bw h l\<close> by (rule link_invE)
    have "s c = Some b \<Longrightarrow> s' c = Some b" for c b using assms(1) by (auto simp: map_le_def dom_def)
    with that sub Suc.IH [OF sub(2)] link_load_mono [OF assms(1) that] show ?thesis
      by (auto simp: link_inv_def link_map_def fun_eq_iff)
  qed
  have "node_map s' bw (Suc h) n i = node_map s bw (Suc h) n i" for i
  proof (cases "slot links (i div span bw (Suc h))")
    case (Some l)
    then have "Some l \<in> set links" by (metis slot_Some nth_mem)
    with Some step [OF links] show ?thesis by (simp add: n node_map_Link)
  qed (simp add: n node_map_Link)
  with step links len show ?case by (auto simp: n node_inv_Suc)
qed (auto simp: fun_eq_iff)

lemma link_mono:
  assumes "s \<subseteq>\<^sub>m s'" "link_inv s bw h l"
  shows "link_inv s' bw h l \<and> link_map s' bw h l = link_map s bw h l"
proof -
  obtain sub where sub: "link_load s bw l = Inr sub" "node_inv s bw h sub" using assms(2) by (rule link_invE)
  have "s c = Some b \<Longrightarrow> s' c = Some b" for c b using assms(1) by (auto simp: map_le_def dom_def)
  with sub node_mono [OF assms(1) sub(2)] link_load_mono [OF assms] assms(2) show ?thesis
    by (auto simp: link_inv_def link_map_def fun_eq_iff)
qed

section \<open>\<open>flush\<close>\<close>

text \<open>A flushed list of links: the same children, all of them stored.\<close>

definition links_stored ::
  "('c, 'v) amt_store \<Rightarrow> ('c, 'v) amt_store \<Rightarrow> nat \<Rightarrow> nat \<Rightarrow> ('c, 'v) amt_link option list \<Rightarrow>
   ('c, 'v) amt_link option list \<Rightarrow> bool" where
  "links_stored s s' bw h =
     list_all2 (rel_option (\<lambda>l l'. \<not> is_dirty l' \<and> link_inv s' bw h l' \<and> link_map s' bw h l' = link_map s bw h l))"

definition flush_ok ::
  "(('c, 'v) amt_block \<Rightarrow> 'c) \<Rightarrow> nat \<Rightarrow> nat \<Rightarrow> ('c, 'v) amt_store \<Rightarrow> ('c, 'v) amt_node \<Rightarrow> bool" where
  "flush_ok cid_of bw h s n \<longleftrightarrow>
     (\<exists>n' s' cn. node_flush cid_of n s = (Inr (), n', s') \<and> node_collapse n' = Inr cn \<and>
        s \<subseteq>\<^sub>m s' \<and> store_ok cid_of s' \<and> node_inv s' bw h n' \<and>
        node_map s' bw h n' = node_map s bw h n \<and> node_is_empty n' = node_is_empty n)"

lemma flush_dirty_link:
  assumes "inj cid_of" "flush_ok cid_of bw h s n" "\<not> node_is_empty n"
  obtains n' s1 cn c s2 where "node_flush cid_of n s = (Inr (), n', s1)" "node_collapse n' = Inr cn"
    "bs_put cid_of (NodeBlock cn) s1 = (c, s2)" "s \<subseteq>\<^sub>m s2" "store_ok cid_of s2"
    "link_inv s2 bw h (LCid c (Some n'))" "link_map s2 bw h (LCid c (Some n')) = node_map s bw h n"
proof -
  obtain n' s1 cn where f: "node_flush cid_of n s = (Inr (), n', s1)" "node_collapse n' = Inr cn" "s \<subseteq>\<^sub>m s1"
    "store_ok cid_of s1" "node_inv s1 bw h n'" "node_map s1 bw h n' = node_map s bw h n" "node_is_empty n' = node_is_empty n"
    using assms(2) by (auto simp: flush_ok_def)
  obtain c s2 where put: "bs_put cid_of (NodeBlock cn) s1 = (c, s2)" by fastforce
  note ok = bs_put_ok [OF put f(4)] bs_put_mono [OF put f(4) assms(1)]
  note mono = node_mono [OF ok(4) f(5)]
  show thesis
  proof (rule that [OF f(1,2) put])
    show "s \<subseteq>\<^sub>m s2" using map_le_trans [OF f(3) ok(4)] .
    show "link_inv s2 bw h (LCid c (Some n'))"
      using mono ok f(2,7) assms(3) by (auto simp: link_inv_def link_load_def)
    show "link_map s2 bw h (LCid c (Some n')) = node_map s bw h n"
      using mono f(6) by (simp add: link_map_def link_load_def fun_eq_iff)
  qed (rule ok)
qed

lemma flush_links_correct:
  assumes "inj cid_of" "\<And>n s. node_inv s bw h n \<Longrightarrow> store_ok cid_of s \<Longrightarrow> flush_ok cid_of bw h s n"
    "\<And>l. Some l \<in> set ls \<Longrightarrow> link_inv s bw h l" "store_ok cid_of s"
  shows "\<exists>ls' s'. flush_links cid_of ls s = (Inr (), ls', s') \<and> s \<subseteq>\<^sub>m s' \<and> store_ok cid_of s' \<and>
    links_stored s s' bw h ls ls'"
  using assms(3,4)
proof (induction ls arbitrary: s)
  case (Cons e ls)
  have rest: "\<exists>ls' s'. flush_links cid_of ls s2 = (Inr (), ls', s') \<and> s \<subseteq>\<^sub>m s' \<and> store_ok cid_of s' \<and>
      links_stored s s' bw h (e # ls) (e' # ls')"
    if s2: "s \<subseteq>\<^sub>m s2" "store_ok cid_of s2"
      and e': "rel_option (\<lambda>l l'. \<not> is_dirty l' \<and> link_inv s2 bw h l' \<and> link_map s2 bw h l' = link_map s bw h l) e e'" for s2 e'
  proof -
    have up: "link_inv s2 bw h l \<and> link_map s2 bw h l = link_map s bw h l" if "Some l \<in> set ls" for l
      using link_mono [OF s2(1)] Cons.prems(1) that by simp
    then obtain ls' s' where f: "flush_links cid_of ls s2 = (Inr (), ls', s')" "s2 \<subseteq>\<^sub>m s'" "store_ok cid_of s'"
      "links_stored s2 s' bw h ls ls'"
      using Cons.IH [of s2] s2(2) by blast
    have "links_stored s s' bw h ls ls'"
      using f(4) up unfolding links_stored_def
      by (elim list.rel_mono_strong option.rel_mono_strong) (auto simp: elem_set)
    moreover have "rel_option (\<lambda>l l'. \<not> is_dirty l' \<and> link_inv s' bw h l' \<and> link_map s' bw h l' = link_map s bw h l) e e'"
      using e' link_mono [OF f(2)] by (auto elim!: option.rel_mono_strong)
    ultimately show ?thesis using f map_le_trans [OF s2(1) f(2)] by (auto simp: links_stored_def)
  qed
  show ?case
  proof (cases e)
    case None
    then show ?thesis using rest [of s None] Cons.prems(2) by auto
  next
    case (Some l)
    then have inv: "link_inv s bw h l" using Cons.prems(1) by simp
    show ?thesis
    proof (cases l)
      case (LCid c cache)
      then show ?thesis using rest [of s "Some l"] Cons.prems(2) Some inv by auto
    next
      case (Dirty n)
      with inv have n: "node_inv s bw h n" "\<not> node_is_empty n" by simp_all
      obtain n' s1 cn c s2 where f: "node_flush cid_of n s = (Inr (), n', s1)" "node_collapse n' = Inr cn"
        "bs_put cid_of (NodeBlock cn) s1 = (c, s2)" "s \<subseteq>\<^sub>m s2" "store_ok cid_of s2"
        "link_inv s2 bw h (LCid c (Some n'))" "link_map s2 bw h (LCid c (Some n')) = node_map s bw h n"
        using flush_dirty_link [OF assms(1) assms(2) [OF n(1) Cons.prems(2)] n(2)] .
      from rest [OF f(4,5), of "Some (LCid c (Some n'))"] f Dirty Some show ?thesis by auto
    qed
  qed
qed (auto simp: links_stored_def)

lemma links_stored_node:
  assumes "length ls = 2 ^ bw" "links_stored s s' bw h ls ls'"
  shows "node_inv s' bw (Suc h) (Link ls')" "clean_links ls'"
    "node_map s' bw (Suc h) (Link ls') = node_map s bw (Suc h) (Link ls)"
    "node_is_empty (Link ls') = node_is_empty (Link ls)"
proof -
  have len: "length ls' = length ls" using assms(2) by (auto simp: links_stored_def dest: list_all2_lengthD)
  have nth: "rel_option (\<lambda>l l'. \<not> is_dirty l' \<and> link_inv s' bw h l' \<and> link_map s' bw h l' = link_map s bw h l)
      (ls ! k) (ls' ! k)" if "k < length ls" for k
    using assms(2) that by (simp add: links_stored_def list_all2_conv_all_nth)
  have ex: "\<exists>k<length ls. ls' ! k = Some l" if "Some l \<in> set ls'" for l
    using that len by (metis in_set_conv_nth)
  have "link_inv s' bw h l \<and> \<not> is_dirty l" if "Some l \<in> set ls'" for l
  proof -
    from ex [OF that] obtain k where "k < length ls" "ls' ! k = Some l" by blast
    with nth [of k] show ?thesis by (auto elim: option.rel_cases)
  qed
  with len assms(1) show "node_inv s' bw (Suc h) (Link ls')" "clean_links ls'"
    by (auto simp: node_inv_Suc clean_links_iff)
  show "node_map s' bw (Suc h) (Link ls') = node_map s bw (Suc h) (Link ls)"
  proof
    fix i show "node_map s' bw (Suc h) (Link ls') i = node_map s bw (Suc h) (Link ls) i"
      using nth [of "i div span bw (Suc h)"] len
      by (cases "i div span bw (Suc h) < length ls") (auto simp: node_map_Link slot_def elim: option.rel_cases)
  qed
  have "ls' ! k = None \<longleftrightarrow> ls ! k = None" if "k < length ls" for k
    using nth [OF that] by (auto elim: option.rel_cases)
  with len show "node_is_empty (Link ls') = node_is_empty (Link ls)"
    by (auto simp: node_is_empty_def list_all_length)
qed

lemma node_flush_correct:
  assumes "inj cid_of" "node_inv s bw h n" "store_ok cid_of s"
  shows "flush_ok cid_of bw h s n"
  using assms(2,3)
proof (induction h arbitrary: n s)
  case 0
  then obtain vals where "n = Leaf vals" "length vals = 2 ^ bw" by auto
  with 0 node_expand_Leaf [of vals bw] show ?case by (auto simp: flush_ok_def)
next
  case (Suc h)
  then obtain links where n: "n = Link links" and len: "length links = 2 ^ bw"
    and links: "\<And>l. Some l \<in> set links \<Longrightarrow> link_inv s bw h l" by (auto simp: node_inv_Suc)
  obtain ls' s' where f: "flush_links cid_of links s = (Inr (), ls', s')" "s \<subseteq>\<^sub>m s'" "store_ok cid_of s'"
    "links_stored s s' bw h links ls'"
    using flush_links_correct [OF assms(1) Suc.IH links Suc.prems(2)] by blast
  note st = links_stored_node [OF len f(4)]
  have "node_flush cid_of n s = (Inr (), Link ls', s')" using f(1) by (simp add: n)
  moreover have "\<exists>cn. node_collapse (Link ls') = Inr cn"
    using st(2) by (simp add: node_collapse_Link split: prod.splits)
  ultimately show ?case using st f by (auto simp: flush_ok_def n)
qed

section \<open>The stored form is determined by the contents\<close>

text \<open>The segment of a partial function below the child at position \<open>k\<close>.\<close>

definition segment :: "nat \<Rightarrow> nat \<Rightarrow> (nat \<Rightarrow> 'v option) \<Rightarrow> nat \<Rightarrow> 'v option" where
  "segment w k m = (\<lambda>j. if j < w then m (k * w + j) else None)"

fun canon ::
  "(('c, 'v) amt_block \<Rightarrow> 'c) \<Rightarrow> nat \<Rightarrow> nat \<Rightarrow> (nat \<Rightarrow> 'v option) \<Rightarrow> ('c, 'v) collapsed_node" where
  "canon cid_of bw 0 m =
     (let (bmap, values) = collapse_vals 0 (map m [0..<2 ^ bw]) (empty_bmap (2 ^ bw)) []
      in CollapsedNode bmap [] values)"
| "canon cid_of bw (Suc h) m =
     (let child = (\<lambda>k. segment (span bw (Suc h)) k m);
          cids = map (\<lambda>k. if child k = Map.empty then None
                          else Some (cid_of (NodeBlock (canon cid_of bw h (child k))))) [0..<2 ^ bw];
          (bmap, links) = collapse_vals 0 cids (empty_bmap (2 ^ bw)) []
      in CollapsedNode bmap links [])"

lemma segment_child:
  assumes "node_inv s bw (Suc h) (Link links)" "k < 2 ^ bw"
  shows "segment (span bw (Suc h)) k (node_map s bw (Suc h) (Link links)) =
    (case links ! k of None \<Rightarrow> Map.empty | Some l \<Rightarrow> link_map s bw h l)"
proof
  fix j
  have len: "length links = 2 ^ bw" using assms(1) by (simp add: node_inv_Suc)
  have out: "link_map s bw h l j = None" if "links ! k = Some l" "\<not> j < span bw (Suc h)" for l
  proof -
    have "link_inv s bw h l" using that(1) assms len by (auto simp: node_inv_Suc) (metis nth_mem)
    then obtain sub where "node_inv s bw h sub" "link_map s bw h l = node_map s bw h sub" by (rule link_invE)
    then show ?thesis using node_map_bound that(2) by (metis)
  qed
  show "segment (span bw (Suc h)) k (node_map s bw (Suc h) (Link links)) j =
      (case links ! k of None \<Rightarrow> Map.empty | Some l \<Rightarrow> link_map s bw h l) j"
    using out assms(2) len by (auto simp: segment_def node_map_Link slot_def split: option.splits)
qed

lemma node_collapse_canon:
  assumes "node_inv s bw h n" "store_ok cid_of s" "node_collapse n = Inr cn"
  shows "cn = canon cid_of bw h (node_map s bw h n)"
  using assms(1,3)
proof (induction h arbitrary: n cn)
  case 0
  then obtain vals where n: "n = Leaf vals" "length vals = 2 ^ bw" by auto
  have "map (slot vals) [0..<2 ^ bw] = vals"
    using n(2) by (intro nth_equalityI) (auto simp: slot_def)
  with n 0 show ?case by (auto simp: node_collapse_def fun_eq_iff cong: map_cong split: prod.splits)
next
  case (Suc h)
  then obtain links where n: "n = Link links" and len: "length links = 2 ^ bw"
    and links: "\<And>l. Some l \<in> set links \<Longrightarrow> link_inv s bw h l" by (auto simp: node_inv_Suc)
  let ?child = "\<lambda>k. segment (span bw (Suc h)) k (node_map s bw (Suc h) n)"
  have clean: "clean_links links" using Suc.prems(2) by (auto simp: n node_collapse_Link split: if_splits)
  have cids: "map (map_option link_cid) links =
    map (\<lambda>k. if ?child k = Map.empty then None else Some (cid_of (NodeBlock (canon cid_of bw h (?child k))))) [0..<2 ^ bw]"
  proof (rule nth_equalityI)
    fix k assume "k < length (map (map_option link_cid) links)"
    then have k: "k < 2 ^ bw" by (simp add: len)
    note child = segment_child [OF Suc.prems(1) [unfolded n] k, folded n]
    show "map (map_option link_cid) links ! k = map (\<lambda>k. if ?child k = Map.empty then None
        else Some (cid_of (NodeBlock (canon cid_of bw h (?child k))))) [0..<2 ^ bw] ! k"
    proof (cases "links ! k")
      case None
      with k len child show ?thesis by simp
    next
      case (Some l)
      then have l: "Some l \<in> set links" using k len by (metis nth_mem)
      then obtain c cache where lc: "l = LCid c cache" using clean by (cases l) (auto simp: clean_links_iff)
      obtain sub cn' where sub: "link_load s bw l = Inr sub" "node_inv s bw h sub" "\<not> node_is_empty sub"
        "node_collapse sub = Inr cn'" "s c = Some (NodeBlock cn')"
        using links [OF l] lc by (auto simp: link_inv_def)
      have eq: "link_map s bw h l = node_map s bw h sub" using sub(1) by (auto simp: link_map_def)
      then have ch: "?child k = node_map s bw h sub" using child Some by simp
      have "?child k \<noteq> Map.empty" unfolding ch using node_nonempty_iff [OF sub(2)] sub(3) by simp
      moreover have "c = cid_of (NodeBlock (canon cid_of bw h (?child k)))"
        unfolding ch using Suc.IH [OF sub(2,4)] store_okD [OF assms(2) sub(5)] by simp
      ultimately show ?thesis using k len Some lc by simp
    qed
  qed (simp add: len)
  have "Inr cn = (let (bmap, cids) = collapse_vals 0 (map (map_option link_cid) links) (empty_bmap (2 ^ bw)) []
      in Inr (CollapsedNode bmap cids []) :: ('a amt_error, ('a, 'b) collapsed_node) res)"
    using Suc.prems(2) clean len by (simp add: n node_collapse_Link)
  then show ?case unfolding cids canon.simps Let_def by (auto split: prod.splits)
qed

section \<open>The trie\<close>

lemma node_map_outside: "node_inv s bw h n \<Longrightarrow> \<not> i < span bw (Suc h) \<Longrightarrow> node_map s bw h n i = None"
  using node_map_bound by blast

definition amt_map :: "('c, 'v) amt_store \<Rightarrow> ('c, 'v) amt \<Rightarrow> nat \<Rightarrow> 'v option" where
  "amt_map s a = node_map s (bit_width a) (height a) (root_node a)"

text \<open>
  The invariant without the minimal height, which does not hold while \<open>set\<close> adds levels, and the
  full invariant.
\<close>

definition amt_wf :: "('c, 'v) amt_store \<Rightarrow> ('c, 'v) amt \<Rightarrow> bool" where
  "amt_wf s a \<longleftrightarrow> 0 < bit_width a \<and> bit_width a * height a < 64 \<and>
     node_inv s (bit_width a) (height a) (root_node a) \<and> count a = card (dom (amt_map s a))"

definition amt_inv :: "('c, 'v) amt_store \<Rightarrow> ('c, 'v) amt \<Rightarrow> bool" where
  "amt_inv s a \<longleftrightarrow> amt_wf s a \<and>
     (0 < height a \<longrightarrow> (\<exists>i. amt_map s a i \<noteq> None \<and> span (bit_width a) (height a) \<le> i))"

lemma amt_new_correct:
  "0 < bw \<Longrightarrow> amt_inv s (amt_new_with_bit_width bw)"
  "amt_map s (amt_new_with_bit_width bw) = Map.empty"
proof -
  show "amt_map s (amt_new_with_bit_width bw) = Map.empty"
    by (simp add: amt_map_def amt_new_with_bit_width_def init_sized_vec_def fun_eq_iff)
  then show "amt_inv s (amt_new_with_bit_width bw)" if "0 < bw"
    using that by (simp add: amt_inv_def amt_wf_def) (simp add: amt_new_with_bit_width_def init_sized_vec_def)
qed

lemma in_range_span:
  assumes "i \<le> MAX_INDEX" "i < nodes_for_height bw (Suc h)"
  shows "i < span bw (Suc h)"
proof (cases "bw * Suc h < 64")
  case True
  with assms(2) show ?thesis by (simp add: nodes_for_height_span del: mult_Suc_right)
next
  case False
  then have "(2 :: nat) ^ 64 \<le> 2 ^ (bw * Suc h)" by (intro power_increasing) auto
  with assms(1) show ?thesis by (simp add: span_def MAX_INDEX_def del: mult_Suc_right)
qed

lemma out_of_range_span:
  assumes "i \<le> MAX_INDEX" "nodes_for_height bw (Suc h) \<le> i"
  shows "bw * Suc h < 64 \<and> span bw (Suc h) \<le> i"
proof -
  have "bw * Suc h < 64"
    using assms by (rule_tac ccontr) (simp add: nodes_for_height_def USIZE_MAX_def MAX_INDEX_def del: mult_Suc_right)
  with assms(2) show ?thesis by (simp add: nodes_for_height_span del: mult_Suc_right)
qed

lemma amt_map_none:
  assumes "amt_wf s a" "i \<le> MAX_INDEX" "nodes_for_height (bit_width a) (Suc (height a)) \<le> i"
  shows "amt_map s a i = None"
  using node_map_bound [of s "bit_width a" "height a" "root_node a" i] out_of_range_span [OF assms(2,3)] assms(1)
  by (metis amt_map_def amt_wf_def not_le)

lemma amt_get_correct:
  assumes "amt_inv s a" "i \<le> MAX_INDEX"
  shows "\<exists>a'. amt_get s a i = (Inr (amt_map s a i), a') \<and> amt_inv s a' \<and> amt_map s a' = amt_map s a"
proof (cases "nodes_for_height (bit_width a) (Suc (height a)) \<le> i")
  case True
  with assms amt_map_none [OF _ assms(2) True] show ?thesis by (auto simp: amt_get_def amt_inv_def)
next
  case False
  obtain r n where g: "node_get s (bit_width a) (height a) (root_node a) i = (r, n)" by fastforce
  have "r = Inr (amt_map s a i) \<and> node_same s (bit_width a) (height a) (root_node a) n"
    using node_get_correct [of s "bit_width a" "height a" "root_node a" i] assms(1) g
    by (auto simp: amt_inv_def amt_wf_def amt_map_def)
  moreover have "amt_get s a i = (r, a\<lparr>root_node := n\<rparr>)" using False assms(2) g by (simp add: amt_get_def)
  ultimately show ?thesis using assms(1)
    by (auto simp: amt_inv_def amt_wf_def amt_map_def node_same_def)
qed

subsection \<open>Adding levels\<close>

lemma span_le_div: "i < span bw h \<Longrightarrow> i div span bw h = 0 \<and> i mod span bw h = i"
  by simp

lemma init_sized_vec_update [simp]: "(init_sized_vec bw)[0 := None] = init_sized_vec bw"
  by (metis init_sized_vec_def list_update_id nth_replicate zero_less_numeral zero_less_power)

lemma grow_root_correct:
  assumes "amt_wf s a" "i \<le> MAX_INDEX" "nodes_for_height (bit_width a) (Suc (height a)) \<le> i"
  shows "amt_wf s (grow_root a)" "amt_map s (grow_root a) = amt_map s a"
    "bit_width (grow_root a) = bit_width a" "height (grow_root a) = Suc (height a)" "count (grow_root a) = count a"
proof -
  let ?bw = "bit_width a" and ?h = "height a" and ?n = "root_node a"
  show simps: "bit_width (grow_root a) = ?bw" "height (grow_root a) = Suc ?h" "count (grow_root a) = count a"
    by (simp_all add: grow_root_def Let_def)
  have inv: "node_inv s ?bw ?h ?n" using assms(1) by (simp add: amt_wf_def)
  let ?e = "if node_is_empty ?n then None else Some (Dirty ?n)"
  have fresh: "node_inv s ?bw (Suc ?h) (Link (init_sized_vec ?bw))"
    "\<And>j. node_map s ?bw (Suc ?h) (Link (init_sized_vec ?bw)) j = None"
    using fresh_node [of s ?bw "Suc ?h"] by simp_all
  have root: "root_node (grow_root a) = Link ((init_sized_vec ?bw)[0 := ?e])"
    by (simp add: grow_root_def Let_def)
  have e: "link_inv s ?bw ?h l" if "?e = Some l" for l using inv that by (auto split: if_splits)
  have pos: "(0 :: nat) < 2 ^ ?bw" by simp
  have inv': "node_inv s ?bw (Suc ?h) (root_node (grow_root a))" unfolding root by (rule node_update_link(1) [OF fresh(1) pos e])
  have map_root: "node_map s ?bw (Suc ?h) (root_node (grow_root a)) j =
      (if j div span ?bw (Suc ?h) = 0
       then case ?e of None \<Rightarrow> None | Some l \<Rightarrow> link_map s ?bw ?h l (j mod span ?bw (Suc ?h)) else None)" for j
    unfolding root by (subst node_update_link(2) [OF fresh(1) pos e]) (simp_all add: fresh(2))
  have "node_map s ?bw (Suc ?h) (root_node (grow_root a)) j = node_map s ?bw ?h ?n j" for j
  proof (cases "j < span ?bw (Suc ?h)")
    case True
    then show ?thesis using map_root [of j] node_nonempty_iff [OF inv] by auto
  next
    case False
    then have "node_map s ?bw ?h ?n j = None" by (rule node_map_outside [OF inv])
    moreover have "j div span ?bw (Suc ?h) \<noteq> 0" using False by (simp add: div_eq_0_iff)
    ultimately show ?thesis using map_root [of j] by simp
  qed
  then show map: "amt_map s (grow_root a) = amt_map s a" by (simp add: amt_map_def simps fun_eq_iff)
  show "amt_wf s (grow_root a)"
    using assms(1) inv' out_of_range_span [OF assms(2,3)] map simps by (simp add: amt_wf_def)
qed

lemma grow_loop_correct:
  assumes "amt_wf s a" "i \<le> MAX_INDEX"
  shows "\<exists>a'. grow_loop i a = Some a' \<and> amt_wf s a' \<and> amt_map s a' = amt_map s a \<and>
    bit_width a' = bit_width a \<and> i < nodes_for_height (bit_width a') (Suc (height a')) \<and>
    (a' = a \<or> span (bit_width a') (height a') \<le> i)"
proof -
  let ?b = "\<lambda>a'. nodes_for_height (bit_width a') (height a' + 1) \<le> i"
  let ?P = "\<lambda>a'. amt_wf s a' \<and> amt_map s a' = amt_map s a \<and> bit_width a' = bit_width a \<and>
    (a' = a \<or> span (bit_width a') (height a') \<le> i)"
  have step: "?P (grow_root a') \<and> 64 - height (grow_root a') < 64 - height a'" if "?P a'" "?b a'" for a'
  proof -
    note g = grow_root_correct [of s a' i]
    have "bit_width a' * Suc (height a') < 64 \<and> span (bit_width a') (Suc (height a')) \<le> i"
      using that(2) assms(2) by (intro out_of_range_span) auto
    moreover from this have "height a' < 64"
      using that(1) by (metis Suc_lessD amt_wf_def le_less_trans mult_le_mono1 nat_mult_1 Suc_leI One_nat_def)
    ultimately show ?thesis using that g assms(2) by auto
  qed
  have "\<exists>a'. grow_loop i a = Some a'"
    unfolding grow_loop_def
    by (rule measure_while_option_Some [where P = ?P and f = "\<lambda>a. 64 - height a"]) (use step assms(1) in auto)
  then obtain a' where a': "grow_loop i a = Some a'" by blast
  then have "\<not> ?b a'" unfolding grow_loop_def by (rule while_option_stop)
  moreover have "?P a'"
    by (rule while_option_rule [OF _ a' [unfolded grow_loop_def]]) (use step assms(1) in blast)+
  ultimately show ?thesis using a' by auto
qed

lemma amt_set_correct:
  assumes "amt_inv s a" "i \<le> MAX_INDEX"
  shows "\<exists>a'. amt_set s a i v = (Inr (), a') \<and> amt_inv s a' \<and> amt_map s a' = (amt_map s a)(i \<mapsto> v) \<and>
    bit_width a' = bit_width a"
proof -
  have wf: "amt_wf s a" using assms(1) by (simp add: amt_inv_def)
  obtain a1 where g: "grow_loop i a = Some a1" "amt_wf s a1" "amt_map s a1 = amt_map s a"
    "bit_width a1 = bit_width a" "i < nodes_for_height (bit_width a1) (Suc (height a1))"
    "a1 = a \<or> span (bit_width a1) (height a1) \<le> i"
    using grow_loop_correct [OF wf assms(2)] by (elim exE conjE) (rule that)
  let ?bw = "bit_width a1" and ?h = "height a1" and ?n = "root_node a1"
  have n: "node_inv s ?bw ?h ?n" "?bw * ?h < 64" using g(2) by (simp_all add: amt_wf_def)
  have i: "i < span ?bw (Suc ?h)" using in_range_span [OF assms(2) g(5)] .
  have old: "node_map s ?bw ?h ?n = amt_map s a" using g(3) unfolding amt_map_def [of s a1] .
  obtain n' where n': "node_set s ?bw ?h ?n i v = (Inr (amt_map s a i), n')" "node_inv s ?bw ?h n'"
    "node_map s ?bw ?h n' = (amt_map s a)(i \<mapsto> v)"
    using node_set_correct [OF n i, of v, unfolded old] by (elim exE conjE) (rule that)
  define a' where "a' = a1\<lparr>root_node := n', count := (if amt_map s a i = None then count a1 + 1 else count a1)\<rparr>"
  have set: "amt_set s a i v = (Inr (), a')" using assms(2) g(1) n'(1) by (simp add: amt_set_def a'_def)
  have map: "amt_map s a' = (amt_map s a)(i \<mapsto> v)" using n'(3) by (simp add: amt_map_def a'_def)
  have dims: "bit_width a' = ?bw" "height a' = ?h" by (simp_all add: a'_def)
  have fin: "finite (dom (amt_map s a))" using node_map_finite [OF n(1)] g(3) by (simp add: amt_map_def)
  have "count a' = (if i \<in> dom (amt_map s a) then card (dom (amt_map s a)) else card (dom (amt_map s a)) + 1)"
    using g(2,3) by (auto simp: a'_def amt_wf_def)
  then have "count a' = card (dom (amt_map s a'))"
    unfolding map using fin by (simp add: card_insert_if)
  then have wf': "amt_wf s a'" using g(2) n'(2) by (simp add: amt_wf_def a'_def)
  have "\<exists>j. amt_map s a' j \<noteq> None \<and> span (bit_width a') (height a') \<le> j" if "0 < height a'"
    using g(6)
  proof
    assume "a1 = a"
    with that assms(1) obtain j where "amt_map s a j \<noteq> None" "span (bit_width a) (height a) \<le> j"
      by (auto simp: amt_inv_def a'_def)
    then have "amt_map s a' j \<noteq> None" by (simp add: map)
    with \<open>span _ _ \<le> j\<close> \<open>a1 = a\<close> show ?thesis by (metis dims)
  next
    assume "span (bit_width a1) (height a1) \<le> i"
    moreover have "amt_map s a' i \<noteq> None" by (simp add: map)
    ultimately show ?thesis by (metis dims)
  qed
  with wf' set map g(4) show ?thesis by (simp add: amt_inv_def a'_def)
qed

subsection \<open>Removing levels\<close>

lemma can_collapse_correct:
  assumes "node_inv s bw (Suc h) n" "can_collapse n"
  shows "\<exists>l ls sub. node_links n = Some l # ls \<and> link_load s bw l = Inr sub \<and> node_inv s bw h sub \<and>
    \<not> node_is_empty sub \<and> node_map s bw h sub = node_map s bw (Suc h) n"
proof -
  obtain links where n: "n = Link links" "length links = 2 ^ bw" and inv: "\<And>l. Some l \<in> set links \<Longrightarrow> link_inv s bw h l"
    using assms(1) by (auto simp: node_inv_Suc)
  obtain l ls where links: "links = Some l # ls" "list_all (\<lambda>l. l = None) ls"
    using assms(2) n(1) by (auto simp: can_collapse_def split: list.splits option.splits)
  then have "link_inv s bw h l" using inv by simp
  then obtain sub where sub: "link_load s bw l = Inr sub" "node_inv s bw h sub" "\<not> node_is_empty sub"
    "link_map s bw h l = node_map s bw h sub" by (rule link_invE)
  have "node_map s bw (Suc h) n i = node_map s bw h sub i" for i
  proof (cases "i < span bw (Suc h)")
    case True
    then show ?thesis using sub(4) by (simp add: n links node_map_Link slot_def)
  next
    case False
    then obtain k where "i div span bw (Suc h) = Suc k" by (metis div_eq_0_iff not0_implies_Suc span_pos less_numeral_extra(3))
    then have "node_map s bw (Suc h) n i = None"
      using links(2) by (auto simp: n links node_map_Link slot_def list_all_length)
    moreover have "node_map s bw h sub i = None" using False by (rule node_map_outside [OF sub(2)])
    ultimately show ?thesis by simp
  qed
  with n links sub show ?thesis by (auto simp: fun_eq_iff)
qed

lemma not_can_collapse:
  assumes "node_inv s bw (Suc h) n" "\<not> can_collapse n" "\<not> node_is_empty n"
  shows "\<exists>i. node_map s bw (Suc h) n i \<noteq> None \<and> span bw (Suc h) \<le> i"
proof -
  obtain links where n: "n = Link links" "length links = 2 ^ bw" and inv: "\<And>l. Some l \<in> set links \<Longrightarrow> link_inv s bw h l"
    using assms(1) by (auto simp: node_inv_Suc)
  obtain k l where k: "0 < k" "k < length links" "links ! k = Some l"
  proof -
    obtain e ls where links: "links = e # ls" using n(2) by (cases links) auto
    have "\<not> list_all (\<lambda>l. l = None) ls"
      using assms(2,3) links n(1) by (auto simp: can_collapse_def node_is_empty_def split: option.splits)
    then obtain k l where "k < length ls" "ls ! k = Some l" by (auto simp: list_all_length)
    then show thesis using that [of "Suc k" l] links by simp
  qed
  then have "link_inv s bw h l" using inv by (metis nth_mem)
  then obtain sub where sub: "link_load s bw l = Inr sub" "node_inv s bw h sub" "\<not> node_is_empty sub"
    "link_map s bw h l = node_map s bw h sub" by (rule link_invE)
  then obtain j where j: "node_map s bw h sub j \<noteq> None" using node_nonempty_iff [OF sub(2)] by (auto simp: fun_eq_iff)
  then have "j < span bw (Suc h)" using node_map_bound [OF sub(2)] by blast
  then have "node_map s bw (Suc h) n (k * span bw (Suc h) + j) \<noteq> None"
    using k j sub(4) by (simp add: n node_map_Link slot_def)
  moreover have "span bw (Suc h) \<le> k * span bw (Suc h) + j" using k(1) by (simp add: trans_le_add1)
  ultimately show ?thesis by blast
qed

lemma collapse_root_correct:
  assumes "node_inv s bw h n" "\<not> node_is_empty n"
  shows "\<exists>h' n'. collapse_root s bw h n = (Inr (), h', n') \<and> h' \<le> h \<and> node_inv s bw h' n' \<and>
    node_map s bw h' n' = node_map s bw h n \<and>
    (0 < h' \<longrightarrow> (\<exists>i. node_map s bw h n i \<noteq> None \<and> span bw h' \<le> i))"
  using assms
proof (induction h arbitrary: n)
  case (Suc h)
  show ?case
  proof (cases "can_collapse n")
    case True
    with can_collapse_correct [OF Suc.prems(1)] obtain l ls sub where
      n: "node_links n = Some l # ls" "link_load s bw l = Inr sub" and sub: "node_inv s bw h sub" "\<not> node_is_empty sub"
      "node_map s bw h sub = node_map s bw (Suc h) n" by blast
    have "collapse_root s bw (Suc h) n = collapse_root s bw h sub" using True n by simp
    with Suc.IH [OF sub(1,2)] sub(3) show ?thesis by (metis le_SucI)
  next
    case False
    with not_can_collapse [OF Suc.prems(1) False Suc.prems(2)] Suc.prems(1) show ?thesis by auto
  qed
qed simp

lemma amt_wf_fields:
  assumes "amt_wf s a"
  shows "node_inv s (bit_width a) (height a) (root_node a)" "bit_width a * height a < 64" "0 < bit_width a"
    "finite (dom (amt_map s a))" "count a = card (dom (amt_map s a))"
  using assms node_map_finite by (auto simp: amt_wf_def amt_map_def)

lemma amt_delete_correct:
  assumes "amt_inv s a" "i \<le> MAX_INDEX"
  shows "\<exists>a'. amt_delete s a i = (Inr (amt_map s a i), a') \<and> amt_inv s a' \<and>
    amt_map s a' = (amt_map s a)(i := None) \<and> bit_width a' = bit_width a"
proof (cases "nodes_for_height (bit_width a) (Suc (height a)) \<le> i")
  case True
  with assms amt_map_none [OF _ assms(2) True] show ?thesis
    by (auto simp: amt_delete_def amt_inv_def fun_upd_idem)
next
  case False
  let ?bw = "bit_width a" and ?h = "height a" and ?m = "amt_map s a"
  have wf: "amt_wf s a" using assms(1) by (simp add: amt_inv_def)
  note f = amt_wf_fields [OF wf]
  have i: "i < span ?bw (Suc ?h)" using in_range_span [OF assms(2)] False by simp
  obtain n where n: "node_delete s ?bw ?h (root_node a) i = (Inr (?m i), n)" "node_inv s ?bw ?h n"
    "node_map s ?bw ?h n = ?m(i := None)" "?m i = None \<longrightarrow> node_same s ?bw ?h (root_node a) n"
    using node_delete_correct [OF f(1,2) i, folded amt_map_def] by (elim exE conjE) (rule that)
  have del: "amt_delete s a i = (case (Inr (?m i) :: ('a amt_error, 'b option) res, n) of
          (Inr (Some v), n) \<Rightarrow>
            let a1 = a\<lparr>root_node := n, count := count a - 1\<rparr> in
            if node_is_empty n
            then (Inr (Some v), a1\<lparr>root_node := Leaf (init_sized_vec (bit_width a)), height := 0\<rparr>)
            else (case collapse_root s (bit_width a) (height a) n of
                    (Inl e, h, n') \<Rightarrow> (Inl e, a1\<lparr>root_node := n', height := h\<rparr>)
                  | (Inr _, h, n') \<Rightarrow> (Inr (Some v), a1\<lparr>root_node := n', height := h\<rparr>))
        | (r, n) \<Rightarrow> (r, a\<lparr>root_node := n\<rparr>))"
    using False assms(2) n(1) by (simp add: amt_delete_def)
  show ?thesis
  proof (cases "?m i")
    case None
    then have "amt_delete s a i = (Inr None, a\<lparr>root_node := n\<rparr>)" using del by simp
    moreover have "amt_inv s (a\<lparr>root_node := n\<rparr>) \<and> amt_map s (a\<lparr>root_node := n\<rparr>) = ?m"
      using None n assms(1) by (auto simp: amt_inv_def amt_wf_def amt_map_def node_same_def)
    ultimately show ?thesis using None by (auto simp: fun_upd_idem)
  next
    case (Some v)
    have cnt: "count a - 1 = card (dom (?m(i := None)))" using f(4,5) Some by (simp add: card_Diff_singleton domI)
    obtain h' n' where c: "amt_delete s a i = (Inr (Some v), a\<lparr>root_node := n', count := count a - 1, height := h'\<rparr>)"
      "h' \<le> ?h" "node_inv s ?bw h' n'" "node_map s ?bw h' n' = ?m(i := None)"
      "0 < h' \<longrightarrow> (\<exists>j. (?m(i := None)) j \<noteq> None \<and> span ?bw h' \<le> j)"
    proof (cases "node_is_empty n")
      case True
      then have e: "?m(i := None) = Map.empty" using node_nonempty_iff [OF n(2)] n(3) by simp
      show thesis
        by (rule that [of 0 "Leaf (init_sized_vec ?bw)"])
          (use True del Some e in \<open>simp_all add: init_sized_vec_def fun_eq_iff\<close>)
    next
      case False
      obtain h' n' where "collapse_root s ?bw ?h n = (Inr (), h', n')" "h' \<le> ?h" "node_inv s ?bw h' n'"
        "node_map s ?bw h' n' = ?m(i := None)" "0 < h' \<longrightarrow> (\<exists>j. (?m(i := None)) j \<noteq> None \<and> span ?bw h' \<le> j)"
        using collapse_root_correct [OF n(2) False, unfolded n(3)] by (elim exE conjE) (rule that)
      then show thesis using that [of h' n'] False del Some by simp
    qed
    have "?bw * h' < 64" using c(2) f(2) by (meson le_less_trans mult_le_mono2)
    with c cnt f(3) Some show ?thesis by (auto simp: amt_inv_def amt_wf_def amt_map_def)
  qed
qed

subsection \<open>Storing and loading\<close>

lemma amt_mono: "s \<subseteq>\<^sub>m s' \<Longrightarrow> amt_inv s a \<Longrightarrow> amt_inv s' a \<and> amt_map s' a = amt_map s a"
  using node_mono [of s s' "bit_width a" "height a" "root_node a"]
  by (auto simp: amt_inv_def amt_wf_def amt_map_def)

lemma uncached_link:
  assumes "link_inv s bw h l" "\<not> is_dirty l"
    "\<And>n cn. node_inv s bw h n \<Longrightarrow> node_collapse n = Inr cn \<Longrightarrow> \<not> node_is_empty n \<Longrightarrow>
       \<exists>n'. node_expand bw cn = Inr n' \<and> node_same s bw h n n'"
  shows "link_inv s bw h (LCid (link_cid l) None) \<and> link_map s bw h (LCid (link_cid l) None) = link_map s bw h l"
proof -
  obtain c cache where l: "l = LCid c cache" using assms(2) by (cases l) auto
  obtain sub cn where sub: "link_load s bw l = Inr sub" "node_inv s bw h sub" "\<not> node_is_empty sub"
    "node_collapse sub = Inr cn" "s c = Some (NodeBlock cn)"
    using assms(1) l by (auto simp: link_inv_def)
  obtain n' where n': "node_expand bw cn = Inr n'" "node_same s bw h sub n'"
    using assms(3) [OF sub(2,4,3)] by blast
  have "link_load s bw (LCid c None) = Inr n'"
    using sub(5) n'(1) by (simp add: link_load_def get_collapsed_def bs_get_def)
  with sub n'(2) l show ?thesis by (simp add: link_inv_def link_map_def node_same_def fun_eq_iff)
qed

lemma node_expand_same:
  assumes "node_inv s bw h n" "node_collapse n = Inr cn" "0 < h \<longrightarrow> \<not> node_is_empty n"
  shows "\<exists>n'. node_expand bw cn = Inr n' \<and> node_same s bw h n n'"
  using assms
proof (induction h arbitrary: n cn)
  case 0
  then obtain vals where n: "n = Leaf vals" "length vals = 2 ^ bw" by auto
  with 0 node_expand_Leaf [OF n(2)] node_same_refl [OF 0(1)] show ?case by (metis sum.inject(2))
next
  case (Suc h)
  then obtain links where n: "n = Link links" and len: "length links = 2 ^ bw"
    and links: "\<And>l. Some l \<in> set links \<Longrightarrow> link_inv s bw h l" by (auto simp: node_inv_Suc)
  let ?ls = "map (map_option (\<lambda>l. LCid (link_cid l) None)) links"
  have clean: "clean_links links" using Suc.prems(2) by (auto simp: n node_collapse_Link split: if_splits)
  have step: "link_inv s bw h (LCid (link_cid l) None) \<and> link_map s bw h (LCid (link_cid l) None) = link_map s bw h l"
    if "Some l \<in> set links" for l
    using clean that by (intro uncached_link links Suc.IH) (auto simp: clean_links_iff)
  have "node_expand bw cn = Inr (Link ?ls)"
    using node_expand_Link [OF len] Suc.prems(2,3) by (simp add: n)
  moreover have "node_same s bw (Suc h) n (Link ?ls)"
    unfolding node_same_def
  proof (intro conjI ext)
    show "node_inv s bw (Suc h) (Link ?ls)" using step len
      by (auto simp: node_inv_Suc eq_commute [of "Some _"] map_option_eq_Some)
    fix i show "node_map s bw (Suc h) (Link ?ls) i = node_map s bw (Suc h) n i"
    proof (cases "i div span bw (Suc h) < length links")
      case True
      then show ?thesis using step [of "the (links ! (i div span bw (Suc h)))"] nth_mem [OF True]
        by (cases "links ! (i div span bw (Suc h))") (auto simp: n node_map_Link slot_def)
    qed (simp add: n node_map_Link slot_def)
  next
    show "node_collapse (Link ?ls) = node_collapse n"
      unfolding n using clean
      by (intro node_collapse_Link_cong) (auto simp: clean_links_iff option.map_comp o_def
          eq_commute [of "Some _"] map_option_eq_Some)
    show "node_is_empty (Link ?ls) = node_is_empty n"
      by (simp add: n node_is_empty_def list_all_length)
  qed
  ultimately show ?case by blast
qed

lemma amt_flush_correct:
  assumes "inj cid_of" "store_ok cid_of s" "amt_inv s a"
  shows "\<exists>c a' s'. amt_flush cid_of s a = (Inr c, a', s') \<and> s \<subseteq>\<^sub>m s' \<and> store_ok cid_of s' \<and> amt_inv s' a' \<and>
    amt_map s' a' = amt_map s a \<and>
    s' c = Some (RootBlock (bit_width a) (height a) (card (dom (amt_map s a))) (canon cid_of (bit_width a) (height a) (amt_map s a))) \<and>
    (\<exists>b. amt_load s' c = Inr b \<and> amt_inv s' b \<and> amt_map s' b = amt_map s a \<and> bit_width b = bit_width a)"
proof -
  let ?bw = "bit_width a" and ?h = "height a" and ?m = "amt_map s a"
  have wf: "amt_wf s a" using assms(3) by (simp add: amt_inv_def)
  note f = amt_wf_fields [OF wf]
  obtain n s1 cn where n: "node_flush cid_of (root_node a) s = (Inr (), n, s1)" "node_collapse n = Inr cn"
    "s \<subseteq>\<^sub>m s1" "store_ok cid_of s1" "node_inv s1 ?bw ?h n" "node_map s1 ?bw ?h n = ?m"
    "node_is_empty n = node_is_empty (root_node a)"
    using node_flush_correct [OF assms(1) f(1) assms(2), unfolded flush_ok_def, folded amt_map_def]
    by (elim exE conjE) (rule that)
  have cn: "cn = canon cid_of ?bw ?h ?m" using node_collapse_canon [OF n(5,4,2)] n(6) by simp
  obtain c s2 where put: "bs_put cid_of (RootBlock ?bw ?h (count a) cn) s1 = (c, s2)" by fastforce
  note ok = bs_put_ok [OF put n(4)] bs_put_mono [OF put n(4) assms(1)]
  let ?a = "a\<lparr>root_node := n\<rparr>"
  have fl: "amt_flush cid_of s a = (Inr c, ?a, s2)" using n put by (simp add: amt_flush_def)
  have inv1: "amt_inv s1 ?a \<and> amt_map s1 ?a = ?m"
    using n f assms(3) by (auto simp: amt_inv_def amt_wf_def amt_map_def)
  note inv2 = amt_mono [OF ok(4) inv1 [THEN conjunct1]]
  have ne: "0 < ?h \<longrightarrow> \<not> node_is_empty n"
    using assms(3) node_nonempty_iff [OF f(1)] n(7) by (auto simp: amt_inv_def amt_map_def)
  obtain n' where n': "node_expand ?bw cn = Inr n'" "node_same s1 ?bw ?h n n'"
    using node_expand_same [OF n(5,2) ne] by (elim exE conjE) (rule that)
  let ?b = "\<lparr>bit_width = ?bw, height = ?h, count = count a, root_node = n'\<rparr>"
  have "?h \<le> MAX_HEIGHT" using f(2,3) by (cases ?bw) (auto simp: MAX_HEIGHT_def)
  then have ld: "amt_load s2 c = Inr ?b" using ok(3) n'(1) by (simp add: amt_load_def bs_get_def)
  have b1: "amt_inv s1 ?b \<and> amt_map s1 ?b = ?m"
    using inv1 n'(2) n(6) by (auto simp: amt_inv_def amt_wf_def amt_map_def node_same_def)
  note b2 = amt_mono [OF ok(4) b1 [THEN conjunct1]]
  show ?thesis
    using fl map_le_trans [OF n(3) ok(4)] ok(1,3) inv1 inv2 ld b1 b2 cn f(5) by auto
qed

subsection \<open>Equal contents\<close>

lemma amt_height_le:
  assumes "amt_inv s a" "amt_inv t b" "amt_map s a = amt_map t b" "bit_width a = bit_width b"
  shows "height a \<le> height b"
proof (rule ccontr)
  assume "\<not> height a \<le> height b"
  then have lt: "Suc (height b) \<le> height a" by simp
  with assms(1) obtain i where i: "amt_map s a i \<noteq> None" "span (bit_width a) (height a) \<le> i"
    by (auto simp: amt_inv_def)
  have "i < span (bit_width b) (Suc (height b))"
    using i(1) assms(2,3) node_map_bound by (metis amt_inv_def amt_map_def amt_wf_def)
  also have "\<dots> \<le> span (bit_width a) (height a)"
    using lt assms(4) unfolding span_def by (intro power_increasing mult_le_mono) auto
  finally show False using i(2) by simp
qed

lemma amt_height_unique:
  assumes "amt_inv s a" "amt_inv t b" "amt_map s a = amt_map t b" "bit_width a = bit_width b"
  shows "height a = height b"
  using amt_height_le [OF assms] amt_height_le [OF assms(2,1) assms(3,4) [symmetric]] by simp

section \<open>The interface of an array\<close>

text \<open>
  What the clients of the trie rely on: an abstraction to a partial function from indices to values
  under which the operations are lookup, update and removal, and a count of the entries.
\<close>

locale array_map =
  fixes inv :: "'a \<Rightarrow> bool" and abs :: "'a \<Rightarrow> nat \<Rightarrow> 'v option" and max_index :: nat
    and lookup :: "'a \<Rightarrow> nat \<Rightarrow> ('e, 'v option) res \<times> 'a"
    and insert :: "'a \<Rightarrow> nat \<Rightarrow> 'v \<Rightarrow> ('e, unit) res \<times> 'a"
    and remove :: "'a \<Rightarrow> nat \<Rightarrow> ('e, 'v option) res \<times> 'a"
    and size_of :: "'a \<Rightarrow> nat"
  assumes lookup_law: "inv a \<Longrightarrow> i \<le> max_index \<Longrightarrow>
      \<exists>a'. lookup a i = (Inr (abs a i), a') \<and> inv a' \<and> abs a' = abs a"
    and insert_law: "inv a \<Longrightarrow> i \<le> max_index \<Longrightarrow>
      \<exists>a'. insert a i v = (Inr (), a') \<and> inv a' \<and> abs a' = (abs a)(i \<mapsto> v)"
    and remove_law: "inv a \<Longrightarrow> i \<le> max_index \<Longrightarrow>
      \<exists>a'. remove a i = (Inr (abs a i), a') \<and> inv a' \<and> abs a' = (abs a)(i := None)"
    and size_law: "inv a \<Longrightarrow> finite (dom (abs a)) \<and> size_of a = card (dom (abs a))"
begin

text \<open>A sequence of updates and removals; it stops at the first error.\<close>

fun run :: "(nat \<times> 'v option) list \<Rightarrow> 'a \<Rightarrow> ('e, unit) res \<times> 'a" where
  "run [] a = (Inr (), a)"
| "run ((i, v) # ops) a =
     (case (case v of Some x \<Rightarrow> insert a i x | None \<Rightarrow> (let (r, a') = remove a i in (res_bind r (\<lambda>_. Inr ()), a'))) of
        (Inl e, a') \<Rightarrow> (Inl e, a')
      | (Inr _, a') \<Rightarrow> run ops a')"

lemma run_correct:
  "inv a \<Longrightarrow> \<forall>(i, v)\<in>set ops. i \<le> max_index \<Longrightarrow>
     \<exists>a'. run ops a = (Inr (), a') \<and> inv a' \<and> abs a' = foldl (\<lambda>m (i, v). m(i := v)) (abs a) ops"
proof (induction ops arbitrary: a)
  case (Cons op ops)
  obtain i v where op: "op = (i, v)" by fastforce
  with Cons.prems have i: "i \<le> max_index" by simp
  obtain a1 where a1: "run (op # ops) a = run ops a1" "inv a1" "abs a1 = (abs a)(i := v)"
  proof (cases v)
    case None
    then show ?thesis using that remove_law [OF Cons.prems(1) i] by (auto simp: op)
  next
    case (Some x)
    then show ?thesis using that insert_law [OF Cons.prems(1) i, of x] by (auto simp: op)
  qed
  from Cons.IH [OF a1(2)] Cons.prems(2) a1 show ?case by (auto simp: op)
qed simp

lemma lookup_after_run:
  assumes "inv a" "\<forall>(i, v)\<in>set ops. i \<le> max_index" "i \<le> max_index"
  shows "fst (lookup (snd (run ops a)) i) = Inr (foldl (\<lambda>m (i, v). m(i := v)) (abs a) ops i)"
  using run_correct [OF assms(1,2)] lookup_law [OF _ assms(3)] by force

lemma size_insert:
  assumes "inv a" "i \<le> max_index" "insert a i v = (Inr (), a')"
  shows "size_of a' = (if abs a i = None then size_of a + 1 else size_of a)"
  using insert_law [OF assms(1,2), of v] assms(3) size_law [of a'] size_law [OF assms(1)]
  by (auto simp: card_insert_if domIff)

lemma size_remove:
  assumes "inv a" "i \<le> max_index" "remove a i = (r, a')"
  shows "size_of a' = (if abs a i = None then size_of a else size_of a - 1)"
  using remove_law [OF assms(1,2)] assms(3) size_law [of a'] size_law [OF assms(1)]
  by (auto simp: card_Diff_singleton_if)

end

interpretation amt: array_map "amt_inv s" "amt_map s" MAX_INDEX "amt_get s" "amt_set s" "amt_delete s" count
  for s :: "('c, 'v) amt_store"
proof unfold_locales
  fix a :: "('c, 'v) amt" assume inv: "amt_inv s a"
  then show "finite (dom (amt_map s a)) \<and> count a = card (dom (amt_map s a))"
    using amt_wf_fields by (auto simp: amt_inv_def)
  fix i assume i: "i \<le> MAX_INDEX"
  show "\<exists>a'. amt_get s a i = (Inr (amt_map s a i), a') \<and> amt_inv s a' \<and> amt_map s a' = amt_map s a"
    by (rule amt_get_correct [OF inv i])
  show "\<exists>a'. amt_delete s a i = (Inr (amt_map s a i), a') \<and> amt_inv s a' \<and> amt_map s a' = (amt_map s a)(i := None)"
    using amt_delete_correct [OF inv i] by (elim exE conjE) (intro exI conjI)
  fix v show "\<exists>a'. amt_set s a i v = (Inr (), a') \<and> amt_inv s a' \<and> amt_map s a' = (amt_map s a)(i \<mapsto> v)"
    using amt_set_correct [OF inv i, of v] by (elim exE conjE) (intro exI conjI)
qed

section \<open>Batches\<close>

lemma batch_set_from_correct:
  assumes "amt_inv s a" "k + length vs \<le> MAX_INDEX + 1"
  shows "\<exists>a'. batch_set_from s k vs a = (Inr (), a') \<and> amt_inv s a' \<and> bit_width a' = bit_width a \<and>
    amt_map s a' = (\<lambda>j. if k \<le> j \<and> j < k + length vs then Some (vs ! (j - k)) else amt_map s a j)"
  using assms
proof (induction vs arbitrary: k a)
  case (Cons v vs)
  obtain a1 where a1: "amt_set s a k v = (Inr (), a1)" "amt_inv s a1" "amt_map s a1 = (amt_map s a)(k \<mapsto> v)"
    "bit_width a1 = bit_width a"
    using amt_set_correct [OF Cons.prems(1), of k v] Cons.prems(2) by auto
  obtain a' where a': "batch_set_from s (k + 1) vs a1 = (Inr (), a')" "amt_inv s a'" "bit_width a' = bit_width a1"
    "amt_map s a' = (\<lambda>j. if k + 1 \<le> j \<and> j < k + 1 + length vs then Some (vs ! (j - (k + 1))) else amt_map s a1 j)"
    using Cons.IH [OF a1(2), of "k + 1"] Cons.prems(2) by auto
  have "amt_map s a' j = (if k \<le> j \<and> j < k + length (v # vs) then Some ((v # vs) ! (j - k)) else amt_map s a j)" for j
    unfolding a'(4) a1(3) by (auto simp: nth_Cons')
  with a' a1 show ?case by auto
qed (auto simp: fun_eq_iff)

lemma batch_delete_sorted_correct:
  assumes "amt_inv s a" "\<forall>i\<in>set is. i \<le> MAX_INDEX" "distinct is"
  shows "\<exists>a'. batch_delete_sorted s False modified is a = (Inr (modified \<or> (\<exists>i\<in>set is. amt_map s a i = None)), a') \<and>
    amt_inv s a' \<and> amt_map s a' = (amt_map s a) |` (- set is)"
  using assms
proof (induction "is" arbitrary: a modified)
  case (Cons i "is")
  obtain a1 where a1: "amt_delete s a i = (Inr (amt_map s a i), a1)" "amt_inv s a1" "amt_map s a1 = (amt_map s a)(i := None)"
    using amt_delete_correct [OF Cons.prems(1), of i] Cons.prems(2) by auto
  have rest: "(\<exists>j\<in>set is. amt_map s a1 j = None) = (\<exists>j\<in>set is. amt_map s a j = None)"
    using Cons.prems(3) by (auto simp: a1(3))
  have "\<exists>a'. batch_delete_sorted s False m is a1 = (Inr (m \<or> (\<exists>j\<in>set is. amt_map s a1 j = None)), a') \<and>
      amt_inv s a' \<and> amt_map s a' = (amt_map s a1) |` (- set is)" for m
    using Cons.IH [OF a1(2)] Cons.prems(2,3) by simp
  then obtain a' where a': "batch_delete_sorted s False (modified \<or> amt_map s a i = None) is a1 =
      (Inr ((modified \<or> amt_map s a i = None) \<or> (\<exists>j\<in>set is. amt_map s a1 j = None)), a')"
    "amt_inv s a'" "amt_map s a' = (amt_map s a1) |` (- set is)" by blast
  have "amt_map s a' = (amt_map s a) |` (- set (i # is))"
    by (auto simp: a'(3) a1(3) restrict_map_def fun_eq_iff)
  with a' a1(1) rest show ?case by auto
qed (simp add: restrict_map_def)

section \<open>Iteration\<close>

text \<open>The entries of a partial function from index \<open>a\<close> up to \<open>b\<close>, in ascending order.\<close>

definition entries :: "(nat \<Rightarrow> 'v option) \<Rightarrow> nat \<Rightarrow> nat \<Rightarrow> (nat \<times> 'v) list" where
  "entries m a b = concat (map (\<lambda>i. case m i of None \<Rightarrow> [] | Some v \<Rightarrow> [(i, v)]) [a..<b])"

text \<open>The closure applied to the entries one after the other, until it fails or says to stop.\<close>

fun iter_while :: "(nat \<Rightarrow> 'v \<Rightarrow> 'a \<Rightarrow> ('e, bool) res \<times> 'a) \<Rightarrow> (nat \<times> 'v) list \<Rightarrow> 'a \<Rightarrow> ('e, bool) res \<times> 'a" where
  "iter_while f [] a = (Inr True, a)"
| "iter_while f ((i, v) # es) a =
     (case f i v a of (Inr True, a') \<Rightarrow> iter_while f es a' | (r, a') \<Rightarrow> (r, a'))"

lemma iter_while_append:
  "iter_while f (es @ es') a =
     (case iter_while f es a of (Inr True, a') \<Rightarrow> iter_while f es' a' | (r, a') \<Rightarrow> (r, a'))"
  by (induction f es a rule: iter_while.induct) (auto split: prod.splits sum.splits bool.splits)

lemma iter_while_single: "iter_while f [(i, v)] a = f i v a"
  by (auto split: prod.splits sum.splits bool.splits)

text \<open>
  A loop over slots whose steps run the closure over some entries, and change the slot only within
  the relation \<open>R\<close>, runs the closure over all the entries.
\<close>

lemma each_slot_iter:
  assumes "\<And>k x a. k < length xs \<Longrightarrow> xs ! k = Some x \<Longrightarrow>
      \<exists>x'. step (i + k) x a = (fst (iter_while f (es (i + k)) a), x', snd (iter_while f (es (i + k)) a)) \<and> R x x'"
    "\<And>k. k < length xs \<Longrightarrow> xs ! k = None \<Longrightarrow> es (i + k) = []" "\<And>x. Some x \<in> set xs \<Longrightarrow> R x x"
  shows "\<exists>ys. each_slot step i xs a =
      (fst (iter_while f (concat (map es [i..<i + length xs])) a), ys,
       snd (iter_while f (concat (map es [i..<i + length xs])) a)) \<and> list_all2 (rel_option R) xs ys"
  using assms
proof (induction xs arbitrary: i a)
  case (Cons e xs)
  have tail: "\<exists>ys. each_slot step (Suc i) xs a =
      (fst (iter_while f (concat (map es [Suc i..<Suc i + length xs])) a), ys,
       snd (iter_while f (concat (map es [Suc i..<Suc i + length xs])) a)) \<and> list_all2 (rel_option R) xs ys" for a
    using Cons.prems(1) [of "Suc _"] Cons.prems(2) [of "Suc _"] Cons.prems(3) by (intro Cons.IH) auto
  have split: "concat (map es [i..<i + length (e # xs)]) = es i @ concat (map es [Suc i..<Suc i + length xs])"
    using upt_conv_Cons [of i "i + length (e # xs)"] by (simp del: upt_Suc)
  have refl: "list_all2 (rel_option R) xs xs"
    unfolding list_all2_same
  proof
    fix y assume "y \<in> set xs"
    then show "rel_option R y y" using Cons.prems(3) by (cases y rule: option.exhaust) auto
  qed
  show ?case
  proof (cases e)
    case None
    then have "es i = []" using Cons.prems(2) [of 0] by simp
    moreover obtain ys where "each_slot step (Suc i) xs a =
        (fst (iter_while f (concat (map es [Suc i..<Suc i + length xs])) a), ys,
         snd (iter_while f (concat (map es [Suc i..<Suc i + length xs])) a))" "list_all2 (rel_option R) xs ys"
      using tail by blast
    ultimately show ?thesis unfolding split using None by simp
  next
    case (Some x)
    obtain x' where st: "step i x a = (fst (iter_while f (es i) a), x', snd (iter_while f (es i) a))" "R x x'"
      using Cons.prems(1) [of 0 x a] Some by auto
    obtain r a1 where it: "iter_while f (es i) a = (r, a1)" by fastforce
    show ?thesis
    proof (cases "r = Inr True")
      case True
      obtain ys where "each_slot step (Suc i) xs a1 =
          (fst (iter_while f (concat (map es [Suc i..<Suc i + length xs])) a1), ys,
           snd (iter_while f (concat (map es [Suc i..<Suc i + length xs])) a1))" "list_all2 (rel_option R) xs ys"
        using tail by blast
      with True Some st it show ?thesis unfolding split iter_while_append by simp
    next
      case False
      then have "each_slot step i (e # xs) a = (r, Some x' # xs, a1)"
        using Some st it by (auto split: sum.splits bool.splits)
      moreover have "iter_while f (es i @ concat (map es [Suc i..<Suc i + length xs])) a = (r, a1)"
        using False it by (auto simp: iter_while_append split: sum.splits bool.splits)
      ultimately show ?thesis unfolding split using Some st(2) refl by simp
    qed
  qed
qed simp

definition shift :: "nat \<Rightarrow> (nat \<times> 'v) list \<Rightarrow> (nat \<times> 'v) list" where
  "shift off es = map (\<lambda>(i, v). (off + i, v)) es"

lemma shift_simps [simp]: "shift off [] = []" "shift off (es @ es') = shift off es @ shift off es'"
  "shift off (shift k es) = shift (off + k) es" "shift off (concat ess) = concat (map (shift off) ess)"
  by (auto simp: shift_def [abs_def] map_concat)

lemma entries_add: "entries m 0 (a + b) = entries m 0 a @ shift a (entries (\<lambda>j. m (a + j)) 0 b)"
proof -
  have "[0..<a + b] = [0..<a] @ map (\<lambda>i. i + a) [0..<b]"
    using upt_add_eq_append [of 0 a b] map_add_upt [of a b] by (simp add: add.commute)
  then show ?thesis
    by (auto simp: entries_def shift_def map_concat o_def add.commute intro!: arg_cong [where f = concat] split: option.splits)
qed

lemma entries_blocks:
  "entries m 0 (K * w) = concat (map (\<lambda>k. shift (k * w) (entries (\<lambda>j. m (k * w + j)) 0 w)) [0..<K])"
proof (induction K)
  case (Suc K)
  have "entries m 0 (Suc K * w) = entries m 0 (K * w + w)" by (simp add: add.commute)
  also have "\<dots> = entries m 0 (K * w) @ shift (K * w) (entries (\<lambda>j. m (K * w + j)) 0 w)"
    by (rule entries_add)
  finally show ?case using Suc by simp
qed (simp add: entries_def)

lemma entries_cong: "(\<And>j. j < b \<Longrightarrow> m j = m' j) \<Longrightarrow> entries m 0 b = entries m' 0 b"
  by (auto simp: entries_def intro!: arg_cong [where f = concat])

lemma entries_sorted: "sorted_wrt (<) (map fst (entries m 0 b))"
proof (induction b)
  case (Suc b)
  have "\<forall>e\<in>set (entries m 0 b). fst e < b" by (auto simp: entries_def split: option.splits)
  moreover have "entries m 0 (Suc b) = entries m 0 b @ (case m b of None \<Rightarrow> [] | Some v \<Rightarrow> [(b, v)])"
    by (simp add: entries_def)
  ultimately show ?case using Suc by (auto simp: sorted_wrt_append split: option.splits)
qed (simp add: entries_def)

lemma set_entries: "(i, v) \<in> set (entries m 0 b) \<longleftrightarrow> i < b \<and> m i = Some v"
  by (auto simp: entries_def split: option.splits)

lemma map_of_entries: "i < b \<Longrightarrow> map_of (entries m 0 b) i = m i"
proof -
  assume "i < b"
  moreover have "distinct (map fst (entries m 0 b))"
    using entries_sorted strict_sorted_iff by blast
  ultimately have "map_of (entries m 0 b) i = Some v \<longleftrightarrow> m i = Some v" for v
    by (simp add: map_of_eq_Some_iff set_entries)
  then show ?thesis by (metis option.exhaust)
qed

text \<open>Links that differ only in their caches.\<close>

definition link_same :: "('c, 'v) amt_store \<Rightarrow> nat \<Rightarrow> nat \<Rightarrow> ('c, 'v) amt_link \<Rightarrow> ('c, 'v) amt_link \<Rightarrow> bool" where
  "link_same s bw h l l' \<longleftrightarrow> link_inv s bw h l' \<and> link_map s bw h l' = link_map s bw h l \<and>
     is_dirty l' = is_dirty l \<and> (\<not> is_dirty l \<longrightarrow> link_cid l' = link_cid l)"

lemma link_same_link_with:
  assumes "link_inv s bw h l" "link_load s bw l = Inr sub" "node_same s bw h sub sub'"
  shows "link_same s bw h l (link_with l sub')"
  using link_with_same [OF assms] by (cases l) (auto simp: link_same_def link_with_def)

lemma node_same_links:
  assumes "length links = 2 ^ bw" "list_all2 (rel_option (link_same s bw h)) links ys"
  shows "node_same s bw (Suc h) (Link links) (Link ys)"
proof -
  have len: "length ys = length links" using assms(2) by (auto dest: list_all2_lengthD)
  have nth: "rel_option (link_same s bw h) (links ! k) (ys ! k)" if "k < length links" for k
    using assms(2) that by (simp add: list_all2_conv_all_nth)
  have "link_inv s bw h l" if "Some l \<in> set ys" for l
  proof -
    from that obtain k where "k < length links" "ys ! k = Some l" unfolding len [symmetric] by (metis in_set_conv_nth)
    with nth [of k] show ?thesis by (auto simp: link_same_def elim: option.rel_cases)
  qed
  then have "node_inv s bw (Suc h) (Link ys)" using assms(1) len by (simp add: node_inv_Suc)
  moreover have "node_map s bw (Suc h) (Link ys) i = node_map s bw (Suc h) (Link links) i" for i
    using nth [of "i div span bw (Suc h)"] len
    by (cases "i div span bw (Suc h) < length links")
      (auto simp: node_map_Link slot_def link_same_def elim: option.rel_cases)
  moreover have "node_collapse (Link ys) = node_collapse (Link links)"
  proof (cases "clean_links links")
    case True
    have c: "clean_links ys \<and> map (map_option link_cid) ys = map (map_option link_cid) links"
      using assms(2) True
      by (induction links ys rule: list_all2_induct) (auto simp: link_same_def elim!: option.rel_cases)
    with True len show ?thesis by (intro node_collapse_Link_cong) simp_all
  next
    case False
    have "clean_links ys = clean_links links"
      using assms(2) by (induction links ys rule: list_all2_induct) (auto simp: link_same_def elim!: option.rel_cases)
    with False show ?thesis by (simp add: node_collapse_Link)
  qed
  moreover have "node_is_empty (Link ys) = node_is_empty (Link links)"
    using assms(2) unfolding node_is_empty_def
    by (induction links ys rule: list_all2_induct) (auto elim!: option.rel_cases)
  ultimately show ?thesis by (simp add: node_same_def fun_eq_iff)
qed

lemma node_for_each_correct:
  assumes "node_inv s bw h n" "bw * h < 64"
  shows "\<exists>n'. node_for_each_while s bw h off f n a =
      (fst (iter_while f (shift off (entries (node_map s bw h n) 0 (span bw (Suc h)))) a), n',
       snd (iter_while f (shift off (entries (node_map s bw h n) 0 (span bw (Suc h)))) a)) \<and> node_same s bw h n n'"
  using assms
proof (induction h arbitrary: n off a)
  case 0
  then obtain vals where n: "n = Leaf vals" and len: "length vals = 2 ^ bw" by auto
  let ?es = "\<lambda>k. case slot vals k of None \<Rightarrow> [] | Some v \<Rightarrow> [(off + k, v)]"
  let ?step = "\<lambda>i v a. let (r, a') = f (off + i) v a in (r, v, a')"
  have "\<exists>ys. each_slot ?step 0 vals a =
      (fst (iter_while f (concat (map ?es [0..<0 + length vals])) a), ys,
       snd (iter_while f (concat (map ?es [0..<0 + length vals])) a)) \<and> list_all2 (rel_option (=)) vals ys"
    by (rule each_slot_iter) (auto simp: slot_def iter_while_single simp del: iter_while.simps split: prod.splits)
  then obtain ys where e: "each_slot ?step 0 vals a =
      (fst (iter_while f (concat (map ?es [0..<0 + length vals])) a), ys,
       snd (iter_while f (concat (map ?es [0..<0 + length vals])) a))" "list_all2 (rel_option (=)) vals ys"
    by blast
  have "ys = vals" using e(2) by (simp add: option.rel_eq list.rel_eq)
  moreover have "concat (map ?es [0..<0 + length vals]) = shift off (entries (slot vals) 0 (span bw (Suc 0)))"
    by (simp add: entries_def span_def len shift_def map_concat o_def cong: map_cong)
      (auto intro!: arg_cong [where f = concat] split: option.splits)
  moreover have m0: "node_map s bw 0 n = slot vals" by (rule ext) (simp add: n)
  ultimately show ?case unfolding m0 using e(1) 0(1) by (auto simp: n)
next
  case (Suc h)
  then obtain links where n: "n = Link links" and len: "length links = 2 ^ bw"
    and links: "\<And>l. Some l \<in> set links \<Longrightarrow> link_inv s bw h l" by (auto simp: node_inv_Suc)
  have w: "nodes_for_height bw (Suc h) = span bw (Suc h)" using Suc.prems by (simp add: nodes_for_height_span)
  let ?W = "span bw (Suc h)"
  let ?sub = "\<lambda>k. case slot links k of None \<Rightarrow> Map.empty | Some l \<Rightarrow> link_map s bw h l"
  let ?es = "\<lambda>k. shift (off + k * ?W) (entries (?sub k) 0 ?W)"
  let ?step = "\<lambda>i l a. case link_load s bw l of Inl e \<Rightarrow> (Inl e, l, a)
    | Inr sub \<Rightarrow> let (r, sub', a') = node_for_each_while s bw h (off + i * ?W) f sub a in (r, link_with l sub', a')"
  have "\<exists>ys. each_slot ?step 0 links a =
      (fst (iter_while f (concat (map ?es [0..<0 + length links])) a), ys,
       snd (iter_while f (concat (map ?es [0..<0 + length links])) a)) \<and> list_all2 (rel_option (link_same s bw h)) links ys"
  proof (rule each_slot_iter)
    fix k l a assume k: "k < length links" "links ! k = Some l"
    then have inv: "link_inv s bw h l" using links by (metis nth_mem)
    then obtain sub where sub: "link_load s bw l = Inr sub" "node_inv s bw h sub" "link_map s bw h l = node_map s bw h sub"
      by (rule link_invE)
    obtain sub' where IH: "node_for_each_while s bw h (off + k * ?W) f sub a =
        (fst (iter_while f (?es k) a), sub', snd (iter_while f (?es k) a))" "node_same s bw h sub sub'"
      using Suc.IH [OF sub(2), of "off + k * ?W" a] Suc.prems(2) k sub(3) by (auto simp: slot_def)
    then show "\<exists>l'. ?step (0 + k) l a = (fst (iter_while f (?es (0 + k)) a), l', snd (iter_while f (?es (0 + k)) a)) \<and>
        link_same s bw h l l'"
      using link_same_link_with [OF inv sub(1) IH(2)] sub(1) by auto
  qed (use links in \<open>auto simp: slot_def entries_def link_same_def\<close>)
  then obtain ys where e: "each_slot ?step 0 links a =
      (fst (iter_while f (concat (map ?es [0..<0 + length links])) a), ys,
       snd (iter_while f (concat (map ?es [0..<0 + length links])) a))" "list_all2 (rel_option (link_same s bw h)) links ys"
    by blast
  have "?es k = shift off (shift (k * ?W) (entries (\<lambda>j. node_map s bw (Suc h) n (k * ?W + j)) 0 ?W))" for k
    by (simp add: n node_map_Link cong: option.case_cong)
      (auto intro!: arg_cong [where f = "shift (off + k * ?W)"] entries_cong split: option.splits)
  then have "concat (map ?es [0..<0 + length links]) = shift off (entries (node_map s bw (Suc h) n) 0 (span bw (Suc (Suc h))))"
    unfolding span_Suc [of bw "Suc h"] entries_blocks by (simp add: len o_def)
  moreover have "node_for_each_while s bw (Suc h) off f n a =
      (let (r, links', a') = each_slot ?step 0 links a in (r, Link links', a'))"
    unfolding n node_for_each_while.simps w nat.case by (rule refl)
  ultimately show ?case using e(1) node_same_links [OF len e(2)] by (simp add: n)
qed

lemma amt_for_each_while_correct:
  assumes "amt_inv s a"
  defines "es \<equiv> entries (amt_map s a) 0 (span (bit_width a) (Suc (height a)))"
  shows "\<exists>a'. amt_for_each_while s f a x = (res_bind (fst (iter_while f es x)) (\<lambda>_. Inr ()), a', snd (iter_while f es x)) \<and>
      amt_inv s a' \<and> amt_map s a' = amt_map s a"
    and "map_of es = amt_map s a" "sorted_wrt (<) (map fst es)"
proof -
  let ?bw = "bit_width a" and ?h = "height a"
  have wf: "amt_wf s a" using assms(1) by (simp add: amt_inv_def)
  note f = amt_wf_fields [OF wf]
  have "shift 0 xs = xs" for xs :: "(nat \<times> 'b) list" by (induction xs) (auto simp: shift_def)
  then obtain n where n: "node_for_each_while s ?bw ?h 0 f (root_node a) x =
      (fst (iter_while f es x), n, snd (iter_while f es x))" "node_same s ?bw ?h (root_node a) n"
    using node_for_each_correct [OF f(1,2), of 0 f x] by (auto simp: es_def amt_map_def)
  then show "\<exists>a'. amt_for_each_while s f a x = (res_bind (fst (iter_while f es x)) (\<lambda>_. Inr ()), a', snd (iter_while f es x)) \<and>
      amt_inv s a' \<and> amt_map s a' = amt_map s a"
    using assms(1)
    by (auto simp: amt_for_each_while_def amt_inv_def amt_wf_def amt_map_def node_same_def)
  show "map_of es = amt_map s a"
  proof
    fix i show "map_of es i = amt_map s a i"
    proof (cases "i < span ?bw (Suc ?h)")
      case True
      then show ?thesis by (simp add: es_def map_of_entries)
    next
      case False
      then have "amt_map s a i = None" using node_map_outside [OF f(1)] by (simp add: amt_map_def)
      moreover have "map_of es i = None" using False
        by (auto simp: es_def map_of_eq_None_iff image_iff set_entries)
      ultimately show ?thesis by simp
    qed
  qed
  show "sorted_wrt (<) (map fst es)" by (simp add: es_def entries_sorted)
qed

section \<open>A width of zero\<close>

lemma grow_root_width_0:
  "bit_width a = 0 \<Longrightarrow> bit_width ((grow_root ^^ k) a) = 0"
  by (induction k) (simp_all add: grow_root_def Let_def)

lemma amt_set_width_0:
  assumes "bit_width a = 0" "0 < i" "i \<le> MAX_INDEX"
  shows "amt_set s a i v = (Inl Diverges, a)"
proof -
  have "nodes_for_height (bit_width ((grow_root ^^ k) a)) (height ((grow_root ^^ k) a) + 1) \<le> i" for k
    using assms(2) by (simp add: grow_root_width_0 [OF assms(1)] nodes_for_height_def)
  then have "grow_loop i a = None" by (simp add: grow_loop_def while_option_def)
  with assms(3) show ?thesis by (simp add: amt_set_def)
qed

section \<open>Equal identifiers\<close>

lemma collapse_vals_inj:
  assumes "length vs = 2 ^ bw" "length ws = 2 ^ bw"
    "collapse_vals 0 vs (empty_bmap (2 ^ bw)) [] = collapse_vals 0 ws (empty_bmap (2 ^ bw)) []"
  shows "vs = ws"
proof -
  obtain bmap xs where c: "collapse_vals 0 vs (empty_bmap (2 ^ bw)) [] = (bmap, xs)" by fastforce
  have "(Inr vs :: (nat amt_error, 'a option list) res) = Inr ws"
    using expand_all_collapse_vals [of vs bw bmap xs] expand_all_collapse_vals [of ws bw bmap xs] assms c
    by metis
  then show ?thesis by simp
qed

lemma canon_inj:
  assumes "inj cid_of" "canon cid_of bw h m = canon cid_of bw h m'"
    "\<And>i. m i \<noteq> None \<Longrightarrow> i < span bw (Suc h)" "\<And>i. m' i \<noteq> None \<Longrightarrow> i < span bw (Suc h)"
  shows "m = m'"
  using assms(2-)
proof (induction h arbitrary: m m')
  case 0
  have "map m [0..<2 ^ bw] = map m' [0..<2 ^ bw]"
    using 0(1) by (intro collapse_vals_inj [of _ bw]) (auto split: prod.splits)
  then have eq: "m i = m' i" if "i < 2 ^ bw" for i using that by (simp add: map_eq_conv)
  show ?case
  proof
    fix i show "m i = m' i"
      using eq [of i] 0(2,3) [of i] by (cases "i < 2 ^ bw"; cases "m i"; cases "m' i") (auto simp: span_def)
  qed
next
  case (Suc h)
  let ?W = "span bw (Suc h)"
  let ?cid = "\<lambda>m k. if segment ?W k m = Map.empty then None
    else Some (cid_of (NodeBlock (canon cid_of bw h (segment ?W k m))))"
  have "map (?cid m) [0..<2 ^ bw] = map (?cid m') [0..<2 ^ bw]"
    using Suc.prems(1) by (intro collapse_vals_inj [of _ bw]) (auto simp: Let_def split: prod.splits)
  then have cid: "?cid m k = ?cid m' k" if "k < 2 ^ bw" for k using that by (simp add: map_eq_conv)
  have seg: "segment ?W k m = segment ?W k m'" if "k < 2 ^ bw" for k
  proof (cases "segment ?W k m = Map.empty")
    case True
    with cid [OF that] show ?thesis by (auto split: if_splits)
  next
    case False
    with cid [OF that] have "canon cid_of bw h (segment ?W k m) = canon cid_of bw h (segment ?W k m')"
      using assms(1) by (auto simp: inj_eq split: if_splits)
    then show ?thesis by (rule Suc.IH) (auto simp: segment_def split: if_splits)
  qed
  show ?case
  proof
    fix i
    show "m i = m' i"
    proof (cases "i < span bw (Suc (Suc h))")
      case True
      then have "i div ?W < 2 ^ bw" by (simp add: block_lt)
      from fun_cong [OF seg [OF this], of "i mod ?W"] show ?thesis by (simp add: segment_def div_mult_mod_eq)
    next
      case False
      then show ?thesis using Suc.prems(2,3) [of i] by (cases "m i"; cases "m' i") auto
    qed
  qed
qed

lemma amt_flush_root:
  assumes "inj cid_of" "store_ok cid_of s" "amt_inv s a"
  shows "fst (amt_flush cid_of s a) =
    Inr (cid_of (RootBlock (bit_width a) (height a) (card (dom (amt_map s a))) (canon cid_of (bit_width a) (height a) (amt_map s a))))"
  using amt_flush_correct [OF assms] by (auto dest: store_okD)

text \<open>An injective identifier function: the identifier is the block itself.\<close>

datatype 'v merkle_cid = MerkleCid "('v merkle_cid, 'v) amt_block"

lemma inj_MerkleCid: "inj MerkleCid"
  by (simp add: inj_def)

section \<open>Properties\<close>

text \<open>C9. On a well-formed trie, \<open>set\<close>, \<open>get\<close> and \<open>delete\<close> are update, lookup and removal of a
  partial function from indices to values, whatever part of the trie is in memory, cached or only in
  the store: each returns normally for every index up to \<open>MAX_INDEX\<close>, \<open>get\<close> and \<open>delete\<close> with
  the value at the index, and each keeps the invariant; a larger index is refused by each of them
  with the trie unchanged. The entry count follows.\<close>

theorem amt_operations:
  assumes "amt_inv s a"
  shows "if i \<le> MAX_INDEX then
      (\<exists>a'. amt_set s a i v = (Inr (), a') \<and> amt_inv s a' \<and> amt_map s a' = (amt_map s a)(i \<mapsto> v) \<and>
         count a' = (if amt_map s a i = None then count a + 1 else count a)) \<and>
      (\<exists>a'. amt_get s a i = (Inr (amt_map s a i), a') \<and> amt_inv s a' \<and> amt_map s a' = amt_map s a) \<and>
      (\<exists>a'. amt_delete s a i = (Inr (amt_map s a i), a') \<and> amt_inv s a' \<and> amt_map s a' = (amt_map s a)(i := None) \<and>
         count a' = (if amt_map s a i = None then count a else count a - 1))
    else amt_set s a i v = (Inl (OutOfRange i), a) \<and> amt_get s a i = (Inl (OutOfRange i), a) \<and>
      amt_delete s a i = (Inl (OutOfRange i), a)"
proof (cases "i \<le> MAX_INDEX")
  case True
  with amt.insert_law [OF assms True, of v] amt.size_insert [OF assms True, of v] amt.lookup_law [OF assms True]
    amt.remove_law [OF assms True] amt.size_remove [OF assms True] show ?thesis by metis
qed (simp add: amt_set_def amt_get_def amt_delete_def)

theorem amt_operations_witness:
  "amt_inv Map.empty (amt_new :: (nat, nat) amt) \<and>
   (\<exists>a'. amt_set Map.empty (amt_new :: (nat, nat) amt) 1000 7 = (Inr (), a') \<and>
      amt_map Map.empty a' 1000 = Some 7 \<and> count a' = 1)"
proof -
  have inv: "amt_inv Map.empty (amt_new :: (nat, nat) amt)"
    by (simp add: amt_new_def DEFAULT_BIT_WIDTH_def amt_new_correct)
  have "amt_map Map.empty (amt_new :: (nat, nat) amt) = Map.empty" "count (amt_new :: (nat, nat) amt) = 0"
    by (simp_all add: amt_new_def amt_new_correct) (simp add: amt_new_with_bit_width_def)
  with amt_operations [OF inv, of 1000 7] inv show ?thesis by (auto simp: MAX_INDEX_def)
qed

text \<open>C10. Flushing a well-formed trie succeeds, keeps every block that was stored, and leaves a root
  identifier from which \<open>load\<close> gives back a well-formed trie with the same contents.\<close>

theorem amt_flush_load:
  assumes "inj cid_of" "store_ok cid_of s" "amt_inv s a"
  shows "\<exists>c a' s' b. amt_flush cid_of s a = (Inr c, a', s') \<and> s \<subseteq>\<^sub>m s' \<and> store_ok cid_of s' \<and>
    amt_inv s' a' \<and> amt_map s' a' = amt_map s a \<and>
    amt_load s' c = Inr b \<and> amt_inv s' b \<and> amt_map s' b = amt_map s a"
  using amt_flush_correct [OF assms] by metis

theorem amt_flush_load_witness:
  "inj (MerkleCid :: _ \<Rightarrow> nat merkle_cid) \<and> store_ok MerkleCid Map.empty \<and>
   (\<exists>a c a' s' b. amt_set Map.empty (amt_new :: (nat merkle_cid, nat) amt) 70 5 = (Inr (), a) \<and>
      amt_flush MerkleCid Map.empty a = (Inr c, a', s') \<and> amt_load s' c = Inr b \<and> amt_map s' b 70 = Some 5)"
proof -
  have inv: "amt_inv Map.empty (amt_new :: (nat merkle_cid, nat) amt)"
    by (simp add: amt_new_def DEFAULT_BIT_WIDTH_def amt_new_correct)
  obtain a where a: "amt_set Map.empty (amt_new :: (nat merkle_cid, nat) amt) 70 5 = (Inr (), a)"
    "amt_inv Map.empty a" "amt_map Map.empty a = (amt_map Map.empty (amt_new :: (nat merkle_cid, nat) amt))(70 \<mapsto> 5)"
    using amt_set_correct [OF inv, of 70 5] by (auto simp: MAX_INDEX_def)
  from amt_flush_load [OF inj_MerkleCid store_ok_empty a(2)] a(1,3) inj_MerkleCid show ?thesis
    by (auto 0 4)
qed

text \<open>C11. The root identifier is determined by the contents: two well-formed tries of the same bit
  width flush to the same identifier exactly when they hold the same values at the same indices,
  whatever operations built them, and whatever stores they live in.\<close>

theorem amt_identifier_canonical:
  assumes "inj cid_of" "store_ok cid_of s" "store_ok cid_of t" "amt_inv s a" "amt_inv t b"
    "bit_width a = bit_width b"
  shows "fst (amt_flush cid_of s a) = fst (amt_flush cid_of t b) \<longleftrightarrow> amt_map s a = amt_map t b"
proof
  assume "fst (amt_flush cid_of s a) = fst (amt_flush cid_of t b)"
  then have eq: "height a = height b"
    "canon cid_of (bit_width a) (height a) (amt_map s a) = canon cid_of (bit_width a) (height a) (amt_map t b)"
    using assms by (auto simp: amt_flush_root inj_eq)
  have "i < span (bit_width x) (Suc (height x))" if "amt_inv u x" "amt_map u x i \<noteq> None" for u i and x :: "('a, 'b) amt"
    using that node_map_bound by (metis amt_inv_def amt_map_def amt_wf_def)
  from this [OF assms(4)] this [OF assms(5)] eq assms(6) show "amt_map s a = amt_map t b"
    by (intro canon_inj [OF assms(1) eq(2)]) auto
next
  assume eq: "amt_map s a = amt_map t b"
  with amt_height_unique [OF assms(4,5) eq assms(6)] assms
  show "fst (amt_flush cid_of s a) = fst (amt_flush cid_of t b)"
    by (simp add: amt_flush_root)
qed

theorem amt_identifier_canonical_witness:
  "inj (MerkleCid :: _ \<Rightarrow> nat merkle_cid) \<and>
   (\<exists>a b. amt_set Map.empty (amt_new :: (nat merkle_cid, nat) amt) 70 5 = (Inr (), a) \<and>
      amt_delete Map.empty a 70 = (Inr (Some 5), b) \<and>
      fst (amt_flush MerkleCid Map.empty b) = fst (amt_flush MerkleCid Map.empty amt_new))"
proof -
  let ?new = "amt_new :: (nat merkle_cid, nat) amt"
  have inv: "amt_inv Map.empty ?new" and e: "amt_map Map.empty ?new = Map.empty"
    by (simp_all add: amt_new_def DEFAULT_BIT_WIDTH_def amt_new_correct)
  obtain a where a: "amt_set Map.empty ?new 70 5 = (Inr (), a)" "amt_inv Map.empty a"
    "amt_map Map.empty a = Map.empty(70 \<mapsto> 5)" "bit_width a = bit_width ?new"
    using amt_set_correct [OF inv, of 70 5] e by (auto simp: MAX_INDEX_def)
  obtain b where b: "amt_delete Map.empty a 70 = (Inr (Some 5), b)" "amt_inv Map.empty b"
    "amt_map Map.empty b = Map.empty" "bit_width b = bit_width a"
    using amt_delete_correct [OF a(2), of 70] a(3) by (auto simp: MAX_INDEX_def fun_upd_idem)
  from amt_identifier_canonical [OF inj_MerkleCid store_ok_empty store_ok_empty b(2) inv] a b e inj_MerkleCid
  show ?thesis by auto
qed

text \<open>C12. \<open>for_each_while\<close> visits the entries in ascending order of their indices, each of them once,
  with its value, until the closure fails or asks to stop, and it does not change the contents.\<close>

theorem amt_for_each_in_order:
  assumes "amt_inv s a"
  shows "\<exists>es a'. map_of es = amt_map s a \<and> sorted_wrt (<) (map fst es) \<and>
    amt_for_each_while s f a x = (res_bind (fst (iter_while f es x)) (\<lambda>_. Inr ()), a', snd (iter_while f es x)) \<and>
    amt_inv s a' \<and> amt_map s a' = amt_map s a"
  using amt_for_each_while_correct [OF assms] by metis

theorem amt_for_each_in_order_witness:
  "amt_inv Map.empty (amt_new :: (nat, nat) amt) \<and>
   snd (snd (amt_for_each_while Map.empty (\<lambda>i v x. (Inr True, x + v)) (amt_new :: (nat, nat) amt) 3)) = 3"
proof -
  have inv: "amt_inv Map.empty (amt_new :: (nat, nat) amt)" and e: "amt_map Map.empty (amt_new :: (nat, nat) amt) = Map.empty"
    by (simp_all add: amt_new_def DEFAULT_BIT_WIDTH_def amt_new_correct)
  from amt_for_each_in_order [OF inv, of "\<lambda>i v x. (Inr True, x + v)" 3] inv e show ?thesis by auto
qed

text \<open>Deleting a list of different indices in one batch (not strict) removes exactly these entries. The
  returned flag is true exactly when some of the indices was absent, although it is documented to
  be true when items were deleted.\<close>

theorem amt_batch_delete_flag:
  assumes "amt_inv s a" "\<forall>i\<in>set is. i \<le> MAX_INDEX" "distinct is"
  shows "\<exists>a'. amt_batch_delete s a is False = (Inr (\<exists>i\<in>set is. amt_map s a i = None), a') \<and>
    amt_inv s a' \<and> amt_map s a' = (amt_map s a) |` (- set is)"
  using batch_delete_sorted_correct [OF assms(1), of "sort is" False] assms(2,3) by (simp add: amt_batch_delete_def)

theorem amt_batch_delete_flag_witness:
  "amt_inv Map.empty (amt_new :: (nat, nat) amt) \<and>
   (\<exists>a'. amt_batch_delete Map.empty (amt_new :: (nat, nat) amt) [3, 1] False = (Inr True, a'))"
proof -
  have inv: "amt_inv Map.empty (amt_new :: (nat, nat) amt)" and e: "amt_map Map.empty (amt_new :: (nat, nat) amt) = Map.empty"
    by (simp_all add: amt_new_def DEFAULT_BIT_WIDTH_def amt_new_correct)
  have "\<forall>i\<in>set [3, 1]. i \<le> MAX_INDEX" "distinct [3, 1 :: nat]" by (simp_all add: MAX_INDEX_def)
  from amt_batch_delete_flag [OF inv this] inv e show ?thesis by auto
qed

text \<open>C13. The loop of \<open>set\<close> that adds levels at the root ends on every well-formed trie. It does not end
  on a trie of bit width 0, which \<open>load\<close> accepts, for any index but 0.\<close>

theorem amt_set_termination:
  assumes "i \<le> MAX_INDEX"
  shows "(amt_inv s a \<longrightarrow> fst (amt_set s a i v) = Inr ()) \<and>
    (bit_width a = 0 \<and> 0 < i \<longrightarrow> amt_set s a i v = (Inl Diverges, a))"
  using amt_set_correct [OF _ assms, of s a v] amt_set_width_0 [of a i s v] assms by auto

theorem amt_set_termination_witness:
  "amt_set Map.empty (amt_new_with_bit_width 0 :: (nat, nat) amt) 1 7 = (Inl Diverges, amt_new_with_bit_width 0) \<and>
   fst (amt_set Map.empty (amt_new_with_bit_width 1 :: (nat, nat) amt) 1 7) = Inr ()"
  using amt_set_termination [of 1 Map.empty "amt_new_with_bit_width 0 :: (nat, nat) amt" 7]
    amt_set_termination [of 1 Map.empty "amt_new_with_bit_width 1 :: (nat, nat) amt" 7]
  by (simp add: amt_new_correct MAX_INDEX_def) (simp add: amt_new_with_bit_width_def)

end
