(* ===== verification/Hamt.thy ===== *)
theory Hamt
  imports Blockstore
begin

text \<open>
  The hash array-mapped trie of \<open>src/ipld/hamt/src\<close>: a persistent map whose nodes are blocks of a
  content-addressed store.  A node has a bit field of its occupied slots and one pointer for each:
  a bucket of at most three entries, the identifier of a stored child with a cache of the loaded one,
  or a modified child that is not stored yet.  The slot of a key at each level is the next chunk of
  the bits of its hash; the hash function is the parameter \<open>hash\<close>.
\<close>

unbundle bit_operations_syntax

section \<open>Bit fields of a node\<close>

text \<open>\<open>Bitfield([u64; 4])\<close>; the positions are below 256.\<close>

type_synonym hbits = "64 word list"

definition hbf_zero :: hbits where
  "hbf_zero = [0, 0, 0, 0]"

definition hbf_clear_bit :: "hbits \<Rightarrow> nat \<Rightarrow> hbits" where
  "hbf_clear_bit b idx =
    (let ai = idx div 64; bi = idx mod 64 in b[ai := b ! ai AND (- 1 - push_bit bi 1)])"

definition hbf_test_bit :: "hbits \<Rightarrow> nat \<Rightarrow> bool" where
  "hbf_test_bit b idx = (let ai = idx div 64; bi = idx mod 64 in b ! ai AND push_bit bi 1 \<noteq> 0)"

definition hbf_set_bit :: "hbits \<Rightarrow> nat \<Rightarrow> hbits" where
  "hbf_set_bit b idx =
    (let ai = idx div 64; bi = idx mod 64 in b[ai := b ! ai OR push_bit bi 1])"

definition count_ones_u64 :: "64 word \<Rightarrow> nat" where
  "count_ones_u64 w = length (filter (bit w) [0 ..< 64])"

definition hbf_count_ones :: "hbits \<Rightarrow> nat" where
  "hbf_count_ones b = (\<Sum>w \<leftarrow> b. count_ones_u64 w)"

definition hbf_and :: "hbits \<Rightarrow> hbits \<Rightarrow> hbits" where
  "hbf_and a b = [a ! 0 AND b ! 0, a ! 1 AND b ! 1, a ! 2 AND b ! 2, a ! 3 AND b ! 3]"

definition set_bits_leq_u64 :: "64 word \<Rightarrow> nat \<Rightarrow> 64 word" where
  "set_bits_leq_u64 v k = ucast ((ucast v :: 128 word) OR (push_bit (1 + k) 1 - 1))"

definition hbf_set_bits_leq :: "hbits \<Rightarrow> nat \<Rightarrow> hbits" where
  "hbf_set_bits_leq b k =
    (if k < 64 then b[0 := set_bits_leq_u64 (b ! 0) k]
     else if k < 128 then b[0 := - 1, 1 := set_bits_leq_u64 (b ! 1) (k - 64)]
     else if k < 192 then b[0 := - 1, 1 := - 1, 2 := set_bits_leq_u64 (b ! 2) (k - 128)]
     else b[0 := - 1, 1 := - 1, 2 := - 1, 3 := set_bits_leq_u64 (b ! 3) (k - 192)])"

definition hbf_set_bits_le :: "hbits \<Rightarrow> nat \<Rightarrow> hbits" where
  "hbf_set_bits_le b k = (if k = 0 then b else hbf_set_bits_leq b (k - 1))"

text \<open>
  The stored form: the words from the highest to the lowest in big-endian byte order, without the
  leading zero bytes.  More than 32 bytes make the slice of the reader panic (\<open>None\<close>).
\<close>

definition be_bytes :: "64 word \<Rightarrow> 8 word list" where
  "be_bytes w = map (\<lambda>i. ucast (drop_bit (8 * (7 - i)) w)) [0 ..< 8]"

definition be_read :: "8 word list \<Rightarrow> 64 word" where
  "be_read bs = foldl (\<lambda>a b. push_bit 8 a OR ucast b) 0 bs"

definition hbf_serialize :: "hbits \<Rightarrow> 8 word list" where
  "hbf_serialize b =
    dropWhile (\<lambda>x. x = 0) (be_bytes (b ! 3) @ be_bytes (b ! 2) @ be_bytes (b ! 1) @ be_bytes (b ! 0))"

definition hbf_deserialize :: "8 word list \<Rightarrow> hbits option" where
  "hbf_deserialize bytes =
    (if 32 < length bytes then None
     else let arr = replicate (32 - length bytes) 0 @ bytes in
       Some [be_read (drop 24 arr), be_read (take 8 (drop 16 arr)),
             be_read (take 8 (drop 8 arr)), be_read (take 8 arr)])"

section \<open>Bits of a hash\<close>

type_synonym hashed_key = "8 word list"

datatype 'c hamt_error =
    MaxDepth | InvalidHashBitLen | ZeroPointers | HCidNotFound 'c | HOther string | HPanic string | HDiverges

definition mkmask :: "nat \<Rightarrow> 32 word" where
  "mkmask n = ucast ((push_bit n 1 :: 64 word) - 1)"

text \<open>\<open>next_bits\<close>: the next \<open>i\<close> bits of the hash and the number of bits consumed then.\<close>

function next_bits :: "hashed_key \<Rightarrow> nat \<Rightarrow> nat \<Rightarrow> 32 word \<times> nat" where
  "next_bits b consumed i =
    (let curbi = consumed div 8; leftb = 8 - consumed mod 8; curb = ucast (b ! curbi) :: 32 word in
     if i = leftb then (mkmask i AND curb, consumed + i)
     else if i < leftb then
       (let a = curb AND mkmask leftb; b' = a AND NOT (mkmask (leftb - i))
        in (drop_bit (leftb - i) b', consumed + i))
     else
       (let out = push_bit (i - leftb) (ucast (mkmask leftb AND curb) :: 64 word);
            (rest, consumed') = next_bits b (consumed + leftb) (i - leftb)
        in (ucast (out + ucast rest), consumed')))"
  by pat_completeness auto

termination
proof (relation "measure (\<lambda>(b, consumed, i). i)")
  fix b :: hashed_key and consumed i curbi leftb :: nat and curb :: "32 word" and out :: "64 word"
  assume "leftb = 8 - consumed mod 8" "i \<noteq> leftb" "\<not> i < leftb"
  then show "((b, consumed + leftb, i - leftb), (b, consumed, i)) \<in> measure (\<lambda>(b, consumed, i). i)"
    by auto
qed simp

declare next_bits.simps [simp del]

definition hash_next :: "hashed_key \<Rightarrow> nat \<Rightarrow> nat \<Rightarrow> ('c hamt_error, nat \<times> nat) res" where
  "hash_next b consumed i =
    (if 8 < i then Inl InvalidHashBitLen
     else if length b * 8 < consumed + i then Inl MaxDepth
     else let (out, consumed') = next_bits b consumed i in Inr (unat out, consumed'))"

section \<open>Nodes and blocks\<close>

definition MAX_ARRAY_WIDTH :: nat where "MAX_ARRAY_WIDTH = 3"
definition HAMT_DEFAULT_BIT_WIDTH :: nat where "HAMT_DEFAULT_BIT_WIDTH = 8"

datatype ('k, 'v, 'c) hamt_node = HNode (node_bits: hbits) (node_ptrs: "('k, 'v, 'c) pointer list")
and ('k, 'v, 'c) pointer =
    Values "('k \<times> 'v) list"
  | HLink 'c "('k, 'v, 'c) hamt_node option"
  | HDirty "('k, 'v, 'c) hamt_node"

text \<open>The stored form of a node; a modified child cannot be serialized.\<close>

datatype ('k, 'v, 'c) PointerSer = PVals "('k \<times> 'v) list" | PLink 'c

datatype ('k, 'v, 'c) hamt_block = HBlock hbits "('k, 'v, 'c) PointerSer list"

type_synonym ('k, 'v, 'c) hamt_store = "('c, ('k, 'v, 'c) hamt_block) store"

fun pointer_ser :: "('k, 'v, 'c) pointer \<Rightarrow> ('c hamt_error, ('k, 'v, 'c) PointerSer) res" where
  "pointer_ser (Values vals) = Inr (PVals vals)"
| "pointer_ser (HLink c cache) = Inr (PLink c)"
| "pointer_ser (HDirty n) = Inl (HOther ''Cannot serialize cached values'')"

fun pointers_ser ::
  "('k, 'v, 'c) pointer list \<Rightarrow> ('c hamt_error, ('k, 'v, 'c) PointerSer list) res" where
  "pointers_ser [] = Inr []"
| "pointers_ser (p # ps) = res_bind (pointer_ser p) (\<lambda>q. res_bind (pointers_ser ps) (\<lambda>qs. Inr (q # qs)))"

fun node_ser :: "('k, 'v, 'c) hamt_node \<Rightarrow> ('c hamt_error, ('k, 'v, 'c) hamt_block) res" where
  "node_ser (HNode b ps) = res_bind (pointers_ser ps) (\<lambda>qs. Inr (HBlock b qs))"

fun pointer_de :: "('k, 'v, 'c) PointerSer \<Rightarrow> ('k, 'v, 'c) pointer" where
  "pointer_de (PVals vals) = Values vals"
| "pointer_de (PLink c) = HLink c None"

fun node_de :: "('k, 'v, 'c) hamt_block \<Rightarrow> ('k, 'v, 'c) hamt_node" where
  "node_de (HBlock b qs) = HNode b (map pointer_de qs)"

definition hnode_default :: "('k, 'v, 'c) hamt_node" where
  "hnode_default = HNode hbf_zero []"

text \<open>The child behind a link: the cached one, or the one read from the store.\<close>

definition child_load ::
  "('k, 'v, 'c) hamt_store \<Rightarrow> 'c \<Rightarrow> ('k, 'v, 'c) hamt_node option \<Rightarrow> ('c hamt_error, ('k, 'v, 'c) hamt_node) res" where
  "child_load s c cache =
    (case cache of
       Some n \<Rightarrow> Inr n
     | None \<Rightarrow> (case bs_get s c of Some blk \<Rightarrow> Inr (node_de blk) | None \<Rightarrow> Inl (HCidNotFound c)))"

definition index_for_bit_pos :: "hbits \<Rightarrow> nat \<Rightarrow> nat" where
  "index_for_bit_pos b bp = hbf_count_ones (hbf_and (hbf_set_bits_le hbf_zero bp) b)"

definition list_insert :: "nat \<Rightarrow> 'a \<Rightarrow> 'a list \<Rightarrow> 'a list" where
  "list_insert i x xs = take i xs @ x # drop i xs"

definition list_remove :: "nat \<Rightarrow> 'a list \<Rightarrow> 'a list" where
  "list_remove i xs = take i xs @ drop (Suc i) xs"

fun list_position :: "('a \<Rightarrow> bool) \<Rightarrow> 'a list \<Rightarrow> nat option" where
  "list_position P [] = None"
| "list_position P (x # xs) = (if P x then Some 0 else map_option Suc (list_position P xs))"

fun insert_child :: "('k, 'v, 'c) hamt_node \<Rightarrow> nat \<Rightarrow> 'k \<Rightarrow> 'v \<Rightarrow> ('k, 'v, 'c) hamt_node" where
  "insert_child (HNode b ps) idx key val =
    HNode (hbf_set_bit b idx) (list_insert (index_for_bit_pos b idx) (Values [(key, val)]) ps)"

fun rm_child :: "('k, 'v, 'c) hamt_node \<Rightarrow> nat \<Rightarrow> nat \<Rightarrow> ('k, 'v, 'c) hamt_node" where
  "rm_child (HNode b ps) i idx = HNode (hbf_clear_bit b idx) (list_remove i ps)"

fun set_child :: "('k, 'v, 'c) hamt_node \<Rightarrow> nat \<Rightarrow> ('k, 'v, 'c) pointer \<Rightarrow> ('k, 'v, 'c) hamt_node" where
  "set_child (HNode b ps) i p = HNode b (ps[i := p])"

section \<open>Operations on nodes\<close>

text \<open>\<open>Pointer::clean\<close>: a modified child with few enough entries becomes a bucket again.\<close>

fun values_of :: "('k, 'v, 'c) pointer \<Rightarrow> ('k \<times> 'v) list option" where
  "values_of (Values vals) = Some vals"
| "values_of _ = None"

definition hamt_clean ::
  "('k :: linorder, 'v, 'c) pointer \<Rightarrow> ('c hamt_error, unit) res \<times> ('k, 'v, 'c) pointer" where
  "hamt_clean p =
    (case p of
       HDirty (HNode b ps) \<Rightarrow>
         (if length ps = 0 then (Inl ZeroPointers, p)
          else if length ps = 1 then
            (case hd ps of Values vals \<Rightarrow> (Inr (), Values vals) | _ \<Rightarrow> (Inr (), p))
          else if length ps \<le> MAX_ARRAY_WIDTH then
            (if \<exists>q \<in> set ps. values_of q = None then (Inr (), p)
             else
               let child_vals = concat (map (\<lambda>q. case values_of q of Some kvs \<Rightarrow> kvs | None \<Rightarrow> []) ps) in
               if MAX_ARRAY_WIDTH < length child_vals then (Inr (), p)
               else (Inr (), Values (sort_key fst child_vals)))
          else (Inr (), p))
     | _ \<Rightarrow> (Inl (HPanic ''clean is only called on dirty pointer''), p))"

text \<open>
  The recursive operations descend one level of the trie with every call; the first argument bounds
  the number of levels.  Reading fills the caches of the links on the way, which is the only change
  of the node it returns.
\<close>

primrec get_value ::
  "nat \<Rightarrow> ('k, 'v, 'c) hamt_store \<Rightarrow> nat \<Rightarrow> hashed_key \<Rightarrow> nat \<Rightarrow> 'k \<Rightarrow> ('k, 'v, 'c) hamt_node \<Rightarrow>
   ('c hamt_error, ('k \<times> 'v) option) res \<times> ('k, 'v, 'c) hamt_node" where
  "get_value 0 s bit_width hashed consumed key n = (Inl HDiverges, n)"
| "get_value (Suc fuel) s bit_width hashed consumed key n =
    (case hash_next hashed consumed bit_width of
       Inl e \<Rightarrow> (Inl e, n)
     | Inr (idx, consumed') \<Rightarrow>
         if \<not> hbf_test_bit (node_bits n) idx then (Inr None, n)
         else
           let cindex = index_for_bit_pos (node_bits n) idx in
           if length (node_ptrs n) \<le> cindex then (Inl (HPanic ''index out of bounds''), n)
           else
             case node_ptrs n ! cindex of
               HLink c cache \<Rightarrow>
                 (case child_load s c cache of
                    Inl e \<Rightarrow> (Inl e, n)
                  | Inr child \<Rightarrow>
                      let (r, child') = get_value fuel s bit_width hashed consumed' key child
                      in (r, set_child n cindex (HLink c (Some child'))))
             | HDirty child \<Rightarrow>
                 let (r, child') = get_value fuel s bit_width hashed consumed' key child
                 in (r, set_child n cindex (HDirty child'))
             | Values vals \<Rightarrow> (Inr (List.find (\<lambda>kv. key = fst kv) vals), n))"

text \<open>The loop that moves the entries of a full bucket to the new child.\<close>

fun insert_kvs ::
  "('k \<times> 'v \<Rightarrow> 'n \<Rightarrow> ('e, 'a) res \<times> 'n) \<Rightarrow> ('k \<times> 'v) list \<Rightarrow> 'n \<Rightarrow> ('e, unit) res \<times> 'n" where
  "insert_kvs f [] sub = (Inr (), sub)"
| "insert_kvs f (kv # kvs) sub =
    (case f kv sub of (Inl e, sub') \<Rightarrow> (Inl e, sub') | (Inr _, sub') \<Rightarrow> insert_kvs f kvs sub')"

primrec modify_value ::
  "nat \<Rightarrow> ('k :: linorder \<Rightarrow> hashed_key) \<Rightarrow> ('k, 'v, 'c) hamt_store \<Rightarrow> nat \<Rightarrow> bool \<Rightarrow> hashed_key \<Rightarrow> nat \<Rightarrow> 'k \<Rightarrow> 'v \<Rightarrow>
   ('k, 'v, 'c) hamt_node \<Rightarrow> ('c hamt_error, 'v option \<times> bool) res \<times> ('k, 'v, 'c) hamt_node" where
  "modify_value 0 hash s bit_width overwrite hashed consumed key val n = (Inl HDiverges, n)"
| "modify_value (Suc fuel) hash s bit_width overwrite hashed consumed key val n =
    (case hash_next hashed consumed bit_width of
       Inl e \<Rightarrow> (Inl e, n)
     | Inr (idx, consumed') \<Rightarrow>
         if \<not> hbf_test_bit (node_bits n) idx then
           (if length (node_ptrs n) < index_for_bit_pos (node_bits n) idx
            then (Inl (HPanic ''insertion index out of bounds''), n)
            else (Inr (None, True), insert_child n idx key val))
         else
           let cindex = index_for_bit_pos (node_bits n) idx in
           if length (node_ptrs n) \<le> cindex then (Inl (HPanic ''index out of bounds''), n)
           else
             case node_ptrs n ! cindex of
               HLink c cache \<Rightarrow>
                 (case child_load s c cache of
                    Inl e \<Rightarrow> (Inl e, n)
                  | Inr child \<Rightarrow>
                      (case modify_value fuel hash s bit_width overwrite hashed consumed' key val child of
                         (Inl e, child') \<Rightarrow> (Inl e, set_child n cindex (HLink c (Some child')))
                       | (Inr (old, modified), child') \<Rightarrow>
                           (Inr (old, modified),
                            set_child n cindex (if modified then HDirty child' else HLink c (Some child')))))
             | HDirty child \<Rightarrow>
                 let (r, child') = modify_value fuel hash s bit_width overwrite hashed consumed' key val child
                 in (r, set_child n cindex (HDirty child'))
             | Values vals \<Rightarrow>
                 (case list_position (\<lambda>p. fst p = key) vals of
                    Some i \<Rightarrow>
                      if overwrite then
                        (Inr (Some (snd (vals ! i)), snd (vals ! i) \<noteq> val),
                         set_child n cindex (Values (vals[i := (fst (vals ! i), val)])))
                      else (Inr (None, False), n)
                  | None \<Rightarrow>
                      if MAX_ARRAY_WIDTH \<le> length vals then
                        (case modify_value fuel hash s bit_width overwrite hashed consumed' key val hnode_default of
                           (Inl e, sub) \<Rightarrow> (Inl e, n)
                         | (Inr modified, sub) \<Rightarrow>
                             (case insert_kvs (\<lambda>p. modify_value fuel hash s bit_width overwrite (hash (fst p))
                                       consumed' (fst p) (snd p)) vals sub of
                                (Inl e, sub') \<Rightarrow> (Inl e, set_child n cindex (Values []))
                              | (Inr _, sub') \<Rightarrow> (Inr modified, set_child n cindex (HDirty sub'))))
                      else
                        let i = (case list_position (\<lambda>c. key < fst c) vals of Some i \<Rightarrow> i | None \<Rightarrow> length vals)
                        in (Inr (None, True), set_child n cindex (Values (list_insert i (key, val) vals)))))"

primrec rm_value ::
  "nat \<Rightarrow> ('k :: linorder, 'v, 'c) hamt_store \<Rightarrow> nat \<Rightarrow> hashed_key \<Rightarrow> nat \<Rightarrow> 'k \<Rightarrow> ('k, 'v, 'c) hamt_node \<Rightarrow>
   ('c hamt_error, ('k \<times> 'v) option) res \<times> ('k, 'v, 'c) hamt_node" where
  "rm_value 0 s bit_width hashed consumed key n = (Inl HDiverges, n)"
| "rm_value (Suc fuel) s bit_width hashed consumed key n =
    (case hash_next hashed consumed bit_width of
       Inl e \<Rightarrow> (Inl e, n)
     | Inr (idx, consumed') \<Rightarrow>
         if \<not> hbf_test_bit (node_bits n) idx then (Inr None, n)
         else
           let cindex = index_for_bit_pos (node_bits n) idx in
           if length (node_ptrs n) \<le> cindex then (Inl (HPanic ''index out of bounds''), n)
           else
             case node_ptrs n ! cindex of
               HLink c cache \<Rightarrow>
                 (case child_load s c cache of
                    Inl e \<Rightarrow> (Inl e, n)
                  | Inr child \<Rightarrow>
                      (case rm_value fuel s bit_width hashed consumed' key child of
                         (Inl e, child') \<Rightarrow> (Inl e, set_child n cindex (HLink c (Some child')))
                       | (Inr deleted, child') \<Rightarrow>
                           (case hamt_clean (if deleted \<noteq> None then HDirty child' else HLink c (Some child')) of
                              (Inl e, p) \<Rightarrow> (Inl e, set_child n cindex p)
                            | (Inr _, p) \<Rightarrow> (Inr deleted, set_child n cindex p))))
             | HDirty child \<Rightarrow>
                 (case rm_value fuel s bit_width hashed consumed' key child of
                    (Inl e, child') \<Rightarrow> (Inl e, set_child n cindex (HDirty child'))
                  | (Inr deleted, child') \<Rightarrow>
                      (case hamt_clean (HDirty child') of
                         (Inl e, p) \<Rightarrow> (Inl e, set_child n cindex p)
                       | (Inr _, p) \<Rightarrow> (Inr deleted, set_child n cindex p)))
             | Values vals \<Rightarrow>
                 (case list_position (\<lambda>p. key = fst p) vals of
                    None \<Rightarrow> (Inr None, n)
                  | Some i \<Rightarrow>
                      (Inr (Some (vals ! i)),
                       if length vals = 1 then rm_child n cindex idx
                       else set_child n cindex (Values (list_remove i vals)))))"

text \<open>
  \<open>Node::flush\<close>: every modified child is flushed and stored, and replaced by its identifier with the
  child in the cache.  It stops at the first error.
\<close>

fun hnode_flush ::
  "(('k, 'v, 'c) hamt_block \<Rightarrow> 'c) \<Rightarrow> ('k, 'v, 'c) hamt_node \<Rightarrow> ('k, 'v, 'c) hamt_store \<Rightarrow>
   ('c hamt_error, unit) res \<times> ('k, 'v, 'c) hamt_node \<times> ('k, 'v, 'c) hamt_store"
and flush_pointers ::
  "(('k, 'v, 'c) hamt_block \<Rightarrow> 'c) \<Rightarrow> ('k, 'v, 'c) pointer list \<Rightarrow> ('k, 'v, 'c) hamt_store \<Rightarrow>
   ('c hamt_error, unit) res \<times> ('k, 'v, 'c) pointer list \<times> ('k, 'v, 'c) hamt_store" where
  "hnode_flush cid_of (HNode b ps) s =
    (let (r, ps', s') = flush_pointers cid_of ps s in (r, HNode b ps', s'))"
| "flush_pointers cid_of [] s = (Inr (), [], s)"
| "flush_pointers cid_of (HDirty n # ps) s =
    (case hnode_flush cid_of n s of
       (Inl e, n', s1) \<Rightarrow> (Inl e, HDirty n' # ps, s1)
     | (Inr _, n', s1) \<Rightarrow>
         (case node_ser n' of
            Inl e \<Rightarrow> (Inl e, HDirty n' # ps, s1)
          | Inr blk \<Rightarrow>
              let (c, s2) = bs_put cid_of blk s1;
                  (r, ps', s3) = flush_pointers cid_of ps s2
              in (r, HLink c (Some n') # ps', s3)))"
| "flush_pointers cid_of (p # ps) s =
    (let (r, ps', s') = flush_pointers cid_of ps s in (r, p # ps', s'))"

text \<open>The loops of \<open>for_each\<close>; the closure threads its own state.\<close>

fun each_kv :: "('k \<Rightarrow> 'v \<Rightarrow> 'a \<Rightarrow> ('e, unit) res \<times> 'a) \<Rightarrow> ('k \<times> 'v) list \<Rightarrow> 'a \<Rightarrow> ('e, unit) res \<times> 'a" where
  "each_kv f [] a = (Inr (), a)"
| "each_kv f ((k, v) # kvs) a = (case f k v a of (Inl e, a') \<Rightarrow> (Inl e, a') | (Inr _, a') \<Rightarrow> each_kv f kvs a')"

fun each_pointer ::
  "('p \<Rightarrow> 'a \<Rightarrow> ('e, unit) res \<times> 'p \<times> 'a) \<Rightarrow> 'p list \<Rightarrow> 'a \<Rightarrow> ('e, unit) res \<times> 'p list \<times> 'a" where
  "each_pointer f [] a = (Inr (), [], a)"
| "each_pointer f (p # ps) a =
    (case f p a of
       (Inl e, p', a') \<Rightarrow> (Inl e, p' # ps, a')
     | (Inr _, p', a') \<Rightarrow> let (r, ps', a'') = each_pointer f ps a' in (r, p' # ps', a''))"

primrec hnode_for_each ::
  "nat \<Rightarrow> ('k, 'v, 'c) hamt_store \<Rightarrow> ('k \<Rightarrow> 'v \<Rightarrow> 'a \<Rightarrow> ('c hamt_error, unit) res \<times> 'a) \<Rightarrow> ('k, 'v, 'c) hamt_node \<Rightarrow> 'a \<Rightarrow>
   ('c hamt_error, unit) res \<times> ('k, 'v, 'c) hamt_node \<times> 'a" where
  "hnode_for_each 0 s f n a = (Inl HDiverges, n, a)"
| "hnode_for_each (Suc fuel) s f n a =
    (let (r, ps', a') =
       each_pointer (\<lambda>p a.
         case p of
           HLink c cache \<Rightarrow>
             (case child_load s c cache of
                Inl e \<Rightarrow> (Inl e, p, a)
              | Inr child \<Rightarrow>
                  let (r, child', a') = hnode_for_each fuel s f child a in (r, HLink c (Some child'), a'))
         | HDirty child \<Rightarrow> let (r, child', a') = hnode_for_each fuel s f child a in (r, HDirty child', a')
         | Values kvs \<Rightarrow> let (r, a') = each_kv f kvs a in (r, p, a')) (node_ptrs n) a
     in (r, HNode (node_bits n) ps', a'))"

section \<open>The map\<close>

text \<open>
  \<open>Hamt\<close>: a root node and the bit width.  A hash has 256 bits and every level consumes at least one
  of them, so that 257 levels are never exhausted.
\<close>

record ('k, 'v, 'c) hamt =
  hroot :: "('k, 'v, 'c) hamt_node"
  hbit_width :: nat

definition HAMT_LEVELS :: nat where "HAMT_LEVELS = 257"

definition hamt_new_with_bit_width :: "nat \<Rightarrow> ('k, 'v, 'c) hamt" where
  "hamt_new_with_bit_width bit_width = \<lparr>hroot = hnode_default, hbit_width = bit_width\<rparr>"

definition hamt_new :: "('k, 'v, 'c) hamt" where
  "hamt_new = hamt_new_with_bit_width HAMT_DEFAULT_BIT_WIDTH"

definition hamt_load_with_bit_width ::
  "('k, 'v, 'c) hamt_store \<Rightarrow> 'c \<Rightarrow> nat \<Rightarrow> ('c hamt_error, ('k, 'v, 'c) hamt) res" where
  "hamt_load_with_bit_width s c bit_width =
    (case bs_get s c of
       Some blk \<Rightarrow> Inr \<lparr>hroot = node_de blk, hbit_width = bit_width\<rparr>
     | None \<Rightarrow> Inl (HCidNotFound c))"

definition hamt_load :: "('k, 'v, 'c) hamt_store \<Rightarrow> 'c \<Rightarrow> ('c hamt_error, ('k, 'v, 'c) hamt) res" where
  "hamt_load s c = hamt_load_with_bit_width s c HAMT_DEFAULT_BIT_WIDTH"

definition hamt_set_root ::
  "('k, 'v, 'c) hamt_store \<Rightarrow> 'c \<Rightarrow> ('k, 'v, 'c) hamt \<Rightarrow> ('c hamt_error, unit) res \<times> ('k, 'v, 'c) hamt" where
  "hamt_set_root s c h =
    (case bs_get s c of
       Some blk \<Rightarrow> (Inr (), h\<lparr>hroot := node_de blk\<rparr>)
     | None \<Rightarrow> (Inl (HCidNotFound c), h))"

definition hnode_set ::
  "('k :: linorder \<Rightarrow> hashed_key) \<Rightarrow> ('k, 'v, 'c) hamt_store \<Rightarrow> nat \<Rightarrow> bool \<Rightarrow> 'k \<Rightarrow> 'v \<Rightarrow>
   ('k, 'v, 'c) hamt_node \<Rightarrow> ('c hamt_error, 'v option \<times> bool) res \<times> ('k, 'v, 'c) hamt_node" where
  "hnode_set hash s bit_width overwrite key val n =
    modify_value HAMT_LEVELS hash s bit_width overwrite (hash key) 0 key val n"

definition hnode_search ::
  "('k \<Rightarrow> hashed_key) \<Rightarrow> ('k, 'v, 'c) hamt_store \<Rightarrow> nat \<Rightarrow> 'k \<Rightarrow> ('k, 'v, 'c) hamt_node \<Rightarrow>
   ('c hamt_error, ('k \<times> 'v) option) res \<times> ('k, 'v, 'c) hamt_node" where
  "hnode_search hash s bit_width key n = get_value HAMT_LEVELS s bit_width (hash key) 0 key n"

definition hnode_get ::
  "('k \<Rightarrow> hashed_key) \<Rightarrow> ('k, 'v, 'c) hamt_store \<Rightarrow> nat \<Rightarrow> 'k \<Rightarrow> ('k, 'v, 'c) hamt_node \<Rightarrow>
   ('c hamt_error, 'v option) res \<times> ('k, 'v, 'c) hamt_node" where
  "hnode_get hash s bit_width key n =
    (let (r, n') = hnode_search hash s bit_width key n in (res_bind r (\<lambda>kv. Inr (map_option snd kv)), n'))"

definition hnode_remove_entry ::
  "('k :: linorder \<Rightarrow> hashed_key) \<Rightarrow> ('k, 'v, 'c) hamt_store \<Rightarrow> nat \<Rightarrow> 'k \<Rightarrow> ('k, 'v, 'c) hamt_node \<Rightarrow>
   ('c hamt_error, ('k \<times> 'v) option) res \<times> ('k, 'v, 'c) hamt_node" where
  "hnode_remove_entry hash s bit_width key n = rm_value HAMT_LEVELS s bit_width (hash key) 0 key n"

definition hamt_set ::
  "('k :: linorder \<Rightarrow> hashed_key) \<Rightarrow> ('k, 'v, 'c) hamt_store \<Rightarrow> 'k \<Rightarrow> 'v \<Rightarrow> ('k, 'v, 'c) hamt \<Rightarrow>
   ('c hamt_error, 'v option) res \<times> ('k, 'v, 'c) hamt" where
  "hamt_set hash s key val h =
    (let (r, n) = hnode_set hash s (hbit_width h) True key val (hroot h)
     in (res_bind r (\<lambda>(old, _). Inr old), h\<lparr>hroot := n\<rparr>))"

definition hamt_set_if_absent ::
  "('k :: linorder \<Rightarrow> hashed_key) \<Rightarrow> ('k, 'v, 'c) hamt_store \<Rightarrow> 'k \<Rightarrow> 'v \<Rightarrow> ('k, 'v, 'c) hamt \<Rightarrow>
   ('c hamt_error, bool) res \<times> ('k, 'v, 'c) hamt" where
  "hamt_set_if_absent hash s key val h =
    (let (r, n) = hnode_set hash s (hbit_width h) False key val (hroot h)
     in (res_bind r (\<lambda>(_, added). Inr added), h\<lparr>hroot := n\<rparr>))"

definition hamt_get ::
  "('k \<Rightarrow> hashed_key) \<Rightarrow> ('k, 'v, 'c) hamt_store \<Rightarrow> 'k \<Rightarrow> ('k, 'v, 'c) hamt \<Rightarrow>
   ('c hamt_error, 'v option) res \<times> ('k, 'v, 'c) hamt" where
  "hamt_get hash s key h =
    (let (r, n) = hnode_get hash s (hbit_width h) key (hroot h) in (r, h\<lparr>hroot := n\<rparr>))"

definition hamt_contains_key ::
  "('k \<Rightarrow> hashed_key) \<Rightarrow> ('k, 'v, 'c) hamt_store \<Rightarrow> 'k \<Rightarrow> ('k, 'v, 'c) hamt \<Rightarrow>
   ('c hamt_error, bool) res \<times> ('k, 'v, 'c) hamt" where
  "hamt_contains_key hash s key h =
    (let (r, n) = hnode_get hash s (hbit_width h) key (hroot h)
     in (res_bind r (\<lambda>v. Inr (v \<noteq> None)), h\<lparr>hroot := n\<rparr>))"

definition hamt_delete ::
  "('k :: linorder \<Rightarrow> hashed_key) \<Rightarrow> ('k, 'v, 'c) hamt_store \<Rightarrow> 'k \<Rightarrow> ('k, 'v, 'c) hamt \<Rightarrow>
   ('c hamt_error, ('k \<times> 'v) option) res \<times> ('k, 'v, 'c) hamt" where
  "hamt_delete hash s key h =
    (let (r, n) = hnode_remove_entry hash s (hbit_width h) key (hroot h) in (r, h\<lparr>hroot := n\<rparr>))"

definition hamt_flush ::
  "(('k, 'v, 'c) hamt_block \<Rightarrow> 'c) \<Rightarrow> ('k, 'v, 'c) hamt_store \<Rightarrow> ('k, 'v, 'c) hamt \<Rightarrow>
   ('c hamt_error, 'c) res \<times> ('k, 'v, 'c) hamt \<times> ('k, 'v, 'c) hamt_store" where
  "hamt_flush cid_of s h =
    (case hnode_flush cid_of (hroot h) s of
       (Inl e, n, s1) \<Rightarrow> (Inl e, h\<lparr>hroot := n\<rparr>, s1)
     | (Inr _, n, s1) \<Rightarrow>
         (case node_ser n of
            Inl e \<Rightarrow> (Inl e, h\<lparr>hroot := n\<rparr>, s1)
          | Inr blk \<Rightarrow> let (c, s2) = bs_put cid_of blk s1 in (Inr c, h\<lparr>hroot := n\<rparr>, s2)))"

definition hnode_is_empty :: "('k, 'v, 'c) hamt_node \<Rightarrow> bool" where
  "hnode_is_empty n \<longleftrightarrow> node_ptrs n = []"

definition hamt_is_empty :: "('k, 'v, 'c) hamt \<Rightarrow> bool" where
  "hamt_is_empty h \<longleftrightarrow> hnode_is_empty (hroot h)"

definition hamt_for_each ::
  "('k, 'v, 'c) hamt_store \<Rightarrow> ('k \<Rightarrow> 'v \<Rightarrow> 'a \<Rightarrow> ('c hamt_error, unit) res \<times> 'a) \<Rightarrow> ('k, 'v, 'c) hamt \<Rightarrow> 'a \<Rightarrow>
   ('c hamt_error, unit) res \<times> ('k, 'v, 'c) hamt \<times> 'a" where
  "hamt_for_each s f h a =
    (let (r, n, a') = hnode_for_each HAMT_LEVELS s f (hroot h) a in (r, h\<lparr>hroot := n\<rparr>, a'))"

end
