(* ===== verification/Hamt_Correct.thy ===== *)
theory Hamt_Correct
  imports Hamt
begin

text \<open>
  Correctness of the hash array-mapped trie: the bits read from a hash, the bit field of a node as a
  set of slots, the canonical form of a trie that represents a finite map, and the operations as
  those of the map.  The canonical form is unique, so that the identifier of a stored trie depends on
  its entries only.
\<close>

unbundle bit_operations_syntax

section \<open>Bits of a hash\<close>

text \<open>\<open>hash_bit b j\<close> is the bit of the hash at position \<open>j\<close>, the first being the highest of the first byte.\<close>

definition hash_bit :: "hashed_key \<Rightarrow> nat \<Rightarrow> bool" where
  "hash_bit b j = bit (b ! (j div 8)) (7 - j mod 8)"

lemma bit_mkmask: "n \<le> 32 \<Longrightarrow> bit (mkmask n) t \<longleftrightarrow> t < n"
  by (auto simp: mkmask_def bit_simps mask_eq_exp_minus_1 [symmetric] push_bit_eq_mult)

lemma next_bits_consumed [simp]: "snd (next_bits b c i) = c + i"
proof (induction b c i rule: next_bits.induct)
  case (1 b c i)
  then show ?case by (subst next_bits.simps) (auto simp: Let_def split: prod.splits)
qed

lemma hash_bit_byte:
  "c mod 8 + j < 8 \<Longrightarrow> hash_bit b (c + j) = bit (b ! (c div 8)) (7 - (c mod 8 + j))"
proof -
  assume "c mod 8 + j < 8"
  moreover have "c + j = (c mod 8 + j) + 8 * (c div 8)" by simp
  ultimately have "(c + j) div 8 = c div 8" "(c + j) mod 8 = c mod 8 + j"
    by (simp_all only: div_mult_self2 mod_mult_self2) simp_all
  then show ?thesis by (simp add: hash_bit_def)
qed

lemma next_bits_bit:
  "i \<le> 32 \<Longrightarrow> bit (fst (next_bits b c i)) t \<longleftrightarrow> t < i \<and> hash_bit b (c + (i - 1 - t))"
proof (induction b c i arbitrary: t rule: next_bits.induct)
  case (1 b c i)
  define l where "l = 8 - c mod 8"
  have l: "l \<le> 8" "0 < l" by (simp_all add: l_def)
  have byte: "bit (b ! (c div 8)) u \<longleftrightarrow> hash_bit b (c + (l - 1 - u))" if "u < l" for u
    using that by (subst hash_bit_byte) (auto simp: l_def)
  consider "i = l" | "i < l" | "l < i" by linarith
  then show ?case
  proof cases
    case 1
    then show ?thesis using l byte
      by (subst next_bits.simps) (auto simp: Let_def l_def [symmetric] bit_simps bit_mkmask)
  next
    case 2
    have "bit (b ! (c div 8)) (l - i + t) \<longleftrightarrow> hash_bit b (c + (i - 1 - t))" if "t < i"
      using byte [of "l - i + t"] 2 that by (simp add: add.commute)
    then show ?thesis using 2 l
      by (subst next_bits.simps)
        (auto simp: Let_def l_def [symmetric] bit_simps bit_mkmask dest: bit_imp_le_length)
  next
    case 3
    have IH: "bit (fst (next_bits b (c + l) (i - l))) t \<longleftrightarrow> t < i - l \<and> hash_bit b (c + l + (i - l - 1 - t))" for t
      using 1 3 l by (auto simp: l_def)
    define out where "out = push_bit (i - l) (ucast (mkmask l AND ucast (b ! (c div 8))) :: 64 word)"
    have hi: "bit out t \<longleftrightarrow> i - l \<le> t \<and> t < i \<and> hash_bit b (c + (i - 1 - t))" for t
    proof (cases "i - l \<le> t \<and> t < i")
      case True
      then have "t - (i - l) < l" "l - 1 - (t - (i - l)) = i - 1 - t" using 3 by linarith+
      then show ?thesis using True "1.prems" l byte [of "t - (i - l)"]
        by (auto simp: out_def bit_simps bit_mkmask)
    next
      case False
      then show ?thesis using l 3 by (auto simp: out_def bit_simps bit_mkmask)
    qed
    have lo: "bit (fst (next_bits b (c + l) (i - l))) t \<longleftrightarrow> t < i - l \<and> hash_bit b (c + (i - 1 - t))" for t
      using IH [of t] l by (auto simp: algebra_simps)
    have "fst (next_bits b c i) = ucast (out + ucast (fst (next_bits b (c + l) (i - l))))"
      using 3 l by (subst next_bits.simps) (auto simp: Let_def l_def [symmetric] out_def split: prod.splits)
    also have "\<dots> = ucast (out OR ucast (fst (next_bits b (c + l) (i - l))))"
      by (subst disjunctive_add) (auto simp: hi lo bit_simps)
    finally show ?thesis
      using "1.prems" 3 by (auto simp: bit_simps hi lo dest: bit_imp_le_length)
  qed
qed

section \<open>Bit fields as sets of slots\<close>

definition hbf_slots :: "hbits \<Rightarrow> nat set" where
  "hbf_slots b = {i. i < 256 \<and> hbf_test_bit b i}"

lemma hbf_test_bit: "hbf_test_bit b i \<longleftrightarrow> bit (b ! (i div 64)) (i mod 64)"
  by (simp add: hbf_test_bit_def push_bit_eq_mult and_exp_eq_0_iff_not_bit)

lemma finite_hbf_slots [simp]: "finite (hbf_slots b)"
  by (simp add: hbf_slots_def)

lemma hbf_test_bit_slots: "i < 256 \<Longrightarrow> hbf_test_bit b i \<longleftrightarrow> i \<in> hbf_slots b"
  by (simp add: hbf_slots_def)

lemma length_hbf_simps [simp]:
  "length hbf_zero = 4" "length (hbf_set_bit b i) = length b" "length (hbf_clear_bit b i) = length b"
  by (simp_all add: hbf_zero_def hbf_set_bit_def hbf_clear_bit_def Let_def)

lemma hbf_slots_zero [simp]: "hbf_slots hbf_zero = {}"
proof -
  have "hbf_zero ! k = 0" if "k < 4" for k
    using that by (auto simp: hbf_zero_def less_Suc_eq numeral_eq_Suc)
  then show ?thesis by (auto simp: hbf_slots_def hbf_test_bit)
qed

lemma word_slot: "i div 64 = j div 64 \<and> i mod 64 = j mod 64 \<longleftrightarrow> (i :: nat) = j"
  by (metis div_mult_mod_eq)

lemma hbf_slots_set_bit:
  assumes "length b = 4" "i < 256"
  shows "hbf_slots (hbf_set_bit b i) = insert i (hbf_slots b)"
proof -
  have "hbf_test_bit (hbf_set_bit b i) j \<longleftrightarrow> hbf_test_bit b j \<or> j = i" if "j < 256" for j
    using assms that word_slot [of i j]
    by (cases "i div 64 = j div 64") (auto simp: hbf_test_bit hbf_set_bit_def Let_def bit_simps)
  then show ?thesis using assms(2) by (auto simp: hbf_slots_def)
qed

lemma bit_minus_1_sub: "bit (- 1 - 2 ^ k :: 64 word) t \<longleftrightarrow> t < 64 \<and> t \<noteq> k"
proof -
  have "- 1 - 2 ^ k = NOT (2 ^ k :: 64 word)" by (simp add: not_eq_complement)
  then show ?thesis by (auto simp: bit_simps)
qed

lemma hbf_slots_clear_bit:
  assumes "length b = 4" "i < 256"
  shows "hbf_slots (hbf_clear_bit b i) = hbf_slots b - {i}"
proof -
  have "hbf_test_bit (hbf_clear_bit b i) j \<longleftrightarrow> hbf_test_bit b j \<and> j \<noteq> i" if "j < 256" for j
    using assms that word_slot [of i j]
    by (cases "i div 64 = j div 64") (auto simp: hbf_test_bit hbf_clear_bit_def Let_def bit_simps bit_minus_1_sub)
  then show ?thesis by (auto simp: hbf_slots_def)
qed

text \<open>A bit field is determined by its slots.\<close>

lemma hbf_slots_inject:
  assumes "length b = 4" "length b' = 4" "hbf_slots b = hbf_slots b'"
  shows "b = b'"
proof (rule nth_equalityI)
  fix k assume k: "k < length b"
  show "b ! k = b' ! k"
  proof (rule bit_word_eqI)
    fix t assume t: "t < LENGTH(64)"
    have "hbf_test_bit b (64 * k + t) \<longleftrightarrow> hbf_test_bit b' (64 * k + t)"
      using hbf_test_bit_slots [of "64 * k + t"] assms k t by simp
    then show "bit (b ! k) t = bit (b' ! k) t" using t by (simp add: hbf_test_bit)
  qed
qed (simp add: assms)

lemma hbf_count_ones_slots:
  assumes "length b = 4"
  shows "hbf_count_ones b = card (hbf_slots b)"
proof -
  have len: "length (filter P [0 ..< n]) = card {i. i < n \<and> P i}" for P n
    using distinct_card [of "filter P [0 ..< n]"] by (simp add: conj_commute)
  have split: "hbf_slots b = (\<Union>k < 4. (\<lambda>t. 64 * k + t) ` {t. t < 64 \<and> bit (b ! k) t})"
  proof (intro set_eqI iffI)
    fix i assume "i \<in> hbf_slots b"
    then have "i div 64 < 4" "bit (b ! (i div 64)) (i mod 64)" by (auto simp: hbf_slots_def hbf_test_bit)
    then show "i \<in> (\<Union>k < 4. (\<lambda>t. 64 * k + t) ` {t. t < 64 \<and> bit (b ! k) t})"
      by (intro UN_I [of "i div 64"] image_eqI [of _ _ "i mod 64"]) auto
  qed (auto simp: hbf_slots_def hbf_test_bit)
  have "card (hbf_slots b) = (\<Sum>k < 4. card ((\<lambda>t. 64 * k + t) ` {t. t < 64 \<and> bit (b ! k) t}))"
    unfolding split by (rule card_UN_disjoint) auto
  also have "\<dots> = (\<Sum>k < 4. count_ones_u64 (b ! k))"
    by (rule sum.cong) (simp_all add: card_image inj_on_def count_ones_u64_def len)
  also have "\<dots> = hbf_count_ones b"
    using assms by (simp add: hbf_count_ones_def sum_list_sum_nth atLeast0LessThan)
  finally show ?thesis by simp
qed

lemma bit_set_bits_leq_u64: "k < 64 \<Longrightarrow> bit (set_bits_leq_u64 v k) t \<longleftrightarrow> t < 64 \<and> (bit v t \<or> t \<le> k)"
proof -
  assume "k < 64"
  have "push_bit (1 + k) 1 - 1 = (mask (1 + k) :: 128 word)" by (simp only: mask_eq_exp_minus_1 push_bit_of_1)
  then show ?thesis using \<open>k < 64\<close> by (auto simp: set_bits_leq_u64_def bit_simps dest: bit_imp_le_length)
qed

lemma nth4: "k < 4 \<Longrightarrow> k = 0 \<or> k = 1 \<or> k = 2 \<or> k = (3 :: nat)"
  by linarith

lemma hbf_slots_set_bits_le:
  assumes "k \<le> 256"
  shows "hbf_slots (hbf_set_bits_le hbf_zero k) = {..<k}" "length (hbf_set_bits_le hbf_zero k) = 4"
proof -
  have leq: "hbf_test_bit (hbf_set_bits_leq hbf_zero j) i \<longleftrightarrow> i \<le> j" if "j < 256" "i < 256" for i j
  proof -
    define k t where "k = i div 64" and "t = i mod 64"
    have i: "i div 64 = k" "i mod 64 = t" "i = 64 * k + t" "t < 64" "k < 4"
      using that by (auto simp: k_def t_def)
    from nth4 [OF i(5)] show ?thesis using that i
      by (elim disjE) (auto simp: hbf_set_bits_leq_def hbf_zero_def hbf_test_bit bit_set_bits_leq_u64)
  qed
  show "hbf_slots (hbf_set_bits_le hbf_zero k) = {..<k}"
  proof (cases "k = 0")
    case False
    then show ?thesis using assms leq [of "k - 1"] by (auto simp: hbf_slots_def hbf_set_bits_le_def)
  qed (simp add: hbf_set_bits_le_def)
  show "length (hbf_set_bits_le hbf_zero k) = 4"
    by (simp add: hbf_set_bits_le_def hbf_set_bits_leq_def)
qed

text \<open>The assertion of \<open>index_for_bit_pos\<close> holds, and the result is the number of lower slots.\<close>

lemma index_for_bit_pos_mask: "bp \<le> 256 \<Longrightarrow> hbf_count_ones (hbf_set_bits_le hbf_zero bp) = bp"
  by (simp add: hbf_count_ones_slots hbf_slots_set_bits_le)

lemma index_for_bit_pos_slots:
  assumes "length b = 4" "bp \<le> 256"
  shows "index_for_bit_pos b bp = card {i \<in> hbf_slots b. i < bp}"
proof -
  have and_bits: "hbf_slots (hbf_and a b) = hbf_slots a \<inter> hbf_slots b" for a
  proof -
    have "hbf_test_bit (hbf_and a b) i \<longleftrightarrow> hbf_test_bit a i \<and> hbf_test_bit b i" if "i < 256" for i
    proof -
      have "i div 64 < 4" using that by simp
      then show ?thesis by (auto simp: hbf_and_def hbf_test_bit bit_simps dest!: nth4)
    qed
    then show ?thesis by (auto simp: hbf_slots_def)
  qed
  have "length (hbf_and a b) = 4" for a by (simp add: hbf_and_def)
  then have "index_for_bit_pos b bp = card ({..<bp} \<inter> hbf_slots b)"
    using assms(2) by (simp add: index_for_bit_pos_def hbf_count_ones_slots and_bits hbf_slots_set_bits_le)
  also have "{..<bp} \<inter> hbf_slots b = {i \<in> hbf_slots b. i < bp}" by auto
  finally show ?thesis .
qed

section \<open>The stored form of a bit field\<close>

lemma be_read_bytes: "be_read (be_bytes w) = w"
proof (rule bit_word_eqI)
  fix t assume "t < LENGTH(64)"
  then have t: "t < 64" by simp
  have up: "[0 ..< 8] = [0, 1, 2, 3, 4, 5, 6, 7 :: nat]" by (simp add: upt_rec)
  define j where "j = t mod 8"
  have j: "j < 8" by (simp add: j_def)
  have "t = j \<or> t = 8 + j \<or> t = 16 + j \<or> t = 24 + j \<or> t = 32 + j \<or> t = 40 + j \<or> t = 48 + j \<or> t = 56 + j"
  proof -
    define q where "q = t div 8"
    have "q < 8" "t = q * 8 + j" using t by (simp_all add: q_def j_def)
    moreover from this(1) have "q = 0 \<or> q = 1 \<or> q = 2 \<or> q = 3 \<or> q = 4 \<or> q = 5 \<or> q = 6 \<or> q = 7" by linarith
    ultimately show ?thesis by (elim disjE) simp_all
  qed
  then show "bit (be_read (be_bytes w)) t = bit w t"
    using j by (elim disjE) (simp_all add: be_read_def be_bytes_def up bit_simps)
qed

lemma length_be_bytes [simp]: "length (be_bytes w) = 8"
  by (simp add: be_bytes_def)

lemma replicate_dropWhile: "replicate (length xs - length (dropWhile (\<lambda>x. x = a) xs)) a @ dropWhile (\<lambda>x. x = a) xs = xs"
proof -
  let ?t = "takeWhile (\<lambda>x. x = a) xs" and ?d = "dropWhile (\<lambda>x. x = a) xs"
  have "length xs = length ?t + length ?d" by (metis length_append takeWhile_dropWhile_id)
  then have "length xs - length ?d = length ?t" by simp
  moreover have "?t = replicate (length ?t) a" by (rule replicate_eqI) (auto dest: set_takeWhileD)
  ultimately show ?thesis by (metis takeWhile_dropWhile_id)
qed

lemma hbf_deserialize_serialize:
  assumes "length b = 4"
  shows "hbf_deserialize (hbf_serialize b) = Some b"
proof -
  let ?v = "be_bytes (b ! 3) @ be_bytes (b ! 2) @ be_bytes (b ! 1) @ be_bytes (b ! 0)"
  have len: "length ?v = 32" by simp
  then have le: "length (hbf_serialize b) \<le> 32"
    unfolding hbf_serialize_def by (metis length_dropWhile_le)
  have arr: "replicate (32 - length (hbf_serialize b)) 0 @ hbf_serialize b = ?v"
    using replicate_dropWhile [of ?v 0] unfolding hbf_serialize_def len .
  have "hbf_deserialize (hbf_serialize b) = Some [b ! 0, b ! 1, b ! 2, b ! 3]"
    using le by (simp add: hbf_deserialize_def arr be_read_bytes)
  also have "[b ! 0, b ! 1, b ! 2, b ! 3] = b"
    using assms by (auto simp: list_eq_iff_nth_eq less_Suc_eq numeral_eq_Suc)
  finally show ?thesis .
qed

section \<open>Positions in sorted lists\<close>

lemma list_position_eq: "list_position P xs = (if \<exists>x\<in>set xs. P x then Some (length (takeWhile (\<lambda>x. \<not> P x) xs)) else None)"
  by (induction xs) auto

lemma list_position_map: "list_position P (map f xs) = list_position (P \<circ> f) xs"
  by (induction xs) auto

lemma list_insert_simps [simp]:
  "list_insert 0 x xs = x # xs" "list_insert (Suc i) x (y # ys) = y # list_insert i x ys"
  by (simp_all add: list_insert_def)

lemma list_remove_simps [simp]:
  "list_remove 0 (x # xs) = xs" "list_remove (Suc i) (y # ys) = y # list_remove i ys"
  by (simp_all add: list_remove_def)

lemma map_list_insert: "map f (list_insert i x xs) = list_insert i (f x) (map f xs)"
  by (simp add: list_insert_def take_map drop_map)

lemma map_list_remove: "map f (list_remove i xs) = list_remove i (map f xs)"
  by (simp add: list_remove_def take_map drop_map)

text \<open>The number of smaller elements is the position of an element in the sorted list of a set.\<close>

definition key_rank :: "'a :: linorder set \<Rightarrow> 'a \<Rightarrow> nat" where
  "key_rank A x = card {a \<in> A. a < x}"

lemma key_rank_sorted:
  assumes "finite A"
  shows "key_rank A x = length (takeWhile (\<lambda>a. a < x) (sorted_list_of_set A))"
proof -
  let ?xs = "sorted_list_of_set A"
  have "takeWhile (\<lambda>a. a < x) xs = filter (\<lambda>a. a < x) xs" if "sorted_wrt (<) xs" for xs
    using that
  proof (induction xs)
    case (Cons a xs)
    then have "filter (\<lambda>a. a < x) xs = []" if "\<not> a < x"
      using that by (auto simp: filter_empty_conv dest: order.strict_trans)
    with Cons show ?case by auto
  qed simp
  then have "takeWhile (\<lambda>a. a < x) ?xs = filter (\<lambda>a. a < x) ?xs" by simp
  then show ?thesis
    using assms distinct_card [of "filter (\<lambda>a. a < x) ?xs"] by (simp add: key_rank_def)
qed

lemma list_insert_insort:
  "sorted_wrt (<) (xs :: 'a :: linorder list) \<Longrightarrow> x \<notin> set xs \<Longrightarrow> list_insert (length (takeWhile (\<lambda>a. a < x) xs)) x xs = insort x xs"
  by (induction xs) auto

lemma list_remove_remove1:
  "sorted_wrt (<) (xs :: 'a :: linorder list) \<Longrightarrow> x \<in> set xs \<Longrightarrow> list_remove (length (takeWhile (\<lambda>a. a < x) xs)) xs = remove1 x xs"
  by (induction xs) auto

lemma nth_takeWhile_less:
  "sorted_wrt (<) (xs :: 'a :: linorder list) \<Longrightarrow> x \<in> set xs \<Longrightarrow>
    length (takeWhile (\<lambda>a. a < x) xs) < length xs \<and> xs ! length (takeWhile (\<lambda>a. a < x) xs) = x"
  by (induction xs) auto

lemma key_rank_lt: "finite A \<Longrightarrow> x \<in> A \<Longrightarrow> key_rank A x < card A"
  using nth_takeWhile_less [of "sorted_list_of_set A" x] by (simp add: key_rank_sorted)

lemma key_rank_le: "finite A \<Longrightarrow> key_rank A x \<le> card A"
  by (auto simp: key_rank_def intro: card_mono)

lemma nth_key_rank: "finite A \<Longrightarrow> x \<in> A \<Longrightarrow> sorted_list_of_set A ! key_rank A x = x"
  using nth_takeWhile_less [of "sorted_list_of_set A" x] by (simp add: key_rank_sorted)

lemma map_sorted_update:
  assumes "finite A" "x \<in> A"
  shows "(map f (sorted_list_of_set A))[key_rank A x := y] = map (f(x := y)) (sorted_list_of_set A)"
proof (rule nth_equalityI)
  fix i assume i: "i < length ((map f (sorted_list_of_set A))[key_rank A x := y])"
  let ?xs = "sorted_list_of_set A"
  have "?xs ! i = x \<longleftrightarrow> i = key_rank A x"
    using nth_eq_iff_index_eq [of ?xs i "key_rank A x"] i assms by (simp add: nth_key_rank key_rank_lt)
  then show "(map f ?xs)[key_rank A x := y] ! i = map (f(x := y)) ?xs ! i"
    using i by (auto simp: nth_list_update)
qed simp

lemma map_sorted_insert:
  assumes "finite A" "x \<notin> A"
  shows "list_insert (key_rank A x) y (map f (sorted_list_of_set A)) = map (f(x := y)) (sorted_list_of_set (insert x A))"
proof -
  have "map (f(x := y)) (sorted_list_of_set (insert x A)) =
      list_insert (key_rank A x) ((f(x := y)) x) (map (f(x := y)) (sorted_list_of_set A))"
    using assms list_insert_insort [of "sorted_list_of_set A" x]
    by (simp only: key_rank_sorted map_list_insert [symmetric]) simp
  also have "map (f(x := y)) (sorted_list_of_set A) = map f (sorted_list_of_set A)" using assms by auto
  finally show ?thesis by (simp only: fun_upd_same)
qed

lemma map_sorted_remove:
  assumes "finite A" "x \<in> A"
  shows "list_remove (key_rank A x) (map f (sorted_list_of_set A)) = map f (sorted_list_of_set (A - {x}))"
  using assms list_remove_remove1 [of "sorted_list_of_set A" x]
  by (simp add: key_rank_sorted map_list_remove [symmetric] sorted_list_of_set_remove)

section \<open>Buckets\<close>

text \<open>The entries of a finite map in the order of the keys.\<close>

definition bucket :: "('k :: linorder \<rightharpoonup> 'v) \<Rightarrow> ('k \<times> 'v) list" where
  "bucket m = map (\<lambda>k. (k, the (m k))) (sorted_list_of_set (dom m))"

lemma length_bucket [simp]: "length (bucket m) = card (dom m)"
  by (simp add: bucket_def)

lemma set_bucket: "finite (dom m) \<Longrightarrow> set (bucket m) = {(k, v). m k = Some v}"
  by (auto simp: bucket_def image_iff)

lemma bucket_single [simp]: "bucket [k \<mapsto> v] = [(k, v)]"
  by (simp add: bucket_def)

lemma find_bucket:
  assumes "finite (dom m)"
  shows "List.find (\<lambda>kv. key = fst kv) (bucket m) = map_option (Pair key) (m key)"
proof -
  have "List.find (\<lambda>kv. key = fst kv) (map (\<lambda>k. (k, the (m k))) ks) = (if key \<in> set ks then Some (key, the (m key)) else None)"
    for ks by (induction ks) auto
  then show ?thesis using assms by (auto simp: bucket_def dom_def)
qed

lemma position_bucket:
  assumes "finite (dom m)"
  shows "list_position (\<lambda>p. fst p = key) (bucket m) = (if m key = None then None else Some (key_rank (dom m) key))"
    "list_position (\<lambda>p. key = fst p) (bucket m) = (if m key = None then None else Some (key_rank (dom m) key))"
proof -
  have tw: "length (takeWhile (\<lambda>x. x \<noteq> key) ks) = length (takeWhile (\<lambda>a. a < key) ks)"
    if "sorted_wrt (<) ks" "key \<in> set ks" for ks using that by (induction ks) auto
  show eq: "list_position (\<lambda>p. fst p = key) (bucket m) = (if m key = None then None else Some (key_rank (dom m) key))"
    using assms tw [of "sorted_list_of_set (dom m)"]
    by (simp only: bucket_def list_position_map) (auto simp: list_position_eq key_rank_sorted comp_def)
  have "(\<lambda>p :: 'a \<times> 'b. key = fst p) = (\<lambda>p. fst p = key)" by auto
  with eq show "list_position (\<lambda>p. key = fst p) (bucket m) = (if m key = None then None else Some (key_rank (dom m) key))"
    by simp
qed

lemma nth_bucket: "finite (dom m) \<Longrightarrow> m key = Some v \<Longrightarrow> bucket m ! key_rank (dom m) key = (key, v)"
  using key_rank_lt [of "dom m" key] nth_key_rank [of "dom m" key] by (simp add: bucket_def domI)

lemma bucket_update:
  assumes "finite (dom m)" "m key = Some old"
  shows "(bucket m)[key_rank (dom m) key := (key, v)] = bucket (m(key \<mapsto> v))"
proof -
  have "key \<in> dom m" using assms by auto
  then have "insert key (dom m) = dom m" by auto
  moreover have "(\<lambda>k. (k, the (m k)))(key := (key, v)) = (\<lambda>k. (k, the ((m(key \<mapsto> v)) k)))" by auto
  ultimately show ?thesis
    using map_sorted_update [OF assms(1) \<open>key \<in> dom m\<close>, of "\<lambda>k. (k, the (m k))" "(key, v)"]
    by (simp add: bucket_def)
qed

lemma bucket_insert:
  assumes "finite (dom m)" "m key = None"
  shows "list_insert (case list_position (\<lambda>c. key < fst c) (bucket m) of Some i \<Rightarrow> i | None \<Rightarrow> length (bucket m))
    (key, v) (bucket m) = bucket (m(key \<mapsto> v))"
proof -
  let ?ks = "sorted_list_of_set (dom m)"
  have "(case list_position (\<lambda>k. key < k) ks of Some i \<Rightarrow> i | None \<Rightarrow> length ks) = length (takeWhile (\<lambda>a. a < key) ks)"
    if "key \<notin> set ks" for ks
    using that by (induction ks) (auto split: option.splits)
  from this [of ?ks]
  have "(case list_position (\<lambda>c. key < fst c) (bucket m) of Some i \<Rightarrow> i | None \<Rightarrow> length (bucket m)) = key_rank (dom m) key"
    using assms by (simp add: bucket_def list_position_map comp_def key_rank_sorted domIff cong: option.case_cong)
  moreover have "list_insert (key_rank (dom m) key) (key, v) (bucket m) = bucket (m(key \<mapsto> v))"
  proof -
    have "(\<lambda>k. (k, the (m k)))(key := (key, v)) = (\<lambda>k. (k, the ((m(key \<mapsto> v)) k)))" by auto
    moreover have "key \<notin> dom m" using assms(2) by auto
    ultimately show ?thesis
      using map_sorted_insert [OF assms(1), of key "(key, v)" "\<lambda>k. (k, the (m k))"]
      by (simp only: bucket_def dom_fun_upd option.simps if_False simp_thms)
  qed
  ultimately show ?thesis by simp
qed

lemma bucket_remove:
  assumes "finite (dom m)" "m key = Some v"
  shows "list_remove (key_rank (dom m) key) (bucket m) = bucket (m(key := None))"
proof -
  have "map (\<lambda>k. (k, the (m k))) ks = map (\<lambda>k. (k, the ((m(key := None)) k))) ks" if "key \<notin> set ks" for ks
    using that by auto
  from this [of "sorted_list_of_set (dom m - {key})"] show ?thesis
    using map_sorted_remove [of "dom m" key "\<lambda>k. (k, the (m k))"] assms by (simp add: bucket_def domI)
qed

section \<open>Slots of a key\<close>

definition slot_of :: "('k \<Rightarrow> hashed_key) \<Rightarrow> nat \<Rightarrow> nat \<Rightarrow> 'k \<Rightarrow> nat" where
  "slot_of hash bw l k = unat (fst (next_bits (hash k) (l * bw) bw))"

definition levels :: "nat \<Rightarrow> nat" where
  "levels bw = 256 div bw"

text \<open>A hash function with results of 32 bytes, and a bit width that the code accepts.\<close>

definition hash_ok :: "('k \<Rightarrow> hashed_key) \<Rightarrow> nat \<Rightarrow> bool" where
  "hash_ok hash bw \<longleftrightarrow> 1 \<le> bw \<and> bw \<le> 8 \<and> (\<forall>k. length (hash k) = 32)"

text \<open>
  The keys share the slots of the first \<open>l\<close> levels; and a set of keys is spread when no four of them
  share the slots of every level, which is what the depth of the trie can tell apart.
\<close>

definition slots_agree :: "('k \<Rightarrow> hashed_key) \<Rightarrow> nat \<Rightarrow> nat \<Rightarrow> 'k set \<Rightarrow> bool" where
  "slots_agree hash bw l S \<longleftrightarrow> (\<forall>k\<in>S. \<forall>k'\<in>S. \<forall>i<l. slot_of hash bw i k = slot_of hash bw i k')"

definition spread :: "('k \<Rightarrow> hashed_key) \<Rightarrow> nat \<Rightarrow> 'k set \<Rightarrow> bool" where
  "spread hash bw K \<longleftrightarrow> (\<forall>S \<subseteq> K. finite S \<and> slots_agree hash bw (levels bw) S \<longrightarrow> card S \<le> 3)"

lemma slot_of_lt:
  assumes "hash_ok hash bw"
  shows "slot_of hash bw l k < 256"
proof -
  let ?w = "fst (next_bits (hash k) (l * bw) bw)"
  have "take_bit 8 ?w = ?w"
    using assms by (intro bit_word_eqI) (auto simp: hash_ok_def bit_simps next_bits_bit)
  moreover have "unat (take_bit 8 ?w) < 2 ^ 8" by (simp only: unsigned_take_bit_eq take_bit_nat_less_exp)
  ultimately have "unat ?w < 2 ^ 8" by (simp only:)
  then show ?thesis by (simp add: slot_of_def)
qed

lemma hash_next_slot:
  assumes "hash_ok hash bw" "l < levels bw"
  shows "hash_next (hash k) (l * bw) bw = Inr (slot_of hash bw l k, Suc l * bw)"
proof -
  have "Suc l * bw \<le> levels bw * bw" using assms(2) by (intro mult_le_mono1) simp
  also have "\<dots> \<le> 256" by (simp add: levels_def)
  finally have "l * bw + bw \<le> 256" by simp
  then show ?thesis
    using assms(1) next_bits_consumed [of "hash k" "l * bw" bw]
    by (auto simp: hash_next_def hash_ok_def slot_of_def split: prod.splits simp del: next_bits_consumed)
qed

lemma levels_le: "levels bw \<le> 256"
  by (simp add: levels_def)

lemma slots_agree_mono: "slots_agree hash bw l S \<Longrightarrow> T \<subseteq> S \<Longrightarrow> slots_agree hash bw l T"
  by (auto simp: slots_agree_def)

lemma slots_agree_Suc:
  "slots_agree hash bw l S \<Longrightarrow> slots_agree hash bw (Suc l) {k \<in> S. slot_of hash bw l k = i}"
  unfolding slots_agree_def
proof (intro ballI allI impI)
  fix k k' j assume S: "\<forall>k\<in>S. \<forall>k'\<in>S. \<forall>i<l. slot_of hash bw i k = slot_of hash bw i k'"
    and "k \<in> {k \<in> S. slot_of hash bw l k = i}" "k' \<in> {k \<in> S. slot_of hash bw l k = i}" "j < Suc l"
  then show "slot_of hash bw j k = slot_of hash bw j k'"
    by (cases "j = l") (simp_all add: S [rule_format, of k k' j])
qed

lemma spread_depth:
  assumes "spread hash bw K" "S \<subseteq> K" "finite S" "3 < card S" "slots_agree hash bw l S"
  shows "l < levels bw"
proof (rule ccontr)
  assume "\<not> l < levels bw"
  then have "slots_agree hash bw (levels bw) S"
    using assms(5) unfolding slots_agree_def by (meson linorder_not_less order.strict_trans2)
  then show False using assms unfolding spread_def by (meson linorder_not_less)
qed

section \<open>The canonical form\<close>

definition in_slot :: "('k \<Rightarrow> hashed_key) \<Rightarrow> nat \<Rightarrow> nat \<Rightarrow> nat \<Rightarrow> ('k \<rightharpoonup> 'v) \<Rightarrow> ('k \<rightharpoonup> 'v)" where
  "in_slot hash bw l i m = m |` {k. slot_of hash bw l k = i}"

text \<open>
  What a pointer stands for: a bucket for at most three entries, otherwise a child that represents
  the entries; behind a link there is its stored block, and a cached child has that block.
\<close>

definition ptr_rep ::
  "(('k :: linorder, 'v, 'c) hamt_node \<Rightarrow> ('k \<rightharpoonup> 'v) \<Rightarrow> bool) \<Rightarrow> ('k, 'v, 'c) hamt_store \<Rightarrow>
   ('k, 'v, 'c) pointer \<Rightarrow> ('k \<rightharpoonup> 'v) \<Rightarrow> bool" where
  "ptr_rep R s p m \<longleftrightarrow>
    (if card (dom m) \<le> MAX_ARRAY_WIDTH then p = Values (bucket m)
     else case p of
       Values _ \<Rightarrow> False
     | HDirty n \<Rightarrow> R n m
     | HLink c cache \<Rightarrow>
         (\<exists>blk. s c = Some blk \<and> R (node_de blk) m \<and> (\<forall>n. cache = Some n \<longrightarrow> R n m \<and> node_ser n = Inr blk)))"

primrec node_rep ::
  "('k :: linorder \<Rightarrow> hashed_key) \<Rightarrow> nat \<Rightarrow> ('k, 'v, 'c) hamt_store \<Rightarrow> nat \<Rightarrow> nat \<Rightarrow>
   ('k, 'v, 'c) hamt_node \<Rightarrow> ('k \<rightharpoonup> 'v) \<Rightarrow> bool" where
  "node_rep hash bw s 0 l n m \<longleftrightarrow> False"
| "node_rep hash bw s (Suc d) l n m \<longleftrightarrow>
    finite (dom m) \<and> length (node_bits n) = 4 \<and> hbf_slots (node_bits n) = slot_of hash bw l ` dom m \<and>
    (\<exists>f. node_ptrs n = map f (sorted_list_of_set (slot_of hash bw l ` dom m)) \<and>
       (\<forall>i \<in> slot_of hash bw l ` dom m. ptr_rep (node_rep hash bw s d (Suc l)) s (f i) (in_slot hash bw l i m)))"

lemma in_slot_apply [simp]: "in_slot hash bw l i m k = (if slot_of hash bw l k = i then m k else None)"
  by (simp add: in_slot_def restrict_map_def)

lemma dom_in_slot: "dom (in_slot hash bw l i m) = {k \<in> dom m. slot_of hash bw l k = i}"
  by (auto simp: dom_def)

lemma finite_in_slot [simp]: "finite (dom m) \<Longrightarrow> finite (dom (in_slot hash bw l i m))"
  by (simp add: dom_in_slot)

lemma in_slot_upd:
  "in_slot hash bw l i (m(k := x)) =
    (if slot_of hash bw l k = i then (in_slot hash bw l i m)(k := x) else in_slot hash bw l i m)"
  by (auto simp: fun_eq_iff)

lemma in_slot_empty_iff: "in_slot hash bw l i m = Map.empty \<longleftrightarrow> i \<notin> slot_of hash bw l ` dom m"
  by (auto simp: fun_eq_iff dom_def image_iff)

lemma node_rep_finite: "node_rep hash bw s d l n m \<Longrightarrow> finite (dom m)"
  by (cases d) auto

lemma node_rep_empty: "node_rep hash bw s (Suc d) l hnode_default Map.empty"
  by (simp add: hnode_default_def)

lemma pointer_ser_de [simp]: "pointer_ser (pointer_de q) = Inr q"
  by (cases q) auto

lemma node_ser_de [simp]: "node_ser (node_de blk) = Inr blk"
proof (cases blk)
  case (HBlock b qs)
  have "pointers_ser (map pointer_de qs) = Inr qs" by (induction qs) auto
  with HBlock show ?thesis by simp
qed

lemma pointers_ser_update:
  "i < length ps \<Longrightarrow> pointer_ser p = pointer_ser (ps ! i) \<Longrightarrow> pointers_ser (ps[i := p]) = pointers_ser ps"
  by (induction ps arbitrary: i) (auto split: nat.splits)

lemma set_child_ser:
  "i < length (node_ptrs n) \<Longrightarrow> pointer_ser p = pointer_ser (node_ptrs n ! i) \<Longrightarrow> node_ser (set_child n i p) = node_ser n"
  by (cases n) (simp add: pointers_ser_update)

lemma ptr_rep_load:
  assumes "ptr_rep R s (HLink c cache) m"
  obtains child where "child_load s c cache = Inr child" "R child m" "3 < card (dom m)"
    "\<And>n. R n m \<Longrightarrow> node_ser n = node_ser child \<Longrightarrow> ptr_rep R s (HLink c (Some n)) m"
proof (cases cache)
  case None
  with assms that show ?thesis
    by (auto simp: ptr_rep_def child_load_def bs_get_def MAX_ARRAY_WIDTH_def split: if_splits)
next
  case (Some n)
  with assms that show ?thesis
    by (auto simp: ptr_rep_def child_load_def MAX_ARRAY_WIDTH_def split: if_splits)
qed

lemma ptr_rep_Dirty: "ptr_rep R s (HDirty n) m \<longleftrightarrow> 3 < card (dom m) \<and> R n m"
  by (auto simp: ptr_rep_def MAX_ARRAY_WIDTH_def)

lemma ptr_rep_Values: "ptr_rep R s (Values vals) m \<longleftrightarrow> card (dom m) \<le> 3 \<and> vals = bucket m"
  by (auto simp: ptr_rep_def MAX_ARRAY_WIDTH_def)

declare node_rep.simps(2) [simp del]

section \<open>Changing one slot of a node\<close>

lemma node_rep_SucE:
  assumes "node_rep hash bw s (Suc d) l n m"
  obtains b f where "n = HNode b (map f (sorted_list_of_set (slot_of hash bw l ` dom m)))" "finite (dom m)" "length b = 4"
    "hbf_slots b = slot_of hash bw l ` dom m"
    "\<And>i. i \<in> slot_of hash bw l ` dom m \<Longrightarrow> ptr_rep (node_rep hash bw s d (Suc l)) s (f i) (in_slot hash bw l i m)"
proof -
  obtain b ps where n: "n = HNode b ps" by (cases n)
  from assms obtain f where "ps = map f (sorted_list_of_set (slot_of hash bw l ` dom m))" "finite (dom m)" "length b = 4"
    "hbf_slots b = slot_of hash bw l ` dom m"
    "\<forall>i \<in> slot_of hash bw l ` dom m. ptr_rep (node_rep hash bw s d (Suc l)) s (f i) (in_slot hash bw l i m)"
    unfolding n node_rep.simps hamt_node.sel by blast
  with n that [of b f] show thesis by blast
qed

lemma node_repI:
  assumes "slot_of hash bw l ` dom m = A" "finite (dom m)" "length b = 4" "hbf_slots b = A"
    "\<And>i. i \<in> A \<Longrightarrow> ptr_rep (node_rep hash bw s d (Suc l)) s (f i) (in_slot hash bw l i m)"
  shows "node_rep hash bw s (Suc d) l (HNode b (map f (sorted_list_of_set A))) m"
  unfolding node_rep.simps hamt_node.sel assms(1) using assms(2-5) by blast

lemma node_rep_absent:
  assumes rep: "node_rep hash bw s (Suc d) l n m" and ok: "hash_ok hash bw"
    and absent: "slot_of hash bw l key \<notin> slot_of hash bw l ` dom m"
  shows "\<not> hbf_test_bit (node_bits n) (slot_of hash bw l key)" "m key = None"
    "\<not> length (node_ptrs n) < index_for_bit_pos (node_bits n) (slot_of hash bw l key)"
    "node_rep hash bw s (Suc d) l (insert_child n (slot_of hash bw l key) key v) (m(key \<mapsto> v))"
proof -
  let ?i = "slot_of hash bw l key" and ?A = "slot_of hash bw l ` dom m"
  obtain b f where n: "n = HNode b (map f (sorted_list_of_set ?A))" "finite (dom m)" "length b = 4" "hbf_slots b = ?A"
    and f: "\<And>i. i \<in> ?A \<Longrightarrow> ptr_rep (node_rep hash bw s d (Suc l)) s (f i) (in_slot hash bw l i m)"
    using rep by (rule node_rep_SucE) blast
  have i: "?i < 256" using ok by (rule slot_of_lt)
  have idx: "index_for_bit_pos b ?i = key_rank ?A ?i"
    using n i by (simp add: index_for_bit_pos_slots key_rank_def)
  show "\<not> hbf_test_bit (node_bits n) ?i" using absent i n by (simp add: hbf_test_bit_slots)
  show none: "m key = None" using absent by (auto simp: dom_def)
  show "\<not> length (node_ptrs n) < index_for_bit_pos (node_bits n) ?i"
    using n idx key_rank_le [of ?A ?i] by simp
  let ?p = "Values [(key, v)]"
  have "in_slot hash bw l ?i m = Map.empty" using absent by (simp add: in_slot_empty_iff)
  then have p: "ptr_rep (node_rep hash bw s d (Suc l)) s ?p (in_slot hash bw l ?i (m(key \<mapsto> v)))"
    by (simp add: in_slot_upd ptr_rep_Values)
  have "insert_child n ?i key v = HNode (hbf_set_bit b ?i) (map (f(?i := ?p)) (sorted_list_of_set (insert ?i ?A)))"
    using n map_sorted_insert [of ?A ?i ?p f] absent by (simp add: idx)
  moreover have "slot_of hash bw l ` dom (m(key \<mapsto> v)) = insert ?i ?A" by simp
  moreover have "ptr_rep (node_rep hash bw s d (Suc l)) s ((f(?i := ?p)) j) (in_slot hash bw l j (m(key \<mapsto> v)))"
    if "j \<in> insert ?i ?A" for j
    using that f [of j] p by (auto simp: in_slot_upd)
  ultimately show "node_rep hash bw s (Suc d) l (insert_child n ?i key v) (m(key \<mapsto> v))"
    using n i by (simp only:) (rule node_repI; simp add: hbf_slots_set_bit)
qed

lemma node_rep_present:
  assumes rep: "node_rep hash bw s (Suc d) l n m" and ok: "hash_ok hash bw"
    and present: "slot_of hash bw l key \<in> slot_of hash bw l ` dom m"
  obtains i p where "hbf_test_bit (node_bits n) (slot_of hash bw l key)"
    "index_for_bit_pos (node_bits n) (slot_of hash bw l key) = i" "\<not> length (node_ptrs n) \<le> i" "node_ptrs n ! i = p"
    "ptr_rep (node_rep hash bw s d (Suc l)) s p (in_slot hash bw l (slot_of hash bw l key) m)"
    "\<And>p' m'. m' = m(key := x) \<Longrightarrow> slot_of hash bw l key \<in> slot_of hash bw l ` dom m' \<Longrightarrow>
       ptr_rep (node_rep hash bw s d (Suc l)) s p' (in_slot hash bw l (slot_of hash bw l key) m') \<Longrightarrow>
       node_rep hash bw s (Suc d) l (set_child n i p') m'"
    "x = None \<Longrightarrow> dom (in_slot hash bw l (slot_of hash bw l key) m) = {key} \<Longrightarrow>
       node_rep hash bw s (Suc d) l (rm_child n i (slot_of hash bw l key)) (m(key := x))"
proof -
  let ?i = "slot_of hash bw l key" and ?A = "slot_of hash bw l ` dom m"
  let ?rep = "ptr_rep (node_rep hash bw s d (Suc l)) s"
  obtain b f where n: "n = HNode b (map f (sorted_list_of_set ?A))" "finite (dom m)" "length b = 4" "hbf_slots b = ?A"
    and f: "\<And>i. i \<in> ?A \<Longrightarrow> ?rep (f i) (in_slot hash bw l i m)"
    using rep by (rule node_rep_SucE) blast
  have i: "?i < 256" using ok by (rule slot_of_lt)
  have idx: "index_for_bit_pos b ?i = key_rank ?A ?i"
    using n i by (simp add: index_for_bit_pos_slots key_rank_def)
  have lt: "key_rank ?A ?i < card ?A" using n present by (intro key_rank_lt) auto
  have upd: "node_rep hash bw s (Suc d) l (set_child n (key_rank ?A ?i) p') m'"
    if m': "m' = m(key := x)" "?i \<in> slot_of hash bw l ` dom m'" "?rep p' (in_slot hash bw l ?i m')" for p' m'
  proof -
    have A: "slot_of hash bw l ` dom m' = ?A"
    proof
      show "slot_of hash bw l ` dom m' \<subseteq> ?A" using m'(1) present by (auto split: if_splits)
      show "?A \<subseteq> slot_of hash bw l ` dom m'"
      proof
        fix j assume "j \<in> ?A"
        then obtain k where k: "k \<in> dom m" "j = slot_of hash bw l k" by auto
        show "j \<in> slot_of hash bw l ` dom m'"
        proof (cases "k = key")
          case False
          then have "k \<in> dom m'" using k m'(1) by auto
          then show ?thesis using k by blast
        qed (use m'(2) k in simp)
      qed
    qed
    have "?rep ((f(?i := p')) j) (in_slot hash bw l j m')" if "j \<in> ?A" for j
      using that f [of j] m' by (auto simp: in_slot_upd)
    moreover have "set_child n (key_rank ?A ?i) p' = HNode b (map (f(?i := p')) (sorted_list_of_set ?A))"
      using n map_sorted_update [of ?A ?i f p'] present by simp
    moreover have "finite (dom m')" using m'(1) n by simp
    ultimately show ?thesis using n A by (simp only:) (rule node_repI)
  qed
  have rm: "node_rep hash bw s (Suc d) l (rm_child n (key_rank ?A ?i) ?i) (m(key := x))"
    if x: "x = None" and only: "dom (in_slot hash bw l ?i m) = {key}"
  proof -
    have A: "slot_of hash bw l ` dom (m(key := x)) = ?A - {?i}"
      using only x by (auto simp: dom_in_slot)
    have "?rep (f j) (in_slot hash bw l j (m(key := x)))" if "j \<in> ?A - {?i}" for j
      using that f [of j] by (auto simp: in_slot_upd)
    moreover have "rm_child n (key_rank ?A ?i) ?i = HNode (hbf_clear_bit b ?i) (map f (sorted_list_of_set (?A - {?i})))"
      using n map_sorted_remove [of ?A ?i f] present by simp
    ultimately show ?thesis using n i A by (simp only:) (rule node_repI; simp add: hbf_slots_clear_bit)
  qed
  show thesis
  proof (rule that [of "key_rank ?A ?i" "f ?i"])
    show "hbf_test_bit (node_bits n) ?i" using n i present by (simp add: hbf_test_bit_slots)
    show "index_for_bit_pos (node_bits n) ?i = key_rank ?A ?i" using n idx by simp
    show "\<not> length (node_ptrs n) \<le> key_rank ?A ?i" using n lt by simp
    show "node_ptrs n ! key_rank ?A ?i = f ?i" using n lt present nth_key_rank [of ?A ?i] by simp
    show "?rep (f ?i) (in_slot hash bw l ?i m)" using present by (rule f)
  qed (fact upd, fact rm)
qed

section \<open>Reading\<close>

lemma in_slot_own: "in_slot hash bw l (slot_of hash bw l key) m key = m key"
  by simp

lemma get_value_correct:
  assumes "hash_ok hash bw" "node_rep hash bw s d l n m" "l + d = levels bw" "d \<le> fuel"
  shows "\<exists>n'. get_value fuel s bw (hash key) (l * bw) key n = (Inr (map_option (Pair key) (m key)), n') \<and>
    node_rep hash bw s d l n' m \<and> node_ser n' = node_ser n"
  using assms(2-4)
proof (induction fuel arbitrary: d l n m)
  case (Suc fuel)
  then obtain d' where d: "d = Suc d'" by (cases d) auto
  note rep = Suc.prems(1) [unfolded d]
  let ?i = "slot_of hash bw l key" and ?R = "node_rep hash bw s d' (Suc l)"
  have nx: "hash_next (hash key) (l * bw) bw = Inr (?i, Suc l * bw)"
    using assms(1) Suc.prems(2) by (intro hash_next_slot) (auto simp: d)
  show ?case
  proof (cases "?i \<in> slot_of hash bw l ` dom m")
    case False
    with node_rep_absent [OF rep assms(1) False] rep show ?thesis by (simp add: nx d)
  next
    case True
    obtain i p where at: "hbf_test_bit (node_bits n) ?i" "index_for_bit_pos (node_bits n) ?i = i"
      "\<not> length (node_ptrs n) \<le> i" "node_ptrs n ! i = p"
      and p: "ptr_rep ?R s p (in_slot hash bw l ?i m)"
      and upd: "\<And>p' m'. m' = m(key := m key) \<Longrightarrow> ?i \<in> slot_of hash bw l ` dom m' \<Longrightarrow>
        ptr_rep ?R s p' (in_slot hash bw l ?i m') \<Longrightarrow> node_rep hash bw s (Suc d') l (set_child n i p') m'"
      using node_rep_present [OF rep assms(1) True, where x = "m key"] by metis
    have IH: "\<exists>n'. get_value fuel s bw (hash key) (Suc l * bw) key child = (Inr (map_option (Pair key) (m key)), n') \<and>
        ?R n' (in_slot hash bw l ?i m) \<and> node_ser n' = node_ser child" if "?R child (in_slot hash bw l ?i m)" for child
      using Suc.IH [OF that] Suc.prems(2,3) by (simp add: d in_slot_own del: in_slot_apply)
    show ?thesis
    proof (cases p)
      case (Values vals)
      then show ?thesis
        using at p rep find_bucket [of "in_slot hash bw l ?i m" key] node_rep_finite [OF rep]
        by (simp add: nx d ptr_rep_Values)
    next
      case (HLink c cache)
      with p obtain child where child: "child_load s c cache = Inr child" "?R child (in_slot hash bw l ?i m)"
        and cached: "\<And>n. ?R n (in_slot hash bw l ?i m) \<Longrightarrow> node_ser n = node_ser child \<Longrightarrow>
          ptr_rep ?R s (HLink c (Some n)) (in_slot hash bw l ?i m)" by (auto elim: ptr_rep_load)
      from IH [OF child(2)] obtain n' where
        n': "get_value fuel s bw (hash key) (Suc l * bw) key child = (Inr (map_option (Pair key) (m key)), n')"
        "?R n' (in_slot hash bw l ?i m)" "node_ser n' = node_ser child" by blast
      have "node_rep hash bw s (Suc d') l (set_child n i (HLink c (Some n'))) m"
        using True cached [OF n'(2,3)] by (intro upd) auto
      moreover have "node_ser (set_child n i (HLink c (Some n'))) = node_ser n"
        using at HLink by (intro set_child_ser) auto
      ultimately show ?thesis using at n'(1) HLink child(1) by (simp add: nx d)
    next
      case (HDirty child)
      with p have child: "?R child (in_slot hash bw l ?i m)" "3 < card (dom (in_slot hash bw l ?i m))"
        by (simp_all add: ptr_rep_Dirty)
      from IH [OF child(1)] obtain n' where
        n': "get_value fuel s bw (hash key) (Suc l * bw) key child = (Inr (map_option (Pair key) (m key)), n')"
        "?R n' (in_slot hash bw l ?i m)" by blast
      have "node_rep hash bw s (Suc d') l (set_child n i (HDirty n')) m"
        using True child n' by (intro upd) (auto simp: ptr_rep_Dirty)
      moreover have "node_ser (set_child n i (HDirty n')) = node_ser n"
        using at HDirty by (intro set_child_ser) auto
      ultimately show ?thesis using at n'(1) HDirty by (simp add: nx d)
    qed
  qed
qed simp

section \<open>Writing\<close>

text \<open>The map after \<open>set\<close> (\<open>ow\<close>) or \<open>set_if_absent\<close>, and what the operation on a node must do.\<close>

definition hset :: "bool \<Rightarrow> 'k \<Rightarrow> 'v \<Rightarrow> ('k \<rightharpoonup> 'v) \<Rightarrow> ('k \<rightharpoonup> 'v)" where
  "hset ow key v m = (if ow \<or> m key = None then m(key \<mapsto> v) else m)"

definition hchanges :: "bool \<Rightarrow> 'k \<Rightarrow> 'v \<Rightarrow> ('k \<rightharpoonup> 'v) \<Rightarrow> bool" where
  "hchanges ow key v m \<longleftrightarrow> (if ow then m key \<noteq> Some v else m key = None)"

definition modify_spec ::
  "('k :: linorder \<Rightarrow> hashed_key) \<Rightarrow> nat \<Rightarrow> ('k, 'v, 'c) hamt_store \<Rightarrow> bool \<Rightarrow> nat \<Rightarrow> nat \<Rightarrow> nat \<Rightarrow> 'k \<Rightarrow> 'v \<Rightarrow>
   ('k, 'v, 'c) hamt_node \<Rightarrow> ('k \<rightharpoonup> 'v) \<Rightarrow> bool" where
  "modify_spec hash bw s ow fuel d l key v n m \<longleftrightarrow>
    (\<exists>n'. modify_value fuel hash s bw ow (hash key) (l * bw) key v n =
        (Inr (if ow then m key else None, hchanges ow key v m), n') \<and>
      node_rep hash bw s d l n' (hset ow key v m) \<and> (\<not> hchanges ow key v m \<longrightarrow> node_ser n' = node_ser n))"

lemma hset_new: "m key = None \<Longrightarrow> hset ow key v m = m(key \<mapsto> v)"
  by (simp add: hset_def)

lemma hset_same: "\<not> hchanges ow key v m \<Longrightarrow> hset ow key v m = m"
  by (auto simp: hset_def hchanges_def split: if_splits)

lemma hset_upd: "hset ow key v m = m(key := hset ow key v m key)"
  by (auto simp: hset_def)

lemma dom_hset: "dom (hset ow key v m) = insert key (dom m)"
  by (auto simp: hset_def)

lemma in_slot_hset:
  "in_slot hash bw l (slot_of hash bw l key) (hset ow key v m) = hset ow key v (in_slot hash bw l (slot_of hash bw l key) m)"
  by (auto simp: hset_def fun_eq_iff)

lemma hchanges_in_slot:
  "hchanges ow key v (in_slot hash bw l (slot_of hash bw l key) m) = hchanges ow key v m"
  by (simp add: hchanges_def)

lemma map_of_bucket: "finite (dom m) \<Longrightarrow> map_of (bucket m) = m"
  by (auto simp: bucket_def fun_eq_iff map_of_map_keys map_of_eq_None_iff)

lemma insert_kvs_correct:
  assumes spec: "\<And>n m key v. node_rep hash bw s d l n m \<Longrightarrow> insert key (dom m) \<subseteq> S \<Longrightarrow> modify_spec hash bw s ow fuel d l key v n m"
  shows "node_rep hash bw s d l n m \<Longrightarrow> distinct (map fst kvs) \<Longrightarrow> dom m \<union> fst ` set kvs \<subseteq> S \<Longrightarrow> dom m \<inter> fst ` set kvs = {} \<Longrightarrow>
    \<exists>n'. insert_kvs (\<lambda>p. modify_value fuel hash s bw ow (hash (fst p)) (l * bw) (fst p) (snd p)) kvs n = (Inr (), n') \<and>
      node_rep hash bw s d l n' (m ++ map_of kvs)"
proof (induction kvs arbitrary: n m)
  case (Cons kv kvs)
  obtain k v where kv: "kv = (k, v)" by force
  have k: "m k = None" using Cons.prems(4) by (auto simp: kv)
  obtain n1 r where n1: "modify_value fuel hash s bw ow (hash k) (l * bw) k v n = (Inr r, n1)"
    "node_rep hash bw s d l n1 (m(k \<mapsto> v))"
    using spec [OF Cons.prems(1), of k v] Cons.prems(3) k by (auto simp: kv modify_spec_def hset_new)
  have "m(k \<mapsto> v) ++ map_of kvs = m ++ map_of (kv # kvs)"
    using Cons.prems(2) by (simp add: kv map_add_upd_left dom_map_of_conv_image_fst)
  moreover have "\<exists>n'. insert_kvs (\<lambda>p. modify_value fuel hash s bw ow (hash (fst p)) (l * bw) (fst p) (snd p)) kvs n1 = (Inr (), n') \<and>
      node_rep hash bw s d l n' (m(k \<mapsto> v) ++ map_of kvs)"
  proof (rule Cons.IH [OF n1(2)])
    show "dom (m(k \<mapsto> v)) \<union> fst ` set kvs \<subseteq> S" "dom (m(k \<mapsto> v)) \<inter> fst ` set kvs = {}" "distinct (map fst kvs)"
      using Cons.prems by (auto simp: kv simp del: fun_upd_apply)
  qed
  ultimately show ?case using n1(1) by (simp add: kv del: fun_upd_apply)
qed auto

lemma split_bucket:
  assumes spec: "\<And>n m key v. node_rep hash bw s d l n m \<Longrightarrow> insert key (dom m) \<subseteq> S \<Longrightarrow> modify_spec hash bw s ow fuel d l key v n m"
    and "0 < d" "finite (dom m)" "m key = None" "S = insert key (dom m)"
  shows "\<exists>sub sub'. modify_value fuel hash s bw ow (hash key) (l * bw) key v hnode_default = (Inr (None, True), sub) \<and>
    insert_kvs (\<lambda>p. modify_value fuel hash s bw ow (hash (fst p)) (l * bw) (fst p) (snd p)) (bucket m) sub = (Inr (), sub') \<and>
    node_rep hash bw s d l sub' (m(key \<mapsto> v))"
proof -
  have "node_rep hash bw s d l hnode_default Map.empty"
    using assms(2) by (cases d) (simp_all only: node_rep_empty)
  from spec [OF this, of key v] assms(5) obtain sub where
    sub: "modify_value fuel hash s bw ow (hash key) (l * bw) key v hnode_default = (Inr (None, True), sub)"
    "node_rep hash bw s d l sub [key \<mapsto> v]"
    by (auto simp: modify_spec_def hset_new hchanges_def split: if_splits)
  have keys: "map fst (bucket m) = sorted_list_of_set (dom m)" by (simp add: bucket_def comp_def)
  then have set: "fst ` set (bucket m) = dom m" using assms(3) by (metis set_map set_sorted_list_of_set)
  have "[key \<mapsto> v] ++ map_of (bucket m) = m(key \<mapsto> v)"
    using assms(3,4) by (auto simp: map_of_bucket fun_eq_iff map_add_def split: option.splits)
  then show ?thesis
    using insert_kvs_correct [where kvs = "bucket m" and S = S, OF spec sub(2)] sub(1) assms(4,5) keys set
    by (simp add: domIff)
qed

lemma card_hset:
  "finite (dom m) \<Longrightarrow> card (dom (hset ow key v m)) = (if m key = None then Suc (card (dom m)) else card (dom m))"
  by (auto simp: dom_hset card_insert_if)

text \<open>A bucket with room, or with the key.\<close>

lemma modify_bucket:
  assumes "finite (dom m)" "card (dom m) \<le> 3" "m key \<noteq> None \<or> card (dom m) < 3"
  shows "ptr_rep R s (Values (bucket (hset ow key v m))) (hset ow key v m)"
    "m key = None \<Longrightarrow> list_insert (case list_position (\<lambda>c. key < fst c) (bucket m) of Some i \<Rightarrow> i | None \<Rightarrow> length (bucket m))
      (key, v) (bucket m) = bucket (hset ow key v m)"
    "m key = Some old \<Longrightarrow> (bucket m)[key_rank (dom m) key := (key, v)] = bucket (hset True key v m)"
  using assms bucket_insert [of m key v] bucket_update [of m key old v] card_hset [of m ow key v]
  by (auto simp: ptr_rep_Values hset_def simp del: dom_fun_upd)

lemma modify_value_correct:
  assumes ok: "hash_ok hash bw" and K: "spread hash bw K"
  shows "node_rep hash bw s d l n m \<Longrightarrow> l + d = levels bw \<Longrightarrow> d \<le> fuel \<Longrightarrow> insert key (dom m) \<subseteq> K \<Longrightarrow>
    slots_agree hash bw l (insert key (dom m)) \<Longrightarrow> modify_spec hash bw s ow fuel d l key v n m"
proof (induction fuel arbitrary: d l key v n m)
  case (Suc fuel)
  then obtain d' where d: "d = Suc d'" by (cases d) auto
  note rep = Suc.prems(1) [unfolded d]
  let ?i = "slot_of hash bw l key" and ?R = "node_rep hash bw s d' (Suc l)"
  let ?m = "in_slot hash bw l ?i m" and ?m' = "hset ow key v m"
  have nx: "hash_next (hash key) (l * bw) bw = Inr (?i, Suc l * bw)"
    using ok Suc.prems(2) by (intro hash_next_slot) (auto simp: d)
  show ?case
  proof (cases "?i \<in> slot_of hash bw l ` dom m")
    case False
    with node_rep_absent [OF rep ok False] show ?thesis
      by (simp add: modify_spec_def nx d hset_new hchanges_def del: fun_upd_apply)
  next
    case True
    obtain i p where at: "hbf_test_bit (node_bits n) ?i" "index_for_bit_pos (node_bits n) ?i = i"
      "\<not> length (node_ptrs n) \<le> i" "node_ptrs n ! i = p"
      and p: "ptr_rep ?R s p ?m"
      and upd0: "\<And>p' m'. m' = m(key := ?m' key) \<Longrightarrow> ?i \<in> slot_of hash bw l ` dom m' \<Longrightarrow>
        ptr_rep ?R s p' (in_slot hash bw l ?i m') \<Longrightarrow> node_rep hash bw s (Suc d') l (set_child n i p') m'"
      using node_rep_present [OF rep ok True, where x = "?m' key"] by metis
    have upd: "node_rep hash bw s (Suc d') l (set_child n i p') ?m'" if "ptr_rep ?R s p' (hset ow key v ?m)" for p'
      by (rule upd0) (use that in \<open>simp_all add: hset_upd [symmetric] dom_hset in_slot_hset\<close>)
    let ?S = "insert key (dom ?m)"
    have S: "?S \<subseteq> K" "slots_agree hash bw (Suc l) ?S"
      using Suc.prems(4) slots_agree_Suc [OF Suc.prems(5), of ?i] by (auto simp: dom_in_slot elim: slots_agree_mono)
    have IH: "modify_spec hash bw s ow fuel d' (Suc l) k w child m''"
      if "?R child m''" "insert k (dom m'') \<subseteq> ?S" for k w child m''
    proof (rule Suc.IH [OF that(1)])
      show "insert k (dom m'') \<subseteq> K" using that(2) S(1) by (rule order.trans)
      show "slots_agree hash bw (Suc l) (insert k (dom m''))" using S(2) that(2) by (rule slots_agree_mono)
    qed (use Suc.prems(2,3) in \<open>simp_all add: d\<close>)
    have own: "(if ow then ?m key else None) = (if ow then m key else None)" by simp
    have fin: "finite (dom ?m)" using node_rep_finite [OF rep] by simp
    show ?thesis
    proof (cases p)
      case (Values vals)
      with p have b: "vals = bucket ?m" "card (dom ?m) \<le> 3" by (simp_all add: ptr_rep_Values)
      consider (found) old where "m key = Some old" | (room) "m key = None" "card (dom ?m) < 3"
        | (full) "m key = None" "card (dom ?m) = 3" using b(2) by fastforce
      then show ?thesis
      proof cases
        case found
        then have pos: "list_position (\<lambda>p. fst p = key) vals = Some (key_rank (dom ?m) key)" "vals ! key_rank (dom ?m) key = (key, old)"
          using fin by (simp_all add: b position_bucket nth_bucket)
        show ?thesis
        proof (cases ow)
          case True
          have "node_rep hash bw s (Suc d') l (set_child n i (Values (bucket (hset ow key v ?m)))) ?m'"
            using b(2) fin found by (intro upd modify_bucket(1)) auto
          moreover have "vals[key_rank (dom ?m) key := (key, v)] = bucket (hset ow key v ?m)"
            using modify_bucket(3) [OF fin b(2), of key old v] found True by (simp add: b)
          moreover have "node_ser (set_child n i (Values (bucket (hset ow key v ?m)))) = node_ser n" if "\<not> hchanges ow key v m"
            using at Values b that by (intro set_child_ser) (simp_all add: hset_same hchanges_in_slot)
          ultimately show ?thesis
            using at pos Values found True by (simp add: modify_spec_def nx d hchanges_def)
        next
          case False
          then show ?thesis
            using at pos Values found rep by (simp add: modify_spec_def nx d hchanges_def hset_def)
        qed
      next
        case room
        have "node_rep hash bw s (Suc d') l (set_child n i (Values (bucket (hset ow key v ?m)))) ?m'"
          using b(2) fin room by (intro upd modify_bucket(1)) auto
        moreover have "list_position (\<lambda>p. fst p = key) vals = None" using fin room by (simp add: b position_bucket)
        moreover have "list_insert (case list_position (\<lambda>c. key < fst c) vals of Some i \<Rightarrow> i | None \<Rightarrow> length vals) (key, v) vals =
          bucket (hset ow key v ?m)" unfolding b(1) using modify_bucket(2) [OF fin b(2), of key v ow] room by simp
        moreover have "length vals = card (dom ?m)" by (simp add: b)
        ultimately show ?thesis
          using at Values room by (simp add: modify_spec_def nx d hchanges_def MAX_ARRAY_WIDTH_def)
      next
        case full
        have "card ?S = 4" using full fin by (simp add: card_insert_if domIff)
        then have "0 < d'"
          using spread_depth [OF K S(1) _ _ S(2)] fin Suc.prems(2) by (simp add: d)
        from split_bucket [OF IH this fin _ refl, of key v] full obtain sub sub' where
          sub: "modify_value fuel hash s bw ow (hash key) (Suc l * bw) key v hnode_default = (Inr (None, True), sub)"
          "insert_kvs (\<lambda>p. modify_value fuel hash s bw ow (hash (fst p)) (Suc l * bw) (fst p) (snd p)) (bucket ?m) sub = (Inr (), sub')"
          "?R sub' (?m(key \<mapsto> v))" by (auto simp del: fun_upd_apply)
        have "node_rep hash bw s (Suc d') l (set_child n i (HDirty sub')) ?m'"
          using sub(3) full \<open>card ?S = 4\<close> by (intro upd) (simp add: ptr_rep_Dirty hset_new del: fun_upd_apply)
        moreover have "list_position (\<lambda>p. fst p = key) vals = None" using fin full by (simp add: b position_bucket)
        ultimately show ?thesis
          using at Values full sub(1,2) by (simp add: modify_spec_def nx d hchanges_def b MAX_ARRAY_WIDTH_def)
      qed
    next
      case (HLink c cache)
      with p obtain child where child: "child_load s c cache = Inr child" "?R child ?m" "3 < card (dom ?m)"
        and cached: "\<And>n. ?R n ?m \<Longrightarrow> node_ser n = node_ser child \<Longrightarrow> ptr_rep ?R s (HLink c (Some n)) ?m"
        by (auto elim: ptr_rep_load)
      from IH [OF child(2), of key v] obtain n' where
        n': "modify_value fuel hash s bw ow (hash key) (Suc l * bw) key v child =
          (Inr (if ow then m key else None, hchanges ow key v m), n')"
        "?R n' (hset ow key v ?m)" "\<not> hchanges ow key v m \<Longrightarrow> node_ser n' = node_ser child"
        by (auto simp: modify_spec_def own hchanges_in_slot simp del: in_slot_apply)
      let ?p = "if hchanges ow key v m then HDirty n' else HLink c (Some n')"
      have "ptr_rep ?R s ?p (hset ow key v ?m)"
        using child(3) n'(2,3) cached fin hset_same [of ow key v ?m]
        by (auto simp: ptr_rep_Dirty card_hset hchanges_in_slot)
      note rep' = upd [OF this]
      moreover have "node_ser (set_child n i ?p) = node_ser n" if "\<not> hchanges ow key v m"
        using at HLink that by (intro set_child_ser) auto
      ultimately show ?thesis using at n'(1) HLink child(1) by (simp add: modify_spec_def nx d)
    next
      case (HDirty child)
      with p have child: "?R child ?m" "3 < card (dom ?m)" by (simp_all add: ptr_rep_Dirty)
      from IH [OF child(1), of key v] obtain n' where
        n': "modify_value fuel hash s bw ow (hash key) (Suc l * bw) key v child =
          (Inr (if ow then m key else None, hchanges ow key v m), n')" "?R n' (hset ow key v ?m)"
        by (auto simp: modify_spec_def own hchanges_in_slot simp del: in_slot_apply)
      have "node_rep hash bw s (Suc d') l (set_child n i (HDirty n')) ?m'"
        using child n' fin by (intro upd) (auto simp: ptr_rep_Dirty card_hset)
      moreover have "node_ser (set_child n i (HDirty n')) = node_ser n"
        using at HDirty by (intro set_child_ser) auto
      ultimately show ?thesis using at n'(1) HDirty by (simp add: modify_spec_def nx d)
    qed
  qed
qed simp

section \<open>Removing\<close>

text \<open>The entries of a node are those of its slots.\<close>

lemma card_slots:
  assumes "finite (dom m)"
  shows "card (dom m) = (\<Sum>i \<in> slot_of hash bw l ` dom m. card (dom (in_slot hash bw l i m)))"
proof -
  have "dom m = (\<Union>i \<in> slot_of hash bw l ` dom m. dom (in_slot hash bw l i m))"
    by (auto simp: dom_in_slot)
  then have "card (dom m) = card (\<Union>i \<in> slot_of hash bw l ` dom m. dom (in_slot hash bw l i m))" by simp
  also have "\<dots> = (\<Sum>i \<in> slot_of hash bw l ` dom m. card (dom (in_slot hash bw l i m)))"
    using assms by (intro card_UN_disjoint) (auto simp: dom_in_slot)
  finally show ?thesis .
qed

lemma sort_key_bucket:
  assumes "finite (dom m)" "distinct (map fst kvs)" "set kvs = set (bucket m)"
  shows "sort_key fst kvs = bucket m"
proof (rule map_sorted_distinct_set_unique [of fst])
  show "inj_on fst (set (sort_key fst kvs) \<union> set (bucket m))"
    using assms by (auto simp: inj_on_def set_bucket)
  show "sorted (map fst (bucket m))" "distinct (map fst (bucket m))"
    by (simp_all add: bucket_def comp_def)
  show "distinct (map fst (sort_key fst kvs))"
    using assms(2) by (simp add: distinct_map)
qed (use assms in auto)

lemma clean_rep:
  assumes rep: "node_rep hash bw s d l n m" and ne: "dom m \<noteq> {}"
  obtains p where "hamt_clean (HDirty n) = (Inr (), p)" "ptr_rep (node_rep hash bw s d l) s p m"
    "3 < card (dom m) \<Longrightarrow> p = HDirty n"
proof -
  obtain d' where d: "d = Suc d'" using rep by (cases d) auto
  let ?A = "slot_of hash bw l ` dom m"
  obtain b f where n: "n = HNode b (map f (sorted_list_of_set ?A))" and fin: "finite (dom m)"
    and f: "\<And>i. i \<in> ?A \<Longrightarrow> ptr_rep (node_rep hash bw s d' (Suc l)) s (f i) (in_slot hash bw l i m)"
    using rep unfolding d by (rule node_rep_SucE) blast
  let ?ps = "map f (sorted_list_of_set ?A)"
  have len: "length ?ps = card ?A" by simp
  have ps: "set ?ps = f ` ?A" using fin by simp
  have A: "?A \<noteq> {}" using ne by simp
  let ?kvs = "concat (map (\<lambda>q. case values_of q of Some kvs \<Rightarrow> kvs | None \<Rightarrow> []) ?ps)"
  have kvs: "?kvs = concat (map (\<lambda>i. bucket (in_slot hash bw l i m)) (sorted_list_of_set ?A))"
    if "\<forall>i\<in>?A. f i = Values (bucket (in_slot hash bw l i m))"
    using fin that by (auto simp: comp_def intro!: arg_cong [where f = concat])
  have lk: "length ?kvs = card (dom m)" if vals: "\<forall>i\<in>?A. f i = Values (bucket (in_slot hash bw l i m))"
  proof -
    have "length ?kvs = (\<Sum>i \<leftarrow> sorted_list_of_set ?A. card (dom (in_slot hash bw l i m)))"
      unfolding kvs [OF vals] by (simp add: length_concat comp_def)
    also have "\<dots> = card (dom m)"
      using fin by (subst card_slots [OF fin, where hash = hash and bw = bw and l = l]) (simp add: sum_list_distinct_conv_sum_set)
    finally show ?thesis .
  qed
  have single: "in_slot hash bw l i m = m" if "?A = {i}" for i
  proof
    fix k
    have "slot_of hash bw l k = i" if "m k \<noteq> None" using \<open>?A = {i}\<close> that by blast
    then show "in_slot hash bw l i m k = m k" by (cases "m k") auto
  qed
  show thesis
  proof (cases "card (dom m) \<le> 3")
    case True
    have small: "card (dom (in_slot hash bw l i m)) \<le> 3" for i
      using True card_mono [of "dom m" "dom (in_slot hash bw l i m)"] fin by (auto simp: dom_in_slot)
    have vals: "\<forall>i\<in>?A. f i = Values (bucket (in_slot hash bw l i m))"
    proof
      fix i assume "i \<in> ?A"
      from f [OF this] small [of i] show "f i = Values (bucket (in_slot hash bw l i m))"
        by (auto simp: ptr_rep_def MAX_ARRAY_WIDTH_def)
    qed
    note kvs = kvs [OF vals] and lk = lk [OF vals]
    have set: "set ?kvs = set (bucket m)"
      unfolding kvs using fin by (auto simp: set_bucket split: if_splits)
    have keys: "set (map fst ?kvs) = dom m" unfolding set_map set using fin by (auto simp: set_bucket image_iff)
    have "distinct (map fst ?kvs)" using lk keys by (intro card_distinct) simp
    then have sk: "sort_key fst ?kvs = bucket m" using fin set by (intro sort_key_bucket)
    have no: "values_of q \<noteq> None" if "q \<in> set ?ps" for q using that fin by (auto simp: vals)
    consider "card ?A = 1" | "2 \<le> card ?A" "card ?A \<le> 3"
      using True card_image_le [OF fin, of "slot_of hash bw l"] A fin card_gt_0_iff [of ?A] by fastforce
    then have "hamt_clean (HDirty n) = (Inr (), Values (bucket m))"
    proof cases
      case 1
      then obtain i where i: "?A = {i}" by (auto simp: card_1_singleton_iff)
      with single [OF i] vals show ?thesis by (simp add: hamt_clean_def n)
    next
      case 2
      moreover have "sorted_list_of_set ?A \<noteq> []" using A fin by (simp add: sorted_list_of_set_eq_Nil_iff)
      ultimately show ?thesis using no lk sk True
        by (auto simp: hamt_clean_def n MAX_ARRAY_WIDTH_def Let_def)
    qed
    with that [of "Values (bucket m)"] True show ?thesis by (simp add: ptr_rep_Values)
  next
    case False
    have "hamt_clean (HDirty n) = (Inr (), HDirty n)"
    proof (cases "card ?A = 1")
      case True
      then obtain i where i: "?A = {i}" by (auto simp: card_1_singleton_iff)
      with f [of i] single [OF i] False have "\<And>vals. f i \<noteq> Values vals" by (auto simp: ptr_rep_Values)
      with i show ?thesis by (cases "f i") (auto simp: hamt_clean_def n)
    next
      case A1: False
      have "sorted_list_of_set ?A \<noteq> []" using A fin by (simp add: sorted_list_of_set_eq_Nil_iff)
      moreover have "3 < length ?kvs" if "\<forall>q \<in> set ?ps. values_of q \<noteq> None"
      proof -
        have "f i = Values (bucket (in_slot hash bw l i m))" if "i \<in> ?A" for i
        proof -
          have "values_of (f i) \<noteq> None"
            using that \<open>\<forall>q \<in> set ?ps. values_of q \<noteq> None\<close> unfolding ps by blast
          with f [OF that] show ?thesis by (cases "f i") (simp_all add: ptr_rep_Values)
        qed
        then have "\<forall>i\<in>?A. f i = Values (bucket (in_slot hash bw l i m))" by blast
        from lk [OF this] False show ?thesis by simp
      qed
      ultimately show ?thesis using A1 len
        by (auto simp: hamt_clean_def n MAX_ARRAY_WIDTH_def Let_def)
    qed
    with that [of "HDirty n"] False rep show ?thesis by (simp add: ptr_rep_Dirty)
  qed
qed

text \<open>
  What \<open>rm_value\<close> does: an entry that is there is returned and removed; otherwise the node stands for
  the same map, and the call returns nothing or stops at the unreachable case of \<open>clean\<close>.
\<close>

definition remove_spec ::
  "('k :: linorder \<Rightarrow> hashed_key) \<Rightarrow> nat \<Rightarrow> ('k, 'v, 'c) hamt_store \<Rightarrow> nat \<Rightarrow> nat \<Rightarrow> nat \<Rightarrow> 'k \<Rightarrow>
   ('k, 'v, 'c) hamt_node \<Rightarrow> ('k \<rightharpoonup> 'v) \<Rightarrow> bool" where
  "remove_spec hash bw s fuel d l key n m \<longleftrightarrow>
    (\<exists>r n'. rm_value fuel s bw (hash key) (l * bw) key n = (r, n') \<and> node_rep hash bw s d l n' (m(key := None)) \<and>
      (case m key of
         Some v \<Rightarrow> r = Inr (Some (key, v))
       | None \<Rightarrow> (r = Inr None \<or> r = Inl (HPanic ''clean is only called on dirty pointer'')) \<and> node_ser n' = node_ser n))"

lemma remove_spec_Some:
  "m key = Some v \<Longrightarrow> rm_value fuel s bw (hash key) (l * bw) key n = (Inr (Some (key, v)), n') \<Longrightarrow>
   node_rep hash bw s d l n' (m(key := None)) \<Longrightarrow> remove_spec hash bw s fuel d l key n m"
  by (simp add: remove_spec_def del: fun_upd_apply)

lemma remove_spec_None:
  "m key = None \<Longrightarrow> rm_value fuel s bw (hash key) (l * bw) key n = (r, n') \<Longrightarrow>
   r = Inr None \<or> r = Inl (HPanic ''clean is only called on dirty pointer'') \<Longrightarrow>
   node_rep hash bw s d l n' m \<Longrightarrow> node_ser n' = node_ser n \<Longrightarrow> remove_spec hash bw s fuel d l key n m"
  by (simp add: remove_spec_def fun_upd_idem del: fun_upd_apply)

lemma remove_specE_Some:
  assumes "remove_spec hash bw s fuel d l key n m" "m key = Some v"
  obtains n' where "rm_value fuel s bw (hash key) (l * bw) key n = (Inr (Some (key, v)), n')"
    "node_rep hash bw s d l n' (m(key := None))"
  using assms by (auto simp: remove_spec_def simp del: fun_upd_apply)

lemma remove_specE_None:
  assumes "remove_spec hash bw s fuel d l key n m" "m key = None"
  obtains r n' where "rm_value fuel s bw (hash key) (l * bw) key n = (r, n')"
    "r = Inr None \<or> r = Inl (HPanic ''clean is only called on dirty pointer'')"
    "node_rep hash bw s d l n' m" "node_ser n' = node_ser n"
proof -
  have "m(key := None) = m" using assms(2) by auto
  with assms that show thesis by (auto simp: remove_spec_def simp del: fun_upd_apply)
qed

lemma rm_value_correct:
  assumes ok: "hash_ok hash bw"
  shows "node_rep hash bw s d l n m \<Longrightarrow> l + d = levels bw \<Longrightarrow> d \<le> fuel \<Longrightarrow> remove_spec hash bw s fuel d l key n m"
proof (induction fuel arbitrary: d l n m)
  case (Suc fuel)
  then obtain d' where d: "d = Suc d'" by (cases d) auto
  note rep = Suc.prems(1) [unfolded d]
  let ?i = "slot_of hash bw l key" and ?R = "node_rep hash bw s d' (Suc l)"
  let ?m = "in_slot hash bw l ?i m"
  have nx: "hash_next (hash key) (l * bw) bw = Inr (?i, Suc l * bw)"
    using ok Suc.prems(2) by (intro hash_next_slot) (auto simp: d)
  show ?case
  proof (cases "?i \<in> slot_of hash bw l ` dom m")
    case False
    note absent = node_rep_absent [OF rep ok False]
    have "rm_value (Suc fuel) s bw (hash key) (l * bw) key n = (Inr None, n)"
      using absent(1) by (simp add: nx)
    from remove_spec_None [where m = m and hash = hash and key = key, OF absent(2) this] rep show ?thesis by (simp add: d)
  next
    case True
    obtain i p where at: "hbf_test_bit (node_bits n) ?i" "index_for_bit_pos (node_bits n) ?i = i"
      "\<not> length (node_ptrs n) \<le> i" "node_ptrs n ! i = p"
      and p: "ptr_rep ?R s p ?m"
      and upd0: "\<And>p' m'. m' = m(key := None) \<Longrightarrow> ?i \<in> slot_of hash bw l ` dom m' \<Longrightarrow>
        ptr_rep ?R s p' (in_slot hash bw l ?i m') \<Longrightarrow> node_rep hash bw s (Suc d') l (set_child n i p') m'"
      and rm: "dom ?m = {key} \<Longrightarrow> node_rep hash bw s (Suc d') l (rm_child n i ?i) (m(key := None))"
      using node_rep_present [OF rep ok True, where x = None] by (metis (no_types, lifting))
    have slot: "in_slot hash bw l ?i (m(key := None)) = ?m(key := None)" by (simp add: in_slot_upd)
    have upd: "node_rep hash bw s (Suc d') l (set_child n i p') (m(key := None))"
      if "ptr_rep ?R s p' (?m(key := None))" "dom (?m(key := None)) \<noteq> {}" for p'
    proof (rule upd0 [OF refl])
      have "in_slot hash bw l ?i (m(key := None)) \<noteq> Map.empty" using that(2) unfolding dom_eq_empty_conv slot .
      then show "?i \<in> slot_of hash bw l ` dom (m(key := None))" by (simp only: in_slot_empty_iff not_not)
    qed (simp only: slot that)
    have IH: "remove_spec hash bw s fuel d' (Suc l) key child ?m" if "?R child ?m" for child
      using Suc.IH [OF that] Suc.prems(2,3) by (simp add: d del: in_slot_apply)
    have fin: "finite (dom ?m)" using node_rep_finite [OF rep] by simp
    have big: "dom (?m(key := None)) \<noteq> {}" if "3 < card (dom ?m)"
    proof
      assume "dom (?m(key := None)) = {}"
      then have "dom ?m \<subseteq> {key}" by (auto split: if_splits)
      then have "card (dom ?m) \<le> card {key}" by (intro card_mono) auto
      with that show False by simp
    qed
    show ?thesis
    proof (cases p)
      case (Values vals)
      with p have b: "vals = bucket ?m" "card (dom ?m) \<le> 3" by (simp_all add: ptr_rep_Values)
      show ?thesis
      proof (cases "m key")
        case None
        then have "rm_value (Suc fuel) s bw (hash key) (l * bw) key n = (Inr None, n)"
          using at Values fin by (simp add: nx b position_bucket)
        from remove_spec_None [where m = m and hash = hash and key = key, OF None this] rep show ?thesis by (simp add: d)
      next
        case (Some v)
        let ?n = "if card (dom ?m) = 1 then rm_child n i ?i else set_child n i (Values (bucket (?m(key := None))))"
        have key: "key \<in> dom ?m" using Some by (simp add: domIff)
        have "rm_value (Suc fuel) s bw (hash key) (l * bw) key n = (Inr (Some (key, v)), ?n)"
          using at Values fin Some by (simp add: nx b position_bucket nth_bucket bucket_remove del: fun_upd_apply)
        moreover have "node_rep hash bw s (Suc d') l ?n (m(key := None))"
        proof (cases "card (dom ?m) = 1")
          case True
          with key have "dom ?m = {key}" by (metis card_1_singletonE singletonD)
          with rm True show ?thesis by simp
        next
          case False
          have dom: "dom (?m(key := None)) = dom ?m - {key}" by (simp only: dom_fun_upd refl if_True)
          have "card (dom (?m(key := None))) = card (dom ?m) - 1" unfolding dom using key fin by simp
          moreover have "dom (?m(key := None)) \<noteq> {}"
          proof
            assume "dom (?m(key := None)) = {}"
            then have "dom ?m = {key}" using key unfolding dom by blast
            with False show False by simp
          qed
          ultimately have "node_rep hash bw s (Suc d') l (set_child n i (Values (bucket (?m(key := None))))) (m(key := None))"
            using b(2) by (intro upd) (simp_all add: ptr_rep_Values del: dom_fun_upd fun_upd_apply)
          with False show ?thesis by simp
        qed
        ultimately show ?thesis unfolding d by (rule remove_spec_Some [where m = m and hash = hash and key = key, OF Some])
      qed
    next
      case (HLink c cache)
      with p obtain child where child: "child_load s c cache = Inr child" "?R child ?m" "3 < card (dom ?m)"
        and cached: "\<And>n. ?R n ?m \<Longrightarrow> node_ser n = node_ser child \<Longrightarrow> ptr_rep ?R s (HLink c (Some n)) ?m"
        by (auto elim: ptr_rep_load)
      show ?thesis
      proof (cases "m key")
        case None
        then have "?m key = None" by simp
        from IH [OF child(2)] this obtain r n' where
          n': "rm_value fuel s bw (hash key) (Suc l * bw) key child = (r, n')"
          "r = Inr None \<or> r = Inl (HPanic ''clean is only called on dirty pointer'')"
          "?R n' ?m" "node_ser n' = node_ser child" by (rule remove_specE_None)
        have same: "m(key := None) = m" "?m(key := None) = ?m" using None by auto
        let ?p = "HLink c (Some n')"
        have "node_rep hash bw s (Suc d') l (set_child n i ?p) m"
          using upd [of ?p] cached [OF n'(3,4)] big child(3) unfolding same by blast
        moreover have "node_ser (set_child n i ?p) = node_ser n"
          using at HLink by (intro set_child_ser) auto
        moreover have "rm_value (Suc fuel) s bw (hash key) (l * bw) key n =
            (Inl (HPanic ''clean is only called on dirty pointer''), set_child n i ?p)"
          using at HLink child(1) n'(1,2) by (auto simp: nx hamt_clean_def)
        ultimately show ?thesis unfolding d by (intro remove_spec_None [where m = m and hash = hash and key = key, OF None]) blast+
      next
        case (Some v)
        then have "?m key = Some v" by simp
        from IH [OF child(2)] this obtain n' where
          n': "rm_value fuel s bw (hash key) (Suc l * bw) key child = (Inr (Some (key, v)), n')" "?R n' (?m(key := None))"
          by (rule remove_specE_Some)
        obtain q where q: "hamt_clean (HDirty n') = (Inr (), q)" "ptr_rep ?R s q (?m(key := None))"
          using clean_rep [OF n'(2)] big child(3) by blast
        have "rm_value (Suc fuel) s bw (hash key) (l * bw) key n = (Inr (Some (key, v)), set_child n i q)"
          using at HLink child(1) n'(1) q(1) by (simp add: nx)
        from remove_spec_Some [where m = m and hash = hash and key = key, OF Some this] upd [OF q(2)] big child(3) show ?thesis unfolding d by blast
      qed
    next
      case (HDirty child)
      with p have child: "?R child ?m" "3 < card (dom ?m)" by (simp_all add: ptr_rep_Dirty)
      show ?thesis
      proof (cases "m key")
        case None
        then have "?m key = None" by simp
        from IH [OF child(1)] this obtain r n' where
          n': "rm_value fuel s bw (hash key) (Suc l * bw) key child = (r, n')"
          "r = Inr None \<or> r = Inl (HPanic ''clean is only called on dirty pointer'')"
          "?R n' ?m" by (rule remove_specE_None)
        have same: "m(key := None) = m" "?m(key := None) = ?m" using None by auto
        have cl: "hamt_clean (HDirty n') = (Inr (), HDirty n')"
          using clean_rep [OF n'(3)] child(2) by (metis card.empty less_nat_zero_code)
        have "node_rep hash bw s (Suc d') l (set_child n i (HDirty n')) m"
          using upd [of "HDirty n'"] n'(3) big child(2) unfolding same ptr_rep_Dirty by blast
        moreover have "node_ser (set_child n i (HDirty n')) = node_ser n"
          using at HDirty by (intro set_child_ser) auto
        moreover have "rm_value (Suc fuel) s bw (hash key) (l * bw) key n = (r, set_child n i (HDirty n'))"
          using at HDirty n'(1,2) cl by (auto simp: nx)
        ultimately show ?thesis using n'(2) unfolding d by (intro remove_spec_None [where m = m and hash = hash and key = key, OF None]) blast+
      next
        case (Some v)
        then have "?m key = Some v" by simp
        from IH [OF child(1)] this obtain n' where
          n': "rm_value fuel s bw (hash key) (Suc l * bw) key child = (Inr (Some (key, v)), n')" "?R n' (?m(key := None))"
          by (rule remove_specE_Some)
        obtain q where q: "hamt_clean (HDirty n') = (Inr (), q)" "ptr_rep ?R s q (?m(key := None))"
          using clean_rep [OF n'(2)] big child(2) by blast
        have "rm_value (Suc fuel) s bw (hash key) (l * bw) key n = (Inr (Some (key, v)), set_child n i q)"
          using at HDirty n'(1) q(1) by (simp add: nx)
        from remove_spec_Some [where m = m and hash = hash and key = key, OF Some this] upd [OF q(2)] big child(2) show ?thesis unfolding d by blast
      qed
    qed
  qed
qed simp

section \<open>Storing\<close>

lemma ptr_rep_mono:
  assumes "s \<subseteq>\<^sub>m s'" "\<And>n. R n m \<Longrightarrow> R' n m" "ptr_rep R s p m"
  shows "ptr_rep R' s' p m"
proof -
  have "s' c = Some blk" if "s c = Some blk" for c blk
    using assms(1) that by (metis domI map_le_def)
  with assms(2,3) show ?thesis
    by (auto simp: ptr_rep_def split: pointer.splits if_splits)
qed

lemma node_rep_mono: "s \<subseteq>\<^sub>m s' \<Longrightarrow> node_rep hash bw s d l n m \<Longrightarrow> node_rep hash bw s' d l n m"
proof (induction d arbitrary: l n m)
  case (Suc d)
  from Suc.prems(2) show ?case
  proof (rule node_rep_SucE)
    fix b f
    let ?A = "slot_of hash bw l ` dom m"
    assume n: "n = HNode b (map f (sorted_list_of_set ?A))" "finite (dom m)" "length b = 4" "hbf_slots b = ?A"
      and f: "\<And>i. i \<in> ?A \<Longrightarrow> ptr_rep (node_rep hash bw s d (Suc l)) s (f i) (in_slot hash bw l i m)"
    show ?thesis unfolding n(1)
      by (rule node_repI [OF refl n(2-4)], rule ptr_rep_mono [OF Suc.prems(1) Suc.IH [OF Suc.prems(1)] f])
  qed
qed simp

lemma list_all2_map_fun:
  "list_all2 P ps xs \<Longrightarrow> distinct xs \<Longrightarrow> \<exists>f. ps = map f xs \<and> (\<forall>x\<in>set xs. P (f x) x)"
proof (induction rule: list_all2_induct)
  case (Cons p ps x xs)
  then obtain f where f: "ps = map f xs" "\<forall>x\<in>set xs. P (f x) x" by auto
  with Cons show ?case by (intro exI [of _ "f(x := p)"]) auto
qed simp

lemma node_rep_list:
  "node_rep hash bw s (Suc d) l (HNode b ps) m \<longleftrightarrow>
    finite (dom m) \<and> length b = 4 \<and> hbf_slots b = slot_of hash bw l ` dom m \<and>
    list_all2 (\<lambda>p i. ptr_rep (node_rep hash bw s d (Suc l)) s p (in_slot hash bw l i m)) ps
      (sorted_list_of_set (slot_of hash bw l ` dom m))"
proof -
  let ?xs = "sorted_list_of_set (slot_of hash bw l ` dom m)"
  have eq: "(\<exists>f. ps = map f ?xs \<and> (\<forall>i \<in> slot_of hash bw l ` dom m. P (f i) i)) \<longleftrightarrow> list_all2 P ps ?xs"
    if "finite (dom m)" for P
  proof
    assume "\<exists>f. ps = map f ?xs \<and> (\<forall>i \<in> slot_of hash bw l ` dom m. P (f i) i)"
    then obtain f where "ps = map f ?xs" "\<forall>i \<in> slot_of hash bw l ` dom m. P (f i) i" by blast
    then show "list_all2 P ps ?xs" using that by (simp add: list.rel_map) (rule list.rel_refl_strong, auto)
  next
    assume "list_all2 P ps ?xs"
    from list_all2_map_fun [OF this] that show "\<exists>f. ps = map f ?xs \<and> (\<forall>i \<in> slot_of hash bw l ` dom m. P (f i) i)" by simp
  qed
  show ?thesis unfolding node_rep.simps hamt_node.sel by (intro conj_cong refl) (rule eq)
qed

text \<open>A stored trie: \<open>flush\<close> succeeds, keeps what the trie stands for, and leaves no modified child.\<close>

definition flush_spec ::
  "('k :: linorder \<Rightarrow> hashed_key) \<Rightarrow> nat \<Rightarrow> (('k, 'v, 'c) hamt_block \<Rightarrow> 'c) \<Rightarrow> ('k, 'v, 'c) hamt_store \<Rightarrow> nat \<Rightarrow> nat \<Rightarrow>
   ('k, 'v, 'c) hamt_node \<Rightarrow> ('k \<rightharpoonup> 'v) \<Rightarrow> bool" where
  "flush_spec hash bw cid_of s d l n m \<longleftrightarrow>
    (\<exists>n' s' blk. hnode_flush cid_of n s = (Inr (), n', s') \<and> s \<subseteq>\<^sub>m s' \<and> store_ok cid_of s' \<and>
      node_rep hash bw s' d l n' m \<and> node_ser n' = Inr blk)"

lemma node_rep_reload:
  assumes "node_rep hash bw s d l n m" "node_ser n = Inr blk"
  shows "node_rep hash bw s d l (node_de blk) m"
proof (cases d)
  case (Suc d')
  obtain b ps where n: "n = HNode b ps" by (cases n)
  with assms(2) obtain qs where qs: "pointers_ser ps = Inr qs" and blk: "blk = HBlock b qs"
    by (auto simp: res_simps)
  have "list_all2 (\<lambda>q i. ptr_rep R s (pointer_de q) (g i)) qs xs" if "list_all2 (\<lambda>p i. ptr_rep R s p (g i)) ps xs" for R g and xs :: "nat list"
    using that qs
  proof (induction arbitrary: qs rule: list_all2_induct)
    case (Cons p ps x xs)
    then obtain q qs' where q: "pointer_ser p = Inr q" "pointers_ser ps = Inr qs'" "qs = q # qs'"
      by (auto simp: res_simps)
    have "ptr_rep R s (pointer_de q) (g x)"
      using Cons.hyps(1) q(1) by (cases p) (auto simp: ptr_rep_def split: if_splits)
    with Cons.IH [OF q(2)] q(3) show ?case by simp
  qed simp
  with assms(1) show ?thesis unfolding n blk Suc node_de.simps node_rep_list by (auto simp: list.rel_map)
qed (use assms in simp)

lemma flush_pointers_correct:
  assumes inj: "inj cid_of"
    and IH: "\<And>s n m. node_rep hash bw s d l n m \<Longrightarrow> store_ok cid_of s \<Longrightarrow> flush_spec hash bw cid_of s d l n m"
  shows "list_all2 (\<lambda>p i. ptr_rep (node_rep hash bw s d l) s p (g i)) ps xs \<Longrightarrow> store_ok cid_of s \<Longrightarrow>
    \<exists>ps' s' qs. flush_pointers cid_of ps s = (Inr (), ps', s') \<and> s \<subseteq>\<^sub>m s' \<and> store_ok cid_of s' \<and>
      list_all2 (\<lambda>p i. ptr_rep (node_rep hash bw s' d l) s' p (g i)) ps' xs \<and> pointers_ser ps' = Inr qs"
proof (induction ps arbitrary: s xs)
  case (Cons p ps)
  then obtain x xs' where xs: "xs = x # xs'" and p: "ptr_rep (node_rep hash bw s d l) s p (g x)"
    and ps: "list_all2 (\<lambda>p i. ptr_rep (node_rep hash bw s d l) s p (g i)) ps xs'"
    by (cases xs) auto
  have lift: "list_all2 (\<lambda>p i. ptr_rep (node_rep hash bw s2 d l) s2 p (g i)) ps xs'" if "s \<subseteq>\<^sub>m s2" for s2
    using ps by (rule list_all2_mono) (rule ptr_rep_mono [OF that], rule node_rep_mono [OF that])
  have rest: "\<exists>ps' s' qs. flush_pointers cid_of ps s2 = (Inr (), ps', s') \<and> s2 \<subseteq>\<^sub>m s' \<and> store_ok cid_of s' \<and>
      list_all2 (\<lambda>p i. ptr_rep (node_rep hash bw s' d l) s' p (g i)) ps' xs' \<and> pointers_ser ps' = Inr qs"
    if "s \<subseteq>\<^sub>m s2" "store_ok cid_of s2" for s2
    using Cons.IH [OF lift [OF that(1)] that(2)] .
  show ?case
  proof (cases p)
    case (HDirty n)
    with p have n: "3 < card (dom (g x))" "node_rep hash bw s d l n (g x)" by (simp_all add: ptr_rep_Dirty)
    from IH [OF n(2) Cons.prems(2)] obtain n' s1 blk where
      n': "hnode_flush cid_of n s = (Inr (), n', s1)" "s \<subseteq>\<^sub>m s1" "store_ok cid_of s1"
      "node_rep hash bw s1 d l n' (g x)" "node_ser n' = Inr blk" by (auto simp: flush_spec_def)
    obtain c s2 where put: "bs_put cid_of blk s1 = (c, s2)" by fastforce
    note put' = bs_put_ok [OF put n'(3)] bs_put_mono [OF put n'(3) inj]
    have s2: "s \<subseteq>\<^sub>m s2" using n'(2) put'(4) by (rule map_le_trans)
    from rest [OF s2 put'(1)] obtain ps' s3 qs where
      ps': "flush_pointers cid_of ps s2 = (Inr (), ps', s3)" "s2 \<subseteq>\<^sub>m s3" "store_ok cid_of s3"
      "list_all2 (\<lambda>p i. ptr_rep (node_rep hash bw s3 d l) s3 p (g i)) ps' xs'" "pointers_ser ps' = Inr qs" by blast
    have s13: "s1 \<subseteq>\<^sub>m s3" using put'(4) ps'(2) by (rule map_le_trans)
    have "s3 c = Some blk" using put'(3) ps'(2) by (metis domI map_le_def)
    moreover note node_rep_mono [OF s13 n'(4)]
    ultimately have "ptr_rep (node_rep hash bw s3 d l) s3 (HLink c (Some n')) (g x)"
      using n(1) n'(5) node_rep_reload by (auto simp: ptr_rep_def MAX_ARRAY_WIDTH_def)
    moreover have "s \<subseteq>\<^sub>m s3" using s2 ps'(2) by (rule map_le_trans)
    ultimately show ?thesis using HDirty xs n'(1,5) put ps' by (simp add: res_simps)
  next
    case (Values vals)
    from rest [OF map_le_refl Cons.prems(2)] obtain ps' s3 qs where
      ps': "flush_pointers cid_of ps s = (Inr (), ps', s3)" "s \<subseteq>\<^sub>m s3" "store_ok cid_of s3"
      "list_all2 (\<lambda>p i. ptr_rep (node_rep hash bw s3 d l) s3 p (g i)) ps' xs'" "pointers_ser ps' = Inr qs" by blast
    moreover have "ptr_rep (node_rep hash bw s3 d l) s3 p (g x)"
      by (rule ptr_rep_mono [OF ps'(2) _ p]) (rule node_rep_mono [OF ps'(2)])
    ultimately show ?thesis using Values xs by (simp add: res_simps)
  next
    case (HLink c cache)
    from rest [OF map_le_refl Cons.prems(2)] obtain ps' s3 qs where
      ps': "flush_pointers cid_of ps s = (Inr (), ps', s3)" "s \<subseteq>\<^sub>m s3" "store_ok cid_of s3"
      "list_all2 (\<lambda>p i. ptr_rep (node_rep hash bw s3 d l) s3 p (g i)) ps' xs'" "pointers_ser ps' = Inr qs" by blast
    moreover have "ptr_rep (node_rep hash bw s3 d l) s3 p (g x)"
      by (rule ptr_rep_mono [OF ps'(2) _ p]) (rule node_rep_mono [OF ps'(2)])
    ultimately show ?thesis using HLink xs by (simp add: res_simps)
  qed
qed auto

lemma hnode_flush_correct:
  "inj cid_of \<Longrightarrow> node_rep hash bw s d l n m \<Longrightarrow> store_ok cid_of s \<Longrightarrow> flush_spec hash bw cid_of s d l n m"
proof (induction d arbitrary: s l n m)
  case (Suc d)
  obtain b ps where n: "n = HNode b ps" by (cases n)
  with Suc.prems(2) have rep: "finite (dom m)" "length b = 4" "hbf_slots b = slot_of hash bw l ` dom m"
    "list_all2 (\<lambda>p i. ptr_rep (node_rep hash bw s d (Suc l)) s p (in_slot hash bw l i m)) ps
      (sorted_list_of_set (slot_of hash bw l ` dom m))"
    by (simp_all add: node_rep_list)
  from flush_pointers_correct [OF Suc.prems(1) Suc.IH [OF Suc.prems(1)] rep(4) Suc.prems(3)]
  obtain ps' s' qs where "flush_pointers cid_of ps s = (Inr (), ps', s')" "s \<subseteq>\<^sub>m s'" "store_ok cid_of s'"
    "list_all2 (\<lambda>p i. ptr_rep (node_rep hash bw s' d (Suc l)) s' p (in_slot hash bw l i m)) ps'
      (sorted_list_of_set (slot_of hash bw l ` dom m))" "pointers_ser ps' = Inr qs" by blast
  with rep show ?case unfolding flush_spec_def n by (simp add: node_rep_list)
qed simp

section \<open>The canonical form is unique\<close>

lemma ptr_rep_unique:
  assumes "ptr_rep R1 s1 p1 m" "ptr_rep R2 s2 p2 m" "pointer_ser p1 = Inr q1" "pointer_ser p2 = Inr q2"
    "store_ok cid_of s1" "store_ok cid_of s2"
    "\<And>n1 n2 b1 b2. R1 n1 m \<Longrightarrow> R2 n2 m \<Longrightarrow> node_ser n1 = Inr b1 \<Longrightarrow> node_ser n2 = Inr b2 \<Longrightarrow> b1 = b2"
  shows "q1 = q2"
proof (cases "card (dom m) \<le> MAX_ARRAY_WIDTH")
  case False
  with assms(1-4) obtain c1 c2 b1 b2 where c: "q1 = PLink c1" "q2 = PLink c2" "s1 c1 = Some b1" "s2 c2 = Some b2"
    "R1 (node_de b1) m" "R2 (node_de b2) m"
    by (auto simp: ptr_rep_def split: pointer.splits)
  from assms(7) [OF c(5,6)] have "b1 = b2" by simp
  with c assms(5,6) show ?thesis by (metis store_okD)
qed (use assms in \<open>auto simp: ptr_rep_def\<close>)

lemma pointers_ser_unique:
  "list_all2 A ps1 xs \<Longrightarrow> list_all2 B ps2 xs \<Longrightarrow> pointers_ser ps1 = Inr qs1 \<Longrightarrow> pointers_ser ps2 = Inr qs2 \<Longrightarrow>
   (\<And>p1 p2 x q1 q2. A p1 x \<Longrightarrow> B p2 x \<Longrightarrow> pointer_ser p1 = Inr q1 \<Longrightarrow> pointer_ser p2 = Inr q2 \<Longrightarrow> q1 = q2) \<Longrightarrow> qs1 = qs2"
proof (induction xs arbitrary: ps1 ps2 qs1 qs2)
  case (Cons x xs)
  then obtain p1 ps1' p2 ps2' where ps: "ps1 = p1 # ps1'" "A p1 x" "list_all2 A ps1' xs"
    "ps2 = p2 # ps2'" "B p2 x" "list_all2 B ps2' xs" by (auto simp: list_all2_Cons2)
  with Cons.prems(3,4) obtain q1 qs1' q2 qs2' where q: "qs1 = q1 # qs1'" "qs2 = q2 # qs2'"
    "pointer_ser p1 = Inr q1" "pointer_ser p2 = Inr q2" "pointers_ser ps1' = Inr qs1'" "pointers_ser ps2' = Inr qs2'"
    by (auto simp: res_simps)
  from Cons.prems(5) [OF ps(2,5) q(3,4)] Cons.IH [OF ps(3,6) q(5,6)] Cons.prems(5) show ?case unfolding q by blast
qed simp

lemma node_rep_unique:
  assumes "store_ok cid_of s1" "store_ok cid_of s2"
  shows "node_rep hash bw s1 d l n1 m \<Longrightarrow> node_rep hash bw s2 d l n2 m \<Longrightarrow>
    node_ser n1 = Inr b1 \<Longrightarrow> node_ser n2 = Inr b2 \<Longrightarrow> b1 = b2"
proof (induction d arbitrary: l n1 n2 m b1 b2)
  case (Suc d)
  obtain f1 ps1 f2 ps2 where n: "n1 = HNode f1 ps1" "n2 = HNode f2 ps2" by (metis hamt_node.exhaust)
  obtain qs1 qs2 where b: "pointers_ser ps1 = Inr qs1" "b1 = HBlock f1 qs1" "pointers_ser ps2 = Inr qs2" "b2 = HBlock f2 qs2"
    using Suc.prems(3,4) by (auto simp: n res_simps)
  note rep = Suc.prems(1,2) [unfolded n node_rep_list]
  note ptrs = rep(1) [THEN conjunct2, THEN conjunct2, THEN conjunct2] rep(2) [THEN conjunct2, THEN conjunct2, THEN conjunct2]
  have "qs1 = qs2"
  proof (rule pointers_ser_unique [OF ptrs b(1,3)])
    fix p1 p2 i q1 q2
    assume "ptr_rep (node_rep hash bw s1 d (Suc l)) s1 p1 (in_slot hash bw l i m)"
      "ptr_rep (node_rep hash bw s2 d (Suc l)) s2 p2 (in_slot hash bw l i m)" "pointer_ser p1 = Inr q1" "pointer_ser p2 = Inr q2"
    from ptr_rep_unique [OF this assms] Suc.IH show "q1 = q2" by blast
  qed
  moreover have "f1 = f2" using rep hbf_slots_inject [of f1 f2] by simp
  ultimately show ?case using rep b by blast
qed simp

lemma node_rep_map_unique:
  assumes "hash_ok hash bw" "node_rep hash bw s (levels bw) 0 n m1" "node_rep hash bw s (levels bw) 0 n m2"
  shows "m1 = m2"
proof
  fix k
  from get_value_correct [OF assms(1,2), of "levels bw" k] get_value_correct [OF assms(1,3), of "levels bw" k]
  have "map_option (Pair k) (m1 k) = map_option (Pair k) (m2 k)" by auto
  then show "m1 k = m2 k" by (cases "m1 k"; cases "m2 k") auto
qed

text \<open>Two stores that keep every block under its identifier have a common extension.\<close>

lemma store_ok_union:
  assumes "inj cid_of" "store_ok cid_of s1" "store_ok cid_of s2"
  shows "s1 \<subseteq>\<^sub>m s1 ++ s2" "s2 \<subseteq>\<^sub>m s1 ++ s2"
proof -
  show "s1 \<subseteq>\<^sub>m s1 ++ s2"
    unfolding map_le_def
  proof
    fix c assume "c \<in> dom s1"
    then obtain b where b: "s1 c = Some b" by blast
    show "s1 c = (s1 ++ s2) c"
    proof (cases "s2 c")
      case (Some b')
      with b assms(2,3) have "cid_of b = cid_of b'" by (metis store_okD)
      with assms(1) b Some show ?thesis by (simp add: inj_eq)
    qed (simp add: map_add_def)
  qed
qed simp

section \<open>Iteration\<close>

lemma each_kv_append:
  "each_kv f (xs @ ys) a = (case each_kv f xs a of (Inl e, a') \<Rightarrow> (Inl e, a') | (Inr _, a') \<Rightarrow> each_kv f ys a')"
  by (induction f xs a rule: each_kv.induct) (auto split: prod.splits sum.splits)

definition lists_entries :: "('k \<times> 'v) list \<Rightarrow> ('k \<rightharpoonup> 'v) \<Rightarrow> bool" where
  "lists_entries kvs m \<longleftrightarrow> set kvs = {(k, v). m k = Some v} \<and> distinct (map fst kvs)"

text \<open>A step of the loop over the pointers goes over the entries \<open>kvs\<close> and keeps the property \<open>P\<close>.\<close>

definition iterates ::
  "(('k \<Rightarrow> 'v \<Rightarrow> 'a \<Rightarrow> ('e, unit) res \<times> 'a) \<Rightarrow> 'n \<Rightarrow> 'a \<Rightarrow> ('e, unit) res \<times> 'n \<times> 'a) \<Rightarrow> 'n \<Rightarrow> ('k \<times> 'v) list \<Rightarrow> ('n \<Rightarrow> bool) \<Rightarrow> bool" where
  "iterates step n kvs P \<longleftrightarrow> (\<forall>f a. \<exists>n'. step f n a = (fst (each_kv f kvs a), n', snd (each_kv f kvs a)) \<and> P n')"

lemma each_pointer_iterates:
  "list_all2 (\<lambda>p x. P x p \<and> (\<exists>kvs. lists_entries kvs (g x) \<and> iterates step p kvs (P x))) ps xs \<Longrightarrow> distinct xs \<Longrightarrow>
   \<forall>x\<in>set xs. \<forall>y\<in>set xs. x \<noteq> y \<longrightarrow> dom (g x) \<inter> dom (g y) = {} \<Longrightarrow>
   \<exists>kvs. set kvs = (\<Union>x\<in>set xs. {(k, v). g x k = Some v}) \<and> distinct (map fst kvs) \<and>
     iterates (\<lambda>f. each_pointer (step f)) ps kvs (\<lambda>ps'. list_all2 (\<lambda>p x. P x p) ps' xs)"
proof (induction ps arbitrary: xs)
  case Nil
  then show ?case by (auto simp: iterates_def intro!: exI [of _ "[]"])
next
  case (Cons p ps)
  then obtain x xs' where xs: "xs = x # xs'" and p: "P x p"
    and ps: "list_all2 (\<lambda>p x. P x p \<and> (\<exists>kvs. lists_entries kvs (g x) \<and> iterates step p kvs (P x))) ps xs'"
    and "\<exists>kvs. lists_entries kvs (g x) \<and> iterates step p kvs (P x)"
    by (auto simp: list_all2_Cons1)
  then obtain kvs1 where k1: "lists_entries kvs1 (g x)" "iterates step p kvs1 (P x)" by blast
  from Cons.IH [OF ps] Cons.prems(2,3) obtain kvs2 where
    k2: "set kvs2 = (\<Union>x\<in>set xs'. {(k, v). g x k = Some v})" "distinct (map fst kvs2)"
    "iterates (\<lambda>f. each_pointer (step f)) ps kvs2 (\<lambda>ps'. list_all2 (\<lambda>p x. P x p) ps' xs')"
    unfolding xs by (metis distinct.simps(2) list.set_intros(2))
  have "fst ` set kvs1 \<inter> fst ` set kvs2 = {}"
  proof -
    have "dom (g x) \<inter> dom (g y) = {}" if "y \<in> set xs'" for y
      using Cons.prems(2,3) that unfolding xs by fastforce
    moreover have "fst ` set kvs1 = dom (g x)" using k1(1) by (force simp: lists_entries_def dom_def)
    moreover have "fst ` set kvs2 = (\<Union>y\<in>set xs'. dom (g y))" unfolding k2(1) by (force simp: dom_def)
    ultimately show ?thesis by blast
  qed
  then have "distinct (map fst (kvs1 @ kvs2))" using k1(1) k2(2) by (simp add: lists_entries_def)
  moreover have "set (kvs1 @ kvs2) = (\<Union>x\<in>set xs. {(k, v). g x k = Some v})"
    using k1(1) k2(1) by (simp add: xs lists_entries_def)
  moreover have "iterates (\<lambda>f. each_pointer (step f)) (p # ps) (kvs1 @ kvs2) (\<lambda>ps'. list_all2 (\<lambda>p x. P x p) ps' xs)"
    unfolding iterates_def
  proof (intro allI)
    fix f a
    obtain p' where p': "step f p a = (fst (each_kv f kvs1 a), p', snd (each_kv f kvs1 a))" "P x p'"
      using k1(2) unfolding iterates_def by blast
    obtain ps' where ps': "each_pointer (step f) ps (snd (each_kv f kvs1 a)) =
        (fst (each_kv f kvs2 (snd (each_kv f kvs1 a))), ps', snd (each_kv f kvs2 (snd (each_kv f kvs1 a))))"
      "list_all2 (\<lambda>p x. P x p) ps' xs'"
      using k2(3) unfolding iterates_def by blast
    have rest: "list_all2 (\<lambda>p x. P x p) ps xs'" using ps by (rule list_all2_mono) simp
    show "\<exists>n'. each_pointer (step f) (p # ps) a =
        (fst (each_kv f (kvs1 @ kvs2) a), n', snd (each_kv f (kvs1 @ kvs2) a)) \<and> list_all2 (\<lambda>p x. P x p) n' xs"
    proof (cases "each_kv f kvs1 a")
      case (Pair r a')
      then show ?thesis using p' ps' rest
        by (cases r) (auto simp: each_kv_append xs)
    qed
  qed
  ultimately show ?case by blast
qed

type_synonym ('k, 'v, 'c, 'a) each_fn = "'k \<Rightarrow> 'v \<Rightarrow> 'a \<Rightarrow> ('c hamt_error, unit) res \<times> 'a"

lemma pointers_ser_cong: "map pointer_ser ps = map pointer_ser qs \<Longrightarrow> pointers_ser ps = pointers_ser qs"
proof (induction ps arbitrary: qs)
  case (Cons p ps)
  then obtain q qs' where "qs = q # qs'" by (cases qs) auto
  with Cons.IH [of qs'] Cons.prems show ?case by simp
qed simp

lemma hnode_for_each_correct:
  "node_rep hash bw (s :: ('k :: linorder, 'v, 'c) hamt_store) d l n m \<Longrightarrow> d \<le> fuel \<Longrightarrow>
   \<exists>kvs. lists_entries kvs m \<and>
     iterates (\<lambda>f :: ('k, 'v, 'c, 'a) each_fn. hnode_for_each fuel s f) n kvs (\<lambda>n'. node_rep hash bw s d l n' m \<and> node_ser n' = node_ser n)"
proof (induction fuel arbitrary: d l n m)
  case (Suc fuel)
  obtain d' where d: "d = Suc d'" using Suc.prems(1) by (cases d) auto
  obtain b ps where n: "n = HNode b ps" by (cases n)
  note rep = Suc.prems(1) [unfolded n d node_rep_list]
  let ?A = "slot_of hash bw l ` dom m" and ?R = "node_rep hash bw s d' (Suc l)"
  let ?g = "\<lambda>i. in_slot hash bw l i m"
  let ?step = "\<lambda>(f :: ('k, 'v, 'c, 'a) each_fn) p a.
         case p of
           HLink c cache \<Rightarrow>
             (case child_load s c cache of
                Inl e \<Rightarrow> (Inl e, p, a)
              | Inr child \<Rightarrow>
                  let (r, child', a') = hnode_for_each fuel s f child a in (r, HLink c (Some child'), a'))
         | HDirty child \<Rightarrow> let (r, child', a') = hnode_for_each fuel s f child a in (r, HDirty child', a')
         | Values kvs \<Rightarrow> let (r, a') = each_kv f kvs a in (r, p, a')"
  let ?P = "\<lambda>q i p. ptr_rep ?R s p (?g i) \<and> pointer_ser p = q"
  have step: "\<exists>kvs. lists_entries kvs (?g i) \<and> iterates ?step p kvs (?P (pointer_ser p) i)" if p: "ptr_rep ?R s p (?g i)" for p i
  proof (cases p)
    case (Values vals)
    then have "vals = bucket (?g i)" using p by (simp add: ptr_rep_Values)
    moreover have "lists_entries (bucket (?g i)) (?g i)"
      using rep set_bucket [of "?g i"] by (simp add: lists_entries_def bucket_def comp_def)
    ultimately show ?thesis
      using Values p by (intro exI [of _ vals]) (auto simp: iterates_def split: prod.splits)
  next
    case (HLink c cache)
    with p obtain child where child: "child_load s c cache = Inr child" "?R child (?g i)"
      and cached: "\<And>n. ?R n (?g i) \<Longrightarrow> node_ser n = node_ser child \<Longrightarrow> ptr_rep ?R s (HLink c (Some n)) (?g i)"
      by (auto elim: ptr_rep_load)
    from Suc.IH [OF child(2)] Suc.prems(2) obtain kvs where kvs: "lists_entries kvs (?g i)"
      "iterates (\<lambda>f :: ('k, 'v, 'c, 'a) each_fn. hnode_for_each fuel s f) child kvs (\<lambda>n'. ?R n' (?g i) \<and> node_ser n' = node_ser child)"
      by (auto simp: d simp del: in_slot_apply)
    have "iterates ?step p kvs (?P (pointer_ser p) i)" unfolding iterates_def
    proof (intro allI)
      fix f :: "('k, 'v, 'c, 'a) each_fn" and a
      from kvs(2) [unfolded iterates_def, rule_format, of f a] obtain n' where
        "hnode_for_each fuel s f child a = (fst (each_kv f kvs a), n', snd (each_kv f kvs a))"
        "?R n' (?g i)" "node_ser n' = node_ser child" by blast
      with cached child(1) HLink show "\<exists>n'. ?step f p a = (fst (each_kv f kvs a), n', snd (each_kv f kvs a)) \<and> ?P (pointer_ser p) i n'"
        by simp
    qed
    with kvs(1) show ?thesis by blast
  next
    case (HDirty child)
    with p have child: "?R child (?g i)" "3 < card (dom (?g i))" by (simp_all add: ptr_rep_Dirty)
    from Suc.IH [OF child(1)] Suc.prems(2) obtain kvs where kvs: "lists_entries kvs (?g i)"
      "iterates (\<lambda>f :: ('k, 'v, 'c, 'a) each_fn. hnode_for_each fuel s f) child kvs (\<lambda>n'. ?R n' (?g i) \<and> node_ser n' = node_ser child)"
      by (auto simp: d simp del: in_slot_apply)
    have "iterates ?step p kvs (?P (pointer_ser p) i)" unfolding iterates_def
    proof (intro allI)
      fix f :: "('k, 'v, 'c, 'a) each_fn" and a
      from kvs(2) [unfolded iterates_def, rule_format, of f a] obtain n' where
        "hnode_for_each fuel s f child a = (fst (each_kv f kvs a), n', snd (each_kv f kvs a))"
        "?R n' (?g i)" by blast
      with child(2) HDirty show "\<exists>n'. ?step f p a = (fst (each_kv f kvs a), n', snd (each_kv f kvs a)) \<and> ?P (pointer_ser p) i n'"
        by (simp add: ptr_rep_Dirty)
    qed
    with kvs(1) show ?thesis by blast
  qed
  let ?zs = "zip (sorted_list_of_set ?A) (map pointer_ser ps)"
  have "list_all2 (\<lambda>p x. ?P (pointer_ser p) x p \<and> (\<exists>kvs. lists_entries kvs (?g x) \<and> iterates ?step p kvs (?P (pointer_ser p) x)))
      ps (sorted_list_of_set ?A)"
    using rep [THEN conjunct2, THEN conjunct2, THEN conjunct2] by (rule list_all2_mono) (auto intro: step simp del: in_slot_apply)
  then have zs: "list_all2 (\<lambda>p y. ?P (snd y) (fst y) p \<and> (\<exists>kvs. lists_entries kvs (?g (fst y)) \<and> iterates ?step p kvs (?P (snd y) (fst y))))
      ps ?zs"
    by (simp add: list_all2_conv_all_nth del: in_slot_apply)
  have keys: "distinct (map fst ?zs)" by (simp add: map_fst_zip_take)
  then have dist: "distinct ?zs" by (simp add: distinct_map)
  have disj: "\<forall>x\<in>set ?zs. \<forall>y\<in>set ?zs. x \<noteq> y \<longrightarrow> dom (?g (fst x)) \<inter> dom (?g (fst y)) = {}"
  proof (intro ballI impI)
    fix x y assume "x \<in> set ?zs" "y \<in> set ?zs" "x \<noteq> y"
    then have "fst x \<noteq> fst y" using eq_key_imp_eq_value [OF keys, of "fst x" "snd x" "snd y"] by (cases x; cases y) auto
    then show "dom (?g (fst x)) \<inter> dom (?g (fst y)) = {}" by (auto simp: dom_in_slot)
  qed
  from each_pointer_iterates [where P = "\<lambda>x. ?P (snd x) (fst x)" and g = "\<lambda>x. ?g (fst x)" and step = ?step, OF zs dist disj]
  obtain kvs where kvs:
    "set kvs = (\<Union>x\<in>set ?zs. {(k, v). ?g (fst x) k = Some v})" "distinct (map fst kvs)"
    "iterates (\<lambda>f. each_pointer (?step f)) ps kvs
      (\<lambda>ps'. list_all2 (\<lambda>p x. ?P (snd x) (fst x) p) ps' ?zs)"
    by (elim exE conjE) rule
  have len: "length ps = card ?A"
    using rep [THEN conjunct2, THEN conjunct2, THEN conjunct2] by (auto dest: list_all2_lengthD)
  then have "map fst ?zs = sorted_list_of_set ?A" by simp
  then have "fst ` set ?zs = set (sorted_list_of_set ?A)" by (simp only: set_map [symmetric])
  then have slots: "fst ` set ?zs = ?A" using rep by (simp only: set_sorted_list_of_set finite_imageI)
  have "set kvs = (\<Union>i\<in>fst ` set ?zs. {(k, v). ?g i k = Some v})" unfolding kvs(1) by simp
  also have "\<dots> = {(k, v). m k = Some v}" unfolding slots by (auto split: if_splits)
  finally have "lists_entries kvs m" using kvs(2) by (simp add: lists_entries_def)
  moreover have "iterates (\<lambda>f :: ('k, 'v, 'c, 'a) each_fn. hnode_for_each (Suc fuel) s f) n kvs
    (\<lambda>n'. node_rep hash bw s d l n' m \<and> node_ser n' = node_ser n)" unfolding iterates_def
  proof (intro allI)
    fix f :: "('k, 'v, 'c, 'a) each_fn" and a
    from kvs(3) [unfolded iterates_def, rule_format, of f a] obtain ps' where
      ps': "each_pointer (?step f) ps a = (fst (each_kv f kvs a), ps', snd (each_kv f kvs a))"
      "list_all2 (\<lambda>p x. ?P (snd x) (fst x) p) ps' ?zs" by blast
    from ps'(2) have "list_all2 (\<lambda>p i. ptr_rep ?R s p (?g i)) ps' (sorted_list_of_set ?A)" "map pointer_ser ps' = map pointer_ser ps"
      using len by (auto simp: list_all2_conv_all_nth list_eq_iff_nth_eq simp del: in_slot_apply)
    moreover from pointers_ser_cong [OF this(2)] have "node_ser (HNode b ps') = node_ser n" by (simp add: n)
    ultimately show "\<exists>n'. hnode_for_each (Suc fuel) s f n a = (fst (each_kv f kvs a), n', snd (each_kv f kvs a)) \<and>
        node_rep hash bw s d l n' m \<and> node_ser n' = node_ser n"
      using rep ps'(1) unfolding d
      by (intro exI [of _ "HNode b ps'"]) (simp add: n node_rep_list del: in_slot_apply node_ser.simps)
  qed
  ultimately show ?case by blast
qed auto

section \<open>The map\<close>

text \<open>The trie \<open>h\<close> over the store \<open>s\<close> stands for the finite map \<open>m\<close>.\<close>

definition hamt_rep ::
  "('k :: linorder \<Rightarrow> hashed_key) \<Rightarrow> ('k, 'v, 'c) hamt_store \<Rightarrow> ('k, 'v, 'c) hamt \<Rightarrow> ('k \<rightharpoonup> 'v) \<Rightarrow> bool" where
  "hamt_rep hash s h m \<longleftrightarrow> node_rep hash (hbit_width h) s (levels (hbit_width h)) 0 (hroot h) m"

text \<open>The keys that a trie can tell apart: a hash of 32 bytes, an accepted bit width and a spread key set.\<close>

definition hamt_keys :: "('k \<Rightarrow> hashed_key) \<Rightarrow> nat \<Rightarrow> 'k set \<Rightarrow> bool" where
  "hamt_keys hash bw K \<longleftrightarrow> hash_ok hash bw \<and> spread hash bw K"

lemma levels_pos: "hash_ok hash bw \<Longrightarrow> \<exists>d. levels bw = Suc d"
  using div_le_mono2 [of bw 8 256] by (cases "levels bw") (auto simp: levels_def hash_ok_def div_eq_0_iff)

lemma hash_next_root: "hash_ok hash bw \<Longrightarrow> hash_next (hash k) 0 bw = Inr (slot_of hash bw 0 k, bw)"
  using hash_next_slot [of hash bw 0 k] levels_pos [of hash bw] by auto

lemma levels_fuel: "levels bw \<le> HAMT_LEVELS"
  using levels_le [of bw] by (simp add: HAMT_LEVELS_def)

lemma slots_agree_0: "slots_agree hash bw 0 S"
  by (simp add: slots_agree_def)

lemma hamt_new_rep: "hash_ok hash bw \<Longrightarrow> hamt_rep hash s (hamt_new_with_bit_width bw) Map.empty"
  using levels_pos [of hash bw] node_rep_empty [of hash bw s]
  by (auto simp: hamt_rep_def hamt_new_with_bit_width_def)

lemma hamt_get_correct:
  assumes "hash_ok hash (hbit_width h)" "hamt_rep hash s h m"
  shows "\<exists>h'. hamt_get hash s key h = (Inr (m key), h') \<and> hamt_contains_key hash s key h = (Inr (m key \<noteq> None), h') \<and>
    hamt_rep hash s h' m \<and> hbit_width h' = hbit_width h"
proof -
  from get_value_correct [OF assms(1) assms(2) [unfolded hamt_rep_def] _ levels_fuel, of key] obtain n' where
    "get_value HAMT_LEVELS s (hbit_width h) (hash key) 0 key (hroot h) = (Inr (map_option (Pair key) (m key)), n')"
    "node_rep hash (hbit_width h) s (levels (hbit_width h)) 0 n' m" by auto
  then show ?thesis
    by (simp add: hamt_get_def hamt_contains_key_def hnode_get_def hnode_search_def hamt_rep_def option.map_comp comp_def option.map_ident)
qed

lemma hnode_set_correct:
  assumes "hamt_keys hash (hbit_width h) K" "hamt_rep hash s h m" "insert key (dom m) \<subseteq> K"
  shows "\<exists>n'. hnode_set hash s (hbit_width h) ow key v (hroot h) = (Inr (if ow then m key else None, hchanges ow key v m), n') \<and>
    hamt_rep hash s (h\<lparr>hroot := n'\<rparr>) (hset ow key v m)"
  using modify_value_correct [OF _ _ assms(2) [unfolded hamt_rep_def] _ levels_fuel assms(3) slots_agree_0, of ow v] assms(1)
  by (auto simp: modify_spec_def hnode_set_def hamt_rep_def hamt_keys_def)

lemma hamt_set_correct:
  assumes "hamt_keys hash (hbit_width h) K" "hamt_rep hash s h m" "insert key (dom m) \<subseteq> K"
  shows "\<exists>h'. hamt_set hash s key v h = (Inr (m key), h') \<and> hamt_rep hash s h' (m(key \<mapsto> v)) \<and> hbit_width h' = hbit_width h"
    "\<exists>h'. hamt_set_if_absent hash s key v h = (Inr (m key = None), h') \<and>
      hamt_rep hash s h' (if m key = None then m(key \<mapsto> v) else m) \<and> hbit_width h' = hbit_width h"
  using hnode_set_correct [OF assms, of True v] hnode_set_correct [OF assms, of False v]
  by (auto simp: hamt_set_def hamt_set_if_absent_def hset_def hchanges_def simp del: fun_upd_apply)

lemma hamt_delete_correct:
  assumes "hash_ok hash (hbit_width h)" "hamt_rep hash s h m"
  shows "\<exists>r h'. hamt_delete hash s key h = (r, h') \<and> hamt_rep hash s h' (m(key := None)) \<and> hbit_width h' = hbit_width h \<and>
    (case m key of
       Some v \<Rightarrow> r = Inr (Some (key, v))
     | None \<Rightarrow> r = Inr None \<or> r = Inl (HPanic ''clean is only called on dirty pointer''))"
proof -
  obtain r n where n: "rm_value HAMT_LEVELS s (hbit_width h) (hash key) 0 key (hroot h) = (r, n)"
    "node_rep hash (hbit_width h) s (levels (hbit_width h)) 0 n (m(key := None))"
    "case m key of Some v \<Rightarrow> r = Inr (Some (key, v))
     | None \<Rightarrow> (r = Inr None \<or> r = Inl (HPanic ''clean is only called on dirty pointer'')) \<and> node_ser n = node_ser (hroot h)"
    using rm_value_correct [OF assms(1) assms(2) [unfolded hamt_rep_def] _ levels_fuel, of key]
    by (auto simp: remove_spec_def simp del: fun_upd_apply)
  have "hamt_delete hash s key h = (r, h\<lparr>hroot := n\<rparr>)" using n(1) by (simp add: hamt_delete_def hnode_remove_entry_def)
  moreover have "hamt_rep hash s (h\<lparr>hroot := n\<rparr>) (m(key := None))" using n(2) by (simp add: hamt_rep_def)
  ultimately show ?thesis using n(3) by (auto split: option.splits)
qed

lemma hamt_flush_correct:
  assumes "inj cid_of" "store_ok cid_of s" "hamt_rep hash s h m"
  obtains blk h' s' where "hamt_flush cid_of s h = (Inr (cid_of blk), h', s')" "s \<subseteq>\<^sub>m s'" "store_ok cid_of s'"
    "s' (cid_of blk) = Some blk" "hamt_rep hash s' h' m" "hbit_width h' = hbit_width h" "node_ser (hroot h') = Inr blk"
proof -
  from hnode_flush_correct [OF assms(1) assms(3) [unfolded hamt_rep_def] assms(2)] obtain n s1 blk where
    n: "hnode_flush cid_of (hroot h) s = (Inr (), n, s1)" "s \<subseteq>\<^sub>m s1" "store_ok cid_of s1"
    "node_rep hash (hbit_width h) s1 (levels (hbit_width h)) 0 n m" "node_ser n = Inr blk" by (auto simp: flush_spec_def)
  obtain c s2 where put: "bs_put cid_of blk s1 = (c, s2)" by fastforce
  note put' = bs_put_ok [OF put n(3)] bs_put_mono [OF put n(3) assms(1)]
  show thesis
  proof (rule that [of blk "h\<lparr>hroot := n\<rparr>" s2])
    show "s \<subseteq>\<^sub>m s2" using n(2) put'(4) by (rule map_le_trans)
    show "hamt_rep hash s2 (h\<lparr>hroot := n\<rparr>) m" using node_rep_mono [OF put'(4) n(4)] by (simp add: hamt_rep_def)
  qed (use n put put' in \<open>simp_all add: hamt_flush_def\<close>)
qed

lemma hamt_load_correct:
  assumes "hamt_rep hash s h m" "node_ser (hroot h) = Inr blk" "s c = Some blk"
  shows "\<exists>h'. hamt_load_with_bit_width s c (hbit_width h) = Inr h' \<and> hbit_width h' = hbit_width h \<and> hamt_rep hash s h' m"
  using node_rep_reload [OF assms(1) [unfolded hamt_rep_def] assms(2)] assms(3)
  by (simp add: hamt_load_with_bit_width_def bs_get_def hamt_rep_def)

lemma hamt_root_unique:
  assumes "hash_ok hash bw" "inj cid_of" "hbit_width h1 = bw" "hbit_width h2 = bw"
    "store_ok cid_of s1" "hamt_rep hash s1 h1 m1" "node_ser (hroot h1) = Inr b1"
    "store_ok cid_of s2" "hamt_rep hash s2 h2 m2" "node_ser (hroot h2) = Inr b2"
  shows "b1 = b2 \<longleftrightarrow> m1 = m2"
proof
  assume "m1 = m2"
  then show "b1 = b2" using assms node_rep_unique [OF assms(5,8)] by (auto simp: hamt_rep_def)
next
  assume eq: "b1 = b2"
  note mono = store_ok_union [OF assms(2,5,8)]
  have "node_rep hash bw (s1 ++ s2) (levels bw) 0 (node_de b1) m1"
    using node_rep_mono [OF mono(1) node_rep_reload [OF assms(6) [unfolded hamt_rep_def] assms(7)]] assms(3) by simp
  moreover have "node_rep hash bw (s1 ++ s2) (levels bw) 0 (node_de b1) m2"
    using node_rep_mono [OF mono(2) node_rep_reload [OF assms(9) [unfolded hamt_rep_def] assms(10)]] assms(4) eq by simp
  ultimately show "m1 = m2" by (rule node_rep_map_unique [OF assms(1)])
qed

text \<open>After \<open>flush\<close> every child is a link, and removing an absent key through a link panics.\<close>

lemma delete_through_link:
  assumes ok: "hash_ok hash (hbit_width h)" and rep: "hamt_rep hash s h m" and ser: "node_ser (hroot h) = Inr blk"
    and "m key = None" and big: "3 < card {k \<in> dom m. slot_of hash (hbit_width h) 0 k = slot_of hash (hbit_width h) 0 key}"
  shows "fst (hamt_delete hash s key h) = Inl (HPanic ''clean is only called on dirty pointer'')"
proof -
  let ?bw = "hbit_width h" and ?i = "slot_of hash (hbit_width h) 0 key"
  obtain d where d: "levels ?bw = Suc d" using levels_pos [OF ok] by blast
  let ?R = "node_rep hash ?bw s d (Suc 0)" and ?m = "in_slot hash ?bw 0 ?i m"
  note rep' = rep [unfolded hamt_rep_def d]
  have card: "3 < card (dom ?m)" using big by (simp add: dom_in_slot)
  have "?i \<in> slot_of hash ?bw 0 ` dom m"
  proof (rule ccontr)
    assume "?i \<notin> slot_of hash ?bw 0 ` dom m"
    then have "?m = Map.empty" using in_slot_empty_iff [of hash ?bw 0 ?i m] by blast
    with card show False by simp
  qed
  from node_rep_present [OF rep' ok this, where x = None] obtain i p where at: "hbf_test_bit (node_bits (hroot h)) ?i"
    "index_for_bit_pos (node_bits (hroot h)) ?i = i" "\<not> length (node_ptrs (hroot h)) \<le> i" "node_ptrs (hroot h) ! i = p"
    and p: "ptr_rep ?R s p ?m" by (metis (no_types, lifting))
  have "\<exists>q. pointer_ser p = Inr q"
  proof -
    obtain b ps where n: "hroot h = HNode b ps" by (cases "hroot h")
    have "pointers_ser ps = Inr qs \<Longrightarrow> p \<in> set ps \<Longrightarrow> \<exists>q. pointer_ser p = Inr q" for ps qs
      by (induction ps arbitrary: qs) (auto simp: res_simps)
    then show ?thesis using ser at by (auto simp: n res_simps)
  qed
  with p card obtain c cache where link: "p = HLink c cache"
    by (cases p) (auto simp: ptr_rep_Values)
  with p obtain child where child: "child_load s c cache = Inr child" "?R child ?m" by (auto elim: ptr_rep_load)
  obtain fuel where fuel: "HAMT_LEVELS = Suc fuel" "d \<le> fuel"
    using levels_fuel [of ?bw] by (cases HAMT_LEVELS) (simp_all add: d)
  have "remove_spec hash ?bw s fuel d (Suc 0) key child ?m"
    using rm_value_correct [OF ok child(2) _ fuel(2)] d by simp
  then obtain r n' where n': "rm_value fuel s ?bw (hash key) (Suc 0 * ?bw) key child = (r, n')"
    "r = Inr None \<or> r = Inl (HPanic ''clean is only called on dirty pointer'')"
    by (rule remove_specE_None) (use assms(4) in simp)
  from at link child(1) n' show ?thesis
    by (auto simp: fuel(1) hash_next_root [OF ok] hamt_delete_def hnode_remove_entry_def hamt_clean_def)
qed

lemma hamt_for_each_correct:
  assumes "hamt_rep hash (s :: ('k :: linorder, 'v, 'c) hamt_store) h m"
  shows "\<exists>kvs. lists_entries kvs m \<and>
    (\<forall>(f :: ('k, 'v, 'c, 'a) each_fn) a. \<exists>h'. hamt_for_each s f h a = (fst (each_kv f kvs a), h', snd (each_kv f kvs a)) \<and> hamt_rep hash s h' m)"
proof -
  from hnode_for_each_correct [OF assms [unfolded hamt_rep_def] levels_fuel] obtain kvs where kvs: "lists_entries kvs m"
    "iterates (\<lambda>f :: ('k, 'v, 'c, 'a) each_fn. hnode_for_each HAMT_LEVELS s f) (hroot h) kvs
      (\<lambda>n'. node_rep hash (hbit_width h) s (levels (hbit_width h)) 0 n' m \<and> node_ser n' = node_ser (hroot h))" by blast
  have "\<exists>h'. hamt_for_each s f h a = (fst (each_kv f kvs a), h', snd (each_kv f kvs a)) \<and> hamt_rep hash s h' m" for f :: "('k, 'v, 'c, 'a) each_fn" and a
  proof -
    from kvs(2) [unfolded iterates_def, rule_format, of f a] obtain n' where
      "hnode_for_each HAMT_LEVELS s f (hroot h) a = (fst (each_kv f kvs a), n', snd (each_kv f kvs a))"
      "node_rep hash (hbit_width h) s (levels (hbit_width h)) 0 n' m" by blast
    then show ?thesis by (simp add: hamt_for_each_def hamt_rep_def)
  qed
  with kvs(1) show ?thesis by blast
qed

section \<open>A small trie\<close>

text \<open>
  Keys with the same slot at the root and different slots below it, and identifiers that are the
  blocks themselves.
\<close>

definition sample_hash :: "nat \<Rightarrow> hashed_key" where
  "sample_hash k = 0 # of_nat k # replicate 30 0"

datatype ('k, 'v) hamt_cid = HamtCid "('k, 'v, ('k, 'v) hamt_cid) hamt_block"

lemma inj_HamtCid: "inj HamtCid"
  by (simp add: inj_def)

lemma sample_slots: "slot_of sample_hash 8 0 k = 0" "slot_of sample_hash 8 1 k = k mod 256"
proof -
  have m: "mkmask 8 = mask 8" by (simp add: mkmask_def mask_eq_exp_minus_1)
  show "slot_of sample_hash 8 0 k = 0" by (simp add: slot_of_def sample_hash_def next_bits.simps)
  have "mask 8 AND ucast (of_nat k :: 8 word) = (ucast (of_nat k :: 8 word) :: 32 word)"
    by (rule bit_word_eqI) (auto simp: bit_simps)
  then show "slot_of sample_hash 8 1 k = k mod 256"
    by (simp add: slot_of_def sample_hash_def next_bits.simps m unsigned_ucast_eq unsigned_of_nat take_bit_eq_mod)
qed

lemma sample_keys: "hamt_keys sample_hash 8 {..<256}"
proof -
  have "card S \<le> 3" if S: "S \<subseteq> {..<256}" "finite S" "slots_agree sample_hash 8 (levels 8) S" for S
  proof -
    have "1 < levels 8" by (simp add: levels_def)
    have same: "k = k'" if k: "k \<in> S" "k' \<in> S" for k k'
    proof -
      have "slot_of sample_hash 8 1 k = slot_of sample_hash 8 1 k'"
        using S(3) [unfolded slots_agree_def, rule_format, OF k \<open>1 < levels 8\<close>] .
      moreover have "k < 256" "k' < 256" using S(1) k by auto
      ultimately show ?thesis by (simp only: sample_slots(2) mod_less)
    qed
    have "card S \<le> Suc 0"
      by (rule card_le_Suc0_iff_eq [OF S(2), THEN iffD2]) (intro ballI same)
    then show ?thesis by simp
  qed
  then have "spread sample_hash 8 {..<256}" unfolding spread_def by blast
  then show ?thesis by (simp add: hamt_keys_def hash_ok_def sample_hash_def)
qed

lemma sample_hash_ok: "hash_ok sample_hash 8"
  using sample_keys by (simp add: hamt_keys_def)

definition sample_map :: "nat \<rightharpoonup> nat" where
  "sample_map = [1 \<mapsto> 10, 2 \<mapsto> 20, 3 \<mapsto> 30, 4 \<mapsto> 40]"

text \<open>Four entries in one slot of the root, from four calls of \<open>set\<close>.\<close>

lemma sample_hamt_rep:
  obtains h :: "(nat, nat, (nat, nat) hamt_cid) hamt" where "hamt_rep sample_hash Map.empty h sample_map" "hbit_width h = 8"
proof -
  have step: "\<exists>h' :: (nat, nat, (nat, nat) hamt_cid) hamt. hamt_rep sample_hash Map.empty h' (m(k \<mapsto> v)) \<and> hbit_width h' = 8"
    if "\<exists>h :: (nat, nat, (nat, nat) hamt_cid) hamt. hamt_rep sample_hash Map.empty h m \<and> hbit_width h = 8" "dom m \<subseteq> {..<256}" "k < 256"
    for m and k v :: nat
  proof -
    from that(1) obtain h :: "(nat, nat, (nat, nat) hamt_cid) hamt" where
      h: "hamt_rep sample_hash Map.empty h m" "hbit_width h = 8" by blast
    moreover have "hamt_keys sample_hash (hbit_width h) {..<256}" using sample_keys h(2) by simp
    moreover have "insert k (dom m) \<subseteq> {..<256}" using that by simp
    ultimately show ?thesis using hamt_set_correct(1) [of sample_hash h "{..<256}" Map.empty m k v] by auto
  qed
  have "\<exists>h :: (nat, nat, (nat, nat) hamt_cid) hamt. hamt_rep sample_hash Map.empty h Map.empty \<and> hbit_width h = 8"
    using hamt_new_rep [OF sample_hash_ok] by (metis hamt.select_convs(2) hamt_new_with_bit_width_def)
  from step [OF step [OF step [OF step [OF this, of 1 10], of 2 20], of 3 30], of 4 40] that
  show thesis by (auto simp: sample_map_def)
qed

unbundle bit_operations_syntax

section \<open>Properties\<close>

text \<open>C14. On a trie that stands for a finite map, with keys of which no four share every slot, \<open>get\<close>,
  \<open>contains_key\<close>, \<open>set\<close>, \<open>set_if_absent\<close> and \<open>delete\<close> of a key that is there are lookup, update and
  removal of the map, whatever part of the trie is in memory, cached or only in the store; each
  returns normally and the trie stands for the new map in canonical form.  A new trie stands for the
  empty map.\<close>

theorem hamt_operations:
  assumes "hamt_keys hash (hbit_width h) K" "hamt_rep hash s h m" "insert key (dom m) \<subseteq> K"
  shows "hamt_rep hash s (hamt_new_with_bit_width (hbit_width h)) Map.empty \<and>
    (\<exists>h'. hamt_get hash s key h = (Inr (m key), h') \<and> hamt_contains_key hash s key h = (Inr (m key \<noteq> None), h') \<and> hamt_rep hash s h' m) \<and>
    (\<exists>h'. hamt_set hash s key v h = (Inr (m key), h') \<and> hamt_rep hash s h' (m(key \<mapsto> v))) \<and>
    (\<exists>h'. hamt_set_if_absent hash s key v h = (Inr (m key = None), h') \<and>
       hamt_rep hash s h' (if m key = None then m(key \<mapsto> v) else m)) \<and>
    (\<forall>w. m key = Some w \<longrightarrow> (\<exists>h'. hamt_delete hash s key h = (Inr (Some (key, w)), h') \<and> hamt_rep hash s h' (m(key := None))))"
proof -
  have ok: "hash_ok hash (hbit_width h)" using assms(1) by (simp add: hamt_keys_def)
  have "\<exists>h'. hamt_delete hash s key h = (Inr (Some (key, w)), h') \<and> hamt_rep hash s h' (m(key := None))" if "m key = Some w" for w
    using hamt_delete_correct [OF ok assms(2), of key] that by auto
  with hamt_get_correct [OF ok assms(2), of key] hamt_set_correct [OF assms, of v] show ?thesis
    by (intro conjI hamt_new_rep [OF ok]) blast+
qed

theorem hamt_operations_witness:
  "hamt_keys sample_hash 8 {..<256} \<and>
   (\<exists>h :: (nat, nat, nat) hamt. hamt_set sample_hash Map.empty 5 7 (hamt_new_with_bit_width 8) = (Inr None, h) \<and>
      hamt_rep sample_hash Map.empty h [5 \<mapsto> 7])"
proof -
  have "hamt_rep sample_hash Map.empty (hamt_new_with_bit_width 8 :: (nat, nat, nat) hamt) Map.empty"
    by (rule hamt_new_rep [OF sample_hash_ok])
  with hamt_operations [of sample_hash "hamt_new_with_bit_width 8 :: (nat, nat, nat) hamt" "{..<256}" Map.empty Map.empty 5 7]
    sample_keys show ?thesis by (simp add: hamt_new_with_bit_width_def)
qed

text \<open>C15. Flushing a trie succeeds and keeps every block that was stored; loading the returned
  identifier gives a trie that stands for the same map.  Two tries of the same bit width, in whatever
  stores and after whatever operations, flush to the same identifier exactly when they stand for the
  same map.\<close>

theorem hamt_flush_load_canonical:
  assumes "hash_ok hash bw" "inj cid_of" "hbit_width h1 = bw" "hbit_width h2 = bw"
    "store_ok cid_of s1" "hamt_rep hash s1 h1 m1" "store_ok cid_of s2" "hamt_rep hash s2 h2 m2"
  shows "\<exists>c1 h1' s1' c2 h2' s2'. hamt_flush cid_of s1 h1 = (Inr c1, h1', s1') \<and> hamt_flush cid_of s2 h2 = (Inr c2, h2', s2') \<and>
    s1 \<subseteq>\<^sub>m s1' \<and> store_ok cid_of s1' \<and> hamt_rep hash s1' h1' m1 \<and>
    (\<exists>h. hamt_load_with_bit_width s1' c1 bw = Inr h \<and> hbit_width h = bw \<and> hamt_rep hash s1' h m1) \<and>
    (c1 = c2 \<longleftrightarrow> m1 = m2)"
proof -
  obtain b1 h1' s1' where 1: "hamt_flush cid_of s1 h1 = (Inr (cid_of b1), h1', s1')" "s1 \<subseteq>\<^sub>m s1'" "store_ok cid_of s1'"
    "s1' (cid_of b1) = Some b1" "hamt_rep hash s1' h1' m1" "hbit_width h1' = bw" "node_ser (hroot h1') = Inr b1"
    using hamt_flush_correct [OF assms(2,5,6)] assms(3) by metis
  obtain b2 h2' s2' where 2: "hamt_flush cid_of s2 h2 = (Inr (cid_of b2), h2', s2')" "store_ok cid_of s2'"
    "hamt_rep hash s2' h2' m2" "hbit_width h2' = bw" "node_ser (hroot h2') = Inr b2"
    using hamt_flush_correct [OF assms(2,7,8)] assms(4) by metis
  have "b1 = b2 \<longleftrightarrow> m1 = m2" by (rule hamt_root_unique [OF assms(1,2) 1(6) 2(4) 1(3,5,7) 2(2,3,5)])
  then have "cid_of b1 = cid_of b2 \<longleftrightarrow> m1 = m2" using assms(2) by (simp add: inj_eq)
  with 1 2 hamt_load_correct [OF 1(5,7,4)] show ?thesis by metis
qed

theorem hamt_flush_load_canonical_witness:
  "hash_ok sample_hash 8 \<and> inj (HamtCid :: _ \<Rightarrow> (nat, nat) hamt_cid) \<and>
   (\<exists>(h :: (nat, nat, (nat, nat) hamt_cid) hamt) c h' s'. hamt_rep sample_hash Map.empty h sample_map \<and>
      hamt_flush HamtCid Map.empty h = (Inr c, h', s') \<and>
      fst (hamt_flush HamtCid Map.empty (hamt_new_with_bit_width 8)) \<noteq> Inr c \<and>
      (\<exists>l. hamt_load_with_bit_width s' c 8 = Inr l \<and> hamt_rep sample_hash s' l sample_map))"
proof -
  obtain h :: "(nat, nat, (nat, nat) hamt_cid) hamt" where h: "hamt_rep sample_hash Map.empty h sample_map" "hbit_width h = 8"
    by (rule sample_hamt_rep)
  have new: "hbit_width (hamt_new_with_bit_width 8) = 8" by (simp add: hamt_new_with_bit_width_def)
  have "sample_map \<noteq> Map.empty" by (simp add: sample_map_def)
  with hamt_flush_load_canonical [OF sample_hash_ok inj_HamtCid h(2) new store_ok_empty h(1) store_ok_empty hamt_new_rep [OF sample_hash_ok]]
    h(1) sample_hash_ok inj_HamtCid show ?thesis by fastforce
qed

text \<open>C16. Removing a key that is not in the trie can panic: after \<open>flush\<close>, when four or more entries
  share the slot of the key at the root, \<open>delete\<close> stops at the case of \<open>clean\<close> that its caller takes
  for unreachable, because the child is a link that was not modified.\<close>

theorem hamt_delete_absent_panics:
  assumes "hash_ok hash (hbit_width h)" "inj cid_of" "store_ok cid_of s" "hamt_rep hash s h m"
    "hamt_flush cid_of s h = (Inr c, h', s')" "m key = None"
    "3 < card {k \<in> dom m. slot_of hash (hbit_width h) 0 k = slot_of hash (hbit_width h) 0 key}"
  shows "fst (hamt_delete hash s' key h') = Inl (HPanic ''clean is only called on dirty pointer'')"
proof -
  obtain blk where "hamt_rep hash s' h' m" "hbit_width h' = hbit_width h" "node_ser (hroot h') = Inr blk"
    using hamt_flush_correct [OF assms(2-4)] assms(5) by (metis Pair_inject)
  with delete_through_link [of hash h' s' m blk key] assms(1,6,7) show ?thesis by simp
qed

theorem hamt_delete_absent_panics_witness:
  "hash_ok sample_hash 8 \<and> inj (HamtCid :: _ \<Rightarrow> (nat, nat) hamt_cid) \<and> sample_map 9 = None \<and>
   (\<exists>(h :: (nat, nat, (nat, nat) hamt_cid) hamt) c h' s'. hamt_rep sample_hash Map.empty h sample_map \<and>
      hamt_flush HamtCid Map.empty h = (Inr c, h', s') \<and>
      fst (hamt_delete sample_hash s' 9 h') = Inl (HPanic ''clean is only called on dirty pointer''))"
proof -
  obtain h :: "(nat, nat, (nat, nat) hamt_cid) hamt" where h: "hamt_rep sample_hash Map.empty h sample_map" "hbit_width h = 8"
    by (rule sample_hamt_rep)
  obtain c h' s' where f: "hamt_flush HamtCid Map.empty h = (Inr c, h', s')"
    using hamt_flush_correct [OF inj_HamtCid store_ok_empty h(1)] by metis
  have "dom sample_map = {1, 2, 3, 4}" by (auto simp: sample_map_def split: if_splits)
  moreover have "{k \<in> dom sample_map. slot_of sample_hash (hbit_width h) 0 k = slot_of sample_hash (hbit_width h) 0 9} = dom sample_map"
    using h(2) by (simp add: sample_slots(1))
  ultimately have "3 < card {k \<in> dom sample_map. slot_of sample_hash (hbit_width h) 0 k = slot_of sample_hash (hbit_width h) 0 9}"
    by (simp only:) simp
  moreover have "hash_ok sample_hash (hbit_width h)" "sample_map 9 = None" using sample_hash_ok h(2) by (simp_all add: sample_map_def)
  ultimately have "fst (hamt_delete sample_hash s' 9 h') = Inl (HPanic ''clean is only called on dirty pointer'')"
    using hamt_delete_absent_panics [OF _ inj_HamtCid store_ok_empty h(1) f] by blast
  with h f sample_hash_ok inj_HamtCid \<open>sample_map 9 = None\<close> show ?thesis by blast
qed

text \<open>C17. \<open>for_each\<close> calls its function on every entry of the map exactly once and stops at the first
  error of the function; the trie still stands for the map.\<close>

theorem hamt_for_each_entries:
  assumes "hamt_rep hash (s :: ('k :: linorder, 'v, 'c) hamt_store) h m"
  shows "\<exists>kvs. set kvs = {(k, v). m k = Some v} \<and> distinct (map fst kvs) \<and>
    (\<forall>(f :: ('k, 'v, 'c, 'a) each_fn) a. \<exists>h'. hamt_for_each s f h a = (fst (each_kv f kvs a), h', snd (each_kv f kvs a)) \<and> hamt_rep hash s h' m)"
  using hamt_for_each_correct [OF assms] by (simp only: lists_entries_def conj_assoc)

theorem hamt_for_each_entries_witness:
  "\<exists>h :: (nat, nat, (nat, nat) hamt_cid) hamt. hamt_rep sample_hash Map.empty h sample_map \<and>
     (\<exists>kvs h'. length kvs = 4 \<and> hamt_for_each Map.empty (\<lambda>k v a. (Inr (), (k, v) # a)) h [] = (Inr (), h', rev kvs))"
proof -
  obtain h :: "(nat, nat, (nat, nat) hamt_cid) hamt" where h: "hamt_rep sample_hash Map.empty h sample_map"
    by (rule sample_hamt_rep)
  from hamt_for_each_entries [OF h] obtain kvs where kvs: "set kvs = {(k, v). sample_map k = Some v}" "distinct (map fst kvs)"
    "\<forall>(f :: (nat, nat, (nat, nat) hamt_cid, (nat \<times> nat) list) each_fn) a. \<exists>h'. hamt_for_each Map.empty f h a =
       (fst (each_kv f kvs a), h', snd (each_kv f kvs a)) \<and> hamt_rep sample_hash Map.empty h' sample_map"
    by (elim exE conjE) rule
  have "set kvs = {(1, 10), (2, 20), (3, 30), (4, 40)}" unfolding kvs(1) by (auto simp: sample_map_def split: if_splits)
  then have "length kvs = 4" using kvs(2) distinct_card [of kvs] by (simp add: distinct_map)
  moreover have "each_kv (\<lambda>k v a. (Inr () :: ((nat, nat) hamt_cid hamt_error, unit) res, (k, v) # a)) kvs a = (Inr (), rev kvs @ a)" for a
    by (induction kvs arbitrary: a) auto
  ultimately show ?thesis using kvs(3) h by (metis append_Nil2 fst_conv snd_conv)
qed

end
