(* ===== verification/Address.thy ===== *)
theory Address
  imports Prelude
begin

text \<open>
  Addresses of actors (\<open>vm/address\<close>): the four address protocols, the byte form used as a key of
  the state tables and in messages, and the text form shown to users.

  The crates the source calls are arguments: \<open>lw\<close> and \<open>lr\<close> write and read an unsigned LEB128
  number (crate \<open>leb128\<close>; \<open>lr\<close> returns the number at the start of its argument), \<open>b32e\<close> and \<open>b32d\<close>
  are the base32 alphabet \<open>ADDRESS_ENCODER\<close> (crate \<open>data-encoding\<close>) and \<open>blake\<close> is
  \<open>blake2b_variable\<close>, with the digest length as second argument.  The network tag of an address
  is the process-wide default everywhere except in the text form, so an address is its payload and
  the text functions carry the network beside it.
\<close>

section \<open>Payloads and protocols\<close>

type_synonym byte = "8 word"
type_synonym bytes = "byte list"

datatype Network = Mainnet | Testnet

datatype Protocol = PID | PSecp256k1 | PActor | PBLS

datatype Payload = ID nat | Secp256k1 bytes | Actor bytes | BLS bytes

type_synonym Address = Payload

datatype AddressError =
    UnknownNetwork | UnknownProtocol | InvalidPayload | InvalidLength | InvalidPayloadLength nat
  | InvalidBLSLength nat | InvalidSECPLength nat | InvalidChecksum | Base32Decoding | NonIDAddress
  | InvalidAddressIDPayload bytes | AddressPanic

definition PAYLOAD_HASH_LEN :: nat where "PAYLOAD_HASH_LEN = 20"
definition BLS_PUB_LEN :: nat where "BLS_PUB_LEN = 48"
definition SECP_PUB_LEN :: nat where "SECP_PUB_LEN = 65"
definition CHECKSUM_HASH_LEN :: nat where "CHECKSUM_HASH_LEN = 4"
definition MAX_ADDRESS_LEN :: nat where "MAX_ADDRESS_LEN = 86"

lemmas address_lengths =
  PAYLOAD_HASH_LEN_def BLS_PUB_LEN_def SECP_PUB_LEN_def CHECKSUM_HASH_LEN_def MAX_ADDRESS_LEN_def

fun protocol :: "Address \<Rightarrow> Protocol" where
  "protocol (ID _) = PID"
| "protocol (Secp256k1 _) = PSecp256k1"
| "protocol (Actor _) = PActor"
| "protocol (BLS _) = PBLS"

fun protocol_byte :: "Protocol \<Rightarrow> byte" where
  "protocol_byte PID = 0"
| "protocol_byte PSecp256k1 = 1"
| "protocol_byte PActor = 2"
| "protocol_byte PBLS = 3"

definition protocol_from_byte :: "byte \<Rightarrow> Protocol option" where
  "protocol_from_byte b =
    (if b = 0 then Some PID else if b = 1 then Some PSecp256k1
     else if b = 2 then Some PActor else if b = 3 then Some PBLS else None)"

fun address_id :: "Address \<Rightarrow> (AddressError, nat) res" where
  "address_id (ID i) = Inr i"
| "address_id _ = Inl NonIDAddress"

definition is_bls_zero_address :: "Address \<Rightarrow> bool" where
  "is_bls_zero_address a = (a = BLS (0xC0 # replicate 47 0))"

section \<open>Byte form\<close>

fun to_raw_bytes :: "(nat \<Rightarrow> bytes) \<Rightarrow> Address \<Rightarrow> bytes" where
  "to_raw_bytes lw (ID i) = lw i"
| "to_raw_bytes lw (Secp256k1 arr) = arr"
| "to_raw_bytes lw (Actor arr) = arr"
| "to_raw_bytes lw (BLS arr) = arr"

definition address_to_bytes :: "(nat \<Rightarrow> bytes) \<Rightarrow> Address \<Rightarrow> bytes" where
  "address_to_bytes lw a = protocol_byte (protocol a) # to_raw_bytes lw a"

definition from_leb_bytes ::
  "(nat \<Rightarrow> bytes) \<Rightarrow> (bytes \<Rightarrow> nat option) \<Rightarrow> bytes \<Rightarrow> (AddressError, nat) res" where
  "from_leb_bytes lw lr bz =
    res_bind (ok_or (lr bz) InvalidPayload) (\<lambda>i.
      if lw i = bz then Inr i else Inl (InvalidAddressIDPayload bz))"

fun payload_new ::
  "(nat \<Rightarrow> bytes) \<Rightarrow> (bytes \<Rightarrow> nat option) \<Rightarrow> Protocol \<Rightarrow> bytes \<Rightarrow> (AddressError, Address) res" where
  "payload_new lw lr PID p = res_bind (from_leb_bytes lw lr p) (\<lambda>i. Inr (ID i))"
| "payload_new lw lr PSecp256k1 p =
    (if length p = PAYLOAD_HASH_LEN then Inr (Secp256k1 p) else Inl (InvalidPayloadLength (length p)))"
| "payload_new lw lr PActor p =
    (if length p = PAYLOAD_HASH_LEN then Inr (Actor p) else Inl (InvalidPayloadLength (length p)))"
| "payload_new lw lr PBLS p =
    (if length p \<noteq> BLS_PUB_LEN then Inl (InvalidBLSLength (length p)) else Inr (BLS p))"

definition address_from_bytes ::
  "(nat \<Rightarrow> bytes) \<Rightarrow> (bytes \<Rightarrow> nat option) \<Rightarrow> bytes \<Rightarrow> (AddressError, Address) res" where
  "address_from_bytes lw lr bz =
    (if length bz < 2 then Inl InvalidLength
     else res_bind (ok_or (protocol_from_byte (hd bz)) UnknownProtocol)
            (\<lambda>p. payload_new lw lr p (tl bz)))"

section \<open>Constructors\<close>

definition new_secp256k1 :: "(bytes \<Rightarrow> nat \<Rightarrow> bytes) \<Rightarrow> bytes \<Rightarrow> (AddressError, Address) res" where
  "new_secp256k1 blake pubkey =
    (if length pubkey \<noteq> SECP_PUB_LEN then Inl (InvalidSECPLength (length pubkey))
     else Inr (Secp256k1 (blake pubkey PAYLOAD_HASH_LEN)))"

definition new_actor :: "(bytes \<Rightarrow> nat \<Rightarrow> bytes) \<Rightarrow> bytes \<Rightarrow> Address" where
  "new_actor blake data = Actor (blake data PAYLOAD_HASH_LEN)"

definition new_bls :: "bytes \<Rightarrow> (AddressError, Address) res" where
  "new_bls pubkey =
    (if length pubkey \<noteq> BLS_PUB_LEN then Inl (InvalidBLSLength (length pubkey))
     else Inr (BLS pubkey))"

section \<open>Text form\<close>

text \<open>Decimal numerals, as \<open>Display\<close> and \<open>FromStr\<close> of \<open>u64\<close> write and read them.\<close>

definition digit_char :: "nat \<Rightarrow> char" where
  "digit_char d = char_of (48 + d)"

fun show_u64 :: "nat \<Rightarrow> string" where
  "show_u64 n = (if n < 10 then [digit_char n] else show_u64 (n div 10) @ [digit_char (n mod 10)])"

declare show_u64.simps [simp del]

fun parse_digits :: "string \<Rightarrow> nat \<Rightarrow> nat option" where
  "parse_digits [] acc = Some acc"
| "parse_digits (c # cs) acc =
    (let d = of_char c :: nat in
     if 48 \<le> d \<and> d \<le> 57 \<and> acc * 10 + (d - 48) < 2 ^ 64
     then parse_digits cs (acc * 10 + (d - 48)) else None)"

definition parse_u64 :: "string \<Rightarrow> nat option" where
  "parse_u64 s =
    (if s = [] \<or> s = ''+'' \<or> s = ''-'' then None
     else if hd s = CHR ''+'' then parse_digits (tl s) 0 else parse_digits s 0)"

fun to_prefix :: "Network \<Rightarrow> string" where
  "to_prefix Mainnet = ''f''"
| "to_prefix Testnet = ''t''"

fun show_protocol :: "Protocol \<Rightarrow> string" where
  "show_protocol PID = ''0''"
| "show_protocol PSecp256k1 = ''1''"
| "show_protocol PActor = ''2''"
| "show_protocol PBLS = ''3''"

definition checksum :: "(bytes \<Rightarrow> nat \<Rightarrow> bytes) \<Rightarrow> bytes \<Rightarrow> bytes" where
  "checksum blake ingest = blake ingest CHECKSUM_HASH_LEN"

definition validate_checksum :: "(bytes \<Rightarrow> nat \<Rightarrow> bytes) \<Rightarrow> bytes \<Rightarrow> bytes \<Rightarrow> bool" where
  "validate_checksum blake ingest expect = (checksum blake ingest = expect)"

text \<open>
  \<open>encode\<close>; the \<open>expect\<close> on \<open>from_leb_bytes\<close> of an ID payload is the error \<open>AddressPanic\<close>.
\<close>

definition encode ::
  "(nat \<Rightarrow> bytes) \<Rightarrow> (bytes \<Rightarrow> nat option) \<Rightarrow> (bytes \<Rightarrow> string) \<Rightarrow> (bytes \<Rightarrow> nat \<Rightarrow> bytes) \<Rightarrow>
   Network \<Rightarrow> Address \<Rightarrow> (AddressError, string) res" where
  "encode lw lr b32e blake net a =
    (if protocol a = PID then
       (case from_leb_bytes lw lr (to_raw_bytes lw a) of
          Inl _ \<Rightarrow> Inl AddressPanic
        | Inr i \<Rightarrow> Inr (to_prefix net @ show_protocol (protocol a) @ show_u64 i))
     else
       Inr (to_prefix net @ show_protocol (protocol a) @
            b32e (to_raw_bytes lw a @ checksum blake (address_to_bytes lw a))))"

definition parse_network :: "char \<Rightarrow> Network option" where
  "parse_network c = (if c = CHR ''t'' then Some Testnet else if c = CHR ''f'' then Some Mainnet else None)"

definition parse_protocol :: "char \<Rightarrow> Protocol option" where
  "parse_protocol c =
    (if c = CHR ''0'' then Some PID else if c = CHR ''1'' then Some PSecp256k1
     else if c = CHR ''2'' then Some PActor else if c = CHR ''3'' then Some PBLS else None)"

text \<open>
  \<open>Address::from_str\<close>.  \<open>split_off(payload.len() - CHECKSUM_HASH_LEN)\<close> panics on a decoded payload
  of fewer than four bytes; that is the value \<open>AddressPanic\<close>.
\<close>

definition from_str ::
  "(nat \<Rightarrow> bytes) \<Rightarrow> (bytes \<Rightarrow> nat option) \<Rightarrow> (string \<Rightarrow> bytes option) \<Rightarrow> (bytes \<Rightarrow> nat \<Rightarrow> bytes) \<Rightarrow>
   string \<Rightarrow> (AddressError, Network \<times> Address) res" where
  "from_str lw lr b32d blake addr =
    (if MAX_ADDRESS_LEN < length addr \<or> length addr < 3 then Inl InvalidLength
     else
       res_bind (ok_or (parse_network (addr ! 0)) UnknownNetwork) (\<lambda>net.
       res_bind (ok_or (parse_protocol (addr ! 1)) UnknownProtocol) (\<lambda>p.
       let raw = drop 2 addr in
       if p = PID then
         (if 20 < length raw then Inl InvalidLength
          else res_bind (ok_or (parse_u64 raw) InvalidPayload) (\<lambda>i. Inr (net, ID i)))
       else
         res_bind (ok_or (b32d raw) Base32Decoding) (\<lambda>full.
         if length full < CHECKSUM_HASH_LEN then Inl AddressPanic
         else
           let payload = take (length full - CHECKSUM_HASH_LEN) full;
               cksm = drop (length full - CHECKSUM_HASH_LEN) full in
           if (p = PSecp256k1 \<or> p = PActor) \<and> length payload \<noteq> PAYLOAD_HASH_LEN
           then Inl InvalidPayload
           else if p = PBLS \<and> length payload \<noteq> BLS_PUB_LEN then Inl InvalidPayload
           else if \<not> validate_checksum blake (protocol_byte p # payload) cksm
           then Inl InvalidChecksum
           else res_bind (payload_new lw lr p payload) (\<lambda>a. Inr (net, a))))))"

section \<open>Well-formed addresses and decimal numerals\<close>

fun addr_ok :: "Address \<Rightarrow> bool" where
  "addr_ok (ID i) = (i < 2 ^ 64)"
| "addr_ok (Secp256k1 p) = (length p = PAYLOAD_HASH_LEN)"
| "addr_ok (Actor p) = (length p = PAYLOAD_HASH_LEN)"
| "addr_ok (BLS p) = (length p = BLS_PUB_LEN)"

lemma protocol_from_byte_byte [simp]: "protocol_from_byte (protocol_byte p) = Some p"
  by (cases p) (simp_all add: protocol_from_byte_def)

lemma protocol_from_byte_Some:
  "protocol_from_byte b = Some p \<Longrightarrow> protocol_byte p = b"
  by (auto simp: protocol_from_byte_def split: if_splits)

lemma parse_protocol_show [simp]: "parse_protocol (show_protocol p ! 0) = Some p"
  by (cases p) (simp_all add: parse_protocol_def)

lemma parse_network_prefix [simp]: "parse_network (to_prefix n ! 0) = Some n"
  by (cases n) (simp_all add: parse_network_def)

lemma length_to_prefix [simp]: "length (to_prefix n) = 1"
  by (cases n) simp_all

lemma length_show_protocol [simp]: "length (show_protocol p) = 1"
  by (cases p) simp_all

lemma of_char_digit_char [simp]: "d < 10 \<Longrightarrow> of_char (digit_char d) = 48 + d"
  by (simp add: digit_char_def)

lemma parse_digits_append:
  "parse_digits (s @ t) acc = Option.bind (parse_digits s acc) (parse_digits t)"
proof (induction s arbitrary: acc)
  case (Cons c cs)
  show ?case unfolding append_Cons parse_digits.simps Let_def Cons.IH
    by (simp only: if_distrib [of "\<lambda>x. Option.bind x (parse_digits t)"] bind.simps)
qed simp

lemma parse_digits_show:
  "n < 2 ^ 64 \<Longrightarrow> parse_digits (show_u64 n) 0 = Some n"
proof (induction n rule: show_u64.induct)
  case (1 n)
  show ?case
  proof (cases "n < 10")
    case True
    then show ?thesis using 1 by (simp add: show_u64.simps [of n] Let_def)
  next
    case False
    with 1 have "parse_digits (show_u64 (n div 10)) 0 = Some (n div 10)" by simp
    with False 1(2) show ?thesis
      by (simp add: show_u64.simps [of n] parse_digits_append Let_def)
  qed
qed

lemma show_u64_hd:
  "show_u64 n \<noteq> [] \<and> 48 \<le> (of_char (hd (show_u64 n)) :: nat)"
proof (induction n rule: show_u64.induct)
  case (1 n)
  then show ?case by (cases "n < 10") (simp_all add: show_u64.simps [of n])
qed

lemma show_u64_not_sign:
  "show_u64 n \<noteq> []" "hd (show_u64 n) \<noteq> CHR ''+''" "hd (show_u64 n) \<noteq> CHR ''-''"
proof -
  show "show_u64 n \<noteq> []" using show_u64_hd by simp
  have "48 \<le> (of_char (hd (show_u64 n)) :: nat)" using show_u64_hd by simp
  then show "hd (show_u64 n) \<noteq> CHR ''+''" "hd (show_u64 n) \<noteq> CHR ''-''"
    by (auto simp: of_char_def)
qed

lemma parse_u64_show: "n < 2 ^ 64 \<Longrightarrow> parse_u64 (show_u64 n) = Some n"
  using show_u64_not_sign [of n] by (auto simp: parse_u64_def parse_digits_show)

lemma length_show_u64: "n < 10 ^ k \<Longrightarrow> 0 < k \<Longrightarrow> length (show_u64 n) \<le> k"
proof (induction n arbitrary: k rule: show_u64.induct)
  case (1 n)
  show ?case
  proof (cases "n < 10")
    case True
    then show ?thesis using 1(3) by (simp add: show_u64.simps [of n])
  next
    case False
    obtain k' where k': "k = Suc k'" using 1(3) by (cases k) auto
    have "0 < k'" using 1(2) k' False by (cases k') simp_all
    note k = k' this
    have "n div 10 < 10 ^ k'" using 1(2) k by (simp add: less_mult_imp_div_less mult.commute)
    with 1(1) [OF False _ k(2)] k False show ?thesis by (simp add: show_u64.simps [of n])
  qed
qed

lemma length_show_u64_64: "n < 2 ^ 64 \<Longrightarrow> length (show_u64 n) \<le> 20"
  by (rule length_show_u64) simp_all

section \<open>Codecs\<close>

lemma from_leb_bytes_write:
  "lr (lw i) = Some i \<Longrightarrow> from_leb_bytes lw lr (lw i) = Inr i"
  by (simp add: from_leb_bytes_def)

lemma payload_new_raw:
  assumes leb: "\<And>i. i < 2 ^ 64 \<Longrightarrow> lr (lw i) = Some i" and ok: "addr_ok a"
  shows "payload_new lw lr (protocol a) (to_raw_bytes lw a) = Inr a"
  using ok by (cases a) (simp_all add: leb from_leb_bytes_write)

lemma payload_new_Inr:
  "payload_new lw lr p bz = Inr a \<Longrightarrow> to_raw_bytes lw a = bz \<and> protocol a = p"
  by (cases p) (auto simp: from_leb_bytes_def res_bind_eq_Inr split: if_splits)

lemma length_raw_bytes:
  "addr_ok a \<Longrightarrow> protocol a \<noteq> PID \<Longrightarrow>
   length (to_raw_bytes lw a) = (if protocol a = PBLS then BLS_PUB_LEN else PAYLOAD_HASH_LEN)"
  by (cases a) simp_all

lemma from_bytes_to_bytes:
  assumes leb: "\<And>i. i < 2 ^ 64 \<Longrightarrow> lr (lw i) = Some i \<and> lw i \<noteq> []" and ok: "addr_ok a"
  shows "address_from_bytes lw lr (address_to_bytes lw a) = Inr a"
proof -
  have "to_raw_bytes lw a \<noteq> []"
    using leb ok by (cases a) (auto simp: address_lengths)
  then have "\<not> length (address_to_bytes lw a) < 2"
    by (cases "to_raw_bytes lw a") (simp_all add: address_to_bytes_def)
  then show ?thesis
    using payload_new_raw [of lr lw, OF _ ok] leb by (simp add: address_from_bytes_def address_to_bytes_def)
qed

lemma from_bytes_canonical:
  "address_from_bytes lw lr bz = Inr a \<Longrightarrow> address_to_bytes lw a = bz"
  by (cases bz)
    (auto simp: address_from_bytes_def address_to_bytes_def res_simps
          dest!: payload_new_Inr protocol_from_byte_Some split: if_splits)

lemma from_str_id:
  assumes "i < 2 ^ 64"
  shows "from_str lw lr b32d blake (to_prefix net @ show_protocol PID @ show_u64 i) = Inr (net, ID i)"
  using length_show_u64_64 [OF assms] show_u64_not_sign(1) [of i] parse_u64_show [OF assms]
  by (cases net; cases "show_u64 i")
    (simp_all add: from_str_def address_lengths parse_network_def parse_protocol_def)

lemma from_str_payload:
  assumes p: "p \<noteq> PID"
    and dec: "b32d tx = Some (pl @ checksum blake (protocol_byte p # pl))"
    and cks: "length (checksum blake (protocol_byte p # pl)) = CHECKSUM_HASH_LEN"
    and pl: "length pl = (if p = PBLS then BLS_PUB_LEN else PAYLOAD_HASH_LEN)"
    and tx: "tx \<noteq> []" "length tx \<le> 84"
  shows "from_str lw lr b32d blake (to_prefix net @ show_protocol p @ tx) =
    res_bind (payload_new lw lr p pl) (\<lambda>a. Inr (net, a))"
proof -
  let ?s = "to_prefix net @ show_protocol p @ tx"
  have len: "\<not> (MAX_ADDRESS_LEN < length ?s \<or> length ?s < 3)"
    using tx by (cases tx) (auto simp: MAX_ADDRESS_LEN_def)
  have net: "parse_network (?s ! 0) = Some net"
    by (cases net) (simp_all add: parse_network_def)
  have prot: "parse_protocol (?s ! 1) = Some p"
    by (cases net; cases p) (simp_all add: parse_protocol_def)
  have raw: "drop 2 ?s = tx" by (cases net; cases p) simp_all
  show ?thesis
    unfolding from_str_def raw net prot using len p dec cks pl
    by (cases p) (simp_all add: validate_checksum_def)
qed

lemma from_str_encode:
  assumes leb: "\<And>i. i < 2 ^ 64 \<Longrightarrow> lr (lw i) = Some i"
    and dec: "\<And>bz. b32d (b32e bz) = Some bz"
    and len: "\<And>bz. length bz \<le> length (b32e bz) \<and> length (b32e bz) \<le> (8 * length bz + 4) div 5"
    and dig: "\<And>bz n. length (blake bz n) = n"
    and ok: "addr_ok a"
  shows "\<exists>s. encode lw lr b32e blake net a = Inr s \<and> from_str lw lr b32d blake s = Inr (net, a)"
proof (cases "protocol a = PID")
  case True
  then obtain i where a: "a = ID i" by (cases a) simp_all
  with ok leb show ?thesis
    by (simp add: encode_def from_leb_bytes_write from_str_id [simplified])
next
  case False
  let ?pl = "to_raw_bytes lw a" and ?p = "protocol a"
  let ?full = "?pl @ checksum blake (protocol_byte ?p # ?pl)"
  have pl: "length ?pl = (if ?p = PBLS then BLS_PUB_LEN else PAYLOAD_HASH_LEN)"
    by (rule length_raw_bytes [OF ok False])
  have cks: "length (checksum blake (protocol_byte ?p # ?pl)) = CHECKSUM_HASH_LEN"
    by (simp add: checksum_def dig)
  have full: "length ?full \<noteq> 0" "(8 * length ?full + 4) div 5 \<le> 84"
    using pl cks by (simp_all add: address_lengths)
  then have tx: "b32e ?full \<noteq> []" "length (b32e ?full) \<le> 84"
    using len [of ?full] by (auto simp del: length_append length_0_conv)
  show ?thesis
    using from_str_payload [where tx = "b32e ?full" and b32d = b32d and net = net, OF False dec cks pl tx] False
      payload_new_raw [of lr lw, OF leb ok]
    by (simp add: encode_def address_to_bytes_def)
qed

definition unary_write :: "nat \<Rightarrow> bytes" where
  "unary_write i = replicate (Suc i) 0"

definition unary_read :: "bytes \<Rightarrow> nat option" where
  "unary_read bz = (if bz = [] then None else Some (length bz - 1))"

lemma unary_read_write: "unary_read (unary_write i) = Some i \<and> unary_write i \<noteq> []"
  by (simp add: unary_read_def unary_write_def)

definition char_text :: "bytes \<Rightarrow> string" where
  "char_text bz = map (\<lambda>b. char_of (unat b)) bz"

definition text_char :: "string \<Rightarrow> bytes option" where
  "text_char s = Some (map (\<lambda>c. of_nat (of_char c)) s)"

lemma text_char_text: "text_char (char_text bz) = Some bz"
proof -
  have "unat b mod 256 = unat b" for b :: byte
    using unsigned_less [of b, where ?'a = nat] by simp
  then show ?thesis by (simp add: text_char_def char_text_def comp_def)
qed

lemma length_char_text: "length (char_text bz) = length bz"
  by (simp add: char_text_def)

section \<open>Properties\<close>

text \<open>C18. The byte form of an address is a bijection between well-formed addresses and the byte
  strings \<open>Address::from_bytes\<close> accepts: decoding the encoding of an address gives the address back,
  and any accepted byte string is the encoding of the address it decodes to, so no two byte strings
  name the same actor.  The hypotheses are what the LEB128 crate documents: a written number is
  not empty and reads back.\<close>

theorem address_bytes_roundtrip:
  assumes "\<And>i. i < 2 ^ 64 \<Longrightarrow> lr (lw i) = Some i \<and> lw i \<noteq> []"
  shows "(addr_ok a \<longrightarrow> address_from_bytes lw lr (address_to_bytes lw a) = Inr a) \<and>
         (address_from_bytes lw lr bz = Inr b \<longrightarrow> address_to_bytes lw b = bz)"
  using from_bytes_to_bytes [OF assms] from_bytes_canonical by blast

theorem address_bytes_roundtrip_witness:
  "address_from_bytes unary_write unary_read (address_to_bytes unary_write (ID 3)) = Inr (ID 3) \<and>
   address_from_bytes unary_write unary_read [0, 0, 0] = Inr (ID 1) \<and>
   address_to_bytes unary_write (ID 1) = [0, 0, 0]"
  using address_bytes_roundtrip [of unary_read unary_write "ID 3" "[0, 0, 0]" "ID 1",
      OF unary_read_write]
  by (simp add: address_from_bytes_def protocol_from_byte_def from_leb_bytes_def unary_read_def
      unary_write_def)

text \<open>C19. The text form reads back: for every well-formed address and network, \<open>encode\<close> produces a
  string (it never panics) which \<open>from_str\<close> accepts and parses to the same network and address.
  The hypotheses are the documented behaviour of the crates: a base32 text decodes to what was
  encoded and has at most one character per five bits, and a digest has the requested length.\<close>

theorem address_text_roundtrip:
  assumes "\<And>i. i < 2 ^ 64 \<Longrightarrow> lr (lw i) = Some i"
    and "\<And>bz. b32d (b32e bz) = Some bz"
    and "\<And>bz. length bz \<le> length (b32e bz) \<and> length (b32e bz) \<le> (8 * length bz + 4) div 5"
    and "\<And>bz n. length (blake bz n) = n"
    and "addr_ok a"
  shows "\<exists>s. encode lw lr b32e blake net a = Inr s \<and> from_str lw lr b32d blake s = Inr (net, a)"
  by (rule from_str_encode [OF assms])

theorem address_text_roundtrip_witness:
  "\<exists>s. encode unary_write unary_read char_text (\<lambda>_ n. replicate n 7) Testnet (Actor (replicate 20 5)) = Inr s
     \<and> from_str unary_write unary_read text_char (\<lambda>_ n. replicate n 7) s
         = Inr (Testnet, Actor (replicate 20 5))"
  by (rule address_text_roundtrip)
    (simp_all add: unary_read_write text_char_text length_char_text PAYLOAD_HASH_LEN_def)

text \<open>C20. The exact inputs on which parsing an address text panics: a text of admissible length with
  a valid network and a key or actor protocol character, whose remainder is valid base32 for fewer
  than the four bytes of the checksum.\<close>

theorem from_str_panics_iff:
  "from_str lw lr b32d blake s = Inl AddressPanic \<longleftrightarrow>
     3 \<le> length s \<and> length s \<le> MAX_ADDRESS_LEN \<and> parse_network (s ! 0) \<noteq> None \<and>
     (\<exists>p full. parse_protocol (s ! 1) = Some p \<and> p \<noteq> PID \<and> b32d (drop 2 s) = Some full \<and>
               length full < CHECKSUM_HASH_LEN)"
proof -
  have payload: "payload_new lw lr p bz \<noteq> Inl AddressPanic" for p bz
    by (cases p) (auto simp: from_leb_bytes_def res_bind_eq_Inl ok_or_def split: option.splits)
  show ?thesis
  proof (cases "MAX_ADDRESS_LEN < length s \<or> length s < 3")
    case False
    note len = False
    show ?thesis
    proof (cases "parse_network (s ! 0)"; cases "parse_protocol (s ! 1)")
      fix net p
      assume net: "parse_network (s ! 0) = Some net" and p: "parse_protocol (s ! 1) = Some p"
      show ?thesis
      proof (cases "p = PID")
        case True
        with len net p show ?thesis
          by (simp add: from_str_def Let_def res_bind_eq_Inl ok_or_def split: option.split)
      next
        case False
        with len net p show ?thesis
          by (cases "b32d (drop 2 s)")
            (simp_all add: from_str_def Let_def payload res_bind_eq_Inl not_less)
      qed
    qed (use len in \<open>simp_all add: from_str_def\<close>)
  qed (auto simp: from_str_def)
qed

end
