(* ===== verification/Actor_Types.thy ===== *)
theory Actor_Types
  imports Address
begin

text \<open>
  The data the virtual machine and the built-in actors share: exit codes and actor errors
  (\<open>vm/src\<close>), code identifiers and singleton addresses (\<open>vm/actor/src/builtin\<close>), the state
  structure of each modelled actor, and the actor header kept in the state tree.

  A content identifier that an actor or the state tree stores is modelled by the value it
  addresses: the state of an actor is \<open>ActorData\<close>, the union of the actors' state structures,
  instead of the identifier of its block, and the tables an actor keeps behind a HAMT or AMT root
  are partial functions (association lists where the source iterates over them).  The records carry
  a prefix on field names that several source structures share.
\<close>

section \<open>Exit codes and errors\<close>

datatype ExitCode =
    ExitOk | SysErrSenderInvalid | SysErrSenderStateInvalid | SysErrInvalidMethod
  | SysErrActorPanic | SysErrInvalidReceiver | SysErrInsufficientFunds | SysErrOutOfGas
  | SysErrForbidden | SysErrIllegalActor | SysErrIllegalArgument
  | SysErrReserved2 | SysErrReserved3 | SysErrReserved4 | SysErrReserved5 | SysErrReserved6
  | ErrIllegalArgument | ErrNotFound | ErrForbidden | ErrInsufficientFunds | ErrIllegalState
  | ErrSerialization | ErrTooManyProveCommits | ErrPlaceholder

text \<open>The message of an \<open>ActorError\<close> is for debugging only and is left out.\<close>

record ActorError =
  fatal :: bool
  exit_code :: ExitCode
  recovered :: bool

definition actor_error :: "ExitCode \<Rightarrow> ActorError" where
  "actor_error c = \<lparr>fatal = False, exit_code = c, recovered = False\<rparr>"

definition new_fatal :: ActorError where
  "new_fatal = \<lparr>fatal = True, exit_code = ErrPlaceholder, recovered = False\<rparr>"

definition new_recovered :: "ExitCode \<Rightarrow> ActorError" where
  "new_recovered c = \<lparr>fatal = False, exit_code = c, recovered = True\<rparr>"

lemma actor_error_simps [simp]:
  "exit_code (actor_error c) = c" "\<not> fatal (actor_error c)" "\<not> recovered (actor_error c)"
  "exit_code new_fatal = ErrPlaceholder" "fatal new_fatal" "\<not> recovered new_fatal"
  "exit_code (new_recovered c) = c" "\<not> fatal (new_recovered c)" "recovered (new_recovered c)"
  by (simp_all add: actor_error_def new_fatal_def new_recovered_def)

lemma actor_error_inject [simp]: "actor_error c = actor_error d \<longleftrightarrow> c = d"
  by (simp add: actor_error_def)

section \<open>Code identifiers and singletons\<close>

type_synonym NetworkVersion = nat

datatype ActorVersion = V0 | V2 | V3 | V4 | V5 | V6

definition actor_version_of :: "NetworkVersion \<Rightarrow> ActorVersion" where
  "actor_version_of v =
    (if v \<le> 3 then V0 else if v \<le> 9 then V2 else if v \<le> 11 then V3 else if v = 12 then V4
     else if v = 13 then V5 else V6)"

datatype ActorKind =
    SystemActor | InitActor | CronActor | AccountActor | PowerActor | MinerActor | MarketActor
  | PaychActor | MultisigActor | RewardActor | VerifregActor

text \<open>A code identifier is a built-in actor of some actors version, or anything else.\<close>

datatype CodeId = Builtin ActorVersion ActorKind | OtherCode nat

fun is_builtin_actor :: "CodeId \<Rightarrow> bool" where
  "is_builtin_actor (Builtin _ _) = True"
| "is_builtin_actor (OtherCode _) = False"

fun is_singleton_actor :: "CodeId \<Rightarrow> bool" where
  "is_singleton_actor (Builtin _ k) =
    (k \<in> {SystemActor, InitActor, RewardActor, CronActor, PowerActor, MarketActor, VerifregActor})"
| "is_singleton_actor (OtherCode _) = False"

fun is_account_actor :: "CodeId \<Rightarrow> bool" where
  "is_account_actor (Builtin _ k) = (k = AccountActor)"
| "is_account_actor (OtherCode _) = False"

fun is_miner_actor :: "CodeId \<Rightarrow> bool" where
  "is_miner_actor (Builtin _ k) = (k = MinerActor)"
| "is_miner_actor (OtherCode _) = False"

fun code_actor_version :: "CodeId \<Rightarrow> ActorVersion option" where
  "code_actor_version (Builtin v _) = Some v"
| "code_actor_version (OtherCode _) = None"

definition CALLER_TYPES_SIGNABLE :: "CodeId list" where
  "CALLER_TYPES_SIGNABLE = [Builtin V6 AccountActor, Builtin V6 MultisigActor]"

definition SYSTEM_ACTOR_ADDR :: Address where "SYSTEM_ACTOR_ADDR = ID 0"
definition INIT_ACTOR_ADDR :: Address where "INIT_ACTOR_ADDR = ID 1"
definition REWARD_ACTOR_ADDR :: Address where "REWARD_ACTOR_ADDR = ID 2"
definition CRON_ACTOR_ADDR :: Address where "CRON_ACTOR_ADDR = ID 3"
definition STORAGE_POWER_ACTOR_ADDR :: Address where "STORAGE_POWER_ACTOR_ADDR = ID 4"
definition STORAGE_MARKET_ACTOR_ADDR :: Address where "STORAGE_MARKET_ACTOR_ADDR = ID 5"
definition VERIFIED_REGISTRY_ACTOR_ADDR :: Address where "VERIFIED_REGISTRY_ACTOR_ADDR = ID 6"
definition BURNT_FUNDS_ACTOR_ADDR :: Address where "BURNT_FUNDS_ACTOR_ADDR = ID 99"
definition FIRST_NON_SINGLETON_ADDR :: nat where "FIRST_NON_SINGLETON_ADDR = 100"

lemmas singleton_addr_defs =
  SYSTEM_ACTOR_ADDR_def INIT_ACTOR_ADDR_def REWARD_ACTOR_ADDR_def CRON_ACTOR_ADDR_def
  STORAGE_POWER_ACTOR_ADDR_def STORAGE_MARKET_ACTOR_ADDR_def VERIFIED_REGISTRY_ACTOR_ADDR_def
  BURNT_FUNDS_ACTOR_ADDR_def FIRST_NON_SINGLETON_ADDR_def

section \<open>Actor states\<close>

type_synonym TokenAmount = int
type_synonym ChainEpoch = int
type_synonym MethodNum = nat
type_synonym Serialized = bytes

definition METHOD_SEND :: MethodNum where "METHOD_SEND = 0"
definition METHOD_CONSTRUCTOR :: MethodNum where "METHOD_CONSTRUCTOR = 1"

record InitState =
  address_map :: "Address \<rightharpoonup> nat"
  next_id :: nat
  network_name :: string

record CronEntry =
  entry_receiver :: Address
  entry_method_num :: MethodNum

record Transaction =
  tx_to :: Address
  tx_value :: TokenAmount
  tx_method :: MethodNum
  tx_params :: Serialized
  tx_approved :: "Address list"

record MultisigState =
  signers :: "Address list"
  num_approvals_threshold :: nat
  next_tx_id :: int
  initial_balance :: TokenAmount
  start_epoch :: ChainEpoch
  unlock_duration :: ChainEpoch
  pending_txs :: "(int \<times> Transaction) list"

record LaneState =
  redeemed :: int
  lane_nonce :: nat

record PaychState =
  pay_from :: Address
  pay_to :: Address
  to_send :: TokenAmount
  settling_at :: ChainEpoch
  min_settle_height :: ChainEpoch
  lane_states :: "nat \<rightharpoonup> LaneState"

record VerifregState =
  root_key :: Address
  verifiers :: "Address \<rightharpoonup> int"
  verified_clients :: "Address \<rightharpoonup> int"

record FilterEstimate =
  position :: int
  velocity :: int

record RewardState =
  cumsum_baseline :: int
  cumsum_realized :: int
  effective_network_time :: ChainEpoch
  effective_baseline_power :: int
  this_epoch_reward :: TokenAmount
  this_epoch_reward_smoothed :: FilterEstimate
  this_epoch_baseline_power :: int
  reward_epoch :: ChainEpoch
  total_storage_power_reward :: TokenAmount
  simple_total :: TokenAmount
  baseline_total :: TokenAmount

text \<open>
  \<open>EmptyArr\<close> is the block \<open>EMPTY_ARR_CID\<close> addresses, the state of an actor before its constructor
  ran and also the serialized state of the system actor (an empty array); \<open>RawState\<close> stands for the
  state of an actor that is not modelled.
\<close>

datatype ActorData =
    EmptyArr | InitSt InitState | AccountSt Address | CronSt "CronEntry list"
  | MultisigSt MultisigState | PaychSt PaychState | VerifregSt VerifregState
  | RewardSt RewardState | RawState bytes

section \<open>Actor headers\<close>

record ActorState =
  acode :: CodeId
  adata :: ActorData
  asequence :: nat
  abalance :: TokenAmount

definition ActorState_new :: "CodeId \<Rightarrow> ActorData \<Rightarrow> TokenAmount \<Rightarrow> nat \<Rightarrow> ActorState" where
  "ActorState_new c d b n = \<lparr>acode = c, adata = d, asequence = n, abalance = b\<rparr>"

definition deduct_funds :: "ActorState \<Rightarrow> TokenAmount \<Rightarrow> ActorState option" where
  "deduct_funds act amt =
    (if abalance act < amt then None else Some (act\<lparr>abalance := abalance act - amt\<rparr>))"

definition deposit_funds :: "ActorState \<Rightarrow> TokenAmount \<Rightarrow> ActorState" where
  "deposit_funds act amt = act\<lparr>abalance := abalance act + amt\<rparr>"

section \<open>State of the init actor\<close>

definition init_state_new :: "string \<Rightarrow> InitState" where
  "init_state_new name = \<lparr>address_map = Map.empty, next_id = FIRST_NON_SINGLETON_ADDR, network_name = name\<rparr>"

definition map_address_to_new_id :: "InitState \<Rightarrow> Address \<Rightarrow> Address \<times> InitState" where
  "map_address_to_new_id st a =
    (let i = next_id st in
     (ID i, st\<lparr>next_id := i + 1, address_map := (address_map st)(a \<mapsto> i)\<rparr>))"

definition init_resolve_address :: "InitState \<Rightarrow> Address \<Rightarrow> Address option" where
  "init_resolve_address st a =
    (if protocol a = PID then Some a else map_option ID (address_map st a))"

end
