(* ===== verification/State_Tree.thy ===== *)
theory State_Tree
  imports Actor_Types
begin

text \<open>
  The state tree (\<open>vm/state_tree/src/lib.rs\<close>): the actors of the chain, a base table loaded from a
  state root with a stack of snapshot layers over it.  Reads fill the top layer, writes go to the
  top layer, a snapshot pushes an empty layer, reverting drops what the top layer holds and clearing
  merges the top layer into the one below.

  The base table is the partial function \<open>hamt\<close>; the vector of layers is a list with the top layer
  first, so \<open>layers.last()\<close> is the head and \<open>layers.iter().rev()\<close> the list order.  The interior
  mutability of the layers (reads that fill a cache) is explicit: every operation returns the tree
  it leaves.
\<close>

section \<open>Layers\<close>

record Layer =
  l_actors :: "Address \<rightharpoonup> ActorState option"
  l_resolve :: "Address \<rightharpoonup> Address"

record StateTree =
  hamt :: "Address \<rightharpoonup> ActorState"
  layers :: "Layer list"

datatype TreeError =
    TreePanic | InitNotFound | BadInitState | ResolutionFailed | ActorNotFound | MutateFailed
  | SnapshotsOnStack

definition layer_default :: Layer where
  "layer_default = \<lparr>l_actors = Map.empty, l_resolve = Map.empty\<rparr>"

definition add_layer :: "Layer list \<Rightarrow> Layer list" where
  "add_layer ls = layer_default # ls"

fun drop_layer :: "Layer list \<Rightarrow> (TreeError, Layer list) res" where
  "drop_layer [] = Inl TreePanic"
| "drop_layer (l # ls) = Inr ls"

fun merge_last_layer :: "Layer list \<Rightarrow> (TreeError, Layer list) res" where
  "merge_last_layer (l # below # ls) =
    Inr (\<lparr>l_actors = l_actors below ++ l_actors l, l_resolve = l_resolve below ++ l_resolve l\<rparr> # ls)"
| "merge_last_layer _ = Inl TreePanic"

fun snaps_resolve_address :: "Layer list \<Rightarrow> Address \<Rightarrow> Address option" where
  "snaps_resolve_address [] a = None"
| "snaps_resolve_address (l # ls) a =
    (case l_resolve l a of Some r \<Rightarrow> Some r | None \<Rightarrow> snaps_resolve_address ls a)"

fun cache_resolve_address :: "Layer list \<Rightarrow> Address \<Rightarrow> Address \<Rightarrow> (TreeError, Layer list) res" where
  "cache_resolve_address [] a r = Inl TreePanic"
| "cache_resolve_address (l # ls) a r = Inr (l\<lparr>l_resolve := (l_resolve l)(a \<mapsto> r)\<rparr> # ls)"

text \<open>
  The first layer that knows the address answers, also when it knows the actor as deleted: a
  deleted actor and one no layer knows both give \<open>None\<close>.
\<close>

fun snaps_get_actor :: "Layer list \<Rightarrow> Address \<Rightarrow> ActorState option" where
  "snaps_get_actor [] a = None"
| "snaps_get_actor (l # ls) a =
    (case l_actors l a of Some state \<Rightarrow> state | None \<Rightarrow> snaps_get_actor ls a)"

fun snaps_set_actor :: "Layer list \<Rightarrow> Address \<Rightarrow> ActorState \<Rightarrow> (TreeError, Layer list) res" where
  "snaps_set_actor [] a act = Inl TreePanic"
| "snaps_set_actor (l # ls) a act = Inr (l\<lparr>l_actors := (l_actors l)(a \<mapsto> Some act)\<rparr> # ls)"

fun snaps_delete_actor :: "Layer list \<Rightarrow> Address \<Rightarrow> (TreeError, Layer list) res" where
  "snaps_delete_actor [] a = Inl TreePanic"
| "snaps_delete_actor (l # ls) a = Inr (l\<lparr>l_actors := (l_actors l)(a \<mapsto> None)\<rparr> # ls)"

section \<open>Operations of the tree\<close>

definition tree_new :: "(Address \<rightharpoonup> ActorState) \<Rightarrow> StateTree" where
  "tree_new h = \<lparr>hamt = h, layers = [layer_default]\<rparr>"

text \<open>\<open>on_layers\<close> runs an operation on the stack of layers of the tree.\<close>

definition on_layers ::
  "(Layer list \<Rightarrow> (TreeError, Layer list) res) \<Rightarrow> (StateTree, TreeError, unit) sm" where
  "on_layers f t = (case f (layers t) of Inl e \<Rightarrow> (Inl e, t) | Inr ls \<Rightarrow> (Inr (), t\<lparr>layers := ls\<rparr>))"

text \<open>The part of \<open>StateTree::get_actor\<close> after the address is resolved.\<close>

definition get_actor_at :: "Address \<Rightarrow> (StateTree, TreeError, ActorState option) sm" where
  "get_actor_at a =
    sm_bind (sm_get (\<lambda>t. snaps_get_actor (layers t) a)) (\<lambda>cached.
    case cached of
      Some act \<Rightarrow> sm_ret (Some act)
    | None \<Rightarrow>
        sm_bind (sm_get (\<lambda>t. hamt t a)) (\<lambda>act.
        case act of
          None \<Rightarrow> sm_ret None
        | Some act_s \<Rightarrow>
            sm_bind (on_layers (\<lambda>ls. snaps_set_actor ls a act_s)) (\<lambda>_. sm_ret (Some act_s))))"

fun init_data :: "ActorState \<Rightarrow> InitState option" where
  "init_data act = (case adata act of InitSt st \<Rightarrow> Some st | _ \<Rightarrow> None)"

definition lookup_id :: "Address \<Rightarrow> (StateTree, TreeError, Address option) sm" where
  "lookup_id a =
    (if protocol a = PID then sm_ret (Some a)
     else
       sm_bind (sm_get (\<lambda>t. snaps_resolve_address (layers t) a)) (\<lambda>cached.
       case cached of
         Some r \<Rightarrow> sm_ret (Some r)
       | None \<Rightarrow>
           sm_bind (get_actor_at INIT_ACTOR_ADDR) (\<lambda>init.
           sm_bind (sm_lift (ok_or init InitNotFound)) (\<lambda>init_act.
           sm_bind (sm_lift (ok_or (init_data init_act) BadInitState)) (\<lambda>st.
           case init_resolve_address st a of
             None \<Rightarrow> sm_ret None
           | Some r \<Rightarrow>
               sm_bind (on_layers (\<lambda>ls. cache_resolve_address ls a r)) (\<lambda>_. sm_ret (Some r)))))))"

definition get_actor :: "Address \<Rightarrow> (StateTree, TreeError, ActorState option) sm" where
  "get_actor a =
    sm_bind (lookup_id a) (\<lambda>r. case r of None \<Rightarrow> sm_ret None | Some a' \<Rightarrow> get_actor_at a')"

definition set_actor :: "Address \<Rightarrow> ActorState \<Rightarrow> (StateTree, TreeError, unit) sm" where
  "set_actor a act =
    sm_bind (lookup_id a) (\<lambda>r.
    sm_bind (sm_lift (ok_or r ResolutionFailed)) (\<lambda>a'.
    on_layers (\<lambda>ls. snaps_set_actor ls a' act)))"

definition delete_actor :: "Address \<Rightarrow> (StateTree, TreeError, unit) sm" where
  "delete_actor a =
    sm_bind (lookup_id a) (\<lambda>r.
    sm_bind (sm_lift (ok_or r ResolutionFailed)) (\<lambda>a'.
    on_layers (\<lambda>ls. snaps_delete_actor ls a')))"

definition mutate_actor ::
  "Address \<Rightarrow> (ActorState \<Rightarrow> ActorState option) \<Rightarrow> (StateTree, TreeError, unit) sm" where
  "mutate_actor a f =
    sm_bind (get_actor a) (\<lambda>r.
    sm_bind (sm_lift (ok_or r ActorNotFound)) (\<lambda>act.
    sm_bind (sm_lift (ok_or (f act) MutateFailed)) (\<lambda>act'.
    set_actor a act')))"

definition register_new_address :: "Address \<Rightarrow> (StateTree, TreeError, Address) sm" where
  "register_new_address a =
    sm_bind (get_actor INIT_ACTOR_ADDR) (\<lambda>r.
    sm_bind (sm_lift (ok_or r InitNotFound)) (\<lambda>actor.
    sm_bind (sm_lift (ok_or (init_data actor) BadInitState)) (\<lambda>ias.
    let (new_addr, ias') = map_address_to_new_id ias a in
    sm_bind (set_actor INIT_ACTOR_ADDR (actor\<lparr>adata := InitSt ias'\<rparr>)) (\<lambda>_.
    sm_ret new_addr))))"

definition snapshot :: "(StateTree, TreeError, unit) sm" where
  "snapshot = on_layers (\<lambda>ls. Inr (add_layer ls))"

definition clear_snapshot :: "(StateTree, TreeError, unit) sm" where
  "clear_snapshot = on_layers merge_last_layer"

definition revert_to_snapshot :: "(StateTree, TreeError, unit) sm" where
  "revert_to_snapshot =
    sm_bind (on_layers drop_layer) (\<lambda>_. on_layers (\<lambda>ls. Inr (add_layer ls)))"

text \<open>\<open>flush\<close> writes the entries of the single remaining layer to the base table.\<close>

definition write_layer :: "(Address \<rightharpoonup> ActorState) \<Rightarrow> Layer \<Rightarrow> (Address \<rightharpoonup> ActorState)" where
  "write_layer h l = (\<lambda>a. case l_actors l a of
      None \<Rightarrow> h a
    | Some None \<Rightarrow> None
    | Some (Some state) \<Rightarrow> Some state)"

definition flush :: "(StateTree, TreeError, Address \<rightharpoonup> ActorState) sm" where
  "flush t = (case layers t of
      [l] \<Rightarrow> (let h = write_layer (hamt t) l in (Inr h, t\<lparr>hamt := h\<rparr>))
    | _ \<Rightarrow> (Inl SnapshotsOnStack, t))"

section \<open>The tree as a stack of tables\<close>

text \<open>
  \<open>view_of h ls\<close> is the table that reads through the layers \<open>ls\<close> over the base \<open>h\<close>, and \<open>tree_stack\<close>
  the tables of the tree, of the current state first and then of each open snapshot.
\<close>

definition view_of :: "(Address \<rightharpoonup> ActorState) \<Rightarrow> Layer list \<Rightarrow> (Address \<rightharpoonup> ActorState)" where
  "view_of h ls = (\<lambda>a. case snaps_get_actor ls a of Some act \<Rightarrow> Some act | None \<Rightarrow> h a)"

definition view :: "StateTree \<Rightarrow> (Address \<rightharpoonup> ActorState)" where
  "view t = view_of (hamt t) (layers t)"

fun stack_of :: "(Address \<rightharpoonup> ActorState) \<Rightarrow> Layer list \<Rightarrow> (Address \<rightharpoonup> ActorState) list" where
  "stack_of h [] = []"
| "stack_of h (l # ls) = view_of h (l # ls) # stack_of h ls"

definition tree_stack :: "StateTree \<Rightarrow> (Address \<rightharpoonup> ActorState) list" where
  "tree_stack t = stack_of (hamt t) (layers t)"

section \<open>Reads and writes\<close>

text \<open>The resolution of an address in the current state of the tree.\<close>

definition resolve :: "StateTree \<Rightarrow> Address \<Rightarrow> Address option" where
  "resolve t a =
    (if protocol a = PID then Some a
     else case snaps_resolve_address (layers t) a of
       Some r \<Rightarrow> Some r
     | None \<Rightarrow> (case Option.bind (view t INIT_ACTOR_ADDR) init_data of
         None \<Rightarrow> None
       | Some st \<Rightarrow> init_resolve_address st a))"

text \<open>
  \<open>frame t t'\<close>: the base table and the open snapshots are untouched; \<open>read_eq t t'\<close>: moreover every
  read and every resolution answers as before.
\<close>

definition frame :: "StateTree \<Rightarrow> StateTree \<Rightarrow> bool" where
  "frame t t' = (hamt t' = hamt t \<and> tl (layers t') = tl (layers t) \<and> length (layers t') = length (layers t))"

definition read_eq :: "StateTree \<Rightarrow> StateTree \<Rightarrow> bool" where
  "read_eq t t' = (frame t t' \<and> view t' = view t \<and> resolve t' = resolve t)"

definition tree_ok :: "StateTree \<Rightarrow> bool" where
  "tree_ok t = (layers t \<noteq> [] \<and> (\<forall>l \<in> set (layers t). \<forall>r \<in> ran (l_resolve l). protocol r = PID))"

lemma frame_refl [simp]: "frame t t"
  by (simp add: frame_def)

lemma frame_trans: "frame t u \<Longrightarrow> frame u v \<Longrightarrow> frame t v"
  by (simp add: frame_def)

lemma read_eq_refl [simp]: "read_eq t t"
  by (simp add: read_eq_def)

lemma read_eq_trans: "read_eq t u \<Longrightarrow> read_eq u v \<Longrightarrow> read_eq t v"
  by (auto simp: read_eq_def intro: frame_trans)

lemma reflp_read_eq: "reflp read_eq" and transp_read_eq: "transp read_eq"
  and reflp_frame: "reflp frame" and transp_frame: "transp frame"
  by (auto intro: reflpI transpI read_eq_trans frame_trans)

lemma read_eqD:
  "read_eq t t' \<Longrightarrow> view t' = view t" "read_eq t t' \<Longrightarrow> resolve t' = resolve t"
  "read_eq t t' \<Longrightarrow> frame t t'" "read_eq t t' \<Longrightarrow> hamt t' = hamt t"
  by (simp_all add: read_eq_def frame_def)

lemma view_of_Cons:
  "view_of h (l # ls) a = (case l_actors l a of
     None \<Rightarrow> view_of h ls a | Some None \<Rightarrow> h a | Some (Some act) \<Rightarrow> Some act)"
  by (auto simp: view_of_def split: option.splits)

lemma view_of_set:
  "view_of h (l\<lparr>l_actors := (l_actors l)(a \<mapsto> Some act)\<rparr> # ls) = (view_of h (l # ls))(a \<mapsto> act)"
  by (rule ext) (simp add: view_of_Cons)

lemma view_of_delete:
  "view_of h (l\<lparr>l_actors := (l_actors l)(a \<mapsto> None)\<rparr> # ls) = (view_of h (l # ls))(a := h a)"
  by (rule ext) (simp add: view_of_Cons)

lemma view_of_resolve [simp]:
  "view_of h (l\<lparr>l_resolve := m\<rparr> # ls) = view_of h (l # ls)"
  by (rule ext) (simp add: view_of_Cons)

lemma view_of_default [simp]: "view_of h (layer_default # ls) = view_of h ls"
  by (rule ext) (simp add: view_of_Cons layer_default_def)

lemma view_of_merge:
  "view_of h (\<lparr>l_actors = l_actors m ++ l_actors l, l_resolve = r\<rparr> # ls) = view_of h (l # m # ls)"
  by (rule ext) (simp add: view_of_Cons map_add_def split: option.split)

lemma snaps_resolve_set [simp]:
  "snaps_resolve_address (l\<lparr>l_actors := m\<rparr> # ls) = snaps_resolve_address (l # ls)"
  by (rule ext) simp

lemma snaps_set_actor_eq:
  "ls \<noteq> [] \<Longrightarrow> snaps_set_actor ls a act =
     Inr ((hd ls)\<lparr>l_actors := (l_actors (hd ls))(a \<mapsto> Some act)\<rparr> # tl ls)"
  by (cases ls) simp_all

lemma on_layers_set:
  assumes "tree_ok t"
  obtains t' where "on_layers (\<lambda>ls. snaps_set_actor ls a act) t = (Inr (), t')"
    "frame t t'" "view t' = (view t)(a \<mapsto> act)" "tree_ok t'"
    "snaps_resolve_address (layers t') = snaps_resolve_address (layers t)"
proof -
  from assms obtain l ls where ls: "layers t = l # ls"
    by (cases "layers t") (simp_all add: tree_ok_def)
  show ?thesis
    by (rule that [of "t\<lparr>layers := l\<lparr>l_actors := (l_actors l)(a \<mapsto> Some act)\<rparr> # ls\<rparr>"])
      (use assms ls in \<open>simp_all add: on_layers_def frame_def view_def view_of_set tree_ok_def\<close>)
qed

lemma on_layers_delete:
  assumes "tree_ok t"
  obtains t' where "on_layers (\<lambda>ls. snaps_delete_actor ls a) t = (Inr (), t')"
    "frame t t'" "view t' = (view t)(a := hamt t a)" "tree_ok t'"
    "snaps_resolve_address (layers t') = snaps_resolve_address (layers t)"
proof -
  from assms obtain l ls where ls: "layers t = l # ls"
    by (cases "layers t") (simp_all add: tree_ok_def)
  show ?thesis
    by (rule that [of "t\<lparr>layers := l\<lparr>l_actors := (l_actors l)(a \<mapsto> None)\<rparr> # ls\<rparr>"])
      (use assms ls in \<open>simp_all add: on_layers_def frame_def view_def view_of_delete tree_ok_def\<close>)
qed

lemma resolve_cong:
  "view t' = view t \<Longrightarrow> snaps_resolve_address (layers t') = snaps_resolve_address (layers t) \<Longrightarrow>
   resolve t' = resolve t"
  by (rule ext) (simp only: resolve_def)

lemma resolve_cong_init:
  "Option.bind (view t' INIT_ACTOR_ADDR) init_data = Option.bind (view t INIT_ACTOR_ADDR) init_data \<Longrightarrow>
   snaps_resolve_address (layers t') = snaps_resolve_address (layers t) \<Longrightarrow> resolve t' = resolve t"
  by (rule ext) (simp only: resolve_def)

lemma get_actor_at_ok:
  assumes ok: "tree_ok t"
  obtains t' where "get_actor_at a t = (Inr (view t a), t')" "read_eq t t'" "tree_ok t'"
proof (cases "snaps_get_actor (layers t) a")
  case (Some act)
  then show ?thesis
    using that ok by (simp add: get_actor_at_def sm_bind_def sm_simps view_def view_of_def)
next
  case None
  then have v: "view t a = hamt t a" by (simp add: view_def view_of_def)
  show ?thesis
  proof (cases "hamt t a")
    case None
    with \<open>snaps_get_actor (layers t) a = None\<close> v show ?thesis
      using that ok by (simp add: get_actor_at_def sm_bind_def sm_simps)
  next
    case (Some act)
    from on_layers_set [OF ok, of a act] obtain t' where t':
      "on_layers (\<lambda>ls. snaps_set_actor ls a act) t = (Inr (), t')" "frame t t'"
      "view t' = (view t)(a \<mapsto> act)" "tree_ok t'"
      "snaps_resolve_address (layers t') = snaps_resolve_address (layers t)" .
    have "view t' = view t" using t'(3) v Some by (auto simp: fun_eq_iff)
    then have "read_eq t t'" using t' resolve_cong [of t' t] by (simp add: read_eq_def)
    moreover have "get_actor_at a t = (Inr (view t a), t')"
      using None Some v t'(1) by (simp add: get_actor_at_def sm_bind_def sm_simps)
    ultimately show ?thesis using that t'(4) by blast
  qed
qed

lemma on_layers_cache:
  assumes ok: "tree_ok t" and r: "resolve t a = Some r" "protocol a \<noteq> PID" "protocol r = PID"
  obtains t' where "on_layers (\<lambda>ls. cache_resolve_address ls a r) t = (Inr (), t')"
    "read_eq t t'" "tree_ok t'"
proof -
  from ok obtain l ls where ls: "layers t = l # ls"
    by (cases "layers t") (simp_all add: tree_ok_def)
  let ?t = "t\<lparr>layers := l\<lparr>l_resolve := (l_resolve l)(a \<mapsto> r)\<rparr> # ls\<rparr>"
  have view: "view ?t = view t" using ls by (simp add: view_def)
  have "resolve ?t = resolve t"
  proof
    fix b
    show "resolve ?t b = resolve t b"
    proof (cases "b = a")
      case True
      then show ?thesis using r by (simp add: resolve_def)
    next
      case False
      then show ?thesis unfolding resolve_def view by (simp add: ls)
    qed
  qed
  with view have "read_eq t ?t" using ls by (simp add: read_eq_def frame_def)
  moreover have "tree_ok ?t" using ok ls r(3) by (auto simp: tree_ok_def ran_def)
  moreover have "on_layers (\<lambda>ls. cache_resolve_address ls a r) t = (Inr (), ?t)"
    using ls by (simp add: on_layers_def)
  ultimately show ?thesis using that by blast
qed

lemma snaps_resolve_PID:
  "(\<forall>l \<in> set ls. \<forall>r \<in> ran (l_resolve l). protocol r = PID) \<Longrightarrow>
   snaps_resolve_address ls a = Some r \<Longrightarrow> protocol r = PID"
  by (induction ls) (auto simp: ran_def split: option.splits)

lemma init_resolve_PID: "init_resolve_address st a = Some r \<Longrightarrow> protocol r = PID"
  by (auto simp: init_resolve_address_def split: if_splits)

lemma resolve_PID:
  assumes "tree_ok t" "resolve t a = Some r"
  shows "protocol r = PID"
proof (cases "snaps_resolve_address (layers t) a")
  case None
  with assms(2) show ?thesis
    by (cases "Option.bind (view t INIT_ACTOR_ADDR) init_data")
      (auto simp: resolve_def init_resolve_PID split: if_splits)
next
  case (Some b)
  with assms snaps_resolve_PID [of "layers t" a b] show ?thesis
    by (auto simp: resolve_def tree_ok_def split: if_splits)
qed

lemma resolve_ID [simp]: "resolve t (ID i) = Some (ID i)"
  by (simp add: resolve_def)

lemma resolve_resolve: "tree_ok t \<Longrightarrow> resolve t a = Some r \<Longrightarrow> resolve t r = Some r"
  using resolve_PID [of t a r] by (simp add: resolve_def [of t r])

text \<open>
  \<open>has_init\<close>: the init actor is present with its own state, as in every state tree of the chain.
\<close>

definition has_init :: "StateTree \<Rightarrow> bool" where
  "has_init t = (\<exists>act st. view t INIT_ACTOR_ADDR = Some act \<and> adata act = InitSt st)"

lemma lookup_id_ok:
  assumes ok: "tree_ok t" and init: "has_init t"
  obtains t' where "lookup_id a t = (Inr (resolve t a), t')" "read_eq t t'" "tree_ok t'"
proof (cases "protocol a = PID \<or> snaps_resolve_address (layers t) a \<noteq> None")
  case True
  then show ?thesis
    using that [of t] ok by (auto simp: lookup_id_def resolve_def sm_bind_def sm_simps)
next
  case False
  then have nid: "protocol a \<noteq> PID" and nc: "snaps_resolve_address (layers t) a = None" by auto
  from init obtain act st where act: "view t INIT_ACTOR_ADDR = Some act" "adata act = InitSt st"
    by (auto simp: has_init_def)
  then have r: "resolve t a = init_resolve_address st a"
    using nid nc by (simp add: resolve_def)
  from get_actor_at_ok [OF ok, of INIT_ACTOR_ADDR] obtain u where u:
    "get_actor_at INIT_ACTOR_ADDR t = (Inr (view t INIT_ACTOR_ADDR), u)" "read_eq t u" "tree_ok u" .
  show ?thesis
  proof (cases "resolve t a")
    case None
    then show ?thesis
      using that [OF _ u(2,3)] u(1) act nid nc r by (simp add: lookup_id_def sm_bind_def sm_simps)
  next
    case (Some b)
    then have b: "resolve u a = Some b" "protocol b = PID"
      using u resolve_PID [OF ok] by (simp_all add: read_eqD)
    from on_layers_cache [OF u(3) b(1) nid b(2)] obtain t' where t':
      "on_layers (\<lambda>ls. cache_resolve_address ls a b) u = (Inr (), t')" "read_eq u t'" "tree_ok t'" .
    moreover have "init_resolve_address st a = Some b" using r Some by simp
    ultimately show ?thesis
      using that [of t'] u act nid nc Some read_eq_trans [OF u(2) t'(2)]
      by (simp add: lookup_id_def sm_bind_def sm_simps)
  qed
qed

lemma get_actor_ok:
  assumes ok: "tree_ok t" and init: "has_init t"
  obtains t' where "get_actor a t = (Inr (Option.bind (resolve t a) (view t)), t')"
    "read_eq t t'" "tree_ok t'"
proof -
  from lookup_id_ok [OF ok init, of a] obtain u where u:
    "lookup_id a t = (Inr (resolve t a), u)" "read_eq t u" "tree_ok u" .
  show ?thesis
  proof (cases "resolve t a")
    case None
    then show ?thesis using that [OF _ u(2,3)] u(1) by (simp add: get_actor_def sm_bind_def sm_simps)
  next
    case (Some b)
    from get_actor_at_ok [OF u(3), of b] obtain t' where t':
      "get_actor_at b u = (Inr (view u b), t')" "read_eq u t'" "tree_ok t'" .
    then show ?thesis
      using that [of t'] u Some read_eq_trans [OF u(2) t'(2)]
      by (simp add: get_actor_def sm_bind_def read_eqD)
  qed
qed

lemma set_actor_ok:
  assumes ok: "tree_ok t" and init: "has_init t"
  obtains t' where
    "set_actor a act t = (case resolve t a of None \<Rightarrow> Inl ResolutionFailed | Some _ \<Rightarrow> Inr (), t')"
    "frame t t'" "tree_ok t'"
    "view t' = (case resolve t a of None \<Rightarrow> view t | Some b \<Rightarrow> (view t)(b \<mapsto> act))"
    "Option.bind (view t' INIT_ACTOR_ADDR) init_data = Option.bind (view t INIT_ACTOR_ADDR) init_data \<longrightarrow>
     resolve t' = resolve t"
proof -
  from lookup_id_ok [OF ok init, of a] obtain u where u:
    "lookup_id a t = (Inr (resolve t a), u)" "read_eq t u" "tree_ok u" .
  show ?thesis
  proof (cases "resolve t a")
    case None
    then show ?thesis
      using that [of u] u by (simp add: set_actor_def sm_bind_def sm_simps read_eqD)
  next
    case (Some b)
    from on_layers_set [OF u(3), of b act] obtain t' where t':
      "on_layers (\<lambda>ls. snaps_set_actor ls b act) u = (Inr (), t')" "frame u t'"
      "view t' = (view u)(b \<mapsto> act)" "tree_ok t'"
      "snaps_resolve_address (layers t') = snaps_resolve_address (layers u)" .
    have "Option.bind (view t' INIT_ACTOR_ADDR) init_data = Option.bind (view t INIT_ACTOR_ADDR) init_data \<longrightarrow>
        resolve t' = resolve t"
      using resolve_cong_init [of t' u, OF _ t'(5)] read_eqD(1,2) [OF u(2)] by (metis (no_types))
    with t' show ?thesis
      using that [of t'] u Some frame_trans [OF read_eqD(3) [OF u(2)] t'(2)]
      by (simp add: set_actor_def sm_bind_def sm_simps read_eqD)
  qed
qed

lemma delete_actor_ok:
  assumes ok: "tree_ok t" and init: "has_init t"
  obtains t' where
    "delete_actor a t = (case resolve t a of None \<Rightarrow> Inl ResolutionFailed | Some _ \<Rightarrow> Inr (), t')"
    "frame t t'" "tree_ok t'"
    "view t' = (case resolve t a of None \<Rightarrow> view t | Some b \<Rightarrow> (view t)(b := hamt t b))"
proof -
  from lookup_id_ok [OF ok init, of a] obtain u where u:
    "lookup_id a t = (Inr (resolve t a), u)" "read_eq t u" "tree_ok u" .
  show ?thesis
  proof (cases "resolve t a")
    case None
    then show ?thesis
      using that [of u] u by (simp add: delete_actor_def sm_bind_def sm_simps read_eqD)
  next
    case (Some b)
    from on_layers_delete [OF u(3), of b] obtain t' where t':
      "on_layers (\<lambda>ls. snaps_delete_actor ls b) u = (Inr (), t')" "frame u t'"
      "view t' = (view u)(b := hamt u b)" "tree_ok t'"
      "snaps_resolve_address (layers t') = snaps_resolve_address (layers u)" .
    then show ?thesis
      using that [of t'] u Some frame_trans [OF read_eqD(3) [OF u(2)] t'(2)]
      by (simp add: delete_actor_def sm_bind_def sm_simps read_eqD)
  qed
qed

section \<open>Snapshots\<close>

lemma tree_stack_Cons:
  "layers t \<noteq> [] \<Longrightarrow> tree_stack t = view t # stack_of (hamt t) (tl (layers t))"
  by (cases "layers t") (simp_all add: tree_stack_def view_def)

lemma length_stack_of [simp]: "length (stack_of h ls) = length ls"
  by (induction ls) simp_all

lemma length_tree_stack: "length (tree_stack t) = length (layers t)"
  by (simp add: tree_stack_def)

lemma frame_layers: "frame t t' \<Longrightarrow> layers t \<noteq> [] \<Longrightarrow> layers t' \<noteq> []"
  by (auto simp: frame_def)

lemma frame_tree_stack:
  assumes "frame t t'" "layers t \<noteq> []"
  shows "tree_stack t' = view t' # tl (tree_stack t)"
  using assms frame_layers [OF assms] by (simp add: tree_stack_Cons frame_def)

lemma read_eq_tree_stack: "read_eq t t' \<Longrightarrow> layers t \<noteq> [] \<Longrightarrow> tree_stack t' = tree_stack t"
  by (simp add: frame_tree_stack [of t t'] read_eq_def) (simp add: tree_stack_Cons)

lemma snapshot_ok:
  assumes "tree_ok t"
  shows "snapshot t = (Inr (), t\<lparr>layers := layer_default # layers t\<rparr>)"
    and "tree_ok (t\<lparr>layers := layer_default # layers t\<rparr>)"
    and "view (t\<lparr>layers := layer_default # layers t\<rparr>) = view t"
  using assms
  by (simp_all add: snapshot_def on_layers_def add_layer_def tree_ok_def layer_default_def view_def
      view_of_default [unfolded layer_default_def])

text \<open>Reverting and then clearing the snapshot gives back the tree the snapshot was taken of.\<close>

lemma revert_clear:
  assumes "frame (t\<lparr>layers := layer_default # layers t\<rparr>) u" and "layers t \<noteq> []"
  shows "\<exists>v. revert_to_snapshot u = (Inr (), v) \<and> clear_snapshot v = (Inr (), t)"
proof -
  have u: "hamt u = hamt t" "tl (layers u) = layers t" "length (layers u) = Suc (length (layers t))"
    using assms(1) by (simp_all add: frame_def)
  then obtain l where l: "layers u = l # layers t" by (cases "layers u") auto
  obtain m ls where m: "layers t = m # ls" using assms(2) by (cases "layers t") auto
  show ?thesis
    using u l m
    by (simp add: revert_to_snapshot_def clear_snapshot_def sm_bind_def on_layers_def add_layer_def
        layer_default_def)
qed

lemma clear_snapshot_ok:
  assumes "tree_ok u" "layers u = l # m # ls"
  shows "\<exists>v. clear_snapshot u = (Inr (), v) \<and> tree_ok v \<and> view v = view u \<and> hamt v = hamt u \<and>
    tl (layers v) = ls \<and> length (layers v) = Suc (length ls) \<and>
    snaps_resolve_address (layers v) = snaps_resolve_address (layers u)"
proof -
  let ?m = "\<lparr>l_actors = l_actors m ++ l_actors l, l_resolve = l_resolve m ++ l_resolve l\<rparr>"
  let ?v = "u\<lparr>layers := ?m # ls\<rparr>"
  have "clear_snapshot u = (Inr (), ?v)"
    using assms(2) by (simp add: clear_snapshot_def on_layers_def)
  moreover have "view ?v = view u" using assms(2) by (simp add: view_def view_of_merge)
  moreover have "snaps_resolve_address (layers ?v) = snaps_resolve_address (layers u)"
    using assms(2) by (auto simp: fun_eq_iff map_add_def split: option.split)
  moreover have "tree_ok ?v"
    using assms by (auto simp: tree_ok_def ran_def map_add_def split: option.splits)
  ultimately show ?thesis by simp
qed

lemma tree_flush_ok:
  assumes "layers t = [l]"
  shows "flush t = (Inr (write_layer (hamt t) l), t\<lparr>hamt := write_layer (hamt t) l\<rparr>)"
    and "write_layer (hamt t) l a = (if l_actors l a = Some None then None else view t a)"
proof -
  show "flush t = (Inr (write_layer (hamt t) l), t\<lparr>hamt := write_layer (hamt t) l\<rparr>)"
    using assms by (simp add: flush_def Let_def)
  show "write_layer (hamt t) l a = (if l_actors l a = Some None then None else view t a)"
    using assms by (auto simp: view_def view_of_def write_layer_def split: option.splits)
qed

section \<open>Snapshot stores\<close>

text \<open>
  What the interpreter relies on: a store of tables with a stack of snapshots.  \<open>tables\<close> are the
  current table and those of the open snapshots, \<open>put\<close> writes the current one.
\<close>

locale snapshot_store =
  fixes ok :: "'s \<Rightarrow> bool"
    and tables :: "'s \<Rightarrow> ('k \<rightharpoonup> 'v) list"
    and put :: "'k \<Rightarrow> 'v \<Rightarrow> 's \<Rightarrow> 's"
    and push :: "'s \<Rightarrow> 's"
    and revert :: "'s \<Rightarrow> 's"
    and commit :: "'s \<Rightarrow> 's"
  assumes ok_put: "ok s \<Longrightarrow> ok (put k v s)"
    and ok_push: "ok s \<Longrightarrow> ok (push s)"
    and ok_revert: "ok s \<Longrightarrow> Suc 0 < length (tables s) \<Longrightarrow> ok (revert s)"
    and tables_ne: "ok s \<Longrightarrow> tables s \<noteq> []"
    and tables_put: "ok s \<Longrightarrow> tables (put k v s) = (hd (tables s))(k \<mapsto> v) # tl (tables s)"
    and tables_push: "ok s \<Longrightarrow> tables (push s) = hd (tables s) # tables s"
    and tables_revert: "ok s \<Longrightarrow> Suc 0 < length (tables s) \<Longrightarrow>
      tables (revert s) = hd (tl (tables s)) # tl (tables s)"
    and tables_commit: "ok s \<Longrightarrow> Suc 0 < length (tables s) \<Longrightarrow>
      tables (commit s) = hd (tables s) # tl (tl (tables s))"
begin

definition puts :: "('k \<times> 'v) list \<Rightarrow> 's \<Rightarrow> 's" where
  "puts kvs s = fold (\<lambda>(k, v). put k v) kvs s"

lemma puts_ok: "ok s \<Longrightarrow> ok (puts kvs s)"
  by (induction kvs arbitrary: s) (auto simp: puts_def ok_put)

lemma tables_puts:
  "ok s \<Longrightarrow> tables (puts kvs s) = (hd (tables s))(map fst kvs [\<mapsto>] map snd kvs) # tl (tables s)"
proof (induction kvs arbitrary: s)
  case Nil
  then show ?case using tables_ne by (simp add: puts_def)
next
  case (Cons kv kvs)
  then have "tables (puts kvs (put (fst kv) (snd kv) s)) =
      (hd (tables s))(fst kv \<mapsto> snd kv, map fst kvs [\<mapsto>] map snd kvs) # tl (tables s)"
    by (simp only: ok_put tables_put list.sel)
  then show ?case by (simp add: puts_def split_beta)
qed

lemma reverted_writes_vanish:
  assumes "ok s"
  shows "tables (commit (revert (puts kvs (push s)))) = tables s"
proof -
  have ok: "ok (puts kvs (push s))" by (intro puts_ok ok_push assms)
  have t: "tables (puts kvs (push s)) = (hd (tables s))(map fst kvs [\<mapsto>] map snd kvs) # tables s"
    using tables_puts [OF ok_push [OF assms]] tables_push [OF assms] by simp
  with tables_ne [OF assms] have len: "Suc 0 < length (tables (puts kvs (push s)))" by simp
  have t': "tables (revert (puts kvs (push s))) = hd (tables s) # tables s"
    using tables_revert [OF ok len] t by simp
  then show ?thesis
    using tables_commit [OF ok_revert [OF ok len]] tables_ne [OF assms] by simp
qed

lemma committed_writes_stay:
  assumes "ok s"
  shows "tables (commit (puts kvs (push s))) = tables (puts kvs s)"
proof -
  have ok: "ok (puts kvs (push s))" by (intro puts_ok ok_push assms)
  have t: "tables (puts kvs (push s)) = (hd (tables s))(map fst kvs [\<mapsto>] map snd kvs) # tables s"
    using tables_puts [OF ok_push [OF assms]] tables_push [OF assms] by simp
  with tables_ne [OF assms] have len: "Suc 0 < length (tables (puts kvs (push s)))" by simp
  show ?thesis using tables_commit [OF ok len] t tables_puts [OF assms] by simp
qed

end

definition tree_put :: "nat \<Rightarrow> ActorState \<Rightarrow> StateTree \<Rightarrow> StateTree" where
  "tree_put i act t = snd (set_actor (ID i) act t)"

definition id_tables :: "StateTree \<Rightarrow> (nat \<rightharpoonup> ActorState) list" where
  "id_tables t = map (\<lambda>m i. m (ID i)) (tree_stack t)"

lemma set_actor_ID:
  assumes "tree_ok t"
  shows "fst (set_actor (ID i) act t) = Inr ()" "tree_ok (tree_put i act t)"
    "frame t (tree_put i act t)" "view (tree_put i act t) = (view t)(ID i \<mapsto> act)"
proof -
  from on_layers_set [OF assms, of "ID i" act] obtain t' where
    "on_layers (\<lambda>ls. snaps_set_actor ls (ID i) act) t = (Inr (), t')" "frame t t'"
    "view t' = (view t)(ID i \<mapsto> act)" "tree_ok t'"
    "snaps_resolve_address (layers t') = snaps_resolve_address (layers t)" .
  then show "fst (set_actor (ID i) act t) = Inr ()" "tree_ok (tree_put i act t)"
    "frame t (tree_put i act t)" "view (tree_put i act t) = (view t)(ID i \<mapsto> act)"
    by (simp_all add: tree_put_def set_actor_def lookup_id_def sm_bind_def sm_simps)
qed

interpretation tree: snapshot_store tree_ok id_tables tree_put "\<lambda>t. snd (snapshot t)"
  "\<lambda>t. snd (revert_to_snapshot t)" "\<lambda>t. snd (clear_snapshot t)"
proof
  fix t k v
  assume ok: "tree_ok t"
  then have ne: "layers t \<noteq> []" by (simp add: tree_ok_def)
  show "tree_ok (tree_put k v t)" using ok by (rule set_actor_ID)
  show "tree_ok (snd (snapshot t))" using snapshot_ok [OF ok] by simp
  show "id_tables t \<noteq> []" using ne by (simp add: id_tables_def tree_stack_Cons)
  show "id_tables (tree_put k v t) = (hd (id_tables t))(k \<mapsto> v) # tl (id_tables t)"
    using frame_tree_stack [OF set_actor_ID(3) [OF ok] ne] set_actor_ID(4) [OF ok]
    by (simp add: id_tables_def tree_stack_Cons [OF ne] fun_eq_iff)
  show "id_tables (snd (snapshot t)) = hd (id_tables t) # id_tables t"
    using snapshot_ok [OF ok] ne
    by (cases "layers t") (simp_all add: id_tables_def tree_stack_def view_def)
  assume "Suc 0 < length (id_tables t)"
  then obtain l m ls where l: "layers t = l # m # ls"
    by (auto simp: id_tables_def length_tree_stack Suc_less_eq2 length_Suc_conv neq_Nil_conv
             dest!: less_imp_Suc_add)
  show "tree_ok (snd (revert_to_snapshot t))"
    using ok l by (simp add: revert_to_snapshot_def sm_bind_def on_layers_def add_layer_def tree_ok_def layer_default_def)
  show "id_tables (snd (revert_to_snapshot t)) = hd (tl (id_tables t)) # tl (id_tables t)"
    using l by (simp add: revert_to_snapshot_def sm_bind_def on_layers_def add_layer_def
        id_tables_def tree_stack_def)
  show "id_tables (snd (clear_snapshot t)) = hd (id_tables t) # tl (tl (id_tables t))"
    using l by (simp add: clear_snapshot_def on_layers_def id_tables_def tree_stack_def view_of_merge)
qed

lemma get_actor_ID:
  assumes "tree_ok t"
  shows "fst (get_actor (ID i) t) = Inr (view t (ID i))"
proof -
  from get_actor_at_ok [OF assms, of "ID i"] obtain t' where
    "get_actor_at (ID i) t = (Inr (view t (ID i)), t')" "read_eq t t'" "tree_ok t'" .
  then show ?thesis by (simp add: get_actor_def lookup_id_def sm_bind_def sm_simps)
qed

lemma delete_actor_ID:
  assumes "tree_ok t"
  shows "fst (delete_actor (ID i) t) = Inr ()" "tree_ok (snd (delete_actor (ID i) t))"
    "frame t (snd (delete_actor (ID i) t))"
    "view (snd (delete_actor (ID i) t)) = (view t)(ID i := hamt t (ID i))"
proof -
  from on_layers_delete [OF assms, of "ID i"] obtain t' where
    "on_layers (\<lambda>ls. snaps_delete_actor ls (ID i)) t = (Inr (), t')" "frame t t'"
    "view t' = (view t)(ID i := hamt t (ID i))" "tree_ok t'"
    "snaps_resolve_address (layers t') = snaps_resolve_address (layers t)" .
  then show "fst (delete_actor (ID i) t) = Inr ()" "tree_ok (snd (delete_actor (ID i) t))"
    "frame t (snd (delete_actor (ID i) t))"
    "view (snd (delete_actor (ID i) t)) = (view t)(ID i := hamt t (ID i))"
    by (simp_all add: delete_actor_def lookup_id_def sm_bind_def sm_simps)
qed

definition sample_actor :: ActorState where
  "sample_actor = ActorState_new (Builtin V6 AccountActor) EmptyArr 10 0"

lemma fst_get_actor: "tree_ok t \<Longrightarrow> has_init t \<Longrightarrow> fst (get_actor a t) = Inr (Option.bind (resolve t a) (view t))"
  by (metis fst_conv get_actor_ok)

lemma fst_lookup_id: "tree_ok t \<Longrightarrow> has_init t \<Longrightarrow> fst (lookup_id a t) = Inr (resolve t a)"
  by (metis fst_conv lookup_id_ok)

lemma lookup_id_new:
  assumes "h INIT_ACTOR_ADDR = Some ia" "adata ia = InitSt st"
  shows "fst (lookup_id a (tree_new h)) = Inr (if protocol a = PID then Some a else map_option ID (address_map st a))"
proof -
  have "tree_ok (tree_new h)" by (simp add: tree_ok_def tree_new_def layer_default_def)
  moreover have v: "view (tree_new h) = h" by (simp add: view_def view_of_def tree_new_def layer_default_def)
  moreover have "has_init (tree_new h)" using assms v by (simp add: has_init_def)
  moreover have "snaps_resolve_address (layers (tree_new h)) a = None" by (simp add: tree_new_def layer_default_def)
  ultimately show ?thesis using assms by (simp add: fst_lookup_id resolve_def init_resolve_address_def)
qed

text \<open>A write through any address, read back through any address.\<close>

lemma set_actor_read:
  assumes t: "tree_ok t" "has_init t" and a: "resolve t a = Some (ID i)" "ID i \<noteq> INIT_ACTOR_ADDR"
  shows "fst (set_actor a act t) = Inr ()"
    "fst (get_actor b (snd (set_actor a act t))) = (if resolve t b = Some (ID i) then Inr (Some act) else fst (get_actor b t))"
proof -
  from set_actor_ok [OF t, of a act] obtain t' where t': "set_actor a act t = (Inr (), t')" "tree_ok t'"
    "view t' = (view t)(ID i \<mapsto> act)"
    "Option.bind (view t' INIT_ACTOR_ADDR) init_data = Option.bind (view t INIT_ACTOR_ADDR) init_data \<longrightarrow> resolve t' = resolve t"
    unfolding a option.case by blast
  have init: "view t' INIT_ACTOR_ADDR = view t INIT_ACTOR_ADDR" using t'(3) a(2) by simp
  then have r: "resolve t' = resolve t" "has_init t'" using t'(4) t(2) by (simp_all add: has_init_def)
  show "fst (set_actor a act t) = Inr ()" by (simp add: t'(1))
  show "fst (get_actor b (snd (set_actor a act t))) = (if resolve t b = Some (ID i) then Inr (Some act) else fst (get_actor b t))"
    using fst_get_actor [OF t'(2) r(2), of b] fst_get_actor [OF t, of b] t'(1,3) r(1) by (cases "resolve t b") auto
qed

lemma set_actor_unresolved:
  assumes t: "tree_ok t" "has_init t" and a: "resolve t a = None"
  shows "fst (set_actor a act t) = Inl ResolutionFailed" "fst (get_actor b (snd (set_actor a act t))) = fst (get_actor b t)"
proof -
  from set_actor_ok [OF t, of a act] obtain t' where t': "set_actor a act t = (Inl ResolutionFailed, t')" "tree_ok t'" "view t' = view t"
    "Option.bind (view t' INIT_ACTOR_ADDR) init_data = Option.bind (view t INIT_ACTOR_ADDR) init_data \<longrightarrow> resolve t' = resolve t"
    unfolding a option.case by blast
  then have r: "resolve t' = resolve t" "has_init t'" using t(2) by (simp_all add: has_init_def)
  show "fst (set_actor a act t) = Inl ResolutionFailed" by (simp add: t'(1))
  show "fst (get_actor b (snd (set_actor a act t))) = fst (get_actor b t)"
    using fst_get_actor [OF t'(2) r(2), of b] fst_get_actor [OF t, of b] t'(1,3) r(1) by simp
qed

section \<open>Properties\<close>

text \<open>C21. Snapshots of the state tree are transactions.  Take a snapshot, write any sequence of
  actors, then either revert and clear the snapshot, after which the current table and those of all
  enclosing snapshots are what they were before, or clear it, after which they are the tables the
  same writes give without a snapshot.\<close>

theorem state_tree_snapshots:
  assumes "tree_ok t"
  shows "id_tables (snd (clear_snapshot (snd (revert_to_snapshot
           (fold (\<lambda>(i, act). tree_put i act) kvs (snd (snapshot t))))))) = id_tables t \<and>
         id_tables (snd (clear_snapshot
           (fold (\<lambda>(i, act). tree_put i act) kvs (snd (snapshot t))))) =
         id_tables (fold (\<lambda>(i, act). tree_put i act) kvs t)"
  using tree.reverted_writes_vanish [OF assms, of kvs] tree.committed_writes_stay [OF assms, of kvs]
  by (simp add: tree.puts_def)

theorem state_tree_snapshots_witness:
  "id_tables (snd (clear_snapshot (snd (revert_to_snapshot
     (tree_put 7 sample_actor (snd (snapshot (tree_new Map.empty)))))))) = [Map.empty] \<and>
   id_tables (snd (clear_snapshot (tree_put 7 sample_actor (snd (snapshot (tree_new Map.empty))))))
     = [[7 \<mapsto> sample_actor]]"
proof -
  have ok: "tree_ok (tree_new Map.empty)"
    by (simp add: tree_ok_def tree_new_def layer_default_def)
  have tables: "id_tables (tree_new Map.empty) = [Map.empty]"
    by (simp add: id_tables_def tree_stack_def tree_new_def view_of_def layer_default_def)
  show ?thesis
    using state_tree_snapshots [OF ok, of "[(7, sample_actor)]"] tables tree.tables_put [OF ok, of 7 sample_actor]
    by simp
qed

text \<open>C22. Reads, writes and the flush of the tree, through addresses of every kind.  In a freshly loaded tree an
  address that is no ID resolves as the table of the init actor says.  A write through an address goes to the actor
  it resolves to: it is read back through every address that resolves to the same actor, and reads through all
  other addresses answer as before; a write through an address that does not resolve fails and changes no read.  (Writes to the init
  actor itself, which may change resolution, are covered for ID addresses.)  Flushing is refused exactly when a snapshot is
  open, and otherwise gives a table that has at every ID what the tree reads there, except that actors the layer marks as
  deleted are gone.\<close>

theorem state_tree_read_write:
  assumes "tree_ok t"
  shows "fst (set_actor (ID i) act t) = Inr () \<and>
    (\<forall>j. fst (get_actor (ID j) (snd (set_actor (ID i) act t))) =
       (if j = i then Inr (Some act) else fst (get_actor (ID j) t))) \<and>
    (has_init t \<and> fst (lookup_id a t) = Inr (Some (ID i)) \<and> ID i \<noteq> INIT_ACTOR_ADDR \<longrightarrow>
       fst (set_actor a act t) = Inr () \<and>
       (\<forall>b. fst (get_actor b (snd (set_actor a act t))) =
          (if fst (lookup_id b t) = Inr (Some (ID i)) then Inr (Some act) else fst (get_actor b t)))) \<and>
    (has_init t \<and> fst (lookup_id a t) = Inr None \<longrightarrow>
       fst (set_actor a act t) = Inl ResolutionFailed \<and> fst (get_actor a t) = Inr None \<and>
       (\<forall>b. fst (get_actor b (snd (set_actor a act t))) = fst (get_actor b t))) \<and>
    (\<forall>h ia st. h INIT_ACTOR_ADDR = Some ia \<and> adata ia = InitSt st \<longrightarrow>
       fst (lookup_id a (tree_new h)) = Inr (if protocol a = PID then Some a else map_option ID (address_map st a))) \<and>
    (fst (flush t) = Inl SnapshotsOnStack \<longleftrightarrow> length (layers t) \<noteq> 1) \<and>
    (\<forall>l h. layers t = [l] \<longrightarrow> fst (flush t) = Inr h \<longrightarrow>
       (\<forall>j. l_actors l (ID j) \<noteq> Some None \<longrightarrow> Inr (h (ID j)) = fst (get_actor (ID j) t)) \<and>
       (\<forall>j. l_actors l (ID j) = Some None \<longrightarrow> h (ID j) = None))"
proof (intro conjI allI impI)
  show "fst (set_actor (ID i) act t) = Inr ()" by (rule set_actor_ID [OF assms])
  show "fst (get_actor (ID j) (snd (set_actor (ID i) act t))) =
       (if j = i then Inr (Some act) else fst (get_actor (ID j) t))" for j
    using set_actor_ID [OF assms, of i act]
    by (simp add: get_actor_ID assms) (simp add: tree_put_def get_actor_ID)
  show "fst (flush t) = Inl SnapshotsOnStack \<longleftrightarrow> length (layers t) \<noteq> 1"
    by (auto simp: flush_def Let_def length_Suc_conv split: list.split)
next
  assume h: "has_init t \<and> fst (lookup_id a t) = Inr (Some (ID i)) \<and> ID i \<noteq> INIT_ACTOR_ADDR"
  then have init: "has_init t" by simp
  from h have "resolve t a = Some (ID i)" using fst_lookup_id [OF assms init, of a] by simp
  with h show "fst (set_actor a act t) = Inr ()"
    and "fst (get_actor b (snd (set_actor a act t))) =
      (if fst (lookup_id b t) = Inr (Some (ID i)) then Inr (Some act) else fst (get_actor b t))" for b
    using set_actor_read(1) [OF assms init, of a i act] set_actor_read(2) [OF assms init, where a = a and i = i and act = act and b = b] by (simp_all add: fst_lookup_id [OF assms init])
next
  assume h: "has_init t \<and> fst (lookup_id a t) = Inr None"
  then have init: "has_init t" by simp
  from h have "resolve t a = None" using fst_lookup_id [OF assms init, of a] by simp
  with h show "fst (set_actor a act t) = Inl ResolutionFailed" and "fst (get_actor a t) = Inr None"
    and "fst (get_actor b (snd (set_actor a act t))) = fst (get_actor b t)" for b
    using set_actor_unresolved(1) [OF assms init, of a act] set_actor_unresolved(2) [OF assms init, where a = a and act = act and b = b] by (simp_all add: fst_get_actor [OF assms init])
next
  fix h :: "Address \<rightharpoonup> ActorState" and ia st
  assume "h INIT_ACTOR_ADDR = Some ia \<and> adata ia = InitSt st"
  then show "fst (lookup_id a (tree_new h)) = Inr (if protocol a = PID then Some a else map_option ID (address_map st a))"
    by (elim conjE) (rule lookup_id_new)
next
  fix l h j
  assume l: "layers t = [l]" and h: "fst (flush t) = Inr h"
  then have "h = write_layer (hamt t) l" using tree_flush_ok(1) [OF l] by simp
  then show "l_actors l (ID j) \<noteq> Some None \<Longrightarrow> Inr (h (ID j)) = fst (get_actor (ID j) t)"
    and "l_actors l (ID j) = Some None \<Longrightarrow> h (ID j) = None"
    using tree_flush_ok(2) [OF l] by (simp_all add: get_actor_ID assms)
qed

theorem state_tree_read_write_witness:
  "let ia = sample_actor\<lparr>adata := InitSt ((init_state_new [])\<lparr>address_map := [BLS [7] \<mapsto> 5]\<rparr>)\<rparr>;
       t = tree_new [INIT_ACTOR_ADDR \<mapsto> ia];
       t' = snd (set_actor (BLS [7]) sample_actor t) in
   fst (set_actor (BLS [7]) sample_actor t) = Inr () \<and> fst (get_actor (ID 5) t') = Inr (Some sample_actor) \<and>
   fst (get_actor (BLS [7]) t') = Inr (Some sample_actor) \<and> fst (set_actor (BLS [8]) sample_actor t) = Inl ResolutionFailed"
proof -
  define ia where "ia = sample_actor\<lparr>adata := InitSt ((init_state_new [])\<lparr>address_map := [BLS [7] \<mapsto> 5]\<rparr>)\<rparr>"
  define t where "t = tree_new [INIT_ACTOR_ADDR \<mapsto> ia]"
  have ok: "tree_ok t" by (simp add: t_def tree_ok_def tree_new_def layer_default_def)
  have init: "has_init t" by (simp add: t_def has_init_def view_def view_of_def tree_new_def layer_default_def ia_def)
  note rw = state_tree_read_write [OF ok]
  have "fst (lookup_id a t) = Inr (if protocol a = PID then Some a
      else map_option ID (address_map ((init_state_new [])\<lparr>address_map := [BLS [7] \<mapsto> 5]\<rparr>) a))" for a
    using rw [THEN conjunct2, THEN conjunct2, THEN conjunct2, THEN conjunct2, THEN conjunct1, rule_format, of "[INIT_ACTOR_ADDR \<mapsto> ia]" ia]
    by (simp add: t_def ia_def)
  then have l: "fst (lookup_id (BLS [7]) t) = Inr (Some (ID 5))" "fst (lookup_id (BLS [8]) t) = Inr None" "fst (lookup_id (ID 5) t) = Inr (Some (ID 5))"
    by simp_all
  from rw [of 5 sample_actor "BLS [7]"] rw [of 5 sample_actor "BLS [8]"] init l
  show ?thesis unfolding Let_def ia_def [symmetric] t_def [symmetric] by (simp add: INIT_ACTOR_ADDR_def)
qed

text \<open>C23. What deleting an actor does: the next read of the address answers with the entry of the
  base table.  An actor that was created since the state root was loaded is gone, but an actor that
  the base table holds comes back with the state and balance it had there, because a deletion mark
  in a layer is not distinguished from an address no layer knows.\<close>

theorem state_tree_delete_reads_base:
  assumes "tree_ok t"
  shows "fst (delete_actor (ID i) t) = Inr () \<and>
         fst (get_actor (ID i) (snd (delete_actor (ID i) t))) = Inr (hamt t (ID i))"
  using delete_actor_ID [OF assms, of i] by (simp add: get_actor_ID)

theorem state_tree_delete_reads_base_witness:
  "fst (get_actor (ID 7) (snd (delete_actor (ID 7) (tree_new [ID 7 \<mapsto> sample_actor])))) = Inr (Some sample_actor)"
proof -
  have ok: "tree_ok (tree_new [ID 7 \<mapsto> sample_actor])"
    by (simp add: tree_ok_def tree_new_def layer_default_def)
  show ?thesis using state_tree_delete_reads_base [OF ok, of 7] by (simp add: tree_new_def)
qed

end
