(* ===== verification/Runtime.thy ===== *)
theory Runtime
  imports State_Tree
begin

text \<open>
  The runtime an actor method runs against (\<open>vm/interpreter/src/default_runtime.rs\<close>, the trait in
  \<open>vm/runtime/src/lib.rs\<close>): caller validation, state transactions, sends with their snapshots, actor
  creation and deletion, and transfers of tokens.

  A method is a stateful computation on the runtime, whose tree is shared by the nested runtimes of
  the messages it sends.  Gas is not metered here (an execution is one with enough gas), and what
  the source takes from other crates (hash functions, signature verification, serialization) is the
  record \<open>Ext\<close> of functions the operations get as an argument.  A tree error becomes a fatal actor
  error where the source calls \<open>downcast_fatal\<close> on it.
\<close>

section \<open>The runtime\<close>

record VMMsg =
  msg_caller :: Address
  msg_receiver :: Address
  msg_value_received :: TokenAmount

record Runtime =
  version :: NetworkVersion
  rt_tree :: StateTree
  vm_msg :: VMMsg
  rt_epoch :: ChainEpoch
  origin :: Address
  origin_nonce :: nat
  depth :: nat
  num_actors_created :: nat
  caller_validated :: bool
  allow_internal :: bool

type_synonym 'a rtm = "(Runtime, ActorError, 'a) sm"

record UnsignedMessage =
  um_from :: Address
  um_to :: Address
  um_method_num :: MethodNum
  um_value :: TokenAmount
  um_params :: Serialized

record Ext =
  x_blake2b_256 :: "bytes \<Rightarrow> bytes"
  x_blake2b_var :: "bytes \<Rightarrow> nat \<Rightarrow> bytes"
  x_ser_address :: "Address \<Rightarrow> bytes"
  x_be64 :: "nat \<Rightarrow> bytes"
  x_verify_signature :: "bytes \<Rightarrow> bytes \<Rightarrow> Address \<Rightarrow> bool"

definition MAX_CALL_DEPTH :: nat where
  "MAX_CALL_DEPTH = 4096"

definition caller :: "Runtime \<Rightarrow> Address" where
  "caller rt = msg_caller (vm_msg rt)"

definition receiver :: "Runtime \<Rightarrow> Address" where
  "receiver rt = msg_receiver (vm_msg rt)"

definition value_received :: "Runtime \<Rightarrow> TokenAmount" where
  "value_received rt = msg_value_received (vm_msg rt)"

definition on_tree :: "(TreeError \<Rightarrow> ActorError) \<Rightarrow> (StateTree, TreeError, 'a) sm \<Rightarrow> 'a rtm" where
  "on_tree conv f rt = (case f (rt_tree rt) of
      (Inl e, t) \<Rightarrow> (Inl (conv e), rt\<lparr>rt_tree := t\<rparr>)
    | (Inr x, t) \<Rightarrow> (Inr x, rt\<lparr>rt_tree := t\<rparr>))"

abbreviation fatal_tree :: "(StateTree, TreeError, 'a) sm \<Rightarrow> 'a rtm" where
  "fatal_tree f \<equiv> on_tree (\<lambda>_. new_fatal) f"

section \<open>Reading the state tree\<close>

definition rt_resolve_address :: "Address \<Rightarrow> Address option rtm" where
  "rt_resolve_address a = fatal_tree (lookup_id a)"

definition rt_get_actor_code_cid :: "Address \<Rightarrow> CodeId option rtm" where
  "rt_get_actor_code_cid a = sm_bind (fatal_tree (get_actor a)) (\<lambda>r. sm_ret (map_option acode r))"

definition get_balance :: "Address \<Rightarrow> TokenAmount rtm" where
  "get_balance a =
    sm_bind (fatal_tree (get_actor a)) (\<lambda>r.
    sm_ret (case r of None \<Rightarrow> 0 | Some act \<Rightarrow> abalance act))"

definition rt_current_balance :: "TokenAmount rtm" where
  "rt_current_balance = sm_bind (sm_get receiver) get_balance"

section \<open>Caller validation\<close>

definition abort_if_already_validated :: "unit rtm" where
  "abort_if_already_validated =
    sm_bind (sm_get caller_validated) (\<lambda>v.
    if v then sm_err (actor_error SysErrIllegalActor) else sm_upd (caller_validated_update (\<lambda>_. True)))"

definition validate_immediate_caller_accept_any :: "unit rtm" where
  "validate_immediate_caller_accept_any = abort_if_already_validated"

definition validate_immediate_caller_is :: "Address list \<Rightarrow> unit rtm" where
  "validate_immediate_caller_is addresses =
    sm_bind abort_if_already_validated (\<lambda>_.
    sm_bind (sm_get caller) (\<lambda>imm.
    sm_when (imm \<notin> set addresses) (actor_error ErrForbidden)))"

definition validate_immediate_caller_type :: "CodeId list \<Rightarrow> unit rtm" where
  "validate_immediate_caller_type types =
    sm_bind abort_if_already_validated (\<lambda>_.
    sm_bind (sm_get caller) (\<lambda>imm.
    sm_bind (rt_get_actor_code_cid imm) (\<lambda>r.
    sm_bind (sm_lift (ok_or r new_fatal)) (\<lambda>caller_cid.
    sm_when (caller_cid \<notin> set types) (actor_error SysErrForbidden)))))"

section \<open>The state of the receiver\<close>

definition state_commit :: "ActorData \<Rightarrow> ActorData \<Rightarrow> unit rtm" where
  "state_commit old_h new_h =
    sm_bind (sm_get receiver) (\<lambda>to_addr.
    sm_bind (fatal_tree (get_actor to_addr)) (\<lambda>r.
    sm_bind (sm_lift (ok_or r new_fatal)) (\<lambda>actor.
    if adata actor \<noteq> old_h then sm_err new_fatal
    else fatal_tree (set_actor to_addr (actor\<lparr>adata := new_h\<rparr>)))))"

definition rt_create :: "ActorData \<Rightarrow> unit rtm" where
  "rt_create obj = state_commit EmptyArr obj"

text \<open>
  \<open>proj\<close> decodes a stored block as the state type of the actor; a block of another type is a
  deserialization error.
\<close>

definition rt_state :: "(ActorData \<Rightarrow> 's option) \<Rightarrow> 's rtm" where
  "rt_state proj =
    sm_bind (sm_get receiver) (\<lambda>r.
    sm_bind (on_tree (\<lambda>_. actor_error SysErrIllegalArgument) (get_actor r)) (\<lambda>act.
    sm_bind (sm_lift (ok_or act (actor_error SysErrIllegalArgument))) (\<lambda>actor.
    sm_lift (ok_or (proj (adata actor)) (actor_error ErrSerialization)))))"

text \<open>\<open>guarded m\<close> runs \<open>m\<close> with sends disallowed.\<close>

definition guarded :: "'a rtm \<Rightarrow> 'a rtm" where
  "guarded m rt = (case m (rt\<lparr>allow_internal := False\<rparr>) of
      (res, rt') \<Rightarrow> (res, rt'\<lparr>allow_internal := True\<rparr>))"

definition rt_transaction ::
  "(ActorData \<Rightarrow> 's option) \<Rightarrow> ('s \<Rightarrow> ActorData) \<Rightarrow> ('s \<Rightarrow> ('a \<times> 's) rtm) \<Rightarrow> 'a rtm" where
  "rt_transaction proj emb f =
    sm_bind (sm_get receiver) (\<lambda>r.
    sm_bind (on_tree (\<lambda>_. actor_error SysErrIllegalActor) (get_actor r)) (\<lambda>a.
    sm_bind (sm_lift (ok_or a (actor_error SysErrIllegalActor))) (\<lambda>act.
    sm_bind (sm_lift (ok_or (proj (adata act)) (actor_error ErrSerialization))) (\<lambda>state.
    sm_bind (guarded (f state)) (\<lambda>(x, state').
    sm_bind (state_commit (adata act) (emb state')) (\<lambda>_.
    sm_ret x))))))"

section \<open>Transfers, creation and deletion\<close>

definition transfer :: "Address \<Rightarrow> Address \<Rightarrow> TokenAmount \<Rightarrow> unit rtm" where
  "transfer from_a to_a value =
    (if from_a = to_a then sm_ret ()
     else
       sm_bind (fatal_tree (lookup_id from_a)) (\<lambda>fr.
       sm_bind (sm_lift (ok_or fr new_fatal)) (\<lambda>from_id.
       sm_bind (fatal_tree (lookup_id to_a)) (\<lambda>tr.
       sm_bind (sm_lift (ok_or tr new_fatal)) (\<lambda>to_id.
       if from_id = to_id then sm_ret ()
       else if value < 0 then sm_err (actor_error SysErrForbidden)
       else
         sm_bind (fatal_tree (get_actor from_id)) (\<lambda>fa.
         sm_bind (sm_lift (ok_or fa new_fatal)) (\<lambda>f.
         sm_bind (fatal_tree (get_actor to_id)) (\<lambda>ta.
         sm_bind (sm_lift (ok_or ta new_fatal)) (\<lambda>t.
         sm_bind (sm_lift (ok_or (deduct_funds f value) (actor_error SysErrInsufficientFunds))) (\<lambda>f'.
         sm_bind (fatal_tree (set_actor from_a f')) (\<lambda>_.
         fatal_tree (set_actor to_a (deposit_funds t value)))))))))))))"

text \<open>\<open>resolve_to_key_addr\<close>; its string errors become fatal errors at both call sites.\<close>

definition resolve_to_key_addr :: "Address \<Rightarrow> Address rtm" where
  "resolve_to_key_addr a =
    (if protocol a = PBLS \<or> protocol a = PSecp256k1 then sm_ret a
     else
       sm_bind (fatal_tree (get_actor a)) (\<lambda>r.
       sm_bind (sm_lift (ok_or r new_fatal)) (\<lambda>act.
       case adata act of AccountSt pk \<Rightarrow> sm_ret pk | _ \<Rightarrow> sm_err new_fatal)))"

definition rt_new_actor_address :: "Ext \<Rightarrow> Address rtm" where
  "rt_new_actor_address ext =
    sm_bind (sm_get origin) (\<lambda>o_addr.
    sm_bind (resolve_to_key_addr o_addr) (\<lambda>oa.
    sm_bind (sm_get (\<lambda>rt. x_ser_address ext oa @ x_be64 ext (origin_nonce rt) @
                           x_be64 ext (num_actors_created rt))) (\<lambda>b.
    sm_bind (sm_upd (num_actors_created_update (\<lambda>n. n + 1))) (\<lambda>_.
    sm_ret (new_actor (x_blake2b_var ext) b)))))"

definition rt_create_actor :: "CodeId \<Rightarrow> Address \<Rightarrow> unit rtm" where
  "rt_create_actor code_id address =
    sm_bind (sm_when (\<not> is_builtin_actor code_id) (actor_error SysErrIllegalArgument)) (\<lambda>_.
    sm_bind (sm_get version) (\<lambda>v.
    sm_bind (sm_when (code_actor_version code_id \<noteq> Some (actor_version_of v))
               (actor_error SysErrIllegalArgument)) (\<lambda>_.
    sm_bind (sm_when (is_singleton_actor code_id) (actor_error SysErrIllegalArgument)) (\<lambda>_.
    sm_bind (\<lambda>rt. case get_actor address (rt_tree rt) of
               (r, t) \<Rightarrow> (Inr (case r of Inr (Some _) \<Rightarrow> True | _ \<Rightarrow> False), rt\<lparr>rt_tree := t\<rparr>)) (\<lambda>found.
    sm_bind (sm_when found (actor_error SysErrIllegalArgument)) (\<lambda>_.
    fatal_tree (set_actor address (ActorState_new code_id EmptyArr 0 0))))))))"

definition rt_delete_actor :: "Address \<Rightarrow> unit rtm" where
  "rt_delete_actor beneficiary =
    sm_bind (sm_get receiver) (\<lambda>rcv.
    sm_bind (fatal_tree (get_actor rcv)) (\<lambda>r.
    sm_bind (sm_lift (ok_or r (actor_error SysErrIllegalActor))) (\<lambda>act.
    sm_bind (if abalance act \<noteq> 0 then
               sm_bind (sm_get version) (\<lambda>v.
               sm_bind (if 7 \<le> v then
                          sm_bind (rt_resolve_address beneficiary) (\<lambda>b.
                          sm_bind (sm_lift (ok_or b (actor_error SysErrIllegalArgument))) (\<lambda>beneficiary_id.
                          sm_when (beneficiary_id = rcv) (actor_error SysErrIllegalArgument)))
                        else sm_ret ()) (\<lambda>_.
               transfer rcv beneficiary (abalance act)))
             else sm_ret ()) (\<lambda>_.
    fatal_tree (delete_actor rcv)))))"

section \<open>Sends\<close>

text \<open>
  A send function runs a message on the runtime of its sender (\<open>DefaultRuntime::send\<close>) and leaves
  that runtime with the tree the message left.  \<open>internal_send\<close> wraps it in a snapshot, which is
  reverted when the message fails.
\<close>

type_synonym send_fn = "UnsignedMessage \<Rightarrow> Serialized rtm"

definition internal_send ::
  "send_fn \<Rightarrow> Address \<Rightarrow> Address \<Rightarrow> MethodNum \<Rightarrow> TokenAmount \<Rightarrow> Serialized \<Rightarrow> Serialized rtm" where
  "internal_send exec from_a to_a method value params =
    sm_bind (fatal_tree snapshot) (\<lambda>_.
    sm_bind (\<lambda>rt.
        case exec \<lparr>um_from = from_a, um_to = to_a, um_method_num = method, um_value = value,
                   um_params = params\<rparr> rt of
          (Inr ret, rt') \<Rightarrow> (Inr (Inr ret), rt')
        | (Inl e, rt') \<Rightarrow>
            (case revert_to_snapshot (rt_tree rt') of
               (Inl _, t) \<Rightarrow> (Inr (Inl new_fatal), rt'\<lparr>rt_tree := t\<rparr>)
             | (Inr _, t) \<Rightarrow> (Inr (Inl e), rt'\<lparr>rt_tree := t\<rparr>))) (\<lambda>ret.
    sm_bind (fatal_tree clear_snapshot) (\<lambda>_.
    sm_lift ret)))"

definition rt_send ::
  "send_fn \<Rightarrow> Address \<Rightarrow> MethodNum \<Rightarrow> Serialized \<Rightarrow> TokenAmount \<Rightarrow> Serialized rtm" where
  "rt_send exec to_a method params value =
    sm_bind (sm_get allow_internal) (\<lambda>allowed.
    if \<not> allowed then sm_err (new_recovered SysErrIllegalActor)
    else sm_bind (sm_get receiver) (\<lambda>from_a. internal_send exec from_a to_a method value params))"

text \<open>\<open>rt_try m\<close> observes the result of \<open>m\<close> instead of returning early on its error.\<close>

definition rt_try :: "'a rtm \<Rightarrow> (ActorError, 'a) res rtm" where
  "rt_try m rt = (case m rt of (r, rt') \<Rightarrow> (Inr r, rt'))"

text \<open>
  \<open>resolve_to_id_addr\<close> of \<open>builtin/shared.rs\<close>.  Every caller turns its own string error into
  \<open>ErrIllegalState\<close> and keeps the actor errors of the runtime.
\<close>

definition resolve_to_id_addr :: "send_fn \<Rightarrow> Address \<Rightarrow> Address rtm" where
  "resolve_to_id_addr exec address =
    sm_bind (rt_resolve_address address) (\<lambda>r. case r of
      Some a \<Rightarrow> sm_ret a
    | None \<Rightarrow>
        sm_bind (rt_send exec address METHOD_SEND [] 0) (\<lambda>_.
        sm_bind (rt_resolve_address address) (\<lambda>r'.
        sm_lift (ok_or r' (actor_error ErrIllegalState)))))"

definition rt_verify_signature :: "Ext \<Rightarrow> bytes \<Rightarrow> Address \<Rightarrow> bytes \<Rightarrow> bool rtm" where
  "rt_verify_signature ext sig signer plaintext rt =
    (case resolve_to_key_addr signer rt of
       (Inl e, rt') \<Rightarrow> (Inr False, rt')
     | (Inr a, rt') \<Rightarrow> (Inr (x_verify_signature ext sig plaintext a), rt'))"

text \<open>
  \<open>deserialize_params\<close>: a decoder of the parameter type, with the exit code that older network
  versions give to a failure.
\<close>

definition deserialize_params :: "(bytes \<Rightarrow> 'p option) \<Rightarrow> Serialized \<Rightarrow> 'p rtm" where
  "deserialize_params dec params =
    sm_bind (sm_get version) (\<lambda>v.
    sm_lift (ok_or (dec params)
      (actor_error (if v < 7 then SysErrSenderInvalid else ErrSerialization))))"

end
