(* ===== verification/Runtime_Laws.thy ===== *)
theory Runtime_Laws
  imports Runtime
begin

text \<open>
  What the operations of the runtime do to the state tree, stated once for all actors.  Every change
  of the table of actors is a sequence of the atomic steps \<open>vstep\<close>; \<open>sm_keeps (rt_rel C)\<close> says that a
  computation, successful or not, only makes such steps and leaves the rest of the runtime alone.
  The collection \<open>rt_laws\<close> holds the laws of the operations as introduction rules, so that the law of
  an actor method follows its text.
\<close>

named_theorems rt_laws \<open>laws of the runtime operations\<close>

section \<open>Steps of the actor table\<close>

type_synonym table = "Address \<rightharpoonup> ActorState"

definition init_of :: "table \<Rightarrow> InitState option" where
  "init_of v = Option.bind (v INIT_ACTOR_ADDR) init_data"

definition fresh :: "table \<Rightarrow> bool" where
  "fresh v = (\<forall>st. init_of v = Some st \<longrightarrow> (\<forall>i \<ge> next_id st. v (ID i) = None))"

fun is_paych_code :: "CodeId \<Rightarrow> bool" where
  "is_paych_code (Builtin _ k) = (k = PaychActor)"
| "is_paych_code (OtherCode _) = False"

fun is_init_code :: "CodeId \<Rightarrow> bool" where
  "is_init_code (Builtin _ k) = (k = InitActor)"
| "is_init_code (OtherCode _) = False"

text \<open>
  \<open>coded h v\<close>: the actors of the base table are present, with their code.  \<open>table_inv\<close>: the init actor
  is present with its state, it is the only one with its code and is not a payment channel, and the
  identifiers it has not allocated are free.
\<close>

definition coded :: "table \<Rightarrow> table \<Rightarrow> bool" where
  "coded h v = (\<forall>a b. h a = Some b \<longrightarrow> (\<exists>act. v a = Some act \<and> acode act = acode b))"

definition table_inv :: "table \<Rightarrow> table \<Rightarrow> bool" where
  "table_inv h v = (init_of v \<noteq> None \<and> fresh v \<and> coded h v \<and>
     (\<forall>act. v (ID 1) = Some act \<longrightarrow> \<not> is_paych_code (acode act)) \<and>
     (\<forall>a act. v a = Some act \<longrightarrow> is_init_code (acode act) \<longrightarrow> a = ID 1))"

definition tree_inv :: "StateTree \<Rightarrow> bool" where
  "tree_inv t = (tree_ok t \<and> table_inv (hamt t) (view t))"

text \<open>
  The atomic changes execution makes to the table of actors: a commit of new state data (\<open>C old new\<close>
  are the commits actor code may do), the creation of an actor under an allocated identifier, a
  move of tokens, and the removal of an actor with no balance left, which puts back the entry of the
  base table \<open>h\<close> and happens to payment channels only.
\<close>

inductive vstep :: "(ActorData \<Rightarrow> ActorData \<Rightarrow> bool) \<Rightarrow> table \<Rightarrow> table \<Rightarrow> table \<Rightarrow> bool" for C h where
  commit: "v (ID r) = Some act \<Longrightarrow> C (adata act) d \<Longrightarrow> vstep C h v (v(ID r \<mapsto> act\<lparr>adata := d\<rparr>))"
| create: "v (ID i) = None \<Longrightarrow> init_of v = Some st \<Longrightarrow> i < next_id st \<Longrightarrow> \<not> is_singleton_actor c \<Longrightarrow>
    vstep C h v (v(ID i \<mapsto> ActorState_new c EmptyArr 0 0))"
| move: "v (ID a) = Some f \<Longrightarrow> v (ID b) = Some g \<Longrightarrow> a \<noteq> b \<Longrightarrow> 0 \<le> x \<Longrightarrow> x \<le> abalance f \<Longrightarrow>
    vstep C h v (v(ID a \<mapsto> f\<lparr>abalance := abalance f - x\<rparr>, ID b \<mapsto> g\<lparr>abalance := abalance g + x\<rparr>))"
| remove: "v (ID a) = Some act \<Longrightarrow> a \<noteq> 1 \<Longrightarrow> abalance act = 0 \<Longrightarrow>
    (\<And>b. h (ID a) = Some b \<Longrightarrow> is_paych_code (acode b)) \<Longrightarrow> vstep C h v (v(ID a := h (ID a)))"

abbreviation vsteps :: "(ActorData \<Rightarrow> ActorData \<Rightarrow> bool) \<Rightarrow> table \<Rightarrow> table \<Rightarrow> table \<Rightarrow> bool" where
  "vsteps C h \<equiv> (vstep C h)\<^sup>*\<^sup>*"

lemma vstep_mono: "vstep C h v w \<Longrightarrow> (\<And>a b. C a b \<Longrightarrow> D a b) \<Longrightarrow> vstep D h v w"
  by (erule vstep.cases) (auto intro: vstep.intros)

definition init_commits :: "(ActorData \<Rightarrow> ActorData \<Rightarrow> bool) \<Rightarrow> bool" where
  "init_commits C = (\<forall>st d. C (InitSt st) d \<longrightarrow> (\<exists>st'. d = InitSt st' \<and> next_id st \<le> next_id st'))"

lemma init_data_Some: "init_data act = Some st \<longleftrightarrow> adata act = InitSt st"
  by (cases "adata act") simp_all

lemma init_of_Some:
  "init_of v = Some st \<longleftrightarrow> (\<exists>act. v (ID 1) = Some act \<and> adata act = InitSt st)"
  by (auto simp: init_of_def INIT_ACTOR_ADDR_def bind_eq_Some_conv init_data_Some simp del: init_data.simps)

lemma fresh_lt: "fresh v \<Longrightarrow> init_of v = Some st \<Longrightarrow> v (ID i) = Some act \<Longrightarrow> i < next_id st"
  by (rule ccontr) (auto simp: fresh_def)

lemma paych_not_init: "is_paych_code c \<Longrightarrow> \<not> is_init_code c"
  by (cases c) simp_all

lemma coded_None: "coded h v \<Longrightarrow> v a = None \<Longrightarrow> h a = None"
  unfolding coded_def by (metis option.exhaust option.distinct(1))

lemma table_invD:
  assumes "table_inv h v"
  obtains st act where "init_of v = Some st" "v (ID 1) = Some act" "adata act = InitSt st"
    "\<forall>i. next_id st \<le> i \<longrightarrow> v (ID i) = None"
  using assms unfolding table_inv_def fresh_def by (auto simp: init_of_Some)

lemma table_inv_write:
  assumes inv: "table_inv h v" and v: "v (ID r) = Some f" "acode f' = acode f"
    and i: "\<And>st. init_of v = Some st \<Longrightarrow> \<exists>st'. init_of (v(ID r \<mapsto> f')) = Some st' \<and> next_id st \<le> next_id st'"
  shows "table_inv h (v(ID r \<mapsto> f'))"
proof -
  from table_invD [OF inv] obtain st act where st: "init_of v = Some st" "v (ID 1) = Some act"
    "adata act = InitSt st" "\<forall>i. next_id st \<le> i \<longrightarrow> v (ID i) = None" .
  from i [OF st(1)] obtain st' where st': "init_of (v(ID r \<mapsto> f')) = Some st'" "next_id st \<le> next_id st'" by blast
  have "r < next_id st" using st(4) v(1) by (cases "r < next_id st") auto
  then have "fresh (v(ID r \<mapsto> f'))" using st' st(4) by (auto simp: fresh_def)
  moreover have "coded h (v(ID r \<mapsto> f'))" using inv v by (fastforce simp: table_inv_def coded_def)
  ultimately show ?thesis using inv st'(1) v by (auto simp: table_inv_def)
qed

lemma init_of_upd:
  assumes "v (ID i) = Some f" "adata f' = adata f"
  shows "init_of (v(ID i \<mapsto> f')) = init_of v"
proof -
  have "init_data f' = init_data f" using assms(2) by (cases "adata f") simp_all
  with assms(1) show ?thesis by (simp add: init_of_def INIT_ACTOR_ADDR_def del: init_data.simps)
qed

lemma init_of_other: "i \<noteq> 1 \<Longrightarrow> init_of (v(ID i := x)) = init_of v"
  by (simp add: init_of_def INIT_ACTOR_ADDR_def)

lemma vstep_inv:
  assumes "vstep C h v w" "init_commits C" and inv: "table_inv h v"
  shows "table_inv h w"
proof -
  from inv obtain st act where st: "init_of v = Some st" "v (ID 1) = Some act" "adata act = InitSt st"
    "\<forall>i. next_id st \<le> i \<longrightarrow> v (ID i) = None"
    by (rule table_invD)
  from assms(1) show ?thesis
  proof cases
    case (commit r f d)
    have "\<exists>st'. init_of w = Some st' \<and> next_id st \<le> next_id st'"
    proof (cases "r = 1")
      case True
      with commit st assms(2) show ?thesis by (auto simp: init_commits_def init_of_Some)
    next
      case False
      then show ?thesis using commit st(1) by (simp add: init_of_other)
    qed
    then show ?thesis using table_inv_write [OF inv commit(2), of "f\<lparr>adata := d\<rparr>"] commit(1) st(1) by simp
  next
    case (create i st' c)
    have "i \<noteq> 1" using create(2) st(2) by auto
    then have "init_of w = Some st" using create(1) st(1) by (simp add: init_of_other)
    moreover have "h (ID i) = None" using inv create(2) by (auto simp: table_inv_def intro: coded_None)
    moreover have "\<not> is_init_code c" using create(5) by (cases c) auto
    ultimately show ?thesis using inv create st \<open>i \<noteq> 1\<close>
      by (auto simp: table_inv_def coded_def fresh_def ActorState_new_def)
  next
    case (move a f b g x)
    let ?v = "v(ID a \<mapsto> f\<lparr>abalance := abalance f - x\<rparr>)"
    have t: "table_inv h ?v"
      by (rule table_inv_write [OF inv move(2)]) (simp_all add: init_of_upd [of v, OF move(2)])
    have g: "?v (ID b) = Some g" using move(3,4) by simp
    have "init_of (?v(ID b \<mapsto> g\<lparr>abalance := abalance g + x\<rparr>)) = init_of ?v"
      by (rule init_of_upd [of ?v, OF g]) simp
    then show ?thesis unfolding move(1) by (intro table_inv_write [of h ?v, OF t g]) auto
  next
    case (remove a f)
    have "h (ID j) = None" if "next_id st \<le> j" for j
      using inv st(4) that by (auto simp: table_inv_def intro: coded_None)
    then have "fresh w" using st remove(1,3) by (auto simp: fresh_def init_of_other)
    moreover have "coded h w" using inv remove(1) by (auto simp: table_inv_def coded_def)
    ultimately show ?thesis using inv remove by (auto simp: table_inv_def init_of_other dest: paych_not_init)
  qed
qed

lemma vsteps_inv: "vsteps C h v w \<Longrightarrow> init_commits C \<Longrightarrow> table_inv h v \<Longrightarrow> table_inv h w"
  by (induction rule: rtranclp_induct) (auto dest: vstep_inv)

section \<open>Relations between runtimes\<close>

text \<open>
  \<open>rt_same\<close>: the parts of a runtime a method does not change.  \<open>rt_reads\<close>: moreover the tree answers
  every read as before.  \<open>rt_rel C\<close>: the tree has made steps with commits in \<open>C\<close>, within its top
  layer.
\<close>

definition rt_same :: "Runtime \<Rightarrow> Runtime \<Rightarrow> bool" where
  "rt_same rt rt' = (version rt' = version rt \<and> vm_msg rt' = vm_msg rt \<and> rt_epoch rt' = rt_epoch rt \<and>
     origin rt' = origin rt \<and> origin_nonce rt' = origin_nonce rt \<and> depth rt' = depth rt \<and>
     (allow_internal rt \<longrightarrow> allow_internal rt') \<and> (caller_validated rt \<longrightarrow> caller_validated rt'))"

definition tree_rel :: "(ActorData \<Rightarrow> ActorData \<Rightarrow> bool) \<Rightarrow> StateTree \<Rightarrow> StateTree \<Rightarrow> bool" where
  "tree_rel C t t' = (tree_inv t' \<and> frame t t' \<and> vsteps C (hamt t) (view t) (view t'))"

definition rt_inv :: "Runtime \<Rightarrow> bool" where
  "rt_inv rt = (tree_inv (rt_tree rt) \<and> 7 \<le> version rt)"

definition rt_reads :: "Runtime \<Rightarrow> Runtime \<Rightarrow> bool" where
  "rt_reads rt rt' = (rt_same rt rt' \<and>
     (rt_inv rt \<longrightarrow> tree_inv (rt_tree rt') \<and> read_eq (rt_tree rt) (rt_tree rt')))"

definition rt_rel :: "(ActorData \<Rightarrow> ActorData \<Rightarrow> bool) \<Rightarrow> Runtime \<Rightarrow> Runtime \<Rightarrow> bool" where
  "rt_rel C rt rt' = (rt_same rt rt' \<and> (rt_inv rt \<longrightarrow> tree_rel C (rt_tree rt) (rt_tree rt')))"

lemma rt_same_refl [simp]: "rt_same rt rt"
  by (simp add: rt_same_def)

lemma rt_same_trans: "rt_same a b \<Longrightarrow> rt_same b c \<Longrightarrow> rt_same a c"
  by (simp add: rt_same_def)

lemma tree_rel_refl: "tree_inv t \<Longrightarrow> tree_rel C t t"
  by (simp add: tree_rel_def)

lemma tree_rel_trans: "tree_rel C t u \<Longrightarrow> tree_rel C u w \<Longrightarrow> tree_rel C t w"
  by (auto simp: tree_rel_def frame_def)

lemma rt_inv_same: "rt_inv rt \<Longrightarrow> rt_same rt rt' \<Longrightarrow> tree_inv (rt_tree rt') \<Longrightarrow> rt_inv rt'"
  by (simp add: rt_inv_def rt_same_def)

lemma reflp_rt_reads: "reflp rt_reads"
  by (auto intro!: reflpI simp: rt_reads_def rt_inv_def)

lemma transp_rt_reads: "transp rt_reads"
proof (rule transpI)
  fix a b c
  assume ab: "rt_reads a b" and bc: "rt_reads b c"
  show "rt_reads a c"
    using ab bc rt_inv_same [of a b] rt_same_trans [of a b c]
      read_eq_trans [of "rt_tree a" "rt_tree b" "rt_tree c"]
    by (auto simp: rt_reads_def)
qed

lemma reflp_rt_rel: "reflp (rt_rel C)"
  by (auto intro!: reflpI simp: rt_rel_def rt_inv_def tree_rel_refl)

lemma transp_rt_rel: "transp (rt_rel C)"
proof (rule transpI)
  fix a b c
  assume ab: "rt_rel C a b" and bc: "rt_rel C b c"
  show "rt_rel C a c"
    using ab bc rt_inv_same [of a b] rt_same_trans [of a b c]
      tree_rel_trans [of C "rt_tree a" "rt_tree b" "rt_tree c"]
    by (auto simp: rt_rel_def tree_rel_def)
qed

lemma read_eq_tree_rel:
  "tree_inv t' \<Longrightarrow> read_eq t t' \<Longrightarrow> tree_rel C t t'"
  by (simp add: tree_rel_def read_eqD)

lemma rt_reads_rel: "rt_reads rt rt' \<Longrightarrow> rt_rel C rt rt'"
  by (auto simp: rt_reads_def rt_rel_def intro: read_eq_tree_rel)

lemma keeps_reads_rel: "sm_keeps rt_reads m \<Longrightarrow> sm_keeps (rt_rel C) m"
  by (auto simp: sm_keeps_def intro: rt_reads_rel)

lemma tree_invD:
  assumes "tree_inv t"
  shows "tree_ok t" "has_init t"
  using assms by (auto simp: tree_inv_def table_inv_def has_init_def init_of_Some INIT_ACTOR_ADDR_def)

lemma tree_inv_cong: "tree_inv t \<Longrightarrow> tree_ok t' \<Longrightarrow> view t' = view t \<Longrightarrow> hamt t' = hamt t \<Longrightarrow> tree_inv t'"
  by (simp add: tree_inv_def)

section \<open>Laws of reading operations\<close>

lemmas reads_bind [rt_laws] = sm_keeps_bind [OF transp_rt_reads]
lemmas reads_pure [rt_laws] = sm_keeps_pure [OF reflp_rt_reads]

lemma sm_keeps_if [rt_laws]:
  "(c \<Longrightarrow> sm_keeps R a) \<Longrightarrow> (\<not> c \<Longrightarrow> sm_keeps R b) \<Longrightarrow> sm_keeps R (if c then a else b)"
  by simp

lemma sm_keeps_option [rt_laws]:
  "(x = None \<Longrightarrow> sm_keeps R a) \<Longrightarrow> (\<And>y. x = Some y \<Longrightarrow> sm_keeps R (b y)) \<Longrightarrow>
   sm_keeps R (case x of None \<Rightarrow> a | Some y \<Rightarrow> b y)"
  by (cases x) simp_all

lemma sm_keeps_sum [rt_laws]:
  "(\<And>y. x = Inl y \<Longrightarrow> sm_keeps R (a y)) \<Longrightarrow> (\<And>y. x = Inr y \<Longrightarrow> sm_keeps R (b y)) \<Longrightarrow>
   sm_keeps R (case x of Inl y \<Rightarrow> a y | Inr y \<Rightarrow> b y)"
  by (cases x) simp_all

lemma sm_keeps_prod [rt_laws]:
  "(\<And>a b. x = (a, b) \<Longrightarrow> sm_keeps R (f a b)) \<Longrightarrow> sm_keeps R (case x of (a, b) \<Rightarrow> f a b)"
  by (cases x) simp

lemma sm_keeps_Let [rt_laws]: "(\<And>y. y = x \<Longrightarrow> sm_keeps R (f y)) \<Longrightarrow> sm_keeps R (let y = x in f y)"
  by simp

lemma on_tree_reads:
  assumes "\<And>t. tree_inv t \<Longrightarrow> read_eq t (snd (f t)) \<and> tree_ok (snd (f t))"
  shows "sm_keeps rt_reads (on_tree conv f)"
proof (rule sm_keepsI)
  fix rt r rt'
  assume "on_tree conv f rt = (r, rt')"
  then have rt': "rt' = rt\<lparr>rt_tree := snd (f (rt_tree rt))\<rparr>"
    by (auto simp: on_tree_def split: prod.splits sum.splits)
  show "rt_reads rt rt'"
    using assms [of "rt_tree rt"] tree_inv_cong [of "rt_tree rt" "rt_tree rt'"]
    by (auto simp: rt_reads_def rt_same_def rt_inv_def rt' read_eqD)
qed

lemma lookup_id_reads: "tree_inv t \<Longrightarrow> read_eq t (snd (lookup_id a t)) \<and> tree_ok (snd (lookup_id a t))"
  by (rule lookup_id_ok [OF tree_invD, of t a]) auto

lemma get_actor_reads: "tree_inv t \<Longrightarrow> read_eq t (snd (get_actor a t)) \<and> tree_ok (snd (get_actor a t))"
  by (rule get_actor_ok [OF tree_invD, of t a]) auto

lemma reads_resolve_address [rt_laws]: "sm_keeps rt_reads (rt_resolve_address a)"
  unfolding rt_resolve_address_def by (intro on_tree_reads lookup_id_reads)

lemma reads_get_actor [rt_laws]: "sm_keeps rt_reads (on_tree conv (get_actor a))"
  by (intro on_tree_reads get_actor_reads)

lemma reads_lookup_id [rt_laws]: "sm_keeps rt_reads (on_tree conv (lookup_id a))"
  by (intro on_tree_reads lookup_id_reads)

lemma reads_code_cid [rt_laws]: "sm_keeps rt_reads (rt_get_actor_code_cid a)"
  unfolding rt_get_actor_code_cid_def by (intro rt_laws)

lemma reads_balance [rt_laws]: "sm_keeps rt_reads (get_balance a)"
  unfolding get_balance_def by (intro rt_laws)

lemma reads_current_balance [rt_laws]: "sm_keeps rt_reads rt_current_balance"
  unfolding rt_current_balance_def by (intro rt_laws)

lemma reads_state [rt_laws]: "sm_keeps rt_reads (rt_state proj)"
  unfolding rt_state_def by (intro rt_laws)

lemma reads_key_addr [rt_laws]: "sm_keeps rt_reads (resolve_to_key_addr a)"
  unfolding resolve_to_key_addr_def
  by (auto intro!: rt_laws split: ActorData.splits)

lemma reads_verify_signature [rt_laws]: "sm_keeps rt_reads (rt_verify_signature ext sig a msg)"
proof (rule sm_keepsI)
  fix rt r rt'
  assume "rt_verify_signature ext sig a msg rt = (r, rt')"
  then obtain q where "resolve_to_key_addr a rt = (q, rt')"
    by (auto simp: rt_verify_signature_def split: prod.splits sum.splits)
  then show "rt_reads rt rt'" by (rule sm_keepsD [OF reads_key_addr])
qed

lemma reads_deserialize [rt_laws]: "sm_keeps rt_reads (deserialize_params d p)"
  unfolding deserialize_params_def by (intro rt_laws)

lemma reads_update:
  assumes "\<And>rt. rt_same rt (f rt) \<and> rt_tree (f rt) = rt_tree rt"
  shows "sm_keeps rt_reads (sm_upd f)"
  using assms by (intro sm_keeps_upd) (auto simp: rt_reads_def rt_inv_def)

lemma reads_new_actor_address [rt_laws]: "sm_keeps rt_reads (rt_new_actor_address ext)"
  unfolding rt_new_actor_address_def by (intro rt_laws reads_update) (simp add: rt_same_def)

lemma reads_abort_if_validated [rt_laws]: "sm_keeps rt_reads abort_if_already_validated"
  unfolding abort_if_already_validated_def by (intro rt_laws reads_update) (simp add: rt_same_def)

lemma reads_validate [rt_laws]:
  "sm_keeps rt_reads validate_immediate_caller_accept_any"
  "sm_keeps rt_reads (validate_immediate_caller_is as)"
  "sm_keeps rt_reads (validate_immediate_caller_type cs)"
  unfolding validate_immediate_caller_accept_any_def validate_immediate_caller_is_def
    validate_immediate_caller_type_def
  by (intro rt_laws)+

section \<open>The receiver's state\<close>

text \<open>The state data of the actor at an address, and of the receiver.\<close>

definition actor_at :: "StateTree \<Rightarrow> Address \<Rightarrow> ActorState option" where
  "actor_at t a = Option.bind (resolve t a) (view t)"

definition receiver_actor :: "Runtime \<Rightarrow> ActorState option" where
  "receiver_actor rt = actor_at (rt_tree rt) (receiver rt)"

lemma receiver_actor_reads:
  "rt_reads rt rt' \<Longrightarrow> rt_inv rt \<Longrightarrow> receiver_actor rt' = receiver_actor rt"
  by (auto simp: rt_reads_def receiver_actor_def actor_at_def read_eqD rt_same_def receiver_def)

lemma get_actor_run:
  assumes "rt_inv rt"
  obtains rt' where "on_tree conv (get_actor a) rt = (Inr (actor_at (rt_tree rt) a), rt')" "rt_reads rt rt'"
proof -
  have inv: "tree_inv (rt_tree rt)" using assms by (simp add: rt_inv_def)
  from get_actor_ok [OF tree_invD [OF inv], of a] obtain t' where t':
    "get_actor a (rt_tree rt) = (Inr (Option.bind (resolve (rt_tree rt) a) (view (rt_tree rt))), t')"
    "read_eq (rt_tree rt) t'" "tree_ok t'" .
  then have run: "on_tree conv (get_actor a) rt = (Inr (actor_at (rt_tree rt) a), rt\<lparr>rt_tree := t'\<rparr>)"
    by (simp add: on_tree_def actor_at_def)
  then show ?thesis using that sm_keepsD [OF reads_get_actor] by blast
qed

section \<open>Laws of writing operations\<close>

lemma resolve_ID_obtain:
  assumes "tree_inv t" "resolve t a = Some b"
  obtains i where "b = ID i"
  using resolve_PID [OF tree_invD(1) [OF assms(1)] assms(2)] by (cases b) auto

text \<open>Writing an actor at a resolved address, as a step of the table.\<close>

lemma set_actor_view:
  assumes "tree_inv t" "resolve t a = Some (ID r)"
  obtains t' where "set_actor a act t = (Inr (), t')" "frame t t'" "tree_ok t'"
    "view t' = (view t)(ID r \<mapsto> act)" "init_of (view t') = init_of (view t) \<longrightarrow> resolve t' = resolve t"
proof -
  from set_actor_ok [OF tree_invD [OF assms(1)], of a act] obtain t' where
    "set_actor a act t = (case resolve t a of None \<Rightarrow> Inl ResolutionFailed | Some _ \<Rightarrow> Inr (), t')"
    "frame t t'" "tree_ok t'"
    "view t' = (case resolve t a of None \<Rightarrow> view t | Some b \<Rightarrow> (view t)(b \<mapsto> act))"
    "Option.bind (view t' INIT_ACTOR_ADDR) init_data = Option.bind (view t INIT_ACTOR_ADDR) init_data \<longrightarrow>
     resolve t' = resolve t" .
  then show ?thesis using that [of t'] assms(2) by (simp add: init_of_def)
qed

lemma vsteps_tree_rel:
  assumes "tree_inv t" "init_commits C" "vsteps C (hamt t) (view t) (view t')" "frame t t'" "tree_ok t'"
  shows "tree_rel C t t'"
  using assms vsteps_inv [OF assms(3,2)] by (simp add: tree_rel_def tree_inv_def frame_def)

lemma rel_treeI:
  "rt_same rt rt' \<Longrightarrow> (rt_inv rt \<Longrightarrow> tree_rel C (rt_tree rt) (rt_tree rt')) \<Longrightarrow> rt_rel C rt rt'"
  by (simp add: rt_rel_def)

lemma on_tree_same: "on_tree conv f rt = (r, rt') \<Longrightarrow> rt_same rt rt'"
  by (auto simp: on_tree_def rt_same_def split: prod.splits sum.splits)

lemma fatal_set_actor_rel:
  assumes C: "init_commits C" and inv: "rt_inv rt" and r: "resolve (rt_tree rt) a = Some (ID r)"
    and step: "vstep C (hamt (rt_tree rt)) (view (rt_tree rt)) ((view (rt_tree rt))(ID r \<mapsto> act))"
    and run: "on_tree conv (set_actor a act) rt = (res, rt')"
  shows "res = Inr () \<and> rt_rel C rt rt' \<and> view (rt_tree rt') = (view (rt_tree rt))(ID r \<mapsto> act)"
proof -
  have ti: "tree_inv (rt_tree rt)" using inv by (simp add: rt_inv_def)
  from set_actor_view [OF ti r, of act] obtain t' where t':
    "set_actor a act (rt_tree rt) = (Inr (), t')" "frame (rt_tree rt) t'" "tree_ok t'"
    "view t' = (view (rt_tree rt))(ID r \<mapsto> act)"
    "init_of (view t') = init_of (view (rt_tree rt)) \<longrightarrow> resolve t' = resolve (rt_tree rt)" .
  have "tree_rel C (rt_tree rt) t'"
    by (rule vsteps_tree_rel [OF ti C _ t'(2,3)]) (simp add: t'(4) step r_into_rtranclp)
  with run t' show ?thesis by (auto simp: on_tree_def rt_rel_def rt_same_def)
qed

text \<open>
  \<open>commits\<close> is the contract of the state commits of actor code: the init actor's state stays an init
  state and its identifier counter does not go back.
\<close>

locale commits =
  fixes C :: "ActorData \<Rightarrow> ActorData \<Rightarrow> bool"
  assumes C: "init_commits C"
begin


lemma state_commit_run:
  assumes inv: "rt_inv rt" and run: "state_commit old new rt = (res, rt')"
    and ok: "\<And>act. receiver_actor rt = Some act \<Longrightarrow> adata act = old \<Longrightarrow> C old new"
  shows "rt_rel C rt rt'"
    and "res = Inr () \<Longrightarrow> \<exists>r act. resolve (rt_tree rt) (receiver rt) = Some (ID r) \<and>
      view (rt_tree rt) (ID r) = Some act \<and> adata act = old \<and>
      view (rt_tree rt') = (view (rt_tree rt))(ID r \<mapsto> act\<lparr>adata := new\<rparr>)"
proof -
  have ti: "tree_inv (rt_tree rt)" using inv by (simp add: rt_inv_def)
  from get_actor_run [OF inv, of "\<lambda>_. new_fatal" "receiver rt"] obtain rt1 where rt1:
    "fatal_tree (get_actor (receiver rt)) rt = (Inr (receiver_actor rt), rt1)" "rt_reads rt rt1"
    unfolding receiver_actor_def .
  have inv1: "rt_inv rt1" using rt1(2) inv rt_inv_same by (auto simp: rt_reads_def)
  have reads: "view (rt_tree rt1) = view (rt_tree rt)" "resolve (rt_tree rt1) = resolve (rt_tree rt)"
    "hamt (rt_tree rt1) = hamt (rt_tree rt)" "receiver rt1 = receiver rt"
    using rt1(2) inv by (auto simp: rt_reads_def read_eqD rt_same_def receiver_def)
  show "rt_rel C rt rt'"
    and "res = Inr () \<Longrightarrow> \<exists>r act. resolve (rt_tree rt) (receiver rt) = Some (ID r) \<and>
      view (rt_tree rt) (ID r) = Some act \<and> adata act = old \<and>
      view (rt_tree rt') = (view (rt_tree rt))(ID r \<mapsto> act\<lparr>adata := new\<rparr>)"
  proof (atomize (full), cases "receiver_actor rt")
    case None
    with run rt1 have "res = Inl new_fatal" "rt' = rt1"
      by (auto simp: state_commit_def sm_bind_def sm_simps)
    then show "rt_rel C rt rt' \<and> (res = Inr () \<longrightarrow> (\<exists>r act. resolve (rt_tree rt) (receiver rt) = Some (ID r) \<and>
      view (rt_tree rt) (ID r) = Some act \<and> adata act = old \<and>
      view (rt_tree rt') = (view (rt_tree rt))(ID r \<mapsto> act\<lparr>adata := new\<rparr>)))"
      using rt_reads_rel [OF rt1(2)] by simp
  next
    case (Some act)
    show "rt_rel C rt rt' \<and> (res = Inr () \<longrightarrow> (\<exists>r act. resolve (rt_tree rt) (receiver rt) = Some (ID r) \<and>
      view (rt_tree rt) (ID r) = Some act \<and> adata act = old \<and>
      view (rt_tree rt') = (view (rt_tree rt))(ID r \<mapsto> act\<lparr>adata := new\<rparr>)))"
    proof (cases "adata act = old")
      case False
      with run rt1 Some have "res = Inl new_fatal" "rt' = rt1"
        by (auto simp: state_commit_def sm_bind_def sm_simps)
      then show ?thesis using rt_reads_rel [OF rt1(2)] by simp
    next
      case True
      from Some obtain b where b: "resolve (rt_tree rt) (receiver rt) = Some b" "view (rt_tree rt) b = Some act"
        by (auto simp: receiver_actor_def actor_at_def bind_eq_Some_conv)
      from resolve_ID_obtain [OF ti b(1)] obtain r where r: "b = ID r" .
      have step: "vstep C (hamt (rt_tree rt1)) (view (rt_tree rt1)) ((view (rt_tree rt1))(ID r \<mapsto> act\<lparr>adata := new\<rparr>))"
        by (rule vstep.commit) (use b r reads ok [OF Some True] True in simp_all)
      have "on_tree (\<lambda>_. new_fatal) (set_actor (receiver rt) (act\<lparr>adata := new\<rparr>)) rt1 = (res, rt')"
        using run rt1 Some True by (simp add: state_commit_def sm_bind_def sm_simps)
      from fatal_set_actor_rel [OF C inv1 _ step this] b r reads
      have "rt_rel C rt1 rt'" "view (rt_tree rt') = (view (rt_tree rt))(ID r \<mapsto> act\<lparr>adata := new\<rparr>)"
        by simp_all
      then show ?thesis
        using transpE [OF transp_rt_rel rt_reads_rel [OF rt1(2)]] b r True by blast
    qed
  qed
qed

end

lemma reflp_rt_same: "reflp rt_same" and transp_rt_same: "transp rt_same"
  by (auto intro: reflpI transpI rt_same_trans)

lemmas same_bind [rt_laws] = sm_keeps_bind [OF transp_rt_same]
lemmas same_pure [rt_laws] = sm_keeps_pure [OF reflp_rt_same]

lemma same_on_tree [rt_laws]: "sm_keeps rt_same (on_tree conv f)"
  by (rule sm_keepsI) (rule on_tree_same)

lemma keeps_relI:
  assumes "sm_keeps rt_same m" "\<And>rt r rt'. rt_inv rt \<Longrightarrow> m rt = (r, rt') \<Longrightarrow> rt_rel C rt rt'"
  shows "sm_keeps (rt_rel C) m"
proof (rule sm_keepsI)
  fix rt r rt'
  assume run: "m rt = (r, rt')"
  show "rt_rel C rt rt'"
    using sm_keepsD [OF assms(1) run] assms(2) [OF _ run] by (cases "rt_inv rt") (simp_all add: rt_rel_def)
qed

lemma rt_reads_inv: "rt_inv rt \<Longrightarrow> rt_reads rt rt' \<Longrightarrow> rt_inv rt'"
  by (auto simp: rt_reads_def intro: rt_inv_same)

lemma same_state_commit [rt_laws]: "sm_keeps rt_same (state_commit old new)"
  unfolding state_commit_def by (intro rt_laws)

lemma reads_guarded [rt_laws]:
  assumes "sm_keeps rt_reads m"
  shows "sm_keeps rt_reads (guarded m)"
proof (rule sm_keepsI)
  fix rt r rt'
  assume "guarded m rt = (r, rt')"
  then obtain rt1 where m: "m (rt\<lparr>allow_internal := False\<rparr>) = (r, rt1)" and rt': "rt' = rt1\<lparr>allow_internal := True\<rparr>"
    by (auto simp: guarded_def split: prod.splits)
  from sm_keepsD [OF assms m] rt' show "rt_reads rt rt'"
    by (auto simp: rt_reads_def rt_same_def rt_inv_def)
qed

lemma keeps_reads_same: "sm_keeps rt_reads m \<Longrightarrow> sm_keeps rt_same m"
  by (auto simp: sm_keeps_def rt_reads_def)

lemma same_transaction [rt_laws]:
  assumes f: "\<And>st. sm_keeps rt_reads (f st)"
  shows "sm_keeps rt_same (rt_transaction proj emb f)"
  unfolding rt_transaction_def
  by (intro rt_laws reads_guarded [OF f, THEN keeps_reads_same])

context commits
begin

text \<open>
  A transaction whose closure only reads: it commits the data the closure computes from the
  receiver's state.
\<close>

lemma transaction_run:
  assumes inv: "rt_inv rt" and run: "rt_transaction proj emb f rt = (res, rt')"
    and f: "\<And>st. sm_keeps rt_reads (f st)"
    and ok: "\<And>act st rt1 x st' rt2. receiver_actor rt = Some act \<Longrightarrow> proj (adata act) = Some st \<Longrightarrow>
      rt_reads rt rt1 \<Longrightarrow> guarded (f st) rt1 = (Inr (x, st'), rt2) \<Longrightarrow> C (adata act) (emb st')"
  shows "rt_rel C rt rt' \<and> (\<forall>x. res = Inr x \<longrightarrow> (\<exists>r act st st' rt1 rt2.
      resolve (rt_tree rt) (receiver rt) = Some (ID r) \<and> view (rt_tree rt) (ID r) = Some act \<and>
      proj (adata act) = Some st \<and> rt_reads rt rt1 \<and> guarded (f st) rt1 = (Inr (x, st'), rt2) \<and>
      view (rt_tree rt') = (view (rt_tree rt))(ID r \<mapsto> act\<lparr>adata := emb st'\<rparr>)))"
proof -
  let ?conv = "\<lambda>_. actor_error SysErrIllegalActor"
  from get_actor_run [OF inv, of ?conv "receiver rt"] obtain rt1 where rt1:
    "on_tree ?conv (get_actor (receiver rt)) rt = (Inr (receiver_actor rt), rt1)" "rt_reads rt rt1"
    unfolding receiver_actor_def .
  note inv1 = rt_reads_inv [OF inv rt1(2)]
  show ?thesis
  proof (cases "Option.bind (receiver_actor rt) (\<lambda>act. proj (adata act))")
    case None
    with run rt1(1) have "rt' = rt1 \<and> (\<exists>e. res = Inl e)"
      by (cases "receiver_actor rt") (auto simp: rt_transaction_def sm_bind_def sm_simps)
    then show ?thesis using rt_reads_rel [OF rt1(2)] by auto
  next
    case (Some st)
    then obtain act where act: "receiver_actor rt = Some act" "proj (adata act) = Some st"
      by (auto simp: bind_eq_Some_conv)
    obtain q rt2 where g: "guarded (f st) rt1 = (q, rt2)" by (cases "guarded (f st) rt1")
    have r12: "rt_reads rt1 rt2" by (rule sm_keepsD [OF reads_guarded [OF f] g])
    then have r02: "rt_reads rt rt2" using rt1(2) transp_rt_reads by (blast elim: transpE)
    note inv2 = rt_reads_inv [OF inv r02]
    show ?thesis
    proof (cases q)
      case (Inl e)
      with run rt1(1) act g have "rt' = rt2" "res = Inl e"
        by (auto simp: rt_transaction_def sm_bind_def sm_simps)
      then show ?thesis using rt_reads_rel [OF r02] by auto
    next
      case (Inr y)
      then obtain x st' where g': "guarded (f st) rt1 = (Inr (x, st'), rt2)" using g by (cases y) auto
      obtain p rt3 where cm: "state_commit (adata act) (emb st') rt2 = (p, rt3)"
        by (cases "state_commit (adata act) (emb st') rt2")
      have res: "rt' = rt3" "res = (case p of Inl e \<Rightarrow> Inl e | Inr _ \<Rightarrow> Inr x)"
        using run rt1(1) act g' cm
        by (auto simp: rt_transaction_def sm_bind_def sm_simps split: sum.splits)
      have same: "receiver_actor rt2 = Some act" "view (rt_tree rt2) = view (rt_tree rt)"
        "resolve (rt_tree rt2) = resolve (rt_tree rt)" "receiver rt2 = receiver rt"
        using receiver_actor_reads [OF r02 inv] act r02 inv
        by (auto simp: rt_reads_def read_eqD rt_same_def receiver_def)
      have c: "C (adata act) (emb st')" by (rule ok [OF act rt1(2) g'])
      note cr = state_commit_run [OF inv2 cm, OF c]
      have "rt_rel C rt rt3" using rt_reads_rel [OF r02] cr(1) transp_rt_rel by (blast elim: transpE)
      moreover have "\<exists>r. resolve (rt_tree rt) (receiver rt) = Some (ID r) \<and> view (rt_tree rt) (ID r) = Some act \<and>
          view (rt_tree rt3) = (view (rt_tree rt))(ID r \<mapsto> act\<lparr>adata := emb st'\<rparr>)" if "res = Inr x'" for x'
      proof -
        have "p = Inr ()" using that res by (cases p) auto
        from cr(2) [OF this] same act(1) show ?thesis
          by (auto simp: receiver_actor_def actor_at_def)
      qed
      ultimately show ?thesis using res act(2) rt1(2) g' by (auto split: sum.splits) blast+
    qed
  qed
qed

end

end
