(* ===== verification/Runtime_Triples.thy ===== *)
theory Runtime_Triples
  imports Runtime_Laws
begin

text \<open>
  Triples for runtime computations, built on the laws of \<open>Runtime_Laws\<close>, and the laws of the
  operations that write: transactions, transfers, creation, deletion and sends.  The collection
  \<open>safe_laws\<close> holds the laws without pre- and postconditions as introduction rules.
\<close>

section \<open>Triples\<close>

text \<open>
  \<open>runs C P m Q\<close>: started on a runtime with a resolved receiver where \<open>P\<close> holds, \<open>m\<close> makes steps with
  commits in \<open>C\<close> only, whether it fails or not, and \<open>Q\<close> holds of its result when it succeeds.
  \<open>safe C m\<close> is the triple without conditions.
\<close>

definition rt_id :: "Runtime \<Rightarrow> bool" where
  "rt_id rt = (rt_inv rt \<and> protocol (receiver rt) = PID)"

definition runs :: "(ActorData \<Rightarrow> ActorData \<Rightarrow> bool) \<Rightarrow> (Runtime \<Rightarrow> bool) \<Rightarrow> 'a rtm \<Rightarrow>
    ('a \<Rightarrow> Runtime \<Rightarrow> bool) \<Rightarrow> bool" where
  "runs C P m Q = (\<forall>rt r rt'. rt_id rt \<longrightarrow> P rt \<longrightarrow> m rt = (r, rt') \<longrightarrow>
     rt_rel C rt rt' \<and> (\<forall>x. r = Inr x \<longrightarrow> Q x rt'))"

abbreviation safe :: "(ActorData \<Rightarrow> ActorData \<Rightarrow> bool) \<Rightarrow> 'a rtm \<Rightarrow> bool" where
  "safe C m \<equiv> runs C (\<lambda>_. True) m (\<lambda>_ _. True)"

definition stable :: "(Runtime \<Rightarrow> bool) \<Rightarrow> bool" where
  "stable P = (\<forall>rt rt'. rt_id rt \<longrightarrow> rt_reads rt rt' \<longrightarrow> P rt \<longrightarrow> P rt')"

lemma rt_rel_inv: "rt_rel C rt rt' \<Longrightarrow> rt_inv rt \<Longrightarrow> rt_inv rt'"
  by (auto simp: rt_rel_def tree_rel_def intro: rt_inv_same)

lemma rt_rel_id: "rt_rel C rt rt' \<Longrightarrow> rt_id rt \<Longrightarrow> rt_id rt'"
  using rt_rel_inv [of C rt rt'] by (auto simp: rt_id_def rt_rel_def rt_same_def receiver_def)

lemma runsI:
  "(\<And>rt r rt'. rt_id rt \<Longrightarrow> P rt \<Longrightarrow> m rt = (r, rt') \<Longrightarrow>
     rt_rel C rt rt' \<and> (\<forall>x. r = Inr x \<longrightarrow> Q x rt')) \<Longrightarrow> runs C P m Q"
  by (simp add: runs_def)

lemma runsD:
  assumes "runs C P m Q" "rt_id rt" "P rt" "m rt = (r, rt')"
  shows "rt_rel C rt rt'" "rt_id rt'" "r = Inr x \<Longrightarrow> Q x rt'"
  using assms rt_rel_id [of C rt rt'] unfolding runs_def by blast+

lemma runs_bind:
  assumes "runs C P m Q" "\<And>x. runs C (Q x) (f x) S"
  shows "runs C P (sm_bind m f) S"
proof (rule runsI)
  fix rt r rt'
  assume rt: "rt_id rt" "P rt" and run: "sm_bind m f rt = (r, rt')"
  obtain q rt1 where m: "m rt = (q, rt1)" by (cases "m rt")
  note d = runsD [OF assms(1) rt m]
  show "rt_rel C rt rt' \<and> (\<forall>x. r = Inr x \<longrightarrow> S x rt')"
  proof (cases q)
    case (Inl e)
    with run m d(1) show ?thesis by (auto simp: sm_bind_def)
  next
    case (Inr y)
    with run m have f: "f y rt1 = (r, rt')" by (simp add: sm_bind_def)
    note e = runsD [OF assms(2) d(2) d(3) [OF Inr] f]
    from e(1,3) d(1) transp_rt_rel show ?thesis by (blast elim: transpE)
  qed
qed

lemma runs_weaken:
  assumes "runs C P m Q" "\<And>rt. rt_id rt \<Longrightarrow> P' rt \<Longrightarrow> P rt" "\<And>x rt. rt_id rt \<Longrightarrow> Q x rt \<Longrightarrow> Q' x rt"
  shows "runs C P' m Q'"
  using assms rt_rel_id unfolding runs_def by blast

lemma runs_reads:
  assumes "sm_keeps rt_reads m" "stable P"
  shows "runs C P m (\<lambda>_. P)"
  using assms sm_keepsD [OF assms(1)] rt_reads_rel unfolding runs_def stable_def by blast

lemma runs_pure:
  "(\<And>rt. rt_id rt \<Longrightarrow> P rt \<Longrightarrow> Q x rt) \<Longrightarrow> runs C P (sm_ret x) Q"
  "runs C P (sm_err e) R"
  "(\<And>rt. rt_id rt \<Longrightarrow> P rt \<Longrightarrow> S (g rt) rt) \<Longrightarrow> runs C P (sm_get g) S"
  "(\<And>rt y. rt_id rt \<Longrightarrow> P rt \<Longrightarrow> l = Inr y \<Longrightarrow> T y rt) \<Longrightarrow> runs C P (sm_lift l) T"
  "(\<And>rt. rt_id rt \<Longrightarrow> P rt \<Longrightarrow> \<not> b \<Longrightarrow> U () rt) \<Longrightarrow> runs C P (sm_when b e) U"
  using reflp_rt_rel [of C] by (auto simp: runs_def sm_simps dest: reflpD split: sum.splits)

lemma runs_if:
  "(c \<Longrightarrow> runs C P a Q) \<Longrightarrow> (\<not> c \<Longrightarrow> runs C P b Q) \<Longrightarrow> runs C P (if c then a else b) Q"
  by simp

lemma runs_option:
  "(x = None \<Longrightarrow> runs C P a Q) \<Longrightarrow> (\<And>y. x = Some y \<Longrightarrow> runs C P (b y) Q) \<Longrightarrow>
   runs C P (case x of None \<Rightarrow> a | Some y \<Rightarrow> b y) Q"
  by (cases x) simp_all

lemma runs_sum:
  "(\<And>y. x = Inl y \<Longrightarrow> runs C P (a y) Q) \<Longrightarrow> (\<And>y. x = Inr y \<Longrightarrow> runs C P (b y) Q) \<Longrightarrow>
   runs C P (case x of Inl y \<Rightarrow> a y | Inr y \<Rightarrow> b y) Q"
  by (cases x) simp_all

lemma runs_prod:
  "(\<And>a b. x = (a, b) \<Longrightarrow> runs C P (f a b) Q) \<Longrightarrow> runs C P (case x of (a, b) \<Rightarrow> f a b) Q"
  by (cases x) simp

lemma runs_Let: "(\<And>y. y = x \<Longrightarrow> runs C P (f y) Q) \<Longrightarrow> runs C P (let y = x in f y) Q"
  by simp

named_theorems safe_laws \<open>laws of safe computations\<close>

lemmas runs_control = runs_if runs_option runs_sum runs_prod runs_Let
lemmas safe_bind [safe_laws] = runs_bind [where P = "\<lambda>_. True" and Q = "\<lambda>_ _. True" and S = "\<lambda>_ _. True"]
lemmas safe_control [safe_laws] = runs_control [where P = "\<lambda>_. True" and Q = "\<lambda>_ _. True"]

lemma stable_True: "stable (\<lambda>_. True)"
  by (simp add: stable_def)

lemma safe_reads: "sm_keeps rt_reads m \<Longrightarrow> safe C m"
  by (rule runs_reads [OF _ stable_True])

lemmas safe_reading [safe_laws] =
  reads_pure [THEN safe_reads]
  reads_resolve_address [THEN safe_reads] reads_get_actor [THEN safe_reads]
  reads_lookup_id [THEN safe_reads] reads_code_cid [THEN safe_reads]
  reads_balance [THEN safe_reads] reads_current_balance [THEN safe_reads]
  reads_state [THEN safe_reads] reads_key_addr [THEN safe_reads]
  reads_verify_signature [THEN safe_reads] reads_deserialize [THEN safe_reads]
  reads_new_actor_address [THEN safe_reads] reads_abort_if_validated [THEN safe_reads]
  reads_validate [THEN safe_reads]

lemma safe_try [safe_laws]: "safe C m \<Longrightarrow> safe C (rt_try m)"
  by (auto simp: runs_def rt_try_def split: prod.splits)

text \<open>The state data of the receiver, as the runtime sees it.\<close>

definition receiver_data :: "Runtime \<Rightarrow> ActorData option" where
  "receiver_data rt = map_option adata (receiver_actor rt)"

lemma stable_conj: "stable P \<Longrightarrow> stable Q \<Longrightarrow> stable (\<lambda>rt. P rt \<and> Q rt)"
  by (auto simp: stable_def)

lemma stable_receiver: "stable (\<lambda>rt. p (receiver_data rt) (vm_msg rt))"
proof (unfold stable_def, intro allI impI)
  fix rt rt'
  assume "rt_id rt" and r: "rt_reads rt rt'" and p: "p (receiver_data rt) (vm_msg rt)"
  then have "receiver_actor rt' = receiver_actor rt" by (simp add: rt_id_def receiver_actor_reads)
  moreover have "vm_msg rt' = vm_msg rt" using r by (simp add: rt_reads_def rt_same_def)
  ultimately show "p (receiver_data rt') (vm_msg rt')" using p by (simp add: receiver_data_def)
qed

lemma runs_state:
  assumes "stable P"
  shows "runs C P (rt_state proj) (\<lambda>st rt. P rt \<and> (\<exists>d. receiver_data rt = Some d \<and> proj d = Some st))"
proof (rule runsI)
  fix rt r rt'
  assume rt: "rt_id rt" "P rt" and run: "rt_state proj rt = (r, rt')"
  have inv: "rt_inv rt" using rt by (simp add: rt_id_def)
  from get_actor_run [OF inv, of "\<lambda>_. actor_error SysErrIllegalArgument" "receiver rt"] obtain rt1 where rt1:
    "on_tree (\<lambda>_. actor_error SysErrIllegalArgument) (get_actor (receiver rt)) rt = (Inr (receiver_actor rt), rt1)"
    "rt_reads rt rt1" unfolding receiver_actor_def .
  have "rt' = rt1" "\<And>x. r = Inr x \<Longrightarrow> \<exists>d. receiver_data rt = Some d \<and> proj d = Some x"
    using run rt1(1)
    by (auto simp: rt_state_def sm_bind_def sm_simps ok_or_def receiver_data_def split: option.splits sum.splits)
  then show "rt_rel C rt rt' \<and> (\<forall>x. r = Inr x \<longrightarrow> P rt' \<and> (\<exists>d. receiver_data rt' = Some d \<and> proj d = Some x))"
    using rt_reads_rel [OF rt1(2)] assms rt rt1(2) receiver_actor_reads [OF rt1(2) inv]
    by (auto simp: stable_def receiver_data_def)
qed

section \<open>Laws of the operations that write\<close>

lemma rt_same_receiver: "rt_same rt rt' \<Longrightarrow> receiver rt' = receiver rt"
  by (simp add: rt_same_def receiver_def)

lemma receiver_actor_id:
  "rt_id rt \<Longrightarrow> receiver rt = ID r \<Longrightarrow> receiver_actor rt = view (rt_tree rt) (ID r)"
  by (simp add: receiver_actor_def actor_at_def)

lemma rt_id_receiver: "rt_id rt \<Longrightarrow> \<exists>r. receiver rt = ID r"
  by (cases "receiver rt") (simp_all add: rt_id_def)

context commits
begin

lemma runs_transaction:
  assumes f: "\<And>st. sm_keeps rt_reads (f st)"
    and ok: "\<And>rt d st rt1 x st' rt2. P rt \<Longrightarrow> receiver_data rt = Some d \<Longrightarrow> proj d = Some st \<Longrightarrow>
      rt_reads rt rt1 \<Longrightarrow> guarded (f st) rt1 = (Inr (x, st'), rt2) \<Longrightarrow>
      C d (emb st') \<and> (\<forall>rt'. receiver_data rt' = Some (emb st') \<longrightarrow> rt_same rt rt' \<longrightarrow> Q x rt')"
  shows "runs C P (rt_transaction proj emb f) Q"
proof (rule runsI)
  fix rt r rt'
  assume rt: "rt_id rt" "P rt" and run: "rt_transaction proj emb f rt = (r, rt')"
  have inv: "rt_inv rt" using rt by (simp add: rt_id_def)
  have c: "C (adata act) (emb st')"
    if "receiver_actor rt = Some act" "proj (adata act) = Some st" "rt_reads rt rt1"
      "guarded (f st) rt1 = (Inr (x, st'), rt2)" for act st rt1 x st' rt2
    using ok [OF rt(2) _ that(2-4)] that(1) by (simp add: receiver_data_def)
  note t = transaction_run [OF inv run f]
  have rel: "rt_rel C rt rt'" by (rule conjunct1 [OF t]) (rule c)
  moreover have "Q x rt'" if "r = Inr x" for x
  proof -
    have "\<exists>a act st st' rt1 rt2.
        resolve (rt_tree rt) (receiver rt) = Some (ID a) \<and> view (rt_tree rt) (ID a) = Some act \<and>
        proj (adata act) = Some st \<and> rt_reads rt rt1 \<and> guarded (f st) rt1 = (Inr (x, st'), rt2) \<and>
        view (rt_tree rt') = (view (rt_tree rt))(ID a \<mapsto> act\<lparr>adata := emb st'\<rparr>)"
      by (rule conjunct2 [OF t, rule_format, OF _ that]) (rule c)
    then obtain a act st st' rt1 rt2 where d:
      "resolve (rt_tree rt) (receiver rt) = Some (ID a)" "view (rt_tree rt) (ID a) = Some act"
      "proj (adata act) = Some st" "rt_reads rt rt1" "guarded (f st) rt1 = (Inr (x, st'), rt2)"
      "view (rt_tree rt') = (view (rt_tree rt))(ID a \<mapsto> act\<lparr>adata := emb st'\<rparr>)"
      by blast
    from rt_id_receiver [OF rt(1)] d(1) have a: "receiver rt = ID a" by auto
    have same: "rt_same rt rt'" using rel by (simp add: rt_rel_def)
    have a': "receiver rt' = ID a" using a rt_same_receiver [OF same] by simp
    have "receiver_data rt = Some (adata act)"
      using receiver_actor_id [OF rt(1) a] d(2) by (simp add: receiver_data_def)
    from ok [OF rt(2) this d(3-5)] have "\<forall>rt'. receiver_data rt' = Some (emb st') \<longrightarrow> rt_same rt rt' \<longrightarrow> Q x rt'"
      by blast
    moreover have "receiver_data rt' = Some (emb st')"
      using receiver_actor_id [OF rt_rel_id [OF rel rt(1)] a'] d(6) by (simp add: receiver_data_def)
    ultimately show ?thesis using same by blast
  qed
  ultimately show "rt_rel C rt rt' \<and> (\<forall>x. r = Inr x \<longrightarrow> Q x rt')" by blast
qed

lemma safe_transaction:
  assumes "\<And>st. sm_keeps rt_reads (f st)"
    and "\<And>d st rt1 x st' rt2. proj d = Some st \<Longrightarrow> guarded (f st) rt1 = (Inr (x, st'), rt2) \<Longrightarrow> C d (emb st')"
  shows "safe C (rt_transaction proj emb f)"
  using assms by (intro runs_transaction) blast+

lemma safe_create: "C EmptyArr obj \<Longrightarrow> safe C (rt_create obj)"
  using state_commit_run(1) unfolding rt_create_def runs_def rt_id_def by blast

end

text \<open>Tree operations at an address that has an identifier.\<close>

lemma lookup_id_run:
  assumes "rt_inv rt"
  obtains rt' where "on_tree conv (lookup_id a) rt = (Inr (resolve (rt_tree rt) a), rt')" "rt_reads rt rt'"
proof -
  have inv: "tree_inv (rt_tree rt)" using assms by (simp add: rt_inv_def)
  from lookup_id_ok [OF tree_invD [OF inv], of a] obtain t' where t':
    "lookup_id a (rt_tree rt) = (Inr (resolve (rt_tree rt) a), t')" "read_eq (rt_tree rt) t'" "tree_ok t'" .
  then have run: "on_tree conv (lookup_id a) rt = (Inr (resolve (rt_tree rt) a), rt\<lparr>rt_tree := t'\<rparr>)"
    by (simp add: on_tree_def)
  then show ?thesis using that sm_keepsD [OF reads_lookup_id] by blast
qed

lemma rt_reads_tree:
  assumes "rt_reads rt rt'" "rt_inv rt"
  shows "view (rt_tree rt') = view (rt_tree rt)" "resolve (rt_tree rt') = resolve (rt_tree rt)"
    "frame (rt_tree rt) (rt_tree rt')" "hamt (rt_tree rt') = hamt (rt_tree rt)" "rt_same rt rt'" "rt_inv rt'"
    "actor_at (rt_tree rt') = actor_at (rt_tree rt)"
  using assms rt_reads_inv [OF assms(2,1)]
  by (auto simp: rt_reads_def read_eqD fun_eq_iff actor_at_def)

lemma rt_reads_trans: "rt_reads a b \<Longrightarrow> rt_reads b c \<Longrightarrow> rt_reads a c"
  using transp_rt_reads by (blast elim: transpE)

lemma has_init_iff: "has_init t \<longleftrightarrow> init_of (view t) \<noteq> None"
  by (auto simp: has_init_def init_of_Some INIT_ACTOR_ADDR_def)

lemma set_two:
  assumes t: "tree_inv t" "resolve t a = Some (ID i)" "resolve t b = Some (ID j)"
    and f: "view t (ID i) = Some f" "adata f' = adata f"
  obtains t1 t2 where "set_actor a f' t = (Inr (), t1)" "set_actor b g' t1 = (Inr (), t2)"
    "frame t t2" "tree_ok t2" "view t2 = (view t)(ID i \<mapsto> f', ID j \<mapsto> g')"
proof -
  from set_actor_view [OF t(1,2), of f'] obtain t1 where t1:
    "set_actor a f' t = (Inr (), t1)" "frame t t1" "tree_ok t1" "view t1 = (view t)(ID i \<mapsto> f')"
    "init_of (view t1) = init_of (view t) \<longrightarrow> resolve t1 = resolve t" .
  have i1: "init_of (view t1) = init_of (view t)" unfolding t1(4) by (rule init_of_upd [of "view t", OF f])
  then have r1: "resolve t1 b = Some (ID j)" using t1(5) t(3) by simp
  have "tree_ok t1" "has_init t1" using t1(3) i1 t(1) by (simp_all add: tree_inv_def table_inv_def has_init_iff)
  from set_actor_ok [OF this, of b g'] obtain t2 where t2:
    "set_actor b g' t1 = (case resolve t1 b of None \<Rightarrow> Inl ResolutionFailed | Some _ \<Rightarrow> Inr (), t2)"
    "frame t1 t2" "tree_ok t2"
    "view t2 = (case resolve t1 b of None \<Rightarrow> view t1 | Some c \<Rightarrow> (view t1)(c \<mapsto> g'))"
    "Option.bind (view t2 INIT_ACTOR_ADDR) init_data = Option.bind (view t1 INIT_ACTOR_ADDR) init_data \<longrightarrow>
     resolve t2 = resolve t1" .
  show ?thesis
    by (rule that [OF t1(1)]) (use t1 t2 r1 frame_trans [OF t1(2) t2(2)] in simp_all)
qed

lemma rt_rel_trans: "rt_rel C a b \<Longrightarrow> rt_rel C b c \<Longrightarrow> rt_rel C a c"
  using transp_rt_rel by (blast elim: transpE)

lemma rt_reads_rel_trans: "rt_reads a b \<Longrightarrow> rt_rel C b c \<Longrightarrow> rt_rel C a c"
  by (rule rt_rel_trans [OF rt_reads_rel])

text \<open>
  \<open>transfer\<close> either leaves all balances alone (an error, or an actor that pays itself) or moves the
  amount, which then is covered by the sender's balance.
\<close>

definition moved :: "Address \<Rightarrow> Address \<Rightarrow> int \<Rightarrow> Runtime \<Rightarrow> Runtime \<Rightarrow> bool" where
  "moved a b x rt rt' = (\<exists>i j f g.
     resolve (rt_tree rt) a = Some (ID i) \<and> resolve (rt_tree rt) b = Some (ID j) \<and> i \<noteq> j \<and>
     view (rt_tree rt) (ID i) = Some f \<and> view (rt_tree rt) (ID j) = Some g \<and> 0 \<le> x \<and> x \<le> abalance f \<and>
     view (rt_tree rt') = (view (rt_tree rt))(ID i \<mapsto> f\<lparr>abalance := abalance f - x\<rparr>,
       ID j \<mapsto> g\<lparr>abalance := abalance g + x\<rparr>))"

lemma on_tree_two:
  assumes "set_actor a f' (rt_tree rt) = (Inr (), t1)" "set_actor b g' t1 = (Inr (), t2)"
  shows "sm_bind (fatal_tree (set_actor a f')) (\<lambda>_. fatal_tree (set_actor b g')) rt = (Inr (), rt\<lparr>rt_tree := t2\<rparr>)"
  using assms by (simp add: sm_bind_def on_tree_def)

context commits
begin

lemma move_run:
  assumes inv: "rt_inv rt" and r: "resolve (rt_tree rt) a = Some (ID i)" "resolve (rt_tree rt) b = Some (ID j)" "i \<noteq> j"
    and f: "view (rt_tree rt) (ID i) = Some f" "view (rt_tree rt) (ID j) = Some g" "0 \<le> x" "x \<le> abalance f"
    and run: "sm_bind (fatal_tree (set_actor a (f\<lparr>abalance := abalance f - x\<rparr>)))
      (\<lambda>_. fatal_tree (set_actor b (deposit_funds g x))) rt = (res, rt')"
  shows "res = Inr () \<and> rt_rel C rt rt' \<and> moved a b x rt rt'"
proof -
  have ti: "tree_inv (rt_tree rt)" using inv by (simp add: rt_inv_def)
  from set_two [OF ti r(1,2) f(1), of "f\<lparr>abalance := abalance f - x\<rparr>" "deposit_funds g x"]
  obtain t1 t2 where t: "set_actor a (f\<lparr>abalance := abalance f - x\<rparr>) (rt_tree rt) = (Inr (), t1)"
    "set_actor b (deposit_funds g x) t1 = (Inr (), t2)" "frame (rt_tree rt) t2" "tree_ok t2"
    "view t2 = (view (rt_tree rt))(ID i \<mapsto> f\<lparr>abalance := abalance f - x\<rparr>, ID j \<mapsto> deposit_funds g x)"
    by auto
  have rt': "res = Inr ()" "rt' = rt\<lparr>rt_tree := t2\<rparr>" using on_tree_two [OF t(1,2)] run by simp_all
  have "vstep C (hamt (rt_tree rt)) (view (rt_tree rt)) (view t2)"
    unfolding t(5) deposit_funds_def by (rule vstep.move) (use r f in simp_all)
  then have "tree_rel C (rt_tree rt) t2" by (intro vsteps_tree_rel [OF ti C _ t(3,4)] r_into_rtranclp)
  then show ?thesis using rt' r f t(5) by (auto simp: rt_rel_def rt_same_def moved_def deposit_funds_def)
qed

lemma transfer_run:
  assumes inv: "rt_inv rt" and run: "transfer a b x rt = (res, rt')"
  shows "rt_rel C rt rt' \<and> (res = Inr () \<longrightarrow>
    moved a b x rt rt' \<or> (rt_reads rt rt' \<and> (a = b \<or> resolve (rt_tree rt) a = resolve (rt_tree rt) b)))"
proof -
  have ti: "tree_inv (rt_tree rt)" using inv by (simp add: rt_inv_def)
  from lookup_id_run [OF inv, of "\<lambda>_. new_fatal" a] obtain rt1 where l1:
    "fatal_tree (lookup_id a) rt = (Inr (resolve (rt_tree rt) a), rt1)" "rt_reads rt rt1" .
  note e1 = rt_reads_tree [OF l1(2) inv]
  from lookup_id_run [OF e1(6), of "\<lambda>_. new_fatal" b] obtain rt2 where l2:
    "fatal_tree (lookup_id b) rt1 = (Inr (resolve (rt_tree rt1) b), rt2)" "rt_reads rt1 rt2" .
  have r2: "rt_reads rt rt2" by (rule rt_reads_trans [OF l1(2) l2(2)])
  note e2 = rt_reads_tree [OF r2 inv]
  note lk = l1(1) l2(1) [unfolded e1]
  consider (same) "a = b" | (none1) "a \<noteq> b" "resolve (rt_tree rt) a = None"
    | (none2) i where "a \<noteq> b" "resolve (rt_tree rt) a = Some (ID i)" "resolve (rt_tree rt) b = None"
    | (eq) i where "a \<noteq> b" "resolve (rt_tree rt) a = Some (ID i)" "resolve (rt_tree rt) b = Some (ID i)"
    | (neq) i j where "a \<noteq> b" "resolve (rt_tree rt) a = Some (ID i)" "resolve (rt_tree rt) b = Some (ID j)" "i \<noteq> j"
    using resolve_ID_obtain [OF ti] by (metis not_Some_eq)
  then show ?thesis
  proof cases
    case same
    then show ?thesis using run reflp_rt_reads reflp_rt_rel by (auto simp: transfer_def sm_simps dest: reflpD)
  next
    case none1
    then have "rt' = rt1" "res = Inl new_fatal"
      using run lk by (auto simp: transfer_def sm_bind_def sm_simps ok_or_def)
    then show ?thesis using rt_reads_rel [OF l1(2)] by simp
  next
    case none2
    then have "rt' = rt2" "res = Inl new_fatal"
      using run lk by (auto simp: transfer_def sm_bind_def sm_simps ok_or_def)
    then show ?thesis using rt_reads_rel [OF r2] by simp
  next
    case eq
    then have "rt' = rt2"
      using run lk by (auto simp: transfer_def sm_bind_def sm_simps ok_or_def)
    then show ?thesis using rt_reads_rel [OF r2] r2 eq by simp
  next
    case neq
    let ?v = "view (rt_tree rt)"
    from get_actor_run [OF e2(6), of "\<lambda>_. new_fatal" "ID i"] obtain rt3 where l3:
      "fatal_tree (get_actor (ID i)) rt2 = (Inr (?v (ID i)), rt3)" "rt_reads rt2 rt3"
      unfolding actor_at_def e2 by auto
    have r3: "rt_reads rt rt3" by (rule rt_reads_trans [OF r2 l3(2)])
    note e3 = rt_reads_tree [OF r3 inv]
    from get_actor_run [OF e3(6), of "\<lambda>_. new_fatal" "ID j"] obtain rt4 where l4:
      "fatal_tree (get_actor (ID j)) rt3 = (Inr (?v (ID j)), rt4)" "rt_reads rt3 rt4"
      unfolding actor_at_def e3 by auto
    have r4: "rt_reads rt rt4" by (rule rt_reads_trans [OF r3 l4(2)])
    note e4 = rt_reads_tree [OF r4 inv]
    note ev = transfer_def sm_bind_def sm_simps ok_or_def lk l3(1) l4(1) neq deduct_funds_def
    show ?thesis
    proof (cases "0 \<le> x \<and> (\<exists>f g. ?v (ID i) = Some f \<and> ?v (ID j) = Some g \<and> x \<le> abalance f)")
      case False
      then have "(\<exists>e. res = Inl e) \<and> rt' \<in> {rt2, rt3, rt4}"
        using run by (cases "?v (ID i)"; cases "?v (ID j)") (auto simp: ev split: if_splits)
      then show ?thesis using r2 r3 r4 rt_reads_rel by auto
    next
      case True
      then obtain f g where fg: "0 \<le> x" "?v (ID i) = Some f" "?v (ID j) = Some g" "x \<le> abalance f" by blast
      then have "sm_bind (fatal_tree (set_actor a (f\<lparr>abalance := abalance f - x\<rparr>)))
          (\<lambda>_. fatal_tree (set_actor b (deposit_funds g x))) rt4 = (res, rt')"
        using run by (simp add: ev)
      from move_run [OF e4(6) _ _ neq(4) _ _ fg(1,4) this] neq fg e4
      have "rt_rel C rt4 rt'" "moved a b x rt4 rt'" by simp_all
      then show ?thesis using rt_reads_rel_trans [OF r4] by (auto simp: moved_def e4)
    qed
  qed
qed

lemma safe_transfer [safe_laws]: "safe C (transfer a b x)"
  using transfer_run unfolding runs_def rt_id_def by blast

end

lemma on_tree_view_run:
  assumes "f (rt_tree rt) = (Inr x, t')" "on_tree conv f rt = (res, rt')"
  shows "res = Inr x" "rt' = rt\<lparr>rt_tree := t'\<rparr>"
  using assms by (simp_all add: on_tree_def)

text \<open>
  The receiver is a payment channel: what the base table holds under its identifier, if anything,
  has the code of one.
\<close>

definition paych_receiver :: "Runtime \<Rightarrow> bool" where
  "paych_receiver rt = (receiver rt \<noteq> ID 1 \<and>
     (\<forall>b. hamt (rt_tree rt) (receiver rt) = Some b \<longrightarrow> is_paych_code (acode b)))"

context commits
begin

text \<open>An actor created under an identifier that the init actor has allocated.\<close>

lemma set_new_run:
  assumes inv: "rt_inv rt" and i: "init_of (view (rt_tree rt)) = Some st" "i < next_id st"
    and none: "view (rt_tree rt) (ID i) = None" "\<not> is_singleton_actor c"
    and run: "fatal_tree (set_actor (ID i) (ActorState_new c EmptyArr 0 0)) rt = (res, rt')"
  shows "res = Inr () \<and> rt_rel C rt rt' \<and>
    view (rt_tree rt') = (view (rt_tree rt))(ID i \<mapsto> ActorState_new c EmptyArr 0 0)"
  by (rule fatal_set_actor_rel [OF C inv resolve_ID vstep.create [where st = st] run]) (use assms in simp_all)

lemma runs_create_actor:
  "runs C (\<lambda>rt. \<exists>st. init_of (view (rt_tree rt)) = Some st \<and> i < next_id st) (rt_create_actor c (ID i)) (\<lambda>_ _. True)"
proof (rule runsI, intro conjI)
  fix rt r rt'
  assume rt: "rt_id rt" "\<exists>st. init_of (view (rt_tree rt)) = Some st \<and> i < next_id st"
    and run: "rt_create_actor c (ID i) rt = (r, rt')"
  have inv: "rt_inv rt" and ti: "tree_inv (rt_tree rt)" using rt by (simp_all add: rt_id_def rt_inv_def)
  from get_actor_run [OF inv, of "\<lambda>_. new_fatal" "ID i"] obtain rt1 where l1:
    "fatal_tree (get_actor (ID i)) rt = (Inr (view (rt_tree rt) (ID i)), rt1)" "rt_reads rt rt1"
    unfolding actor_at_def by auto
  note e1 = rt_reads_tree [OF l1(2) inv]
  have g: "get_actor (ID i) (rt_tree rt) = (Inr (view (rt_tree rt) (ID i)), rt_tree rt1)" "rt1 = rt\<lparr>rt_tree := rt_tree rt1\<rparr>"
    using l1(1) by (auto simp: on_tree_def split: prod.splits sum.splits)
  note ev = rt_create_actor_def sm_bind_def sm_simps g(1)
  show "rt_rel C rt rt'"
  proof (cases "is_builtin_actor c \<and> code_actor_version c = Some (actor_version_of (version rt)) \<and>
      \<not> is_singleton_actor c \<and> view (rt_tree rt) (ID i) = None")
    case False
    then have "rt' \<in> {rt, rt1}"
      using run g(2) by (auto simp: ev split: if_splits option.splits)
    then show ?thesis using rt_reads_rel [OF l1(2)] reflp_rt_rel [of C] by (auto dest: reflpD)
  next
    case True
    then have "fatal_tree (set_actor (ID i) (ActorState_new c EmptyArr 0 0)) rt1 = (r, rt')"
      using run g(2) by (simp add: ev)
    then have "rt_rel C rt1 rt'" using set_new_run [OF e1(6)] rt(2) True e1 by auto
    then show ?thesis by (rule rt_reads_rel_trans [OF l1(2)])
  qed
qed simp

text \<open>The removal of a payment channel that has no balance left.\<close>

lemma delete_run:
  assumes inv: "rt_inv rt" and act: "view (rt_tree rt) (ID a) = Some act" "a \<noteq> 1" "abalance act = 0"
    and h: "\<And>b. hamt (rt_tree rt) (ID a) = Some b \<Longrightarrow> is_paych_code (acode b)"
    and run: "fatal_tree (delete_actor (ID a)) rt = (res, rt')"
  shows "rt_rel C rt rt'"
proof -
  have ti: "tree_inv (rt_tree rt)" using inv by (simp add: rt_inv_def)
  from delete_actor_ok [OF tree_invD [OF ti], of "ID a"] obtain t' where t':
    "delete_actor (ID a) (rt_tree rt) = (Inr (), t')" "frame (rt_tree rt) t'" "tree_ok t'"
    "view t' = (view (rt_tree rt))(ID a := hamt (rt_tree rt) (ID a))" by auto
  have "vstep C (hamt (rt_tree rt)) (view (rt_tree rt)) (view t')"
    unfolding t'(4) by (rule vstep.remove [of "view (rt_tree rt)", OF act h])
  then have "tree_rel C (rt_tree rt) t'" by (intro vsteps_tree_rel [OF ti C _ t'(2,3)] r_into_rtranclp)
  then show ?thesis using on_tree_view_run [OF t'(1) run] by (simp add: rt_rel_def rt_same_def)
qed

lemma delete_paid_run:
  assumes rt: "rt_id rt" "receiver rt = ID r" and act: "view (rt_tree rt) (ID r) = Some act" "r \<noteq> 1"
    and h: "\<And>b. hamt (rt_tree rt) (ID r) = Some b \<Longrightarrow> is_paych_code (acode b)"
    and bal: "abalance act \<noteq> 0" and run: "rt_delete_actor b rt = (res, rt')"
  shows "rt_rel C rt rt'"
proof -
  have inv: "rt_inv rt" and v7: "7 \<le> version rt" using rt by (simp_all add: rt_id_def rt_inv_def)
  from get_actor_run [OF inv, of "\<lambda>_. new_fatal" "ID r"] obtain rt1 where l1:
    "fatal_tree (get_actor (ID r)) rt = (Inr (Some act), rt1)" "rt_reads rt rt1"
    using act unfolding actor_at_def by auto
  note e1 = rt_reads_tree [OF l1(2) inv]
  from lookup_id_run [OF e1(6), of "\<lambda>_. new_fatal" b] obtain rt2 where l2:
    "fatal_tree (lookup_id b) rt1 = (Inr (resolve (rt_tree rt) b), rt2)" "rt_reads rt1 rt2"
    unfolding e1 .
  have r2: "rt_reads rt rt2" by (rule rt_reads_trans [OF l1(2) l2(2)])
  note e2 = rt_reads_tree [OF r2 inv]
  have v71: "7 \<le> version rt1" using e1(5) v7 by (simp add: rt_same_def)
  note ev = rt_delete_actor_def rt_resolve_address_def sm_bind_def sm_simps ok_or_def rt(2) l1(1) l2(1) v71 bal
  show ?thesis
  proof (cases "resolve (rt_tree rt) b = None \<or> resolve (rt_tree rt) b = Some (ID r)")
    case True
    then have "rt' = rt2" using run by (auto simp: ev)
    then show ?thesis using rt_reads_rel [OF r2] by simp
  next
    case False
    then obtain c where c: "resolve (rt_tree rt) b = Some c" "c \<noteq> ID r" by auto
    obtain q rt3 where tr: "transfer (ID r) b (abalance act) rt2 = (q, rt3)"
      by (cases "transfer (ID r) b (abalance act) rt2")
    note t = transfer_run [OF e2(6) tr]
    have r3: "rt_rel C rt rt3" using t rt_reads_rel_trans [OF r2] by blast
    show ?thesis
    proof (cases q)
      case (Inl e)
      then have "rt' = rt3" using run c tr by (simp add: ev)
      then show ?thesis using r3 by simp
    next
      case (Inr u)
      then have del: "fatal_tree (delete_actor (ID r)) rt3 = (res, rt')" using run c tr by (simp add: ev)
      from t Inr c have "moved (ID r) b (abalance act) rt2 rt3" by (auto simp: e2)
      then have z: "view (rt_tree rt3) (ID r) = Some (act\<lparr>abalance := 0\<rparr>)"
        using act(1) by (auto simp: moved_def e2)
      have "hamt (rt_tree rt3) = hamt (rt_tree rt)" using r3 inv by (simp add: rt_rel_def tree_rel_def frame_def)
      with delete_run [OF rt_rel_inv [OF r3 inv] z act(2) _ _ del] h have "rt_rel C rt3 rt'" by simp
      then show ?thesis by (rule rt_rel_trans [OF r3])
    qed
  qed
qed

lemma runs_delete_actor: "runs C paych_receiver (rt_delete_actor b) (\<lambda>_ _. True)"
proof (rule runsI, intro conjI)
  fix rt res rt'
  assume rt: "rt_id rt" "paych_receiver rt" and run: "rt_delete_actor b rt = (res, rt')"
  have inv: "rt_inv rt" using rt by (simp add: rt_id_def)
  from rt_id_receiver [OF rt(1)] obtain r where r: "receiver rt = ID r" ..
  have r1: "r \<noteq> 1" and h: "\<And>b. hamt (rt_tree rt) (ID r) = Some b \<Longrightarrow> is_paych_code (acode b)"
    using rt(2) r by (auto simp: paych_receiver_def)
  from get_actor_run [OF inv, of "\<lambda>_. new_fatal" "ID r"] obtain rt1 where l1:
    "fatal_tree (get_actor (ID r)) rt = (Inr (view (rt_tree rt) (ID r)), rt1)" "rt_reads rt rt1"
    unfolding actor_at_def by auto
  note e1 = rt_reads_tree [OF l1(2) inv]
  note ev = rt_delete_actor_def sm_bind_def sm_simps ok_or_def r l1(1)
  show "rt_rel C rt rt'"
  proof (cases "view (rt_tree rt) (ID r)")
    case None
    then have "rt' = rt1" using run by (simp add: ev)
    then show ?thesis using rt_reads_rel [OF l1(2)] by simp
  next
    case (Some act)
    show ?thesis
    proof (cases "abalance act = 0")
      case True
      then have "fatal_tree (delete_actor (ID r)) rt1 = (res, rt')" using run Some by (simp add: ev)
      then have "rt_rel C rt1 rt'" using delete_run [OF e1(6) _ r1 True h] Some e1 by simp
      then show ?thesis by (rule rt_reads_rel_trans [OF l1(2)])
    next
      case False
      show ?thesis by (rule delete_paid_run [OF rt(1) r Some r1 _ False run]) (rule h)
    qed
  qed
qed simp

end

section \<open>Sends\<close>

text \<open>
  \<open>sender C exec\<close>: running a message makes steps with commits in \<open>C\<close> only.  A send then does so too,
  and when the message fails the send leaves the very tree it started from.
\<close>

definition sender :: "(ActorData \<Rightarrow> ActorData \<Rightarrow> bool) \<Rightarrow> send_fn \<Rightarrow> bool" where
  "sender C exec = (\<forall>msg. sm_keeps (rt_rel C) (exec msg))"

lemma rt_rel_same: "rt_rel C rt rt' \<Longrightarrow> rt_same rt rt'"
  by (simp add: rt_rel_def)

lemma snapshot_inv:
  assumes "tree_inv t"
  shows "tree_inv (t\<lparr>layers := layer_default # layers t\<rparr>)"
  by (rule tree_inv_cong [OF assms]) (use snapshot_ok(2,3) [OF tree_invD(1) [OF assms]] in simp_all)

text \<open>A message that succeeds: its snapshot is merged into the layer below.\<close>

lemma committed_rel:
  assumes t: "tree_inv t" and r: "tree_rel C (t\<lparr>layers := layer_default # layers t\<rparr>) u"
  shows "\<exists>v. clear_snapshot u = (Inr (), v) \<and> tree_rel C t v"
proof -
  have ok: "tree_ok t" "layers t \<noteq> []" using tree_invD(1) [OF t] by (simp_all add: tree_ok_def)
  have u: "tree_inv u" "hamt u = hamt t" "tl (layers u) = layers t" "length (layers u) = Suc (length (layers t))"
    "vsteps C (hamt t) (view t) (view u)"
    using r snapshot_ok(3) [OF ok(1)] by (simp_all add: tree_rel_def frame_def)
  then obtain l where l: "layers u = l # layers t" by (cases "layers u") auto
  obtain m ls where m: "layers t = m # ls" using ok(2) by (cases "layers t") auto
  from clear_snapshot_ok [OF tree_invD(1) [OF u(1)], of l m ls] l m obtain v where v:
    "clear_snapshot u = (Inr (), v)" "tree_ok v" "view v = view u" "hamt v = hamt u" "tl (layers v) = ls"
    "length (layers v) = Suc (length ls)" by auto
  have "tree_rel C t v"
    using u v m tree_inv_cong [OF u(1) v(2,3)] by (simp add: tree_rel_def frame_def)
  with v(1) show ?thesis by blast
qed

lemma internal_send_run:
  assumes exec: "sender C exec" and inv: "rt_inv rt"
    and run: "internal_send exec a b mt x p rt = (res, rt')"
  shows "rt_rel C rt rt' \<and> (\<forall>e. res = Inl e \<longrightarrow> rt_tree rt' = rt_tree rt)"
proof -
  let ?t = "rt_tree rt"
  let ?rt1 = "rt\<lparr>rt_tree := ?t\<lparr>layers := layer_default # layers ?t\<rparr>\<rparr>"
  let ?msg = "\<lparr>um_from = a, um_to = b, um_method_num = mt, um_value = x, um_params = p\<rparr>"
  have t: "tree_inv ?t" "tree_ok ?t" using inv by (simp_all add: rt_inv_def tree_invD)
  have ne: "layers ?t \<noteq> []" using t(2) by (simp add: tree_ok_def)
  obtain q rt2 where q: "exec ?msg ?rt1 = (q, rt2)" by (cases "exec ?msg ?rt1")
  have "sm_keeps (rt_rel C) (exec ?msg)" using exec by (simp add: sender_def)
  from sm_keepsD [OF this q] have "rt_rel C ?rt1 rt2" .
  moreover have "rt_inv ?rt1" using inv snapshot_inv [OF t(1)] by (simp add: rt_inv_def)
  ultimately have r: "tree_rel C (?t\<lparr>layers := layer_default # layers ?t\<rparr>) (rt_tree rt2)" "rt_same rt rt2"
    by (auto simp: rt_rel_def rt_same_def)
  note ev = internal_send_def sm_bind_def on_tree_def snapshot_ok(1) [OF t(2)] sm_simps q
  show ?thesis
  proof (cases q)
    case (Inl e)
    have "frame (?t\<lparr>layers := layer_default # layers ?t\<rparr>) (rt_tree rt2)" using r(1) by (simp add: tree_rel_def)
    from revert_clear [OF this ne] obtain v where
      "revert_to_snapshot (rt_tree rt2) = (Inr (), v)" "clear_snapshot v = (Inr (), ?t)" by blast
    then have "rt' = rt2\<lparr>rt_tree := ?t\<rparr>" using run Inl by (simp add: ev)
    then show ?thesis using r(2) t(1) by (simp add: rt_rel_def rt_same_def tree_rel_refl)
  next
    case (Inr y)
    from committed_rel [OF t(1) r(1)] obtain v where
      "clear_snapshot (rt_tree rt2) = (Inr (), v)" "tree_rel C ?t v" by blast
    moreover from this have "res = Inr y" "rt' = rt2\<lparr>rt_tree := v\<rparr>"
      using run Inr by (auto simp: ev)
    ultimately show ?thesis using r(2) by (simp add: rt_rel_def rt_same_def)
  qed
qed

lemma safe_internal_send [safe_laws]: "sender C exec \<Longrightarrow> safe C (internal_send exec a b mt x p)"
  using internal_send_run unfolding runs_def rt_id_def by blast

lemma safe_send [safe_laws]: "sender C exec \<Longrightarrow> safe C (rt_send exec b mt p x)"
  unfolding rt_send_def by (intro safe_laws)

lemma safe_resolve_to_id_addr [safe_laws]: "sender C exec \<Longrightarrow> safe C (resolve_to_id_addr exec a)"
  unfolding resolve_to_id_addr_def by (intro safe_laws)

text \<open>Rules that follow the text of a method and keep what its guards establish.\<close>

lemma runs_when: "(\<not> b \<Longrightarrow> runs C P k Q) \<Longrightarrow> runs C P (sm_bind (sm_when b e) (\<lambda>_. k)) Q"
  using reflp_rt_rel [of C] by (auto simp: runs_def sm_bind_def sm_simps dest: reflpD)

lemma runs_lift: "(\<And>y. l = Inr y \<Longrightarrow> runs C P (k y) Q) \<Longrightarrow> runs C P (sm_bind (sm_lift l) k) Q"
  using reflp_rt_rel [of C] by (cases l) (auto simp: runs_def sm_bind_def sm_simps dest: reflpD)

lemma runs_get:
  "(\<And>x. runs C (\<lambda>rt. P rt \<and> x = g rt) (k x) Q) \<Longrightarrow> runs C P (sm_bind (sm_get g) k) Q"
  by (auto simp: runs_def sm_bind_def sm_simps)

lemma runs_get_any: "(\<And>x. runs C P (k x) Q) \<Longrightarrow> runs C P (sm_bind (sm_get g) k) Q"
  by (auto simp: runs_def sm_bind_def sm_simps)

lemma runs_skip:
  "sm_keeps rt_reads m \<Longrightarrow> stable P \<Longrightarrow> (\<And>x. runs C P (k x) Q) \<Longrightarrow> runs C P (sm_bind m k) Q"
  by (rule runs_bind [OF runs_reads])

lemma runs_then: "runs C P m (\<lambda>_ _. True) \<Longrightarrow> (\<And>x. safe C (k x)) \<Longrightarrow> runs C P (sm_bind m k) (\<lambda>_ _. True)"
  by (rule runs_bind)

lemma runs_forget: "safe C m \<Longrightarrow> runs C P m (\<lambda>_ _. True)"
  by (rule runs_weaken) simp_all

lemma runs_ret: "(\<And>rt. rt_id rt \<Longrightarrow> P rt \<Longrightarrow> Q x rt) \<Longrightarrow> runs C P (sm_ret x) Q"
  by (rule runs_pure)

lemma runs_fact: "(A \<Longrightarrow> runs C (\<lambda>_. True) m Q) \<Longrightarrow> runs C (\<lambda>_. A) m Q"
  by (auto simp: runs_def)

lemma runs_False: "runs C (\<lambda>_. False) m Q"
  by (simp add: runs_def)

lemma guarded_Inr:
  "guarded m rt = (Inr y, rt') \<longleftrightarrow>
   (\<exists>rt1. m (rt\<lparr>allow_internal := False\<rparr>) = (Inr y, rt1) \<and> rt' = rt1\<lparr>allow_internal := True\<rparr>)"
  by (auto simp: guarded_def split: prod.splits)

lemma stable_msg: "stable (\<lambda>rt. p (vm_msg rt))"
  by (rule stable_receiver [of "\<lambda>_. p"])

context commits
begin

text \<open>A transaction whose closure is a function of the state.\<close>

lemma runs_update:
  assumes "\<And>rt d st x st'. P rt \<Longrightarrow> receiver_data rt = Some d \<Longrightarrow> proj d = Some st \<Longrightarrow> f st = Inr (x, st') \<Longrightarrow>
      C d (emb st') \<and> (\<forall>rt'. receiver_data rt' = Some (emb st') \<longrightarrow> rt_same rt rt' \<longrightarrow> Q x rt')"
  shows "runs C P (rt_transaction proj emb (\<lambda>st. sm_lift (f st))) Q"
  by (rule runs_transaction) (use assms in \<open>auto intro!: rt_laws simp: guarded_Inr sm_simps\<close>)

lemma safe_update:
  assumes "\<And>d st x st'. proj d = Some st \<Longrightarrow> f st = Inr (x, st') \<Longrightarrow> C d (emb st')"
  shows "safe C (rt_transaction proj emb (\<lambda>st. sm_lift (f st)))"
  by (rule runs_update) (use assms in blast)

end

lemma safe_when: "(\<not> b \<Longrightarrow> safe C k) \<Longrightarrow> safe C (sm_bind (sm_when b e) (\<lambda>_. k))"
  by (rule runs_when)

lemma safe_lift: "(\<And>y. l = Inr y \<Longrightarrow> safe C (k y)) \<Longrightarrow> safe C (sm_bind (sm_lift l) k)"
  by (rule runs_lift)

lemma safe_get: "(\<And>x. safe C (k x)) \<Longrightarrow> safe C (sm_bind (sm_get g) k)"
  by (rule runs_get, rule runs_forget)

lemmas safe_steps = safe_when safe_lift safe_get

text \<open>What every step of the table keeps.\<close>

lemma runs_keep:
  "safe C m \<Longrightarrow> (\<And>rt rt'. rt_id rt \<Longrightarrow> rt_rel C rt rt' \<Longrightarrow> P rt \<Longrightarrow> P rt') \<Longrightarrow> runs C P m (\<lambda>_. P)"
  by (auto simp: runs_def)

lemma paych_receiver_rel: "rt_id rt \<Longrightarrow> rt_rel C rt rt' \<Longrightarrow> paych_receiver rt \<Longrightarrow> paych_receiver rt'"
  by (auto simp: paych_receiver_def rt_rel_def tree_rel_def frame_def rt_id_def rt_same_receiver)

lemma runs_keep_paych:
  "safe C m \<Longrightarrow> (\<And>x. runs C paych_receiver (k x) Q) \<Longrightarrow> runs C paych_receiver (sm_bind m k) Q"
  by (rule runs_bind [OF runs_keep]) (auto intro: paych_receiver_rel)

end
