(* ===== verification/Basic_Actors.thy ===== *)
theory Basic_Actors
  imports Runtime_Triples
begin

text \<open>
  The system, account, init and cron actors (\<open>vm/actor/src/builtin\<close>): their methods and the dispatch
  of a method number with its serialized parameters.  The serialization of parameters and return
  values is a record of decoders and encoders per actor.
\<close>

section \<open>System actor\<close>

definition system_constructor :: "unit rtm" where
  "system_constructor =
    sm_bind (validate_immediate_caller_is [SYSTEM_ACTOR_ADDR]) (\<lambda>_. rt_create EmptyArr)"

definition system_invoke_method :: "MethodNum \<Rightarrow> Serialized \<Rightarrow> Serialized rtm" where
  "system_invoke_method method params =
    (if method = METHOD_CONSTRUCTOR then sm_bind system_constructor (\<lambda>_. sm_ret [])
     else sm_err (actor_error SysErrInvalidMethod))"

section \<open>Account actor\<close>

record AccountCodec =
  de_account_address :: "bytes \<Rightarrow> Address option"
  ser_account_address :: "Address \<Rightarrow> bytes"

fun as_account :: "ActorData \<Rightarrow> Address option" where
  "as_account (AccountSt a) = Some a"
| "as_account _ = None"

definition account_constructor :: "Address \<Rightarrow> unit rtm" where
  "account_constructor address =
    sm_bind (validate_immediate_caller_is [SYSTEM_ACTOR_ADDR]) (\<lambda>_.
    case protocol address of
      PSecp256k1 \<Rightarrow> rt_create (AccountSt address)
    | PBLS \<Rightarrow> rt_create (AccountSt address)
    | _ \<Rightarrow> sm_err (actor_error ErrIllegalArgument))"

definition pubkey_address :: "Address rtm" where
  "pubkey_address = sm_bind validate_immediate_caller_accept_any (\<lambda>_. rt_state as_account)"

definition account_invoke_method :: "AccountCodec \<Rightarrow> MethodNum \<Rightarrow> Serialized \<Rightarrow> Serialized rtm" where
  "account_invoke_method cd method params =
    (if method = METHOD_CONSTRUCTOR then
       sm_bind (deserialize_params (de_account_address cd) params) (\<lambda>a.
       sm_bind (account_constructor a) (\<lambda>_. sm_ret []))
     else if method = 2 then
       sm_bind pubkey_address (\<lambda>a. sm_ret (ser_account_address cd a))
     else sm_err (actor_error SysErrInvalidMethod))"

section \<open>Init actor\<close>

record ExecParams =
  exec_code_cid :: CodeId
  exec_constructor_params :: Serialized

record ExecReturn =
  er_id_address :: Address
  er_robust_address :: Address

record InitCodec =
  de_init_constructor :: "bytes \<Rightarrow> string option"
  de_ExecParams :: "bytes \<Rightarrow> ExecParams option"
  ser_ExecReturn :: "ExecReturn \<Rightarrow> bytes"

fun as_init :: "ActorData \<Rightarrow> InitState option" where
  "as_init (InitSt st) = Some st"
| "as_init _ = None"

definition init_constructor :: "string \<Rightarrow> unit rtm" where
  "init_constructor name =
    sm_bind (validate_immediate_caller_is [SYSTEM_ACTOR_ADDR]) (\<lambda>_.
    rt_create (InitSt (init_state_new name)))"

definition can_exec :: "CodeId \<Rightarrow> CodeId \<Rightarrow> bool" where
  "can_exec caller_code exec =
    ((exec = Builtin V6 MinerActor \<and> caller_code = Builtin V6 PowerActor)
     \<or> exec = Builtin V6 MultisigActor \<or> exec = Builtin V6 PaychActor)"

definition init_exec :: "Ext \<Rightarrow> send_fn \<Rightarrow> ExecParams \<Rightarrow> ExecReturn rtm" where
  "init_exec ext exec params =
    sm_bind validate_immediate_caller_accept_any (\<lambda>_.
    sm_bind (sm_get caller) (\<lambda>c.
    sm_bind (rt_get_actor_code_cid c) (\<lambda>r.
    sm_bind (sm_lift (ok_or r (actor_error ErrIllegalState))) (\<lambda>caller_code.
    sm_bind (sm_when (\<not> can_exec caller_code (exec_code_cid params)) (actor_error ErrForbidden)) (\<lambda>_.
    sm_bind (rt_new_actor_address ext) (\<lambda>robust_address.
    sm_bind (rt_transaction as_init InitSt
               (\<lambda>s. sm_ret (map_address_to_new_id s robust_address))) (\<lambda>id_address.
    sm_bind (rt_create_actor (exec_code_cid params) id_address) (\<lambda>_.
    sm_bind (sm_get value_received) (\<lambda>v.
    sm_bind (rt_send exec id_address METHOD_CONSTRUCTOR (exec_constructor_params params) v) (\<lambda>_.
    sm_ret \<lparr>er_id_address = id_address, er_robust_address = robust_address\<rparr>))))))))))"

definition init_invoke_method ::
  "InitCodec \<Rightarrow> Ext \<Rightarrow> send_fn \<Rightarrow> MethodNum \<Rightarrow> Serialized \<Rightarrow> Serialized rtm" where
  "init_invoke_method cd ext exec method params =
    (if method = METHOD_CONSTRUCTOR then
       sm_bind (deserialize_params (de_init_constructor cd) params) (\<lambda>p.
       sm_bind (init_constructor p) (\<lambda>_. sm_ret []))
     else if method = 2 then
       sm_bind (deserialize_params (de_ExecParams cd) params) (\<lambda>p.
       sm_bind (init_exec ext exec p) (\<lambda>res. sm_ret (ser_ExecReturn cd res)))
     else sm_err (actor_error SysErrInvalidMethod))"

section \<open>Cron actor\<close>

fun as_cron :: "ActorData \<Rightarrow> CronEntry list option" where
  "as_cron (CronSt es) = Some es"
| "as_cron _ = None"

definition cron_constructor :: "CronEntry list \<Rightarrow> unit rtm" where
  "cron_constructor entries =
    sm_bind (validate_immediate_caller_is [SYSTEM_ACTOR_ADDR]) (\<lambda>_. rt_create (CronSt entries))"

primrec cron_send_entries :: "send_fn \<Rightarrow> CronEntry list \<Rightarrow> unit rtm" where
  "cron_send_entries exec [] = sm_ret ()"
| "cron_send_entries exec (entry # es) =
    sm_bind (rt_try (rt_send exec (entry_receiver entry) (entry_method_num entry) [] 0)) (\<lambda>_.
    cron_send_entries exec es)"

definition epoch_tick :: "send_fn \<Rightarrow> unit rtm" where
  "epoch_tick exec =
    sm_bind (validate_immediate_caller_is [SYSTEM_ACTOR_ADDR]) (\<lambda>_.
    sm_bind (rt_state as_cron) (\<lambda>entries.
    cron_send_entries exec entries))"

definition cron_invoke_method ::
  "(bytes \<Rightarrow> CronEntry list option) \<Rightarrow> send_fn \<Rightarrow> MethodNum \<Rightarrow> Serialized \<Rightarrow> Serialized rtm" where
  "cron_invoke_method de exec method params =
    (if method = METHOD_CONSTRUCTOR then
       sm_bind (deserialize_params de params) (\<lambda>p.
       sm_bind (cron_constructor p) (\<lambda>_. sm_ret []))
     else if method = 2 then sm_bind (epoch_tick exec) (\<lambda>_. sm_ret [])
     else sm_err (actor_error SysErrInvalidMethod))"

section \<open>Invariant of the init actor\<close>

text \<open>Every address has its own identifier, and only identifiers below the counter are given out.\<close>

definition init_ok :: "InitState \<Rightarrow> bool" where
  "init_ok st = ((\<forall>a i. address_map st a = Some i \<longrightarrow> i < next_id st) \<and>
     (\<forall>a b i. address_map st a = Some i \<longrightarrow> address_map st b = Some i \<longrightarrow> a = b))"

lemma init_ok_new: "init_ok (init_state_new name)"
  by (simp add: init_ok_def init_state_new_def)

lemma init_ok_map_address: "init_ok st \<Longrightarrow> init_ok (snd (map_address_to_new_id st a))"
  by (fastforce simp: init_ok_def map_address_to_new_id_def Let_def)

section \<open>Methods keep the invariants\<close>

lemma as_initD: "as_init d = Some st \<Longrightarrow> d = InitSt st"
  by (cases d) simp_all

text \<open>The identifier the init actor has just given out.\<close>

definition allocated :: "Address \<Rightarrow> Runtime \<Rightarrow> bool" where
  "allocated x rt = (receiver rt = ID 1 \<and>
     (\<exists>i st. x = ID i \<and> receiver_data rt = Some (InitSt st) \<and> i < next_id st))"

lemma init_receiver:
  "rt_id rt \<Longrightarrow> receiver rt = ID 1 \<Longrightarrow> receiver_data rt = Some (InitSt st) \<Longrightarrow>
   init_of (view (rt_tree rt)) = Some st"
  by (auto simp: receiver_data_def receiver_actor_id init_of_Some)

lemma stable_init_receiver: "stable (\<lambda>rt. receiver rt = ID 1)"
  unfolding receiver_def by (rule stable_msg)

locale basic_commits = commits +
  assumes create_system: "C EmptyArr EmptyArr"
    and create_account: "C EmptyArr (AccountSt a)"
    and create_cron: "C EmptyArr (CronSt es)"
    and create_init: "init_ok ist \<Longrightarrow> C EmptyArr (InitSt ist)"
    and map_address: "C (InitSt ist) (InitSt (snd (map_address_to_new_id ist a)))"
begin

lemma safe_system_invoke [safe_laws]: "safe C (system_invoke_method method params)"
  unfolding system_invoke_method_def system_constructor_def
  by (intro safe_laws safe_create create_system)

lemma safe_account_invoke [safe_laws]: "safe C (account_invoke_method cd method params)"
  unfolding account_invoke_method_def account_constructor_def pubkey_address_def
  by (auto intro!: safe_laws safe_create create_account split: Protocol.splits)

lemma safe_cron_send_entries [safe_laws]: "sender C exec \<Longrightarrow> safe C (cron_send_entries exec es)"
  by (induction es) (auto intro!: safe_laws)

lemma safe_cron_invoke [safe_laws]: "sender C exec \<Longrightarrow> safe C (cron_invoke_method de exec method params)"
  unfolding cron_invoke_method_def cron_constructor_def epoch_tick_def
  by (intro safe_laws safe_create create_cron)

lemma runs_allocate:
  "runs C (\<lambda>rt. receiver rt = ID 1)
    (rt_transaction as_init InitSt (\<lambda>s. sm_ret (map_address_to_new_id s a))) allocated"
proof (rule runs_transaction)
  fix rt d st rt1 x st' rt2
  assume rt: "receiver rt = ID 1" and d: "as_init d = Some st"
    and g: "guarded (sm_ret (map_address_to_new_id st a)) rt1 = (Inr (x, st'), rt2)"
  from g have m: "map_address_to_new_id st a = (x, st')" by (auto simp: guarded_Inr sm_simps)
  then have "x = ID (next_id st)" "next_id st' = next_id st + 1"
    by (auto simp: map_address_to_new_id_def Let_def)
  with m map_address [of st a] as_initD [OF d] rt
  show "C d (InitSt st') \<and> (\<forall>rt'. receiver_data rt' = Some (InitSt st') \<longrightarrow> rt_same rt rt' \<longrightarrow> allocated x rt')"
    by (auto simp: allocated_def rt_same_receiver)
qed (intro rt_laws)

lemma runs_create_allocated: "runs C (allocated x) (rt_create_actor c x) (\<lambda>_ _. True)"
proof (cases "\<exists>i. x = ID i")
  case True
  then obtain i where i: "x = ID i" ..
  show ?thesis unfolding i
    by (rule runs_weaken [OF runs_create_actor]) (auto simp: allocated_def dest: init_receiver)
next
  case False
  then show ?thesis by (intro runs_weaken [OF runs_False]) (auto simp: allocated_def)
qed

lemma runs_init_exec:
  assumes "sender C exec"
  shows "runs C (\<lambda>rt. receiver rt = ID 1) (init_exec ext exec params) (\<lambda>_ _. True)"
  unfolding init_exec_def
  by (intro runs_skip [OF _ stable_init_receiver] runs_get_any runs_lift runs_when rt_laws
      runs_bind [OF runs_allocate] runs_then [OF runs_create_allocated] safe_laws assms)

lemma runs_init_invoke:
  assumes "sender C exec"
  shows "runs C (\<lambda>rt. receiver rt = ID 1) (init_invoke_method cd ext exec method params) (\<lambda>_ _. True)"
  unfolding init_invoke_method_def init_constructor_def
  by (intro runs_if runs_skip [OF _ stable_init_receiver] rt_laws runs_then runs_init_exec assms runs_pure(2)
      safe_laws runs_forget [OF safe_bind] safe_create create_init init_ok_new)

end

end
