(* ===== verification/Multisig.thy ===== *)
theory Multisig
  imports Runtime_Triples "HOL-Library.AList"
begin

text \<open>
  The multisig actor (\<open>vm/actor/src/builtin/multisig\<close>): a wallet whose transactions are sent once
  enough of its signers approved them, with an optional balance that unlocks linearly.

  The pending transactions are an association list from transaction identifiers; the order of its
  entries is the iteration order of the HAMT and no result depends on it.  Transaction identifiers
  are unbounded integers (the source's \<open>i64\<close> counter).
\<close>

section \<open>State\<close>

record MsigConstructorParams =
  mc_signers :: "Address list"
  mc_num_approvals_threshold :: nat
  mc_unlock_duration :: ChainEpoch
  mc_start_epoch :: ChainEpoch

record ProposeParams =
  pp_to :: Address
  pp_value :: TokenAmount
  pp_method :: MethodNum
  pp_params :: Serialized

record ProposeReturn =
  pr_txn_id :: int
  pr_applied :: bool
  pr_code :: ExitCode
  pr_ret :: Serialized

record TxnIDParams =
  ti_id :: int
  ti_proposal_hash :: bytes

record ApproveReturn =
  ar_applied :: bool
  ar_code :: ExitCode
  ar_ret :: Serialized

record AddSignerParams =
  as_signer :: Address
  as_increase :: bool

record RemoveSignerParams =
  rs_signer :: Address
  rs_decrease :: bool

record SwapSignerParams =
  ss_from :: Address
  ss_to :: Address

record LockBalanceParams =
  lb_start_epoch :: ChainEpoch
  lb_unlock_duration :: ChainEpoch
  lb_amount :: TokenAmount

record MultisigCodec =
  de_MsigConstructorParams :: "bytes \<Rightarrow> MsigConstructorParams option"
  de_ProposeParams :: "bytes \<Rightarrow> ProposeParams option"
  de_TxnIDParams :: "bytes \<Rightarrow> TxnIDParams option"
  de_AddSignerParams :: "bytes \<Rightarrow> AddSignerParams option"
  de_RemoveSignerParams :: "bytes \<Rightarrow> RemoveSignerParams option"
  de_SwapSignerParams :: "bytes \<Rightarrow> SwapSignerParams option"
  de_ChangeThresholdParams :: "bytes \<Rightarrow> nat option"
  de_LockBalanceParams :: "bytes \<Rightarrow> LockBalanceParams option"
  ser_ProposeReturn :: "ProposeReturn \<Rightarrow> bytes"
  ser_ApproveReturn :: "ApproveReturn \<Rightarrow> bytes"
  ser_ProposalHashData :: "Address option \<Rightarrow> Address \<Rightarrow> TokenAmount \<Rightarrow> MethodNum \<Rightarrow> Serialized \<Rightarrow> bytes"

definition SIGNERS_MAX :: nat where "SIGNERS_MAX = 256"

fun as_multisig :: "ActorData \<Rightarrow> MultisigState option" where
  "as_multisig (MultisigSt st) = Some st"
| "as_multisig _ = None"

definition is_signer :: "MultisigState \<Rightarrow> Address \<Rightarrow> bool" where
  "is_signer st a = (a \<in> set (signers st))"

definition set_locked :: "MultisigState \<Rightarrow> ChainEpoch \<Rightarrow> ChainEpoch \<Rightarrow> TokenAmount \<Rightarrow> MultisigState" where
  "set_locked st start dur amt = st\<lparr>start_epoch := start, unlock_duration := dur, initial_balance := amt\<rparr>"

definition div_ceil :: "int \<Rightarrow> int \<Rightarrow> int" where
  "div_ceil n d = - ((- n) div d)"

definition amount_locked :: "MultisigState \<Rightarrow> ChainEpoch \<Rightarrow> TokenAmount" where
  "amount_locked st elapsed =
    (if unlock_duration st \<le> elapsed then 0
     else if elapsed \<le> 0 then initial_balance st
     else div_ceil (initial_balance st * (unlock_duration st - elapsed)) (unlock_duration st))"

definition purge_approvals :: "MultisigState \<Rightarrow> Address \<Rightarrow> MultisigState" where
  "purge_approvals st addr =
    (let to_purge = filter (\<lambda>(_, txn). addr \<in> set (tx_approved txn)) (pending_txs st);
         step = (\<lambda>(tx_id, txn) txns.
           let approved = filter (\<lambda>a. a \<noteq> addr) (tx_approved txn) in
           if approved \<noteq> [] then AList.update tx_id (txn\<lparr>tx_approved := approved\<rparr>) txns
           else AList.delete tx_id txns)
     in st\<lparr>pending_txs := fold step to_purge (pending_txs st)\<rparr>)"

datatype AvailableError = NegativeSpend | BelowSpend | BelowLocked

definition check_available ::
  "MultisigState \<Rightarrow> TokenAmount \<Rightarrow> TokenAmount \<Rightarrow> ChainEpoch \<Rightarrow> (AvailableError, unit) res" where
  "check_available st balance amount_to_spend curr_epoch =
    (if amount_to_spend < 0 then Inl NegativeSpend
     else if balance < amount_to_spend then Inl BelowSpend
     else if amount_to_spend = 0 then Inr ()
     else if balance - amount_to_spend < amount_locked st (curr_epoch - start_epoch st) then Inl BelowLocked
     else Inr ())"

section \<open>State changes\<close>

text \<open>
  The bodies of the state transactions, as functions of the multisig's state: each is the closure
  the method of the same name passes to \<open>rt.transaction\<close>, with the result of the closure.
\<close>

abbreviation msig_update ::
  "(MultisigState \<Rightarrow> (ActorError, 'a \<times> MultisigState) res) \<Rightarrow> 'a rtm" where
  "msig_update f \<equiv> rt_transaction as_multisig MultisigSt (\<lambda>st. sm_lift (f st))"

definition compute_proposal_hash :: "MultisigCodec \<Rightarrow> Ext \<Rightarrow> Transaction \<Rightarrow> bytes" where
  "compute_proposal_hash cd ext txn =
    x_blake2b_256 ext (ser_ProposalHashData cd
      (case tx_approved txn of [] \<Rightarrow> None | a # _ \<Rightarrow> Some a)
      (tx_to txn) (tx_value txn) (tx_method txn) (tx_params txn))"

definition get_transaction ::
  "MultisigCodec \<Rightarrow> Ext \<Rightarrow> (int \<times> Transaction) list \<Rightarrow> int \<Rightarrow> bytes \<Rightarrow> (ActorError, Transaction) res" where
  "get_transaction cd ext ptx txn_id proposal_hash =
    res_bind (ok_or (map_of ptx txn_id) (actor_error ErrNotFound)) (\<lambda>txn.
    if proposal_hash \<noteq> [] \<and> proposal_hash \<noteq> compute_proposal_hash cd ext txn
    then Inl (actor_error ErrIllegalArgument) else Inr txn)"

definition propose_st ::
  "Address \<Rightarrow> ProposeParams \<Rightarrow> MultisigState \<Rightarrow> (ActorError, (int \<times> Transaction) \<times> MultisigState) res" where
  "propose_st proposer params st =
    (if \<not> is_signer st proposer then Inl (actor_error ErrForbidden)
     else
       let t_id = next_tx_id st;
           txn = \<lparr>tx_to = pp_to params, tx_value = pp_value params, tx_method = pp_method params,
                  tx_params = pp_params params, tx_approved = []\<rparr>
       in Inr ((t_id, txn),
            st\<lparr>next_tx_id := next_tx_id st + 1, pending_txs := AList.update t_id txn (pending_txs st)\<rparr>))"

definition approve_st ::
  "MultisigCodec \<Rightarrow> Ext \<Rightarrow> Address \<Rightarrow> TxnIDParams \<Rightarrow> MultisigState \<Rightarrow>
   (ActorError, (MultisigState \<times> Transaction) \<times> MultisigState) res" where
  "approve_st cd ext approver params st =
    (if \<not> is_signer st approver then Inl (actor_error ErrForbidden)
     else
       res_bind (get_transaction cd ext (pending_txs st) (ti_id params) (ti_proposal_hash params)) (\<lambda>txn.
       Inr ((st, txn), st)))"

definition cancel_st ::
  "MultisigCodec \<Rightarrow> Ext \<Rightarrow> Address \<Rightarrow> TxnIDParams \<Rightarrow> MultisigState \<Rightarrow> (ActorError, unit \<times> MultisigState) res" where
  "cancel_st cd ext caller_addr params st =
    (if \<not> is_signer st caller_addr then Inl (actor_error ErrForbidden)
     else
       res_bind (ok_or (map_of (pending_txs st) (ti_id params)) (actor_error ErrNotFound)) (\<lambda>tx.
       if (case tx_approved tx of [] \<Rightarrow> None | a # _ \<Rightarrow> Some a) \<noteq> Some caller_addr
       then Inl (actor_error ErrForbidden)
       else if ti_proposal_hash params \<noteq> [] \<and> ti_proposal_hash params \<noteq> compute_proposal_hash cd ext tx
       then Inl (actor_error ErrIllegalState)
       else Inr ((), st\<lparr>pending_txs := AList.delete (ti_id params) (pending_txs st)\<rparr>)))"

definition add_signer_st ::
  "Address \<Rightarrow> bool \<Rightarrow> MultisigState \<Rightarrow> (ActorError, unit \<times> MultisigState) res" where
  "add_signer_st new_signer increase st =
    (if SIGNERS_MAX \<le> length (signers st) then Inl (actor_error ErrForbidden)
     else if is_signer st new_signer then Inl (actor_error ErrForbidden)
     else
       let st' = st\<lparr>signers := signers st @ [new_signer]\<rparr> in
       Inr ((), if increase then st'\<lparr>num_approvals_threshold := num_approvals_threshold st' + 1\<rparr> else st'))"

definition remove_signer_st ::
  "Address \<Rightarrow> bool \<Rightarrow> MultisigState \<Rightarrow> (ActorError, unit \<times> MultisigState) res" where
  "remove_signer_st old_signer decrease st =
    (if \<not> is_signer st old_signer then Inl (actor_error ErrForbidden)
     else if length (signers st) = 1 then Inl (actor_error ErrForbidden)
     else if \<not> decrease \<and> length (signers st) - 1 < num_approvals_threshold st
     then Inl (actor_error ErrIllegalArgument)
     else if decrease \<and> num_approvals_threshold st < 2 then Inl (actor_error ErrIllegalArgument)
     else
       let st1 = (if decrease
                  then st\<lparr>num_approvals_threshold := num_approvals_threshold st - 1\<rparr> else st);
           st2 = purge_approvals st1 old_signer
       in Inr ((), st2\<lparr>signers := filter (\<lambda>s. s \<noteq> old_signer) (signers st2)\<rparr>))"

definition swap_signer_st ::
  "Address \<Rightarrow> Address \<Rightarrow> MultisigState \<Rightarrow> (ActorError, unit \<times> MultisigState) res" where
  "swap_signer_st from_resolved to_resolved st =
    (if \<not> is_signer st from_resolved then Inl (actor_error ErrForbidden)
     else if is_signer st to_resolved then Inl (actor_error ErrIllegalArgument)
     else
       let st1 = st\<lparr>signers := filter (\<lambda>s. s \<noteq> from_resolved) (signers st) @ [to_resolved]\<rparr>
       in Inr ((), purge_approvals st1 from_resolved))"

definition change_threshold_st :: "nat \<Rightarrow> MultisigState \<Rightarrow> (ActorError, unit \<times> MultisigState) res" where
  "change_threshold_st new_threshold st =
    (if new_threshold = 0 \<or> length (signers st) < new_threshold then Inl (actor_error ErrIllegalArgument)
     else Inr ((), st\<lparr>num_approvals_threshold := new_threshold\<rparr>))"

definition lock_balance_st ::
  "LockBalanceParams \<Rightarrow> MultisigState \<Rightarrow> (ActorError, unit \<times> MultisigState) res" where
  "lock_balance_st params st =
    (if unlock_duration st \<noteq> 0 then Inl (actor_error ErrForbidden)
     else Inr ((), set_locked st (lb_start_epoch params) (lb_unlock_duration params) (lb_amount params)))"

section \<open>Executing and approving transactions\<close>

definition execute_transaction_if_approved ::
  "send_fn \<Rightarrow> MultisigState \<Rightarrow> int \<Rightarrow> Transaction \<Rightarrow> (bool \<times> Serialized \<times> ExitCode) rtm" where
  "execute_transaction_if_approved exec st txn_id txn =
    (if num_approvals_threshold st \<le> length (tx_approved txn) then
       sm_bind rt_current_balance (\<lambda>balance.
       sm_bind (sm_get rt_epoch) (\<lambda>curr_epoch.
       sm_bind (case check_available st balance (tx_value txn) curr_epoch of
                  Inl _ \<Rightarrow> sm_err (actor_error ErrInsufficientFunds) | Inr _ \<Rightarrow> sm_ret ()) (\<lambda>_.
       sm_bind (rt_try (rt_send exec (tx_to txn) (tx_method txn) (tx_params txn) (tx_value txn))) (\<lambda>res.
       sm_bind (case res of
                  Inr ser \<Rightarrow> sm_ret (ser, ExitOk)
                | Inl e \<Rightarrow> if recovered e then sm_err e else sm_ret ([], exit_code e)) (\<lambda>(out, code).
       sm_bind (msig_update (\<lambda>st.
                  Inr ((), st\<lparr>pending_txs := AList.delete txn_id (pending_txs st)\<rparr>))) (\<lambda>_.
       sm_ret (True, out, code)))))))
     else sm_ret (False, [], ExitOk))"

definition approve_transaction :: "send_fn \<Rightarrow> int \<Rightarrow> Transaction \<Rightarrow> (bool \<times> Serialized \<times> ExitCode) rtm" where
  "approve_transaction exec tx_id txn =
    sm_bind (sm_get caller) (\<lambda>c.
    sm_bind (sm_when (c \<in> set (tx_approved txn)) (actor_error ErrForbidden)) (\<lambda>_.
    let txn' = txn\<lparr>tx_approved := tx_approved txn @ [c]\<rparr> in
    sm_bind (msig_update (\<lambda>st.
               let st' = st\<lparr>pending_txs := AList.update tx_id txn' (pending_txs st)\<rparr> in
               Inr (st', st'))) (\<lambda>st.
    execute_transaction_if_approved exec st tx_id txn')))"

section \<open>Methods\<close>

fun resolve_signers :: "send_fn \<Rightarrow> Address list \<Rightarrow> Address list \<Rightarrow> Address list rtm" where
  "resolve_signers exec [] resolved_signers = sm_ret resolved_signers"
| "resolve_signers exec (signer # rest) resolved_signers =
    sm_bind (resolve_to_id_addr exec signer) (\<lambda>resolved.
    sm_bind (sm_when (resolved \<in> set resolved_signers) (actor_error ErrIllegalArgument)) (\<lambda>_.
    resolve_signers exec rest (resolved_signers @ [resolved])))"

definition msig_initial :: "MsigConstructorParams \<Rightarrow> Address list \<Rightarrow> TokenAmount \<Rightarrow> MultisigState" where
  "msig_initial params resolved_signers v =
    (let st = \<lparr>signers = resolved_signers,
               num_approvals_threshold = mc_num_approvals_threshold params,
               next_tx_id = 0, initial_balance = 0, start_epoch = 0, unlock_duration = 0,
               pending_txs = []\<rparr>
     in if mc_unlock_duration params \<noteq> 0
        then set_locked st (mc_start_epoch params) (mc_unlock_duration params) v else st)"

definition msig_constructor :: "send_fn \<Rightarrow> MsigConstructorParams \<Rightarrow> unit rtm" where
  "msig_constructor exec params =
    sm_bind (validate_immediate_caller_is [INIT_ACTOR_ADDR]) (\<lambda>_.
    sm_bind (sm_when (mc_signers params = []) (actor_error ErrIllegalArgument)) (\<lambda>_.
    sm_bind (sm_when (SIGNERS_MAX < length (mc_signers params)) (actor_error ErrIllegalArgument)) (\<lambda>_.
    sm_bind (resolve_signers exec (mc_signers params) []) (\<lambda>resolved_signers.
    sm_bind (sm_when (length (mc_signers params) < mc_num_approvals_threshold params)
               (actor_error ErrIllegalArgument)) (\<lambda>_.
    sm_bind (sm_when (mc_num_approvals_threshold params < 1) (actor_error ErrIllegalArgument)) (\<lambda>_.
    sm_bind (sm_when (mc_unlock_duration params < 0) (actor_error ErrIllegalArgument)) (\<lambda>_.
    sm_bind (sm_get value_received) (\<lambda>v.
    rt_create (MultisigSt (msig_initial params resolved_signers v))))))))))"

definition propose :: "send_fn \<Rightarrow> ProposeParams \<Rightarrow> ProposeReturn rtm" where
  "propose exec params =
    sm_bind (validate_immediate_caller_type CALLER_TYPES_SIGNABLE) (\<lambda>_.
    sm_bind (sm_get caller) (\<lambda>proposer.
    sm_bind (sm_when (pp_value params < 0) (actor_error ErrIllegalArgument)) (\<lambda>_.
    sm_bind (msig_update (propose_st proposer params)) (\<lambda>(txn_id, txn).
    sm_bind (approve_transaction exec txn_id txn) (\<lambda>(applied, ret, code).
    sm_ret \<lparr>pr_txn_id = txn_id, pr_applied = applied, pr_code = code, pr_ret = ret\<rparr>)))))"

definition approve :: "MultisigCodec \<Rightarrow> Ext \<Rightarrow> send_fn \<Rightarrow> TxnIDParams \<Rightarrow> ApproveReturn rtm" where
  "approve cd ext exec params =
    sm_bind (validate_immediate_caller_type CALLER_TYPES_SIGNABLE) (\<lambda>_.
    sm_bind (sm_get caller) (\<lambda>approver.
    sm_bind (msig_update (approve_st cd ext approver params)) (\<lambda>(st, txn).
    sm_bind (execute_transaction_if_approved exec st (ti_id params) txn) (\<lambda>(applied, ret, code).
    if \<not> applied then
      sm_bind (approve_transaction exec (ti_id params) txn) (\<lambda>(applied', ret', code').
      sm_ret \<lparr>ar_applied = applied', ar_code = code', ar_ret = ret'\<rparr>)
    else sm_ret \<lparr>ar_applied = applied, ar_code = code, ar_ret = ret\<rparr>))))"

definition cancel :: "MultisigCodec \<Rightarrow> Ext \<Rightarrow> TxnIDParams \<Rightarrow> unit rtm" where
  "cancel cd ext params =
    sm_bind (validate_immediate_caller_type CALLER_TYPES_SIGNABLE) (\<lambda>_.
    sm_bind (sm_get caller) (\<lambda>caller_addr.
    msig_update (cancel_st cd ext caller_addr params)))"

definition add_signer :: "send_fn \<Rightarrow> AddSignerParams \<Rightarrow> unit rtm" where
  "add_signer exec params =
    sm_bind (sm_get receiver) (\<lambda>rcv.
    sm_bind (validate_immediate_caller_is [rcv]) (\<lambda>_.
    sm_bind (resolve_to_id_addr exec (as_signer params)) (\<lambda>resolved_new_signer.
    msig_update (add_signer_st resolved_new_signer (as_increase params)))))"

definition remove_signer :: "send_fn \<Rightarrow> RemoveSignerParams \<Rightarrow> unit rtm" where
  "remove_signer exec params =
    sm_bind (sm_get receiver) (\<lambda>rcv.
    sm_bind (validate_immediate_caller_is [rcv]) (\<lambda>_.
    sm_bind (resolve_to_id_addr exec (rs_signer params)) (\<lambda>resolved_old_signer.
    msig_update (remove_signer_st resolved_old_signer (rs_decrease params)))))"

definition swap_signer :: "send_fn \<Rightarrow> SwapSignerParams \<Rightarrow> unit rtm" where
  "swap_signer exec params =
    sm_bind (sm_get receiver) (\<lambda>rcv.
    sm_bind (validate_immediate_caller_is [rcv]) (\<lambda>_.
    sm_bind (resolve_to_id_addr exec (ss_from params)) (\<lambda>from_resolved.
    sm_bind (resolve_to_id_addr exec (ss_to params)) (\<lambda>to_resolved.
    msig_update (swap_signer_st from_resolved to_resolved)))))"

definition change_num_approvals_threshold :: "nat \<Rightarrow> unit rtm" where
  "change_num_approvals_threshold new_threshold =
    sm_bind (sm_get receiver) (\<lambda>rcv.
    sm_bind (validate_immediate_caller_is [rcv]) (\<lambda>_.
    msig_update (change_threshold_st new_threshold)))"

definition lock_balance :: "LockBalanceParams \<Rightarrow> unit rtm" where
  "lock_balance params =
    sm_bind (sm_get receiver) (\<lambda>rcv.
    sm_bind (validate_immediate_caller_is [rcv]) (\<lambda>_.
    sm_bind (sm_when (lb_unlock_duration params \<le> 0) (actor_error ErrIllegalArgument)) (\<lambda>_.
    sm_bind (sm_when (lb_amount params < 0) (actor_error ErrIllegalArgument)) (\<lambda>_.
    msig_update (lock_balance_st params)))))"

definition multisig_invoke_method ::
  "MultisigCodec \<Rightarrow> Ext \<Rightarrow> send_fn \<Rightarrow> MethodNum \<Rightarrow> Serialized \<Rightarrow> Serialized rtm" where
  "multisig_invoke_method cd ext exec method params =
    (if method = METHOD_CONSTRUCTOR then
       sm_bind (deserialize_params (de_MsigConstructorParams cd) params) (\<lambda>p.
       sm_bind (msig_constructor exec p) (\<lambda>_. sm_ret []))
     else if method = 2 then
       sm_bind (deserialize_params (de_ProposeParams cd) params) (\<lambda>p.
       sm_bind (propose exec p) (\<lambda>res. sm_ret (ser_ProposeReturn cd res)))
     else if method = 3 then
       sm_bind (deserialize_params (de_TxnIDParams cd) params) (\<lambda>p.
       sm_bind (approve cd ext exec p) (\<lambda>res. sm_ret (ser_ApproveReturn cd res)))
     else if method = 4 then
       sm_bind (deserialize_params (de_TxnIDParams cd) params) (\<lambda>p.
       sm_bind (cancel cd ext p) (\<lambda>_. sm_ret []))
     else if method = 5 then
       sm_bind (deserialize_params (de_AddSignerParams cd) params) (\<lambda>p.
       sm_bind (add_signer exec p) (\<lambda>_. sm_ret []))
     else if method = 6 then
       sm_bind (deserialize_params (de_RemoveSignerParams cd) params) (\<lambda>p.
       sm_bind (remove_signer exec p) (\<lambda>_. sm_ret []))
     else if method = 7 then
       sm_bind (deserialize_params (de_SwapSignerParams cd) params) (\<lambda>p.
       sm_bind (swap_signer exec p) (\<lambda>_. sm_ret []))
     else if method = 8 then
       sm_bind (deserialize_params (de_ChangeThresholdParams cd) params) (\<lambda>p.
       sm_bind (change_num_approvals_threshold p) (\<lambda>_. sm_ret []))
     else if method = 9 then
       sm_bind (deserialize_params (de_LockBalanceParams cd) params) (\<lambda>p.
       sm_bind (lock_balance p) (\<lambda>_. sm_ret []))
     else sm_err (actor_error SysErrInvalidMethod))"

section \<open>Invariant\<close>

text \<open>
  The state of a multisig: between one and 256 different signers, a threshold they can reach, and
  pending transactions under different identifiers that were handed out, each approved at most once
  by each signer and only by current signers.
\<close>

definition txn_ok :: "Address list \<Rightarrow> Transaction \<Rightarrow> bool" where
  "txn_ok ss txn = (distinct (tx_approved txn) \<and> set (tx_approved txn) \<subseteq> set ss)"

definition msig_ok :: "MultisigState \<Rightarrow> bool" where
  "msig_ok st = (distinct (signers st) \<and> length (signers st) \<le> SIGNERS_MAX \<and>
     1 \<le> num_approvals_threshold st \<and> num_approvals_threshold st \<le> length (signers st) \<and>
     distinct (map fst (pending_txs st)) \<and>
     (\<forall>i txn. map_of (pending_txs st) i = Some txn \<longrightarrow> i < next_tx_id st \<and> txn_ok (signers st) txn))"

lemma msig_okD:
  assumes "msig_ok st"
  shows "distinct (signers st)" "length (signers st) \<le> SIGNERS_MAX" "1 \<le> num_approvals_threshold st"
    "num_approvals_threshold st \<le> length (signers st)" "distinct (map fst (pending_txs st))"
    "map_of (pending_txs st) i = Some txn \<Longrightarrow> i < next_tx_id st"
    "map_of (pending_txs st) i = Some txn \<Longrightarrow> txn_ok (signers st) txn"
  using assms by (auto simp: msig_ok_def)

lemma msig_ok_delete:
  "msig_ok st \<Longrightarrow> msig_ok (st\<lparr>pending_txs := AList.delete i (pending_txs st)\<rparr>)"
  by (auto simp: msig_ok_def delete_conv distinct_delete split: if_splits)

lemma msig_ok_update:
  assumes "msig_ok st" "i < next_tx_id st" "txn_ok (signers st) txn"
  shows "msig_ok (st\<lparr>pending_txs := AList.update i txn (pending_txs st)\<rparr>)"
  using assms by (auto simp: msig_ok_def update_conv distinct_update split: if_splits)

lemma msig_ok_propose:
  assumes "msig_ok st"
  shows "msig_ok (st\<lparr>next_tx_id := next_tx_id st + 1,
    pending_txs := AList.update (next_tx_id st) (txn\<lparr>tx_approved := []\<rparr>) (pending_txs st)\<rparr>)"
  using assms by (auto simp: msig_ok_def update_conv distinct_update txn_ok_def split: if_splits)
    (meson less_imp_le)

lemma msig_ok_approve:
  assumes "msig_ok st" "map_of (pending_txs st) i = Some txn" "c \<in> set (signers st)" "c \<notin> set (tx_approved txn)"
  shows "msig_ok (st\<lparr>pending_txs := AList.update i (txn\<lparr>tx_approved := tx_approved txn @ [c]\<rparr>) (pending_txs st)\<rparr>)"
  by (rule msig_ok_update)
    (use assms msig_okD(6,7) [OF assms(1,2)] in \<open>auto simp: txn_ok_def\<close>)

text \<open>\<open>purge_approvals\<close> removes the approvals of an address from every transaction, and the transactions left without any.\<close>

definition purged :: "Address \<Rightarrow> Transaction \<Rightarrow> Transaction option" where
  "purged a txn =
    (if a \<in> set (tx_approved txn) then
       (let approved = filter (\<lambda>b. b \<noteq> a) (tx_approved txn) in
        if approved \<noteq> [] then Some (txn\<lparr>tx_approved := approved\<rparr>) else None)
     else Some txn)"

definition purge_step :: "Address \<Rightarrow> int \<times> Transaction \<Rightarrow> (int \<times> Transaction) list \<Rightarrow> (int \<times> Transaction) list" where
  "purge_step a = (\<lambda>(tx_id, txn) txns.
     let approved = filter (\<lambda>b. b \<noteq> a) (tx_approved txn) in
     if approved \<noteq> [] then AList.update tx_id (txn\<lparr>tx_approved := approved\<rparr>) txns
     else AList.delete tx_id txns)"

lemma purge_step_map_of:
  assumes "a \<in> set (tx_approved (snd e))"
  shows "map_of (purge_step a e m) = (map_of m)(fst e := purged a (snd e))"
  using assms by (cases e) (auto simp: purge_step_def purged_def Let_def update_conv delete_conv fun_eq_iff)

lemma purge_step_distinct: "distinct (map fst m) \<Longrightarrow> distinct (map fst (purge_step a e m))"
  by (cases e) (auto simp: purge_step_def Let_def distinct_update distinct_delete)

lemma purge_fold:
  assumes "distinct (map fst es)" "\<forall>e \<in> set es. a \<in> set (tx_approved (snd e))" "distinct (map fst m)"
  shows "distinct (map fst (fold (purge_step a) es m)) \<and>
    map_of (fold (purge_step a) es m) i =
      (case map_of es i of Some txn \<Rightarrow> purged a txn | None \<Rightarrow> map_of m i)"
  using assms
proof (induction es arbitrary: m)
  case Nil
  then show ?case by simp
next
  case (Cons e es)
  have "map_of es (fst e) = None" using Cons.prems(1) by (simp add: map_of_eq_None_iff)
  then show ?case
    using Cons.IH [of "purge_step a e m"] Cons.prems purge_step_distinct [of m a e] purge_step_map_of [of a e m]
    by (cases e) (auto split: option.splits)
qed

lemma map_of_filter_snd:
  assumes "distinct (map fst m)"
  shows "map_of (filter (\<lambda>(_, t). p t) m) i =
    (case map_of m i of Some t \<Rightarrow> if p t then Some t else None | None \<Rightarrow> None)"
  using assms
proof (induction m)
  case (Cons e m)
  then have "fst e = i \<Longrightarrow> map_of m i = None" by (auto simp: map_of_eq_None_iff)
  then show ?case using Cons by (cases e) auto
qed simp

lemma purge_approvals_map_of:
  assumes "distinct (map fst (pending_txs st))"
  shows "map_of (pending_txs (purge_approvals st a)) i = Option.bind (map_of (pending_txs st) i) (purged a)"
    and "distinct (map fst (pending_txs (purge_approvals st a)))"
proof -
  let ?es = "filter (\<lambda>(_, txn). a \<in> set (tx_approved txn)) (pending_txs st)"
  have d: "distinct (map fst ?es)" using assms by (simp add: distinct_map_filter)
  have p: "pending_txs (purge_approvals st a) = fold (purge_step a) ?es (pending_txs st)"
    by (simp add: purge_approvals_def purge_step_def Let_def)
  note f = purge_fold [OF d _ assms, of a i]
  show "distinct (map fst (pending_txs (purge_approvals st a)))"
    unfolding p using f by auto
  show "map_of (pending_txs (purge_approvals st a)) i = Option.bind (map_of (pending_txs st) i) (purged a)"
    unfolding p using f map_of_filter_snd [OF assms, of "\<lambda>txn. a \<in> set (tx_approved txn)" i]
    by (auto simp: purged_def split: option.splits if_splits)
qed

lemma purge_approvals_fields [simp]:
  "signers (purge_approvals st a) = signers st" "next_tx_id (purge_approvals st a) = next_tx_id st"
  "num_approvals_threshold (purge_approvals st a) = num_approvals_threshold st"
  by (simp_all add: purge_approvals_def Let_def)

lemma length_filter_neq:
  assumes "distinct xs" "a \<in> set xs"
  shows "length (filter (\<lambda>x. x \<noteq> a) xs) = length xs - 1"
  using assms length_remove1 [of a xs] distinct_remove1_removeAll [of xs a]
  by (simp add: removeAll_filter_not_eq eq_commute)

text \<open>Removing an address from the signers and from the approvals keeps every transaction well-formed.\<close>

lemma purged_ok:
  assumes "txn_ok ss txn" "purged a txn = Some txn'" "set (filter (\<lambda>s. s \<noteq> a) ss) \<subseteq> set ss'"
  shows "txn_ok ss' txn'"
  using assms by (auto simp: txn_ok_def purged_def Let_def split: if_splits) blast

lemma msig_ok_purge:
  assumes "msig_ok st" and "distinct ss" "length ss \<le> SIGNERS_MAX" "set (filter (\<lambda>s. s \<noteq> a) (signers st)) \<subseteq> set ss"
    and "1 \<le> n" "n \<le> length ss"
  shows "msig_ok ((purge_approvals st a)\<lparr>signers := ss, num_approvals_threshold := n\<rparr>)"
  using assms purge_approvals_map_of [OF msig_okD(5) [OF assms(1)], of a] purged_ok
  by (fastforce simp: msig_ok_def bind_eq_Some_conv)

lemma purge_approvals_update:
  "purge_approvals (st\<lparr>num_approvals_threshold := n\<rparr>) a = (purge_approvals st a)\<lparr>num_approvals_threshold := n\<rparr>"
  "purge_approvals (st\<lparr>signers := ss\<rparr>) a = (purge_approvals st a)\<lparr>signers := ss\<rparr>"
  by (simp_all add: purge_approvals_def Let_def)

lemma msig_ok_remove:
  assumes "msig_ok st" "a \<in> set (signers st)" "length (signers st) \<noteq> 1"
    and "\<not> dec \<Longrightarrow> num_approvals_threshold st \<le> length (signers st) - 1"
    and "dec \<Longrightarrow> 2 \<le> num_approvals_threshold st"
  defines "st1 \<equiv> (if dec then st\<lparr>num_approvals_threshold := num_approvals_threshold st - 1\<rparr> else st)"
  shows "msig_ok ((purge_approvals st1 a)\<lparr>signers := filter (\<lambda>s. s \<noteq> a) (signers (purge_approvals st1 a))\<rparr>)"
proof -
  let ?ss = "filter (\<lambda>s. s \<noteq> a) (signers st)"
  let ?n = "if dec then num_approvals_threshold st - 1 else num_approvals_threshold st"
  note d = msig_okD [OF assms(1)]
  have "msig_ok ((purge_approvals st a)\<lparr>signers := ?ss, num_approvals_threshold := ?n\<rparr>)"
    by (rule msig_ok_purge [OF assms(1)])
      (use assms d length_filter_neq [OF d(1) assms(2)] in \<open>auto split: if_splits\<close>)
  moreover have "(purge_approvals st1 a)\<lparr>signers := filter (\<lambda>s. s \<noteq> a) (signers (purge_approvals st1 a))\<rparr> =
      (purge_approvals st a)\<lparr>signers := ?ss, num_approvals_threshold := ?n\<rparr>"
    by (simp add: st1_def purge_approvals_update)
  ultimately show ?thesis by simp
qed

lemma msig_ok_swap:
  assumes "msig_ok st" "a \<in> set (signers st)" "b \<notin> set (signers st)"
  shows "msig_ok (purge_approvals (st\<lparr>signers := filter (\<lambda>s. s \<noteq> a) (signers st) @ [b]\<rparr>) a)"
proof -
  let ?ss = "filter (\<lambda>s. s \<noteq> a) (signers st) @ [b]"
  note d = msig_okD [OF assms(1)]
  have "0 < length (signers st)" using assms(2) by (cases "signers st") simp_all
  then have "length ?ss = length (signers st)" using length_filter_neq [OF d(1) assms(2)] by simp
  then have "msig_ok ((purge_approvals st a)\<lparr>signers := ?ss, num_approvals_threshold := num_approvals_threshold st\<rparr>)"
    by (intro msig_ok_purge [OF assms(1)]) (use assms d in auto)
  moreover have "(purge_approvals st a)\<lparr>signers := ?ss, num_approvals_threshold := num_approvals_threshold st\<rparr> =
      (purge_approvals st a)\<lparr>signers := ?ss\<rparr>" by (rule MultisigState.equality) simp_all
  ultimately show ?thesis by (simp add: purge_approvals_update)
qed

lemma txn_ok_mono: "txn_ok ss txn \<Longrightarrow> set ss \<subseteq> set ss' \<Longrightarrow> txn_ok ss' txn"
  by (auto simp: txn_ok_def)

lemma msig_ok_add:
  assumes "msig_ok st" "length (signers st) < SIGNERS_MAX" "a \<notin> set (signers st)"
  shows "msig_ok (st\<lparr>signers := signers st @ [a]\<rparr>)"
    and "msig_ok (st\<lparr>signers := signers st @ [a], num_approvals_threshold := num_approvals_threshold st + 1\<rparr>)"
proof -
  note d = msig_okD [OF assms(1)]
  have "txn_ok (signers st @ [a]) txn" if "map_of (pending_txs st) i = Some txn" for i txn
    by (rule txn_ok_mono [OF d(7) [OF that]]) auto
  then show "msig_ok (st\<lparr>signers := signers st @ [a]\<rparr>)"
    and "msig_ok (st\<lparr>signers := signers st @ [a], num_approvals_threshold := num_approvals_threshold st + 1\<rparr>)"
    using assms d by (auto simp: msig_ok_def)
qed

lemma msig_ok_simple:
  assumes "msig_ok st"
  shows "msig_ok (set_locked st e du am)"
    and "n \<noteq> 0 \<Longrightarrow> n \<le> length (signers st) \<Longrightarrow> msig_ok (st\<lparr>num_approvals_threshold := n\<rparr>)"
  using assms by (auto simp: msig_ok_def set_locked_def)

section \<open>Methods keep the invariant\<close>


lemma as_multisigD: "as_multisig d = Some st \<Longrightarrow> d = MultisigSt st"
  by (cases d) simp_all

lemma msig_ok_st:
  assumes ok: "msig_ok st"
  shows "propose_st c params st = Inr (x, st') \<Longrightarrow> msig_ok st'"
    "approve_st cd ext c tp st = Inr (y, st') \<Longrightarrow> msig_ok st'"
    "cancel_st cd ext c tp st = Inr (u, st') \<Longrightarrow> msig_ok st'"
    "add_signer_st a inc st = Inr (u, st') \<Longrightarrow> msig_ok st'"
    "remove_signer_st a dec st = Inr (u, st') \<Longrightarrow> msig_ok st'"
    "swap_signer_st a b st = Inr (u, st') \<Longrightarrow> msig_ok st'"
    "change_threshold_st n st = Inr (u, st') \<Longrightarrow> msig_ok st'"
    "lock_balance_st lb st = Inr (u, st') \<Longrightarrow> msig_ok st'"
proof -
  show "propose_st c params st = Inr (x, st') \<Longrightarrow> msig_ok st'"
    using msig_ok_propose [OF ok, of "\<lparr>tx_to = pp_to params, tx_value = pp_value params,
      tx_method = pp_method params, tx_params = pp_params params, tx_approved = []\<rparr>"]
    by (auto simp: propose_st_def Let_def split: if_splits)
  show "approve_st cd ext c tp st = Inr (y, st') \<Longrightarrow> msig_ok st'"
    using ok by (auto simp: approve_st_def res_simps split: if_splits)
  show "cancel_st cd ext c tp st = Inr (u, st') \<Longrightarrow> msig_ok st'"
    using msig_ok_delete [OF ok] by (auto simp: cancel_st_def res_simps split: if_splits)
  show "add_signer_st a inc st = Inr (u, st') \<Longrightarrow> msig_ok st'"
    using msig_ok_add [OF ok, of a] by (auto simp: add_signer_st_def is_signer_def Let_def split: if_splits)
  show "remove_signer_st a dec st = Inr (u, st') \<Longrightarrow> msig_ok st'"
    using msig_ok_remove [OF ok, of a dec]
    by (auto simp: remove_signer_st_def is_signer_def Let_def split: if_splits)
  show "swap_signer_st a b st = Inr (u, st') \<Longrightarrow> msig_ok st'"
    using msig_ok_swap [OF ok, of a b] by (auto simp: swap_signer_st_def is_signer_def Let_def split: if_splits)
  show "change_threshold_st n st = Inr (u, st') \<Longrightarrow> msig_ok st'"
    using msig_ok_simple(2) [OF ok] by (auto simp: change_threshold_st_def split: if_splits)
  show "lock_balance_st lb st = Inr (u, st') \<Longrightarrow> msig_ok st'"
    using msig_ok_simple(1) [OF ok] by (auto simp: lock_balance_st_def split: if_splits)
qed

lemma msig_initial_ok:
  "distinct rs \<Longrightarrow> length rs \<le> SIGNERS_MAX \<Longrightarrow> 1 \<le> mc_num_approvals_threshold params \<Longrightarrow>
   mc_num_approvals_threshold params \<le> length rs \<Longrightarrow> msig_ok (msig_initial params rs v)"
  by (simp add: msig_initial_def msig_ok_def set_locked_def Let_def)

definition pending_with :: "int \<Rightarrow> Transaction \<Rightarrow> Runtime \<Rightarrow> bool" where
  "pending_with i txn rt = (\<exists>st. receiver_data rt = Some (MultisigSt st) \<and>
     map_of (pending_txs st) i = Some txn \<and> is_signer st (caller rt))"

lemma propose_pending:
  "propose_st c params st = Inr ((i, txn), st') \<Longrightarrow>
   map_of (pending_txs st') i = Some txn \<and> signers st' = signers st \<and> c \<in> set (signers st)"
  by (auto simp: propose_st_def Let_def update_conv is_signer_def split: if_splits)

lemma approve_pending:
  "approve_st cd ext c tp st = Inr ((st1, txn), st') \<Longrightarrow>
   st1 = st \<and> st' = st \<and> map_of (pending_txs st) (ti_id tp) = Some txn \<and> c \<in> set (signers st)"
  by (auto simp: approve_st_def get_transaction_def is_signer_def res_simps split: if_splits)

lemma execute_applied:
  "execute_transaction_if_approved exec st i txn rt = (Inr (applied, out), rt') \<Longrightarrow>
   applied \<longleftrightarrow> num_approvals_threshold st \<le> length (tx_approved txn)"
  by (auto simp: execute_transaction_if_approved_def sm_bind_eq_Inr sm_simps split: if_splits prod.splits)

text \<open>What the commits of a multisig are allowed to be.\<close>

locale multisig_commits = commits +
  assumes create_multisig: "msig_ok st \<Longrightarrow> C EmptyArr (MultisigSt st)"
    and update_multisig: "(msig_ok st \<Longrightarrow> msig_ok st') \<Longrightarrow> C (MultisigSt st) (MultisigSt st')"
begin

lemma safe_msig_update:
  "(\<And>st x st'. f st = Inr (x, st') \<Longrightarrow> msig_ok st \<Longrightarrow> msig_ok st') \<Longrightarrow> safe C (msig_update f)"
  by (intro safe_update) (use as_multisigD in \<open>blast intro: update_multisig\<close>)

lemma safe_execute: 
  "sender C exec \<Longrightarrow> safe C (execute_transaction_if_approved exec st i txn)"
  unfolding execute_transaction_if_approved_def
  by (intro safe_laws safe_msig_update) (auto intro: msig_ok_delete)

lemma runs_approve_transaction:
  assumes "sender C exec"
  shows "runs C (pending_with i txn) (approve_transaction exec i txn) (\<lambda>_ _. True)"
  unfolding approve_transaction_def
proof (intro runs_get runs_when runs_Let runs_then)
  fix c txn'
  assume c: "c \<notin> set (tx_approved txn)" and txn': "txn' = txn\<lparr>tx_approved := tx_approved txn @ [c]\<rparr>"
  show "runs C (\<lambda>rt. pending_with i txn rt \<and> c = caller rt)
    (msig_update (\<lambda>st. let st' = st\<lparr>pending_txs := AList.update i txn' (pending_txs st)\<rparr> in Inr (st', st')))
    (\<lambda>_ _. True)"
  proof (rule runs_update, intro conjI)
    fix rt d st x st'
    assume rt: "pending_with i txn rt \<and> c = caller rt" "receiver_data rt = Some d" "as_multisig d = Some st"
      and f: "(let st' = st\<lparr>pending_txs := AList.update i txn' (pending_txs st)\<rparr> in Inr (st', st')) = Inr (x, st')"
    have "d = MultisigSt st" by (rule as_multisigD [OF rt(3)])
    with rt have "map_of (pending_txs st) i = Some txn" "c \<in> set (signers st)"
      by (simp_all add: pending_with_def is_signer_def)
    then have "msig_ok st \<Longrightarrow> msig_ok st'" using msig_ok_approve c txn' f by (simp add: Let_def) blast
    with \<open>d = MultisigSt st\<close> show "C d (MultisigSt st')" by (simp add: update_multisig)
  qed simp
qed (rule safe_execute [OF assms])

lemma safe_propose:
  assumes "sender C exec"
  shows "safe C (propose exec params)"
  unfolding propose_def
proof (rule runs_skip [OF _ stable_True], intro rt_laws, rule runs_get, rule runs_when,
    rule runs_bind [where Q = "\<lambda>(i, txn). pending_with i txn"])
  fix proposer
  show "runs C (\<lambda>rt. True \<and> proposer = caller rt) (msig_update (propose_st proposer params))
    (\<lambda>(i, txn). pending_with i txn)"
  proof (rule runs_update, intro conjI)
    fix rt d st x st'
    assume rt: "True \<and> proposer = caller rt" "receiver_data rt = Some d" "as_multisig d = Some st"
      and f: "propose_st proposer params st = Inr (x, st')"
    have "d = MultisigSt st" by (rule as_multisigD [OF rt(3)])
    with msig_ok_st(1) [OF _ f] show "C d (MultisigSt st')" by (simp add: update_multisig)
    show "\<forall>rt'. receiver_data rt' = Some (MultisigSt st') \<longrightarrow> rt_same rt rt' \<longrightarrow>
        (case x of (i, txn) \<Rightarrow> pending_with i txn) rt'"
      using propose_pending [of proposer params st "fst x" "snd x" st'] f rt(1)
      by (cases x) (auto simp: pending_with_def is_signer_def rt_same_def caller_def)
  qed
  show "runs C (case x of (i, txn) \<Rightarrow> pending_with i txn)
    (case x of (txn_id, txn) \<Rightarrow> sm_bind (approve_transaction exec txn_id txn) (\<lambda>(applied, ret, code).
        sm_ret \<lparr>pr_txn_id = txn_id, pr_applied = applied, pr_code = code, pr_ret = ret\<rparr>)) (\<lambda>_ _. True)" for x
    by (cases x) (auto intro!: runs_then runs_approve_transaction assms safe_laws)
qed

lemma safe_approve:
  assumes "sender C exec"
  shows "safe C (approve cd ext exec params)"
  unfolding approve_def
proof (rule runs_skip [OF _ stable_True], intro rt_laws, rule runs_get,
    rule runs_bind [where Q = "\<lambda>(st, txn). pending_with (ti_id params) txn"])
  fix approver
  show "runs C (\<lambda>rt. True \<and> approver = caller rt) (msig_update (approve_st cd ext approver params))
    (\<lambda>(st, txn). pending_with (ti_id params) txn)"
  proof (rule runs_update, intro conjI)
    fix rt d st x st'
    assume rt: "True \<and> approver = caller rt" "receiver_data rt = Some d" "as_multisig d = Some st"
      and f: "approve_st cd ext approver params st = Inr (x, st')"
    have "d = MultisigSt st" by (rule as_multisigD [OF rt(3)])
    with msig_ok_st(2) [OF _ f] show "C d (MultisigSt st')" by (simp add: update_multisig)
    show "\<forall>rt'. receiver_data rt' = Some (MultisigSt st') \<longrightarrow> rt_same rt rt' \<longrightarrow>
        (case x of (st, txn) \<Rightarrow> pending_with (ti_id params) txn) rt'"
      using approve_pending [of cd ext approver params st "fst x" "snd x" st'] f rt(1)
      by (cases x) (auto simp: pending_with_def is_signer_def rt_same_def caller_def)
  qed
next
  fix x
  show "runs C (case x of (st, txn) \<Rightarrow> pending_with (ti_id params) txn)
    (case x of (st, txn) \<Rightarrow> sm_bind (execute_transaction_if_approved exec st (ti_id params) txn) (\<lambda>(applied, ret, code).
      if \<not> applied then sm_bind (approve_transaction exec (ti_id params) txn) (\<lambda>(applied', ret', code').
        sm_ret \<lparr>ar_applied = applied', ar_code = code', ar_ret = ret'\<rparr>)
      else sm_ret \<lparr>ar_applied = applied, ar_code = code, ar_ret = ret\<rparr>)) (\<lambda>_ _. True)"
  proof (cases x)
    case (Pair st txn)
    show ?thesis
    proof (cases "num_approvals_threshold st \<le> length (tx_approved txn)")
      case True
      have "runs C (pending_with (ti_id params) txn) (execute_transaction_if_approved exec st (ti_id params) txn)
          (\<lambda>(applied, _) _. applied)"
        using safe_execute [OF assms, of st "ti_id params" txn] execute_applied [of exec st "ti_id params" txn] True
        by (fastforce simp: runs_def)
      then show ?thesis unfolding Pair prod.case
      proof (rule runs_bind)
        fix y :: "bool \<times> Serialized \<times> ExitCode"
        obtain applied ret code where y: "y = (applied, ret, code)" by (cases y)
        show "runs C ((\<lambda>(applied, _) _. applied) y) (case y of (applied, ret, code) \<Rightarrow>
            if \<not> applied then sm_bind (approve_transaction exec (ti_id params) txn) (\<lambda>(applied', ret', code').
              sm_ret \<lparr>ar_applied = applied', ar_code = code', ar_ret = ret'\<rparr>)
            else sm_ret \<lparr>ar_applied = applied, ar_code = code, ar_ret = ret\<rparr>) (\<lambda>_ _. True)"
          by (cases applied) (auto simp: y intro!: runs_ret runs_False)
      qed
    next
      case False
      then have "execute_transaction_if_approved exec st (ti_id params) txn = sm_ret (False, [], ExitOk)"
        by (simp add: execute_transaction_if_approved_def)
      then show ?thesis unfolding Pair
        by (auto intro!: runs_then runs_approve_transaction assms safe_laws)
    qed
  qed
qed

lemma runs_resolve_signers:
  assumes "sender C exec"
  shows "runs C (\<lambda>_. True) (resolve_signers exec ss acc)
    (\<lambda>r _. distinct acc \<longrightarrow> distinct r \<and> length r = length acc + length ss)"
proof (induction ss arbitrary: acc)
  case Nil
  show ?case by (auto intro: runs_ret)
next
  case (Cons a ss)
  show ?case unfolding resolve_signers.simps
  proof (rule runs_bind [OF safe_resolve_to_id_addr [OF assms]], rule runs_when)
    fix b
    assume "b \<notin> set acc"
    then show "runs C (\<lambda>_. True) (resolve_signers exec ss (acc @ [b]))
        (\<lambda>r _. distinct acc \<longrightarrow> distinct r \<and> length r = length acc + length (a # ss))"
      by (intro runs_weaken [OF Cons.IH]) auto
  qed
qed

lemma safe_msig_constructor:
  assumes "sender C exec"
  shows "safe C (msig_constructor exec params)"
  unfolding msig_constructor_def
  by (rule runs_skip [OF _ stable_True], intro rt_laws, rule runs_when, rule runs_when,
      rule runs_bind [OF runs_resolve_signers [OF assms]], rule runs_fact, intro runs_when,
      rule runs_get, rule runs_forget, intro safe_create create_multisig msig_initial_ok)
    simp_all

lemma safe_multisig_methods:
  assumes "sender C exec"
  shows "safe C (cancel cd ext tp)" "safe C (add_signer exec ap)" "safe C (remove_signer exec rp)"
    "safe C (swap_signer exec sp)" "safe C (change_num_approvals_threshold n)" "safe C (lock_balance lp)"
  unfolding cancel_def add_signer_def remove_signer_def swap_signer_def change_num_approvals_threshold_def
    lock_balance_def
  by (intro safe_laws assms safe_msig_update; erule msig_ok_st; assumption)+

lemma safe_multisig_invoke [safe_laws]:
  assumes "sender C exec"
  shows "safe C (multisig_invoke_method cd ext exec method params)"
  unfolding multisig_invoke_method_def
  by (intro safe_laws safe_msig_constructor safe_propose safe_approve safe_multisig_methods [OF assms] assms)

end

definition authorised :: "MultisigState \<Rightarrow> Address \<Rightarrow> int \<Rightarrow> bool" where
  "authorised st c i = (c \<in> set (signers st) \<and> (\<exists>txn. map_of (pending_txs st) i = Some txn \<and>
     set (tx_approved txn) \<subseteq> set (signers st) \<and>
     num_approvals_threshold st \<le> card (insert c (set (tx_approved txn)))))"

context multisig_commits
begin

lemma msig_update_result:
  assumes rt: "rt_id rt" "receiver_data rt = Some (MultisigSt st)"
    and f: "\<And>x st'. f st = Inr (x, st') \<Longrightarrow> msig_ok st \<Longrightarrow> msig_ok st'"
    and run: "msig_update f rt = (Inr x, rt')"
  shows "\<exists>st'. f st = Inr (x, st') \<and> receiver_data rt' = Some (MultisigSt st') \<and> rt_id rt' \<and> rt_same rt rt'"
proof -
  have "runs C (\<lambda>rt. receiver_data rt = Some (MultisigSt st)) (msig_update f)
      (\<lambda>x rt'. \<exists>st'. f st = Inr (x, st') \<and> receiver_data rt' = Some (MultisigSt st'))"
    by (rule runs_update) (use f in \<open>auto intro: update_multisig\<close>)
  from runsD [OF this rt run] show ?thesis by (auto simp: rt_rel_def)
qed

lemma approve_authorised:
  assumes exec: "sender C exec" and rt: "rt_id rt" "receiver_data rt = Some (MultisigSt st)" and ok: "msig_ok st"
    and run: "approve cd ext exec params rt = (Inr ret, rt')" and applied: "ar_applied ret"
  shows "authorised st (caller rt) (ti_id params)"
proof -
  let ?i = "ti_id params"
  from run obtain rt1 st1 txn rt2 b out rt3 where s:
    "validate_immediate_caller_type CALLER_TYPES_SIGNABLE rt = (Inr (), rt1)"
    "msig_update (approve_st cd ext (caller rt1) params) rt1 = (Inr (st1, txn), rt2)"
    "execute_transaction_if_approved exec st1 ?i txn rt2 = (Inr (b, out), rt3)"
    and last: "b \<or> (\<exists>out' rt4. approve_transaction exec ?i txn rt3 = (Inr (True, out'), rt4))"
    using applied by (fastforce simp: approve_def sm_bind_eq_Inr sm_simps split: if_splits)
  have r1: "rt_reads rt rt1" by (rule sm_keepsD [OF reads_validate(3) s(1)])
  have rt1: "rt_id rt1" "receiver_data rt1 = Some (MultisigSt st)" "caller rt1 = caller rt"
    using rt rt_rel_id [OF rt_reads_rel [OF r1]] receiver_actor_reads [OF r1] r1
    by (auto simp: receiver_data_def rt_id_def rt_reads_def rt_same_def caller_def)
  have ok2: "msig_ok st'" if "approve_st cd ext (caller rt1) params st = Inr (x, st')" "msig_ok st" for x st'
    by (rule msig_ok_st(2) [OF that(2,1)])
  have "\<exists>st'. approve_st cd ext (caller rt1) params st = Inr ((st1, txn), st') \<and>
      receiver_data rt2 = Some (MultisigSt st') \<and> rt_id rt2 \<and> rt_same rt1 rt2"
    by (rule msig_update_result [OF rt1(1,2) _ s(2)]) (rule ok2)
  then obtain st' where u: "approve_st cd ext (caller rt) params st = Inr ((st1, txn), st')"
    "receiver_data rt2 = Some (MultisigSt st')" "rt_id rt2" "rt_same rt1 rt2" unfolding rt1(3) by blast
  note p = approve_pending [OF u(1)]
  have txn: "txn_ok (signers st) txn" using msig_okD(7) [OF ok] p by blast
  have "num_approvals_threshold st \<le> card (insert (caller rt) (set (tx_approved txn)))"
  proof (cases "num_approvals_threshold st \<le> length (tx_approved txn)")
    case True
    have "length (tx_approved txn) = card (set (tx_approved txn))" using txn by (simp add: txn_ok_def distinct_card)
    also have "\<dots> \<le> card (insert (caller rt) (set (tx_approved txn)))" by (simp add: card_insert_le)
    finally show ?thesis using True by simp
  next
    case False
    then have b: "\<not> b" "rt3 = rt2" using s(3) p by (auto simp: execute_transaction_if_approved_def sm_simps)
    let ?txn = "txn\<lparr>tx_approved := tx_approved txn @ [caller rt2]\<rparr>"
    let ?f = "\<lambda>st. Inr (st\<lparr>pending_txs := AList.update ?i ?txn (pending_txs st)\<rparr>,
      st\<lparr>pending_txs := AList.update ?i ?txn (pending_txs st)\<rparr>) :: (ActorError, MultisigState \<times> MultisigState) res"
    from last b obtain out' rt4 st2 rt5 where a: "caller rt2 \<notin> set (tx_approved txn)"
      "msig_update ?f rt2 = (Inr st2, rt5)"
      "execute_transaction_if_approved exec st2 ?i ?txn rt5 = (Inr (True, out'), rt4)"
      unfolding approve_transaction_def Let_def sm_bind_eq_Inr by (auto simp: sm_simps split: if_splits)
    have c: "caller rt2 = caller rt" using u(4) rt1(3) by (simp add: rt_same_def caller_def)
    have st': "st' = st" using p by simp
    have "\<exists>st3. ?f st = Inr (st2, st3) \<and> receiver_data rt5 = Some (MultisigSt st3) \<and> rt_id rt5 \<and> rt_same rt2 rt5"
      by (rule msig_update_result [where f = ?f, OF u(3) u(2) [unfolded st'] _ a(2)])
        (use msig_ok_approve [of st ?i txn "caller rt2"] p a(1) c in \<open>auto simp: Let_def\<close>)
    then have "num_approvals_threshold st2 = num_approvals_threshold st" by (auto simp: Let_def)
    then have "num_approvals_threshold st \<le> Suc (length (tx_approved txn))"
      using execute_applied [OF a(3)] by simp
    also have "\<dots> = card (insert (caller rt) (set (tx_approved txn)))"
      using txn a(1) c by (simp add: txn_ok_def distinct_card)
    finally show ?thesis .
  qed
  then show ?thesis using p txn by (auto simp: authorised_def txn_ok_def)
qed

end

section \<open>Properties\<close>

lemma div_ceil_mono: "a \<le> b \<Longrightarrow> 0 < d \<Longrightarrow> div_ceil a d \<le> div_ceil b d"
  by (simp add: div_ceil_def zdiv_mono1)

lemma div_ceil_exact: "0 < d \<Longrightarrow> div_ceil (a * d) d = a"
  by (simp add: div_ceil_def minus_mult_left del: mult_minus_left)

lemma div_ceil_range:
  assumes "0 \<le> a" "0 \<le> x" "x \<le> d" "0 < d"
  shows "0 \<le> div_ceil (a * x) d" "div_ceil (a * x) d \<le> a"
proof -
  have "a * x \<le> a * d" using assms by (intro mult_left_mono) auto
  from div_ceil_mono [OF this assms(4)] show "div_ceil (a * x) d \<le> a" by (simp add: div_ceil_exact assms(4))
  have "0 \<le> a * x" using assms by simp
  from div_ceil_mono [OF this assms(4)] show "0 \<le> div_ceil (a * x) d" by (simp add: div_ceil_def [of 0])
qed

text \<open>Locked funds of a multisig: the locked amount lies between zero and the initial balance, never grows
  with time, is the whole initial balance up to the start and zero once the unlock duration has
  passed, and a payment is admitted exactly when it is not negative, covered by the balance and, unless
  it is zero, leaves the amount that is still locked.
\<close>

theorem multisig_locked_funds:
  assumes "0 \<le> initial_balance st" "e \<le> e'"
  shows "0 \<le> amount_locked st e \<and> amount_locked st e \<le> initial_balance st \<and>
    amount_locked st e' \<le> amount_locked st e \<and>
    (unlock_duration st \<le> e \<longrightarrow> amount_locked st e = 0) \<and>
    (e \<le> 0 \<longrightarrow> e < unlock_duration st \<longrightarrow> amount_locked st e = initial_balance st) \<and>
    (check_available st bal amt (start_epoch st + e) = Inr () \<longleftrightarrow>
       0 \<le> amt \<and> amt \<le> bal \<and> (amt = 0 \<or> amount_locked st e \<le> bal - amt))"
proof (intro conjI)
  let ?d = "unlock_duration st" and ?b = "initial_balance st"
  have r: "0 \<le> div_ceil (?b * (?d - x)) ?d" "div_ceil (?b * (?d - x)) ?d \<le> ?b" if "0 < x" "x < ?d" for x
    using div_ceil_range [OF assms(1), of "?d - x" ?d] that by simp_all
  show "0 \<le> amount_locked st e" "amount_locked st e \<le> ?b"
    using r [of e] assms by (auto simp: amount_locked_def)
  show "amount_locked st e' \<le> amount_locked st e"
  proof (cases "0 < e \<and> e' < ?d")
    case True
    have "?b * (?d - e') \<le> ?b * (?d - e)" using assms by (intro mult_left_mono) auto
    with True show ?thesis using assms(2) div_ceil_mono [of "?b * (?d - e')" "?b * (?d - e)" ?d]
      by (simp add: amount_locked_def)
  next
    case False
    then show ?thesis using r [of e] r [of e'] assms by (auto simp: amount_locked_def)
  qed
qed (auto simp: amount_locked_def check_available_def)

theorem multisig_locked_funds_witness:
  "let st = \<lparr>signers = [ID 1], num_approvals_threshold = 1, next_tx_id = 0, initial_balance = 100, start_epoch = 20,
             unlock_duration = 30, pending_txs = []\<rparr>
   in amount_locked st 20 \<le> amount_locked st 10 \<and> amount_locked st 10 = 67 \<and>
      check_available st 100 33 30 = Inr () \<and> check_available st 100 34 30 \<noteq> Inr ()"
proof -
  let ?st = "\<lparr>signers = [ID 1], num_approvals_threshold = 1, next_tx_id = 0, initial_balance = 100, start_epoch = 20,
             unlock_duration = 30, pending_txs = []\<rparr>"
  have a: "amount_locked ?st 10 = 67" by (simp add: amount_locked_def div_ceil_def)
  show ?thesis
    unfolding Let_def
    using multisig_locked_funds [of ?st 10 20 100 33] multisig_locked_funds [of ?st 10 20 100 34] a by simp
qed

end
