(* ===== verification/Paych.thy ===== *)
theory Paych
  imports Runtime_Triples
begin

text \<open>
  The payment channel actor (\<open>vm/actor/src/builtin/paych\<close>): a payer funds the channel, the payee
  redeems signed vouchers on lanes, and after a settlement delay the channel is collected.
  The lane states are a partial function on lane numbers; the AMT that holds them accepts every
  lane up to \<open>MAX_LANE\<close>.
\<close>

section \<open>Vouchers\<close>

record Merge =
  merge_lane :: nat
  merge_nonce :: nat

record ModVerifyParams =
  mv_actor :: Address
  mv_method :: MethodNum
  mv_data :: Serialized

record SignedVoucher =
  sv_channel_addr :: Address
  sv_time_lock_min :: ChainEpoch
  sv_time_lock_max :: ChainEpoch
  sv_secret_pre_image :: bytes
  sv_extra :: "ModVerifyParams option"
  sv_lane :: nat
  sv_nonce :: nat
  sv_amount :: int
  sv_min_settle_height :: ChainEpoch
  sv_merges :: "Merge list"
  sv_signature :: "bytes option"

record PaychConstructorParams =
  pc_from :: Address
  pc_to :: Address

record UpdateChannelStateParams =
  uc_sv :: SignedVoucher
  uc_secret :: bytes

record PaychCodec =
  de_PaychConstructorParams :: "bytes \<Rightarrow> PaychConstructorParams option"
  de_UpdateChannelStateParams :: "bytes \<Rightarrow> UpdateChannelStateParams option"
  ser_SignedVoucher :: "SignedVoucher \<Rightarrow> bytes"
  ser_Serialized :: "Serialized \<Rightarrow> Serialized"

definition MAX_LANE :: nat where "MAX_LANE = 2 ^ 63 - 1"
definition SETTLE_DELAY :: ChainEpoch where "SETTLE_DELAY = 120 * 12"
definition MAX_SECRET_SIZE :: nat where "MAX_SECRET_SIZE = 256"

fun as_paych :: "ActorData \<Rightarrow> PaychState option" where
  "as_paych (PaychSt st) = Some st"
| "as_paych _ = None"

definition paych_state_new :: "Address \<Rightarrow> Address \<Rightarrow> PaychState" where
  "paych_state_new from_a to_a =
    \<lparr>pay_from = from_a, pay_to = to_a, to_send = 0, settling_at = 0, min_settle_height = 0,
     lane_states = Map.empty\<rparr>"

definition lane_default :: LaneState where
  "lane_default = \<lparr>redeemed = 0, lane_nonce = 0\<rparr>"

definition signing_bytes :: "PaychCodec \<Rightarrow> SignedVoucher \<Rightarrow> bytes" where
  "signing_bytes cd sv = ser_SignedVoucher cd (sv\<lparr>sv_signature := None\<rparr>)"

definition find_lane :: "(nat \<rightharpoonup> LaneState) \<Rightarrow> nat \<Rightarrow> (ActorError, LaneState option) res" where
  "find_lane ls i = (if MAX_LANE < i then Inl (actor_error ErrIllegalArgument) else Inr (ls i))"

section \<open>Redeeming a voucher\<close>

text \<open>The loop over the merged lanes: the lane table it leaves and the sum already redeemed on them.\<close>

fun merge_lanes ::
  "nat \<Rightarrow> Merge list \<Rightarrow> (nat \<rightharpoonup> LaneState) \<Rightarrow> int \<Rightarrow> (ActorError, (nat \<rightharpoonup> LaneState) \<times> int) res" where
  "merge_lanes lane [] l_states redeemed_from_others = Inr (l_states, redeemed_from_others)"
| "merge_lanes lane (m # ms) l_states redeemed_from_others =
    (if merge_lane m = lane then Inl (actor_error ErrIllegalArgument)
     else
       res_bind (find_lane l_states (merge_lane m)) (\<lambda>o_ls.
       res_bind (ok_or o_ls (actor_error ErrIllegalArgument)) (\<lambda>other_ls.
       if merge_nonce m \<le> lane_nonce other_ls then Inl (actor_error ErrIllegalArgument)
       else merge_lanes lane ms
              (l_states(merge_lane m \<mapsto> other_ls\<lparr>lane_nonce := merge_nonce m\<rparr>))
              (redeemed_from_others + redeemed other_ls))))"

definition raise_settle_height :: "ChainEpoch \<Rightarrow> PaychState \<Rightarrow> PaychState" where
  "raise_settle_height h st =
    (if h \<noteq> 0 then
       let st1 = (if settling_at st \<noteq> 0 \<and> settling_at st < h then st\<lparr>settling_at := h\<rparr> else st)
       in (if min_settle_height st1 < h then st1\<lparr>min_settle_height := h\<rparr> else st1)
     else st)"

text \<open>
  The body of the state transaction of \<open>update_channel_state\<close>.  The balance of the channel, which
  the source reads for the check against it, is an argument.
\<close>

definition apply_voucher :: "SignedVoucher \<Rightarrow> TokenAmount \<Rightarrow> PaychState \<Rightarrow> (ActorError, PaychState) res" where
  "apply_voucher sv balance st =
    res_bind (find_lane (lane_states st) (sv_lane sv)) (\<lambda>o_lane.
    res_bind (case o_lane of
                Some state \<Rightarrow>
                  if sv_nonce sv \<le> lane_nonce state then Inl (actor_error ErrIllegalArgument)
                  else Inr state
              | None \<Rightarrow> Inr lane_default) (\<lambda>lane_state.
    res_bind (merge_lanes (sv_lane sv) (sv_merges sv) (lane_states st) 0)
      (\<lambda>(l_states, redeemed_from_others).
    let balance_delta = sv_amount sv - (redeemed_from_others + redeemed lane_state);
        lane_state' = lane_state\<lparr>lane_nonce := sv_nonce sv, redeemed := sv_amount sv\<rparr>;
        new_send_balance = balance_delta + to_send st in
    if new_send_balance < 0 then Inl (actor_error ErrIllegalArgument)
    else if balance < new_send_balance then Inl (actor_error ErrIllegalArgument)
    else
      let st2 = raise_settle_height (sv_min_settle_height sv) (st\<lparr>to_send := new_send_balance\<rparr>)
      in Inr (st2\<lparr>lane_states := l_states(sv_lane sv \<mapsto> lane_state')\<rparr>))))"

section \<open>Methods\<close>

definition resolve_account :: "send_fn \<Rightarrow> Address \<Rightarrow> Address rtm" where
  "resolve_account exec raw =
    sm_bind (resolve_to_id_addr exec raw) (\<lambda>resolved.
    sm_bind (rt_get_actor_code_cid resolved) (\<lambda>r.
    sm_bind (sm_lift (ok_or r (actor_error ErrIllegalArgument))) (\<lambda>code_cid.
    if code_cid \<noteq> Builtin V6 AccountActor then sm_err (actor_error ErrForbidden)
    else sm_ret resolved)))"

definition paych_constructor :: "send_fn \<Rightarrow> PaychConstructorParams \<Rightarrow> unit rtm" where
  "paych_constructor exec params =
    sm_bind (validate_immediate_caller_type [Builtin V6 InitActor]) (\<lambda>_.
    sm_bind (resolve_account exec (pc_to params)) (\<lambda>to_a.
    sm_bind (resolve_account exec (pc_from params)) (\<lambda>from_a.
    rt_create (PaychSt (paych_state_new from_a to_a)))))"

definition update_channel_state ::
  "PaychCodec \<Rightarrow> Ext \<Rightarrow> send_fn \<Rightarrow> UpdateChannelStateParams \<Rightarrow> unit rtm" where
  "update_channel_state cd ext exec params =
    sm_bind (rt_state as_paych) (\<lambda>st.
    sm_bind (validate_immediate_caller_is [pay_from st, pay_to st]) (\<lambda>_.
    sm_bind (sm_get (\<lambda>rt. if caller rt = pay_from st then pay_to st else pay_from st)) (\<lambda>signer.
    let sv = uc_sv params in
    sm_bind (sm_lift (ok_or (sv_signature sv) (actor_error ErrIllegalArgument))) (\<lambda>sig.
    sm_bind (sm_get rt_epoch) (\<lambda>curr_epoch.
    sm_bind (sm_when (settling_at st \<noteq> 0 \<and> settling_at st \<le> curr_epoch)
               (actor_error ErrTooManyProveCommits)) (\<lambda>_.
    sm_bind (sm_when (MAX_SECRET_SIZE < length (uc_secret params)) (actor_error ErrIllegalArgument)) (\<lambda>_.
    sm_bind (rt_verify_signature ext sig signer (signing_bytes cd sv)) (\<lambda>valid.
    sm_bind (sm_when (\<not> valid) (actor_error ErrIllegalArgument)) (\<lambda>_.
    sm_bind (sm_get receiver) (\<lambda>pch_addr.
    sm_bind (rt_resolve_address (sv_channel_addr sv)) (\<lambda>r.
    sm_bind (sm_lift (ok_or r (actor_error ErrIllegalArgument))) (\<lambda>svpch_id_addr.
    sm_bind (sm_when (pch_addr \<noteq> svpch_id_addr) (actor_error ErrIllegalArgument)) (\<lambda>_.
    sm_bind (sm_when (curr_epoch < sv_time_lock_min sv) (actor_error ErrIllegalArgument)) (\<lambda>_.
    sm_bind (sm_when (sv_time_lock_max sv \<noteq> 0 \<and> sv_time_lock_max sv < curr_epoch)
               (actor_error ErrIllegalArgument)) (\<lambda>_.
    sm_bind (sm_when (sv_amount sv < 0) (actor_error ErrIllegalArgument)) (\<lambda>_.
    sm_bind (sm_when (sv_secret_pre_image sv \<noteq> [] \<and>
                      x_blake2b_256 ext (uc_secret params) \<noteq> sv_secret_pre_image sv)
               (actor_error ErrIllegalArgument)) (\<lambda>_.
    sm_bind (case sv_extra sv of
               None \<Rightarrow> sm_ret ()
             | Some extra \<Rightarrow>
                 sm_bind (rt_send exec (mv_actor extra) (mv_method extra)
                            (ser_Serialized cd (mv_data extra)) 0) (\<lambda>_. sm_ret ())) (\<lambda>_.
    rt_transaction as_paych PaychSt (\<lambda>st.
      sm_bind rt_current_balance (\<lambda>balance.
      sm_bind (sm_lift (apply_voucher sv balance st)) (\<lambda>st'.
      sm_ret ((), st'))))))))))))))))))))))"

definition start_settling :: "ChainEpoch \<Rightarrow> PaychState \<Rightarrow> PaychState" where
  "start_settling curr_epoch st =
    (let st1 = st\<lparr>settling_at := curr_epoch + SETTLE_DELAY\<rparr> in
     if settling_at st1 < min_settle_height st1
     then st1\<lparr>settling_at := min_settle_height st1\<rparr> else st1)"

definition settle :: "unit rtm" where
  "settle =
    rt_transaction as_paych PaychSt (\<lambda>st.
      sm_bind (validate_immediate_caller_is [pay_from st, pay_to st]) (\<lambda>_.
      sm_bind (sm_when (settling_at st \<noteq> 0) (actor_error ErrIllegalState)) (\<lambda>_.
      sm_bind (sm_get rt_epoch) (\<lambda>curr_epoch.
      sm_ret ((), start_settling curr_epoch st)))))"

definition collect :: "send_fn \<Rightarrow> unit rtm" where
  "collect exec =
    sm_bind (rt_state as_paych) (\<lambda>st.
    sm_bind (validate_immediate_caller_is [pay_from st, pay_to st]) (\<lambda>_.
    sm_bind (sm_get rt_epoch) (\<lambda>curr_epoch.
    sm_bind (sm_when (settling_at st = 0 \<or> curr_epoch < settling_at st) (actor_error ErrForbidden)) (\<lambda>_.
    sm_bind (rt_send exec (pay_to st) METHOD_SEND [] (to_send st)) (\<lambda>_.
    rt_delete_actor (pay_from st))))))"

definition paych_invoke_method ::
  "PaychCodec \<Rightarrow> Ext \<Rightarrow> send_fn \<Rightarrow> MethodNum \<Rightarrow> Serialized \<Rightarrow> Serialized rtm" where
  "paych_invoke_method cd ext exec method params =
    (if method = METHOD_CONSTRUCTOR then
       sm_bind (deserialize_params (de_PaychConstructorParams cd) params) (\<lambda>p.
       sm_bind (paych_constructor exec p) (\<lambda>_. sm_ret []))
     else if method = 2 then
       sm_bind (deserialize_params (de_UpdateChannelStateParams cd) params) (\<lambda>p.
       sm_bind (update_channel_state cd ext exec p) (\<lambda>_. sm_ret []))
     else if method = 3 then sm_bind settle (\<lambda>_. sm_ret [])
     else if method = 4 then sm_bind (collect exec) (\<lambda>_. sm_ret [])
     else sm_err (actor_error SysErrInvalidMethod))"

section \<open>Invariant\<close>

text \<open>
  A channel never owes a negative amount, its lanes are in range and have redeemed a non-negative
  amount, and once it is settling it does so no earlier than the height agreed in the vouchers.
\<close>

definition lanes_ok :: "(nat \<rightharpoonup> LaneState) \<Rightarrow> bool" where
  "lanes_ok m = (\<forall>i ls. m i = Some ls \<longrightarrow> i \<le> MAX_LANE \<and> 0 \<le> redeemed ls)"

definition paych_ok :: "PaychState \<Rightarrow> bool" where
  "paych_ok st = (0 \<le> to_send st \<and> 0 \<le> min_settle_height st \<and>
     (settling_at st \<noteq> 0 \<longrightarrow> min_settle_height st \<le> settling_at st) \<and> lanes_ok (lane_states st))"

lemma merge_lanes_ok:
  "merge_lanes l ms m n = Inr (m', n') \<Longrightarrow> lanes_ok m \<Longrightarrow> lanes_ok m' \<and> n \<le> n'"
proof (induction ms arbitrary: m n)
  case (Cons x xs)
  then obtain ls where ls: "m (merge_lane x) = Some ls" "merge_lane x \<le> MAX_LANE"
    "merge_lanes l xs (m(merge_lane x \<mapsto> ls\<lparr>lane_nonce := merge_nonce x\<rparr>)) (n + redeemed ls) = Inr (m', n')"
    by (auto simp: res_simps find_lane_def split: if_splits)
  have "lanes_ok (m(merge_lane x \<mapsto> ls\<lparr>lane_nonce := merge_nonce x\<rparr>))" "0 \<le> redeemed ls"
    using Cons(3) ls(1,2) by (auto simp: lanes_ok_def)
  with Cons.IH [OF ls(3)] show ?case by (simp del: fun_upd_apply)
qed auto

lemma apply_voucher_Inr:
  assumes "apply_voucher sv bal st = Inr st'"
  obtains ls m n where "sv_lane sv \<le> MAX_LANE"
    "ls = (case lane_states st (sv_lane sv) of Some s \<Rightarrow> s | None \<Rightarrow> lane_default)"
    "\<forall>s. lane_states st (sv_lane sv) = Some s \<longrightarrow> lane_nonce s < sv_nonce sv"
    "merge_lanes (sv_lane sv) (sv_merges sv) (lane_states st) 0 = Inr (m, n)"
    "0 \<le> sv_amount sv - (n + redeemed ls) + to_send st" "sv_amount sv - (n + redeemed ls) + to_send st \<le> bal"
    "st' = (raise_settle_height (sv_min_settle_height sv)
      (st\<lparr>to_send := sv_amount sv - (n + redeemed ls) + to_send st\<rparr>))\<lparr>lane_states :=
        m(sv_lane sv \<mapsto> ls\<lparr>lane_nonce := sv_nonce sv, redeemed := sv_amount sv\<rparr>)\<rparr>"
proof (cases "lane_states st (sv_lane sv)")
  case None
  with assms show ?thesis
    by (auto simp: apply_voucher_def res_simps find_lane_def Let_def split: if_splits intro!: that)
next
  case (Some s)
  with assms show ?thesis
    by (auto simp: apply_voucher_def res_simps find_lane_def Let_def split: if_splits intro!: that)
qed

lemma raise_settle_height_fields [simp]:
  "to_send (raise_settle_height h st) = to_send st" "lane_states (raise_settle_height h st) = lane_states st"
  "pay_from (raise_settle_height h st) = pay_from st" "pay_to (raise_settle_height h st) = pay_to st"
  by (simp_all add: raise_settle_height_def Let_def)

lemma raise_settle_height_ok:
  "paych_ok st \<Longrightarrow> paych_ok (raise_settle_height h st)"
  by (auto simp: paych_ok_def raise_settle_height_def Let_def)

lemma apply_voucher_ok:
  assumes "apply_voucher sv bal st = Inr st'" "paych_ok st" "0 \<le> sv_amount sv"
  shows "paych_ok st'"
proof -
  from apply_voucher_Inr [OF assms(1)] obtain ls m n where v: "sv_lane sv \<le> MAX_LANE"
    "ls = (case lane_states st (sv_lane sv) of Some s \<Rightarrow> s | None \<Rightarrow> lane_default)"
    "\<forall>s. lane_states st (sv_lane sv) = Some s \<longrightarrow> lane_nonce s < sv_nonce sv"
    "merge_lanes (sv_lane sv) (sv_merges sv) (lane_states st) 0 = Inr (m, n)"
    "0 \<le> sv_amount sv - (n + redeemed ls) + to_send st" "sv_amount sv - (n + redeemed ls) + to_send st \<le> bal"
    "st' = (raise_settle_height (sv_min_settle_height sv)
      (st\<lparr>to_send := sv_amount sv - (n + redeemed ls) + to_send st\<rparr>))\<lparr>lane_states :=
        m(sv_lane sv \<mapsto> ls\<lparr>lane_nonce := sv_nonce sv, redeemed := sv_amount sv\<rparr>)\<rparr>" .
  have "lanes_ok m" using merge_lanes_ok [OF v(4)] assms(2) by (simp add: paych_ok_def)
  then have "lanes_ok (m(sv_lane sv \<mapsto> ls\<lparr>lane_nonce := sv_nonce sv, redeemed := sv_amount sv\<rparr>))"
    using v(1) assms(3) by (simp add: lanes_ok_def)
  moreover have "paych_ok (raise_settle_height (sv_min_settle_height sv)
      (st\<lparr>to_send := sv_amount sv - (n + redeemed ls) + to_send st\<rparr>))"
    using assms(2) v(5) by (intro raise_settle_height_ok) (simp add: paych_ok_def)
  ultimately show ?thesis unfolding v(7) paych_ok_def by simp
qed

section \<open>Methods keep the invariant\<close>

lemma as_paychD: "as_paych d = Some st \<Longrightarrow> d = PaychSt st"
  by (cases d) simp_all

lemma paych_state_new_ok: "paych_ok (paych_state_new a b)"
  by (simp add: paych_ok_def lanes_ok_def paych_state_new_def)

lemma start_settling_ok: "paych_ok st \<Longrightarrow> paych_ok (start_settling e st)"
  by (auto simp: paych_ok_def start_settling_def Let_def)

text \<open>
  The life of a channel after its constructor: it redeems vouchers and, once, starts to settle.  The locale below
  shows that the methods commit no other changes of its state.
\<close>

inductive paych_step :: "PaychState \<Rightarrow> PaychState \<Rightarrow> bool" where
  redeem: "apply_voucher sv bal st = Inr st' \<Longrightarrow> paych_step st st'"
| settles: "settling_at st = 0 \<Longrightarrow> paych_step st (start_settling curr_epoch st)"

locale paych_commits = commits +
  assumes create_paych: "paych_ok st \<Longrightarrow> C EmptyArr (PaychSt st)"
    and update_paych: "(paych_ok st \<Longrightarrow> paych_ok st') \<Longrightarrow> paych_step st st' \<Longrightarrow> C (PaychSt st) (PaychSt st')"
begin

lemma safe_resolve_account [safe_laws]: "sender C exec \<Longrightarrow> safe C (resolve_account exec a)"
  unfolding resolve_account_def by (intro safe_laws)

lemma safe_paych_constructor: "sender C exec \<Longrightarrow> safe C (paych_constructor exec params)"
  unfolding paych_constructor_def
  by (intro safe_laws safe_create create_paych paych_state_new_ok)

lemma safe_redeem:
  assumes "0 \<le> sv_amount sv"
  shows "safe C (rt_transaction as_paych PaychSt (\<lambda>st.
      sm_bind rt_current_balance (\<lambda>balance.
      sm_bind (sm_lift (apply_voucher sv balance st)) (\<lambda>st'. sm_ret ((), st')))))"
proof (rule safe_transaction)
  fix d st rt1 x st' rt2
  assume "as_paych d = Some st"
    and "guarded (sm_bind rt_current_balance (\<lambda>balance.
      sm_bind (sm_lift (apply_voucher sv balance st)) (\<lambda>st'. sm_ret ((), st')))) rt1 = (Inr (x, st'), rt2)"
  then obtain bal where "d = PaychSt st" "apply_voucher sv bal st = Inr st'"
    by (auto simp: guarded_Inr sm_bind_eq_Inr sm_simps dest: as_paychD)
  then show "C d (PaychSt st')" using assms by (auto intro!: update_paych paych_step.redeem elim: apply_voucher_ok)
qed (intro rt_laws)

lemma safe_update_channel_state: "sender C exec \<Longrightarrow> safe C (update_channel_state cd ext exec params)"
  unfolding update_channel_state_def Let_def
  by (intro safe_steps safe_laws safe_redeem) simp_all

lemma safe_settle: "safe C settle"
  unfolding settle_def
proof (rule safe_transaction)
  fix d st rt1 x st' rt2
  assume "as_paych d = Some st"
    and "guarded (sm_bind (validate_immediate_caller_is [pay_from st, pay_to st]) (\<lambda>_.
      sm_bind (sm_when (settling_at st \<noteq> 0) (actor_error ErrIllegalState)) (\<lambda>_.
      sm_bind (sm_get rt_epoch) (\<lambda>curr_epoch. sm_ret ((), start_settling curr_epoch st))))) rt1 =
      (Inr (x, st'), rt2)"
  then obtain e where "d = PaychSt st" "st' = start_settling e st" "settling_at st = 0"
    by (auto simp: guarded_Inr sm_bind_eq_Inr sm_simps split: if_splits dest: as_paychD)
  then show "C d (PaychSt st')" by (auto intro!: update_paych start_settling_ok paych_step.settles)
qed (intro rt_laws)

lemma runs_collect:
  assumes "sender C exec"
  shows "runs C paych_receiver (collect exec) (\<lambda>_ _. True)"
  unfolding collect_def
  by (intro runs_keep_paych runs_delete_actor safe_laws assms)

lemma runs_paych_invoke:
  assumes "sender C exec"
  shows "runs C paych_receiver (paych_invoke_method cd ext exec method params) (\<lambda>_ _. True)"
  unfolding paych_invoke_method_def
  by (intro runs_if runs_then [OF runs_collect [OF assms]] runs_forget [OF safe_bind] safe_laws
      safe_paych_constructor safe_update_channel_state safe_settle assms runs_forget [OF safe_reading(2)])

end

section \<open>Vouchers\<close>

lemma voucher_rejected:
  assumes "lane_states st (sv_lane sv) = Some ls" "sv_nonce sv \<le> lane_nonce ls"
  shows "\<exists>e. apply_voucher sv bal st = Inl e"
proof (cases "apply_voucher sv bal st")
  case (Inr st')
  from apply_voucher_Inr [OF this] have "lane_nonce ls < sv_nonce sv" using assms(1) by blast
  with assms(2) show ?thesis by simp
qed auto

text \<open>The nonce of a lane never goes down: a merge has to raise it, too.\<close>

definition lanes_grow :: "(nat \<rightharpoonup> LaneState) \<Rightarrow> (nat \<rightharpoonup> LaneState) \<Rightarrow> bool" where
  "lanes_grow m m' = (\<forall>l s. m l = Some s \<longrightarrow> (\<exists>s'. m' l = Some s' \<and> lane_nonce s \<le> lane_nonce s'))"

lemma lanes_grow_refl: "lanes_grow m m"
  by (simp add: lanes_grow_def)

lemma lanes_grow_trans: "lanes_grow m n \<Longrightarrow> lanes_grow n k \<Longrightarrow> lanes_grow m k"
  unfolding lanes_grow_def by (meson order_trans)

lemma lanes_grow_upd: "(\<And>s. m l = Some s \<Longrightarrow> lane_nonce s \<le> lane_nonce s') \<Longrightarrow> lanes_grow m (m(l \<mapsto> s'))"
  by (auto simp: lanes_grow_def)

lemma merge_lanes_grow: "merge_lanes l ms m n = Inr (m', n') \<Longrightarrow> lanes_grow m m' \<and> m' l = m l"
proof (induction ms arbitrary: m n)
  case (Cons x xs)
  then obtain ls where ls: "merge_lane x \<noteq> l" "m (merge_lane x) = Some ls" "lane_nonce ls < merge_nonce x"
    "merge_lanes l xs (m(merge_lane x \<mapsto> ls\<lparr>lane_nonce := merge_nonce x\<rparr>)) (n + redeemed ls) = Inr (m', n')"
    by (auto simp: res_simps find_lane_def split: if_splits)
  have "lanes_grow m (m(merge_lane x \<mapsto> ls\<lparr>lane_nonce := merge_nonce x\<rparr>))" by (rule lanes_grow_upd) (use ls(2,3) in simp)
  with Cons.IH [OF ls(4)] ls(1) lanes_grow_trans show ?case by (auto simp del: fun_upd_apply) auto
qed (simp add: lanes_grow_refl)

lemma paych_step_grow: "paych_step st st' \<Longrightarrow> lanes_grow (lane_states st) (lane_states st')"
proof (induction rule: paych_step.induct)
  case (redeem sv bal st st')
  from apply_voucher_Inr [OF this] obtain ls m n where v:
    "\<forall>s. lane_states st (sv_lane sv) = Some s \<longrightarrow> lane_nonce s < sv_nonce sv"
    "merge_lanes (sv_lane sv) (sv_merges sv) (lane_states st) 0 = Inr (m, n)"
    "st' = (raise_settle_height (sv_min_settle_height sv)
      (st\<lparr>to_send := sv_amount sv - (n + redeemed ls) + to_send st\<rparr>))\<lparr>lane_states :=
        m(sv_lane sv \<mapsto> ls\<lparr>lane_nonce := sv_nonce sv, redeemed := sv_amount sv\<rparr>)\<rparr>" .
  have m: "lanes_grow (lane_states st) m" "m (sv_lane sv) = lane_states st (sv_lane sv)" using merge_lanes_grow [OF v(2)] by simp_all
  have "lanes_grow m (m(sv_lane sv \<mapsto> ls\<lparr>lane_nonce := sv_nonce sv, redeemed := sv_amount sv\<rparr>))"
    by (rule lanes_grow_upd) (use m(2) v(1) in \<open>auto simp: less_imp_le\<close>)
  from lanes_grow_trans [OF m(1) this] show ?case using v(3) by (simp del: fun_upd_apply)
qed (simp add: start_settling_def Let_def lanes_grow_refl)

lemma paych_steps_grow: "paych_step\<^sup>*\<^sup>* st st' \<Longrightarrow> lanes_grow (lane_states st) (lane_states st')"
  by (induction rule: rtranclp_induct) (auto intro: lanes_grow_refl lanes_grow_trans paych_step_grow)

text \<open>
  The payments of a channel as a sequence of vouchers, each with the balance the channel has when it
  is redeemed.  \<open>owed\<close> is the sum of what the lanes have redeemed.
\<close>

primrec apply_vouchers :: "(SignedVoucher \<times> TokenAmount) list \<Rightarrow> PaychState \<Rightarrow> (ActorError, PaychState) res" where
  "apply_vouchers [] st = Inr st"
| "apply_vouchers (v # vs) st = res_bind (apply_voucher (fst v) (snd v) st) (apply_vouchers vs)"

definition owed :: "(nat \<rightharpoonup> LaneState) \<Rightarrow> TokenAmount" where
  "owed m = (\<Sum>l \<in> dom m. redeemed (the (m l)))"

lemma owed_upd:
  assumes "finite (dom m)"
  shows "owed (m(l \<mapsto> ls)) = owed m - (case m l of None \<Rightarrow> 0 | Some s \<Rightarrow> redeemed s) + redeemed ls"
proof -
  have "(\<Sum>i \<in> dom m - {l}. redeemed (the ((m(l \<mapsto> ls)) i))) = (\<Sum>i \<in> dom m - {l}. redeemed (the (m i)))"
    by (rule sum.cong) auto
  then have "owed (m(l \<mapsto> ls)) = redeemed ls + (\<Sum>i \<in> dom m - {l}. redeemed (the (m i)))"
    using assms sum.insert_remove [of "dom m" "\<lambda>i. redeemed (the ((m(l \<mapsto> ls)) i))" l] by (simp add: owed_def)
  then show ?thesis
    using assms by (cases "m l") (auto simp: owed_def sum.remove [of "dom m" l] domIff)
qed

lemma voucher_ledger:
  assumes "apply_voucher sv bal st = Inr st'" "sv_merges sv = []" "finite (dom (lane_states st))"
  shows "to_send st' - owed (lane_states st') = to_send st - owed (lane_states st) \<and> finite (dom (lane_states st'))"
proof -
  from apply_voucher_Inr [OF assms(1)] obtain ls m n where v:
    "ls = (case lane_states st (sv_lane sv) of Some s \<Rightarrow> s | None \<Rightarrow> lane_default)"
    "merge_lanes (sv_lane sv) (sv_merges sv) (lane_states st) 0 = Inr (m, n)"
    "st' = (raise_settle_height (sv_min_settle_height sv)
      (st\<lparr>to_send := sv_amount sv - (n + redeemed ls) + to_send st\<rparr>))\<lparr>lane_states :=
        m(sv_lane sv \<mapsto> ls\<lparr>lane_nonce := sv_nonce sv, redeemed := sv_amount sv\<rparr>)\<rparr>" .
  have m: "m = lane_states st" "n = 0" using v(2) assms(2) by simp_all
  have "redeemed ls = (case lane_states st (sv_lane sv) of None \<Rightarrow> 0 | Some s \<Rightarrow> redeemed s)"
    by (simp add: v(1) lane_default_def split: option.split)
  then show ?thesis
    using owed_upd [OF assms(3), of "sv_lane sv" "ls\<lparr>lane_nonce := sv_nonce sv, redeemed := sv_amount sv\<rparr>"]
    using v(3) m assms(3) by (simp del: fun_upd_apply)
qed

lemma vouchers_ledger:
  "apply_vouchers vs st = Inr st' \<Longrightarrow> \<forall>v \<in> set vs. sv_merges (fst v) = [] \<Longrightarrow> finite (dom (lane_states st)) \<Longrightarrow>
   to_send st' - owed (lane_states st') = to_send st - owed (lane_states st)"
proof (induction vs arbitrary: st)
  case (Cons v vs)
  then obtain u where u: "apply_voucher (fst v) (snd v) st = Inr u" "apply_vouchers vs u = Inr st'"
    by (auto simp: res_simps)
  note l = voucher_ledger [OF u(1) _ Cons.prems(3)]
  show ?case using l Cons.IH [OF u(2)] Cons.prems(2) by simp
qed simp

definition sample_voucher :: "nat \<Rightarrow> nat \<Rightarrow> TokenAmount \<Rightarrow> Merge list \<Rightarrow> SignedVoucher" where
  "sample_voucher lane nonce amt merges = \<lparr>sv_channel_addr = ID 1000, sv_time_lock_min = 0, sv_time_lock_max = 0,
     sv_secret_pre_image = [], sv_extra = None, sv_lane = lane, sv_nonce = nonce, sv_amount = amt,
     sv_min_settle_height = 0, sv_merges = merges, sv_signature = None\<rparr>"

section \<open>Properties\<close>

text \<open>C31. A voucher is redeemed at most once in the life of a channel.  When a payment channel accepts a voucher, the amount it owes is
  not negative and covered by its balance, and the lane of the voucher has the nonce and the amount of the
  voucher.  From then on, after any further vouchers the channel accepts, with or without merges of lanes, and after it starts
  to settle, every voucher for this lane with that nonce or a lower one is rejected, whatever it says and whatever
  the balance is.
\<close>

theorem voucher_redeemed_once:
  assumes "apply_voucher sv bal st = Inr st'" "paych_step\<^sup>*\<^sup>* st' st''"
    and "sv_lane sv' = sv_lane sv" "sv_nonce sv' \<le> sv_nonce sv"
  shows "0 \<le> to_send st' \<and> to_send st' \<le> bal \<and> map_option lane_nonce (lane_states st' (sv_lane sv)) = Some (sv_nonce sv) \<and>
    map_option redeemed (lane_states st' (sv_lane sv)) = Some (sv_amount sv) \<and> (\<exists>e. apply_voucher sv' bal' st'' = Inl e)"
proof -
  from apply_voucher_Inr [OF assms(1)] obtain ls m n where v:
    "0 \<le> sv_amount sv - (n + redeemed ls) + to_send st" "sv_amount sv - (n + redeemed ls) + to_send st \<le> bal"
    "st' = (raise_settle_height (sv_min_settle_height sv)
      (st\<lparr>to_send := sv_amount sv - (n + redeemed ls) + to_send st\<rparr>))\<lparr>lane_states :=
        m(sv_lane sv \<mapsto> ls\<lparr>lane_nonce := sv_nonce sv, redeemed := sv_amount sv\<rparr>)\<rparr>" .
  have l: "lane_states st' (sv_lane sv') = Some (ls\<lparr>lane_nonce := sv_nonce sv, redeemed := sv_amount sv\<rparr>)"
    using v(3) assms(3) by simp
  with paych_steps_grow [OF assms(2)] obtain s where "lane_states st'' (sv_lane sv') = Some s" "sv_nonce sv \<le> lane_nonce s"
    by (fastforce simp: lanes_grow_def)
  then have "\<exists>e. apply_voucher sv' bal' st'' = Inl e" using assms(4) by (blast intro: voucher_rejected order_trans)
  with v l assms(3) show ?thesis by simp
qed

lemmas voucher_eval = apply_voucher_def sample_voucher_def paych_state_new_def res_simps find_lane_def MAX_LANE_def
  lane_default_def raise_settle_height_def Let_def

theorem voucher_redeemed_once_witness:
  "\<exists>st1 st2. apply_voucher (sample_voucher 0 2 5 []) 100 (paych_state_new (ID 1) (ID 2)) = Inr st1 \<and> to_send st1 \<le> 100 \<and>
     apply_voucher (sample_voucher 3 1 20 [\<lparr>merge_lane = 0, merge_nonce = 4\<rparr>]) 100 st1 = Inr st2 \<and>
     (\<exists>e. apply_voucher (sample_voucher 0 2 50 []) 1000 st2 = Inl e)"
proof -
  let ?v = "sample_voucher 0 2 5 []" and ?m = "sample_voucher 3 1 20 [\<lparr>merge_lane = 0, merge_nonce = 4\<rparr>]"
  obtain st1 st2 where st: "apply_voucher ?v 100 (paych_state_new (ID 1) (ID 2)) = Inr st1" "apply_voucher ?m 100 st1 = Inr st2"
    by (simp add: voucher_eval)
  have "paych_step\<^sup>*\<^sup>* st1 st2" by (rule r_into_rtranclp) (rule paych_step.redeem [OF st(2)])
  from voucher_redeemed_once [OF st(1) this, of "sample_voucher 0 2 50 []" 1000] st show ?thesis
    by (auto simp: sample_voucher_def)
qed

text \<open>A channel owes what its lanes have redeemed: after any sequence of accepted vouchers without lane
  merges, whatever the order and the lanes, the amount the channel will pay to the recipient is the sum
  over the lanes of the amount redeemed on each.
\<close>

theorem channel_owes_redeemed:
  assumes "apply_vouchers vs (paych_state_new from_a to_a) = Inr st" "\<forall>v \<in> set vs. sv_merges (fst v) = []"
  shows "to_send st = owed (lane_states st)"
  using vouchers_ledger [OF assms] by (simp add: paych_state_new_def owed_def)

theorem channel_owes_redeemed_witness:
  "\<exists>st. apply_vouchers [(sample_voucher 0 1 5 [], 100), (sample_voucher 3 1 20 [], 100), (sample_voucher 0 2 7 [], 100)]
       (paych_state_new (ID 1) (ID 2)) = Inr st \<and> owed (lane_states st) = 27"
proof -
  let ?vs = "[(sample_voucher 0 1 5 [], 100), (sample_voucher 3 1 20 [], 100), (sample_voucher 0 2 7 [], 100)]"
  obtain st where st: "apply_vouchers ?vs (paych_state_new (ID 1) (ID 2)) = Inr st" "to_send st = 27"
    by (simp add: voucher_eval)
  have "to_send st = owed (lane_states st)" by (rule channel_owes_redeemed [OF st(1)]) (simp add: sample_voucher_def)
  with st show ?thesis by auto
qed

end
