(* ===== verification/Verifreg.thy ===== *)
theory Verifreg
  imports Runtime_Triples
begin

text \<open>
  The verified registry actor (\<open>vm/actor/src/builtin/verifreg\<close>): the root key grants data caps to
  verifiers, who pass them on to verified clients, and the market actor uses and restores them.
\<close>

section \<open>State and parameters\<close>

record VerifierParams =
  vp_address :: Address
  vp_allowance :: int

record BytesParams =
  bp_address :: Address
  bp_deal_size :: int

record VerifregCodec =
  de_verifreg_address :: "bytes \<Rightarrow> Address option"
  de_VerifierParams :: "bytes \<Rightarrow> VerifierParams option"
  de_BytesParams :: "bytes \<Rightarrow> BytesParams option"

definition MINIMUM_VERIFIED_DEAL_SIZE :: int where
  "MINIMUM_VERIFIED_DEAL_SIZE = 2 ^ 20"

fun as_verifreg :: "ActorData \<Rightarrow> VerifregState option" where
  "as_verifreg (VerifregSt st) = Some st"
| "as_verifreg _ = None"

definition verifreg_state_new :: "Address \<Rightarrow> VerifregState" where
  "verifreg_state_new rk = \<lparr>root_key = rk, verifiers = Map.empty, verified_clients = Map.empty\<rparr>"

section \<open>State changes\<close>

text \<open>
  The bodies of the state transactions, as functions of the registry state: each is the closure the
  method of the same name passes to \<open>rt.transaction\<close>.
\<close>

definition add_verifier_st :: "Address \<Rightarrow> int \<Rightarrow> VerifregState \<Rightarrow> (ActorError, VerifregState) res" where
  "add_verifier_st verifier allowance st =
    (if verified_clients st verifier \<noteq> None then Inl (actor_error ErrIllegalArgument)
     else Inr (st\<lparr>verifiers := (verifiers st)(verifier \<mapsto> allowance)\<rparr>))"

definition remove_verifier_st :: "Address \<Rightarrow> VerifregState \<Rightarrow> (ActorError, VerifregState) res" where
  "remove_verifier_st verifier st =
    (case verifiers st verifier of
       None \<Rightarrow> Inl (actor_error ErrIllegalArgument)
     | Some _ \<Rightarrow> Inr (st\<lparr>verifiers := (verifiers st)(verifier := None)\<rparr>))"

definition add_verified_client_st ::
  "Address \<Rightarrow> Address \<Rightarrow> int \<Rightarrow> VerifregState \<Rightarrow> (ActorError, VerifregState) res" where
  "add_verified_client_st verifier client allowance st =
    res_bind (ok_or (verifiers st verifier) (actor_error ErrNotFound)) (\<lambda>verifier_cap.
    if verifiers st client \<noteq> None then Inl (actor_error ErrIllegalArgument)
    else if verifier_cap < allowance then Inl (actor_error ErrIllegalArgument)
    else
      let new_verifier_cap = verifier_cap - allowance;
          client_cap = (case verified_clients st client of
                          Some cap \<Rightarrow> cap + allowance | None \<Rightarrow> allowance)
      in Inr (st\<lparr>verifiers := (verifiers st)(verifier \<mapsto> new_verifier_cap),
                 verified_clients := (verified_clients st)(client \<mapsto> client_cap)\<rparr>))"

definition use_bytes_st :: "Address \<Rightarrow> int \<Rightarrow> VerifregState \<Rightarrow> (ActorError, VerifregState) res" where
  "use_bytes_st client deal_size st =
    res_bind (ok_or (verified_clients st client) (actor_error ErrNotFound)) (\<lambda>vc_cap.
    if vc_cap < 0 then Inl (actor_error ErrIllegalState)
    else if vc_cap < deal_size then Inl (actor_error ErrIllegalArgument)
    else
      let new_vc_cap = vc_cap - deal_size in
      Inr (st\<lparr>verified_clients :=
        (if new_vc_cap < MINIMUM_VERIFIED_DEAL_SIZE then (verified_clients st)(client := None)
         else (verified_clients st)(client \<mapsto> new_vc_cap))\<rparr>))"

definition restore_bytes_st :: "Address \<Rightarrow> int \<Rightarrow> VerifregState \<Rightarrow> (ActorError, VerifregState) res" where
  "restore_bytes_st client deal_size st =
    (if verifiers st client \<noteq> None then Inl (actor_error ErrIllegalArgument)
     else
       let vc_cap = (case verified_clients st client of Some c \<Rightarrow> c | None \<Rightarrow> 0) in
       Inr (st\<lparr>verified_clients := (verified_clients st)(client \<mapsto> vc_cap + deal_size)\<rparr>))"

definition vr_update :: "(VerifregState \<Rightarrow> (ActorError, VerifregState) res) \<Rightarrow> unit rtm" where
  "vr_update f =
    rt_transaction as_verifreg VerifregSt (\<lambda>st. sm_lift (res_bind (f st) (\<lambda>st'. Inr ((), st'))))"

section \<open>Methods\<close>

definition verifreg_constructor :: "Address \<Rightarrow> unit rtm" where
  "verifreg_constructor rk =
    sm_bind (validate_immediate_caller_is [SYSTEM_ACTOR_ADDR]) (\<lambda>_.
    sm_bind (rt_resolve_address rk) (\<lambda>r.
    sm_bind (sm_lift (ok_or r (actor_error ErrIllegalArgument))) (\<lambda>id_addr.
    rt_create (VerifregSt (verifreg_state_new id_addr)))))"

definition add_verifier :: "send_fn \<Rightarrow> VerifierParams \<Rightarrow> unit rtm" where
  "add_verifier exec params =
    sm_bind (sm_when (vp_allowance params < MINIMUM_VERIFIED_DEAL_SIZE) (actor_error ErrIllegalArgument)) (\<lambda>_.
    sm_bind (resolve_to_id_addr exec (vp_address params)) (\<lambda>verifier.
    sm_bind (rt_state as_verifreg) (\<lambda>st.
    sm_bind (validate_immediate_caller_is [root_key st]) (\<lambda>_.
    sm_bind (sm_when (verifier = root_key st) (actor_error ErrIllegalArgument)) (\<lambda>_.
    vr_update (add_verifier_st verifier (vp_allowance params)))))))"

definition remove_verifier :: "send_fn \<Rightarrow> Address \<Rightarrow> unit rtm" where
  "remove_verifier exec verifier_addr =
    sm_bind (resolve_to_id_addr exec verifier_addr) (\<lambda>verifier.
    sm_bind (rt_state as_verifreg) (\<lambda>st.
    sm_bind (validate_immediate_caller_is [root_key st]) (\<lambda>_.
    vr_update (remove_verifier_st verifier))))"

definition add_verified_client :: "send_fn \<Rightarrow> VerifierParams \<Rightarrow> unit rtm" where
  "add_verified_client exec params =
    sm_bind validate_immediate_caller_accept_any (\<lambda>_.
    sm_bind (sm_when (vp_allowance params < MINIMUM_VERIFIED_DEAL_SIZE) (actor_error ErrIllegalArgument)) (\<lambda>_.
    sm_bind (resolve_to_id_addr exec (vp_address params)) (\<lambda>client.
    sm_bind (rt_state as_verifreg) (\<lambda>st.
    sm_bind (sm_when (client = root_key st) (actor_error ErrIllegalArgument)) (\<lambda>_.
    sm_bind (sm_get caller) (\<lambda>verifier.
    vr_update (add_verified_client_st verifier client (vp_allowance params))))))))"

definition use_bytes :: "send_fn \<Rightarrow> BytesParams \<Rightarrow> unit rtm" where
  "use_bytes exec params =
    sm_bind (validate_immediate_caller_is [STORAGE_MARKET_ACTOR_ADDR]) (\<lambda>_.
    sm_bind (resolve_to_id_addr exec (bp_address params)) (\<lambda>client.
    sm_bind (sm_when (bp_deal_size params < MINIMUM_VERIFIED_DEAL_SIZE) (actor_error ErrIllegalArgument)) (\<lambda>_.
    vr_update (use_bytes_st client (bp_deal_size params)))))"

definition restore_bytes :: "send_fn \<Rightarrow> BytesParams \<Rightarrow> unit rtm" where
  "restore_bytes exec params =
    sm_bind (validate_immediate_caller_is [STORAGE_MARKET_ACTOR_ADDR]) (\<lambda>_.
    sm_bind (sm_when (bp_deal_size params < MINIMUM_VERIFIED_DEAL_SIZE) (actor_error ErrIllegalArgument)) (\<lambda>_.
    sm_bind (resolve_to_id_addr exec (bp_address params)) (\<lambda>client.
    sm_bind (rt_state as_verifreg) (\<lambda>st.
    sm_bind (sm_when (client = root_key st) (actor_error ErrIllegalArgument)) (\<lambda>_.
    vr_update (restore_bytes_st client (bp_deal_size params)))))))"

definition verifreg_invoke_method ::
  "VerifregCodec \<Rightarrow> send_fn \<Rightarrow> MethodNum \<Rightarrow> Serialized \<Rightarrow> Serialized rtm" where
  "verifreg_invoke_method cd exec method params =
    (if method = METHOD_CONSTRUCTOR then
       sm_bind (deserialize_params (de_verifreg_address cd) params) (\<lambda>p.
       sm_bind (verifreg_constructor p) (\<lambda>_. sm_ret []))
     else if method = 2 then
       sm_bind (deserialize_params (de_VerifierParams cd) params) (\<lambda>p.
       sm_bind (add_verifier exec p) (\<lambda>_. sm_ret []))
     else if method = 3 then
       sm_bind (deserialize_params (de_verifreg_address cd) params) (\<lambda>p.
       sm_bind (remove_verifier exec p) (\<lambda>_. sm_ret []))
     else if method = 4 then
       sm_bind (deserialize_params (de_VerifierParams cd) params) (\<lambda>p.
       sm_bind (add_verified_client exec p) (\<lambda>_. sm_ret []))
     else if method = 5 then
       sm_bind (deserialize_params (de_BytesParams cd) params) (\<lambda>p.
       sm_bind (use_bytes exec p) (\<lambda>_. sm_ret []))
     else if method = 6 then
       sm_bind (deserialize_params (de_BytesParams cd) params) (\<lambda>p.
       sm_bind (restore_bytes exec p) (\<lambda>_. sm_ret []))
     else sm_err (actor_error SysErrInvalidMethod))"

section \<open>Invariant\<close>

text \<open>
  No verifier has a negative cap, every client a cap for at least one more deal, nobody is both
  verifier and client, and the root key is neither.
\<close>

definition vr_ok :: "VerifregState \<Rightarrow> bool" where
  "vr_ok st = ((\<forall>a c. verifiers st a = Some c \<longrightarrow> 0 \<le> c) \<and>
     (\<forall>a c. verified_clients st a = Some c \<longrightarrow> MINIMUM_VERIFIED_DEAL_SIZE \<le> c) \<and>
     (\<forall>a. verifiers st a = None \<or> verified_clients st a = None) \<and>
     verifiers st (root_key st) = None \<and> verified_clients st (root_key st) = None)"

lemma MINIMUM_pos: "0 < MINIMUM_VERIFIED_DEAL_SIZE"
  by (simp add: MINIMUM_VERIFIED_DEAL_SIZE_def)

lemma vr_ok_new: "vr_ok (verifreg_state_new rk)"
  by (simp add: vr_ok_def verifreg_state_new_def)

lemma vr_okD:
  assumes "vr_ok st"
  shows "verifiers st a = Some c \<Longrightarrow> 0 \<le> c \<and> verified_clients st a = None \<and> a \<noteq> root_key st"
    "verified_clients st a = Some c \<Longrightarrow> MINIMUM_VERIFIED_DEAL_SIZE \<le> c \<and> verifiers st a = None \<and> a \<noteq> root_key st"
  using assms unfolding vr_ok_def by (metis option.distinct(1))+

lemma vr_ok_set:
  assumes "vr_ok st" "a \<noteq> root_key st"
  shows "0 \<le> c \<Longrightarrow> verified_clients st a = None \<Longrightarrow> vr_ok (st\<lparr>verifiers := (verifiers st)(a \<mapsto> c)\<rparr>)"
    "MINIMUM_VERIFIED_DEAL_SIZE \<le> c \<Longrightarrow> verifiers st a = None \<Longrightarrow>
     vr_ok (st\<lparr>verified_clients := (verified_clients st)(a \<mapsto> c)\<rparr>)"
  using assms by (auto simp: vr_ok_def)

lemma vr_ok_add_verifier:
  assumes "add_verifier_st a n st = Inr st'" "vr_ok st" "a \<noteq> root_key st" "MINIMUM_VERIFIED_DEAL_SIZE \<le> n"
  shows "vr_ok st'"
  using assms vr_ok_set(1) [OF assms(2,3), of n] MINIMUM_pos by (auto simp: add_verifier_st_def split: if_splits)

lemma vr_ok_remove_verifier: "remove_verifier_st a st = Inr st' \<Longrightarrow> vr_ok st \<Longrightarrow> vr_ok st'"
  by (auto simp: remove_verifier_st_def vr_ok_def split: option.splits if_splits)

lemma vr_ok_add_client:
  assumes "add_verified_client_st v a n st = Inr st'" "vr_ok st" "a \<noteq> root_key st" "MINIMUM_VERIFIED_DEAL_SIZE \<le> n"
  shows "vr_ok st'"
proof -
  from assms(1) obtain cap where cap: "verifiers st v = Some cap" "verifiers st a = None" "n \<le> cap"
    and st': "st' = (let st1 = st\<lparr>verifiers := (verifiers st)(v \<mapsto> cap - n)\<rparr> in
      st1\<lparr>verified_clients := (verified_clients st1)(a \<mapsto>
        (case verified_clients st a of Some c \<Rightarrow> c + n | None \<Rightarrow> n))\<rparr>)"
    by (auto simp: add_verified_client_st_def res_simps Let_def split: if_splits)
  have "vr_ok (st\<lparr>verifiers := (verifiers st)(v \<mapsto> cap - n)\<rparr>)"
    using vr_okD(1) [OF assms(2) cap(1)] cap(3) by (intro vr_ok_set(1) [OF assms(2)]) auto
  moreover have "((verifiers st)(v \<mapsto> cap - n)) a = None" using cap by auto
  moreover have "MINIMUM_VERIFIED_DEAL_SIZE \<le> (case verified_clients st a of Some c \<Rightarrow> c + n | None \<Rightarrow> n)"
    using vr_okD(2) [OF assms(2), of a] assms(4) MINIMUM_pos by (force split: option.splits)
  ultimately show ?thesis using assms(3) unfolding st' Let_def by (intro vr_ok_set(2)) simp_all
qed

lemma vr_ok_use_bytes: "use_bytes_st a n st = Inr st' \<Longrightarrow> vr_ok st \<Longrightarrow> vr_ok st'"
  by (auto simp: use_bytes_st_def vr_ok_def res_simps Let_def split: if_splits)

lemma vr_ok_restore_bytes:
  assumes "restore_bytes_st a n st = Inr st'" "vr_ok st" "a \<noteq> root_key st" "MINIMUM_VERIFIED_DEAL_SIZE \<le> n"
  shows "vr_ok st'"
proof -
  let ?c = "case verified_clients st a of Some c \<Rightarrow> c | None \<Rightarrow> 0"
  have "MINIMUM_VERIFIED_DEAL_SIZE \<le> ?c + n"
    using vr_okD(2) [OF assms(2), of a] assms(4) MINIMUM_pos by (force split: option.splits)
  from vr_ok_set(2) [OF assms(2,3) this] assms(1) show ?thesis
    by (auto simp: restore_bytes_st_def Let_def split: if_splits)
qed

section \<open>Methods keep the invariant\<close>

lemma as_verifregD: "as_verifreg d = Some st \<Longrightarrow> d = VerifregSt st"
  by (cases d) simp_all

definition has_root :: "Address \<Rightarrow> Runtime \<Rightarrow> bool" where
  "has_root rk rt = (\<exists>st. receiver_data rt = Some (VerifregSt st) \<and> root_key st = rk)"

lemma stable_has_root: "stable (has_root rk)"
  unfolding has_root_def by (rule stable_receiver)

locale verifreg_commits = commits +
  assumes create_verifreg: "vr_ok st \<Longrightarrow> C EmptyArr (VerifregSt st)"
    and update_verifreg: "(vr_ok st \<Longrightarrow> vr_ok st') \<Longrightarrow> C (VerifregSt st) (VerifregSt st')"
begin

lemma runs_vr_update:
  assumes "\<And>st st'. f st = Inr st' \<Longrightarrow> root_key st = rk \<Longrightarrow> vr_ok st \<Longrightarrow> vr_ok st'"
  shows "runs C (has_root rk) (vr_update f) (\<lambda>_ _. True)"
  unfolding vr_update_def
proof (rule runs_update)
  fix rt d st x st'
  assume "has_root rk rt" "receiver_data rt = Some d" and d: "as_verifreg d = Some st"
    and "res_bind (f st) (\<lambda>st'. Inr ((), st')) = Inr (x, st')"
  then have "root_key st = rk" "f st = Inr st'" by (auto simp: has_root_def res_simps)
  then show "C d (VerifregSt st') \<and> (\<forall>rt'. receiver_data rt' = Some (VerifregSt st') \<longrightarrow> rt_same rt rt' \<longrightarrow> True)"
    using assms as_verifregD [OF d] by (auto intro: update_verifreg)
qed

lemma safe_vr_update:
  assumes "\<And>st st'. f st = Inr st' \<Longrightarrow> vr_ok st \<Longrightarrow> vr_ok st'"
  shows "safe C (vr_update f)"
  unfolding vr_update_def
  by (rule safe_update) (use assms in \<open>auto simp: res_simps dest!: as_verifregD intro!: update_verifreg\<close>)

text \<open>The state is read, checked against the root key, and then updated without a send in between.\<close>

lemma safe_root_checked:
  assumes "\<And>st. runs C (has_root (root_key st)) (k st) (\<lambda>_ _. True)"
  shows "safe C (sm_bind (rt_state as_verifreg) k)"
proof (rule runs_bind [OF runs_state [OF stable_True]])
  fix st
  show "runs C (\<lambda>rt. True \<and> (\<exists>d. receiver_data rt = Some d \<and> as_verifreg d = Some st)) (k st) (\<lambda>_ _. True)"
    by (rule runs_weaken [OF assms]) (auto simp: has_root_def dest: as_verifregD)
qed

lemma safe_verifreg_methods:
  assumes "sender C exec"
  shows "safe C (verifreg_constructor rk)" "safe C (add_verifier exec vp)" "safe C (remove_verifier exec a)"
    "safe C (add_verified_client exec vp)" "safe C (use_bytes exec bp)" "safe C (restore_bytes exec bp)"
proof -
  show "safe C (verifreg_constructor rk)" unfolding verifreg_constructor_def
    by (intro safe_laws safe_create create_verifreg vr_ok_new)
  show "safe C (add_verifier exec vp)" unfolding add_verifier_def
    by (intro safe_when safe_bind [OF safe_resolve_to_id_addr] assms safe_root_checked, rule runs_skip [OF _ stable_has_root],
        intro rt_laws, intro runs_when runs_vr_update) (auto elim: vr_ok_add_verifier)
  show "safe C (remove_verifier exec a)" unfolding remove_verifier_def
    by (intro safe_laws assms safe_vr_update) (rule vr_ok_remove_verifier)
  show "safe C (add_verified_client exec vp)" unfolding add_verified_client_def
    by (rule safe_bind, intro safe_laws, intro safe_when safe_bind [OF safe_resolve_to_id_addr] assms safe_root_checked
        runs_when runs_get_any runs_vr_update) (auto elim: vr_ok_add_client)
  show "safe C (use_bytes exec bp)" unfolding use_bytes_def
    by (intro safe_laws assms safe_vr_update) (rule vr_ok_use_bytes)
  show "safe C (restore_bytes exec bp)" unfolding restore_bytes_def
    by (rule safe_bind, intro safe_laws, intro safe_when safe_bind [OF safe_resolve_to_id_addr] assms safe_root_checked
        runs_when runs_get_any runs_vr_update) (auto elim: vr_ok_restore_bytes)
qed

lemma safe_verifreg_invoke [safe_laws]:
  "sender C exec \<Longrightarrow> safe C (verifreg_invoke_method cd exec method params)"
  unfolding verifreg_invoke_method_def
  by (intro safe_laws safe_verifreg_methods)

end

section \<open>Properties\<close>

text \<open>C32. 
  Data cap is conserved.  A verifier gives a client exactly the cap it loses itself; a client that uses
  cap for a deal and gets it restored ends with the cap it had, unless the use left less than the
  minimum deal size, in which case that rest was dropped with the client's entry and only the deal size
  comes back.  No other entry of the registry changes.
\<close>

theorem data_cap_conserved:
  assumes "vr_ok st" "MINIMUM_VERIFIED_DEAL_SIZE \<le> n"
  shows "(add_verified_client_st v c allowance st = Inr st1 \<longrightarrow>
      (\<exists>vc. verifiers st v = Some vc \<and> allowance \<le> vc \<and> verifiers st1 = (verifiers st)(v \<mapsto> vc - allowance) \<and>
        verified_clients st1 = (verified_clients st)(c \<mapsto>
          allowance + (case verified_clients st c of None \<Rightarrow> 0 | Some x \<Rightarrow> x)))) \<and>
    (use_bytes_st c n st = Inr st1 \<longrightarrow>
      (\<exists>cap st2. verified_clients st c = Some cap \<and> n \<le> cap \<and> restore_bytes_st c n st1 = Inr st2 \<and>
        verifiers st2 = verifiers st \<and> root_key st2 = root_key st \<and> verified_clients st2 = (verified_clients st)(c \<mapsto>
          (if cap - n < MINIMUM_VERIFIED_DEAL_SIZE then n else cap))))"
proof (intro conjI impI)
  assume "add_verified_client_st v c allowance st = Inr st1"
  then show "\<exists>vc. verifiers st v = Some vc \<and> allowance \<le> vc \<and> verifiers st1 = (verifiers st)(v \<mapsto> vc - allowance) \<and>
        verified_clients st1 = (verified_clients st)(c \<mapsto>
          allowance + (case verified_clients st c of None \<Rightarrow> 0 | Some x \<Rightarrow> x))"
    by (auto simp: add_verified_client_st_def res_simps Let_def add.commute split: if_splits option.splits)
next
  assume u: "use_bytes_st c n st = Inr st1"
  then obtain cap where cap: "verified_clients st c = Some cap" "n \<le> cap"
    "st1 = st\<lparr>verified_clients := (if cap - n < MINIMUM_VERIFIED_DEAL_SIZE then (verified_clients st)(c := None)
         else (verified_clients st)(c \<mapsto> cap - n))\<rparr>"
    by (auto simp: use_bytes_st_def res_simps Let_def split: if_splits)
  have "verifiers st c = None" using vr_okD(2) [OF assms(1) cap(1)] by simp
  then show "\<exists>cap st2. verified_clients st c = Some cap \<and> n \<le> cap \<and> restore_bytes_st c n st1 = Inr st2 \<and>
        verifiers st2 = verifiers st \<and> root_key st2 = root_key st \<and> verified_clients st2 = (verified_clients st)(c \<mapsto>
          (if cap - n < MINIMUM_VERIFIED_DEAL_SIZE then n else cap))"
    using cap by (auto simp: restore_bytes_st_def Let_def fun_upd_idem_iff)
qed

theorem data_cap_conserved_witness:
  "let st = (verifreg_state_new (ID 80))\<lparr>verifiers := [ID 90 \<mapsto> 5 * MINIMUM_VERIFIED_DEAL_SIZE],
         verified_clients := [ID 100 \<mapsto> 3 * MINIMUM_VERIFIED_DEAL_SIZE]\<rparr>
   in \<exists>st1 st2. use_bytes_st (ID 100) MINIMUM_VERIFIED_DEAL_SIZE st = Inr st1 \<and>
        restore_bytes_st (ID 100) MINIMUM_VERIFIED_DEAL_SIZE st1 = Inr st2 \<and>
        verified_clients st2 = verified_clients st"
proof -
  let ?st = "(verifreg_state_new (ID 80))\<lparr>verifiers := [ID 90 \<mapsto> 5 * MINIMUM_VERIFIED_DEAL_SIZE],
         verified_clients := [ID 100 \<mapsto> 3 * MINIMUM_VERIFIED_DEAL_SIZE]\<rparr>"
  have ok: "vr_ok ?st" using MINIMUM_pos by (auto simp: vr_ok_def verifreg_state_new_def split: if_splits)
  obtain st1 where u: "use_bytes_st (ID 100) MINIMUM_VERIFIED_DEAL_SIZE ?st = Inr st1"
    using MINIMUM_pos by (simp add: use_bytes_st_def res_simps Let_def)
  show ?thesis
    unfolding Let_def
    using data_cap_conserved [OF ok order_refl, of "ID 90" "ID 100" 0 st1] u MINIMUM_pos by (auto simp: fun_upd_idem_iff)
qed

end
