(* ===== verification/Reward.thy ===== *)
theory Reward
  imports Runtime_Triples "HOL-Library.While_Combinator"
begin

text \<open>
  The reward actor (\<open>vm/actor/src/builtin/reward\<close>) with the fixed-point arithmetic it uses
  (\<open>vm/actor/src/util/math.rs\<close>, \<open>util/smooth\<close>): the award of a block, and the per-epoch update of the
  baseline, the effective network time and the next reward.

  Numbers are unbounded; a right shift of a \<open>BigInt\<close> rounds down, so it is \<open>div\<close> by a power of two,
  and \<open>div_floor\<close> is \<open>div\<close>.
\<close>

section \<open>Fixed-point arithmetic\<close>

definition PRECISION :: nat where "PRECISION = 128"

definition shl :: "int \<Rightarrow> int" where "shl x = x * 2 ^ PRECISION"

definition shr :: "int \<Rightarrow> int" where "shr x = x div 2 ^ PRECISION"

definition poly_val :: "int list \<Rightarrow> int \<Rightarrow> int" where
  "poly_val poly x = fold (\<lambda>coeff res. shr (res * x) + coeff) poly 0"

definition EXP_NUM_COEF :: "int list" where
  "EXP_NUM_COEF =
    [- 648770010757830093818553637600,
     67469480939593786226847644286976,
     - 3197587544499098424029388939001856,
     89244641121992890118377641805348864,
     - 1579656163641440567800982336819953664,
     17685496037279256458459817590917169152,
     - 115682590513835356866803355398940131328,
     340282366920938463463374607431768211456]"

definition EXP_DENO_COEF :: "int list" where
  "EXP_DENO_COEF =
    [1225524182432722209606361,
     114095592300906098243859450,
     5665570424063336070530214243,
     194450132448609991765137938448,
     5068267641632683791026134915072,
     104716890604972796896895427629056,
     1748338658439454459487681798864896,
     23704654329841312470660182937960448,
     259380097567996910282699886670381056,
     2250336698853390384720606936038375424,
     14978272436876548034486263159246028800,
     72144088983913131323343765784380833792,
     224599776407103106596571252037123047424,
     340282366920938463463374607431768211456]"

definition expneg :: "int \<Rightarrow> int" where
  "expneg x = shl (poly_val EXP_NUM_COEF x) div poly_val EXP_DENO_COEF x"

definition filter_estimate_new :: "int \<Rightarrow> int \<Rightarrow> FilterEstimate" where
  "filter_estimate_new p v = \<lparr>position = shl p, velocity = shl v\<rparr>"

definition next_estimate :: "FilterEstimate \<Rightarrow> int \<Rightarrow> int \<Rightarrow> int \<Rightarrow> ChainEpoch \<Rightarrow> FilterEstimate" where
  "next_estimate prev_est alpha beta obs epoch_delta =
    (let delta_t = shl epoch_delta;
         delta_x = shr (delta_t * velocity prev_est);
         pos = delta_x + position prev_est;
         residual = shl obs - pos;
         revision_x = shr (alpha * residual);
         revision_v = (residual * beta) div delta_t
     in \<lparr>position = pos + revision_x, velocity = revision_v + velocity prev_est\<rparr>)"

definition DEFAULT_ALPHA :: int where "DEFAULT_ALPHA = 314760000000000000000000000000000000"
definition DEFAULT_BETA :: int where "DEFAULT_BETA = 96640100000000000000000000000000"

section \<open>Baseline and reward functions\<close>

definition BASELINE_EXPONENT :: int where "BASELINE_EXPONENT = 340282591298641078465964189926313473653"
definition BASELINE_INITIAL_VALUE :: int where "BASELINE_INITIAL_VALUE = 2888888880000000000"
definition INIT_BASELINE_POWER :: int where
  "INIT_BASELINE_POWER = shr ((BASELINE_INITIAL_VALUE * 2 ^ (2 * PRECISION)) div BASELINE_EXPONENT)"
definition FILECOIN_PRECISION :: int where "FILECOIN_PRECISION = 1000000000000000000"
definition SIMPLE_TOTAL :: int where "SIMPLE_TOTAL = 330000000 * FILECOIN_PRECISION"
definition BASELINE_TOTAL :: int where "BASELINE_TOTAL = 770000000 * FILECOIN_PRECISION"
definition EXP_LAM_SUB_ONE :: int where "EXP_LAM_SUB_ONE = 37396273494747879394193016954629"
definition LAMBDA :: int where "LAMBDA = 37396271439864487274534522888786"
definition INITIAL_REWARD_POSITION_ESTIMATE :: int where
  "INITIAL_REWARD_POSITION_ESTIMATE = 36266260308195979333"
definition INITIAL_REWARD_VELOCITY_ESTIMATE :: int where
  "INITIAL_REWARD_VELOCITY_ESTIMATE = - 109897758509"
definition EXPECTED_LEADERS_PER_EPOCH :: int where "EXPECTED_LEADERS_PER_EPOCH = 5"
definition PENALTY_MULTIPLIER :: int where "PENALTY_MULTIPLIER = 3"
definition EPOCH_UNDEFINED :: ChainEpoch where "EPOCH_UNDEFINED = - 1"

definition baseline_power_from_prev :: "int \<Rightarrow> int" where
  "baseline_power_from_prev prev_power = shr (prev_power * BASELINE_EXPONENT)"

definition compute_r_theta :: "ChainEpoch \<Rightarrow> int \<Rightarrow> int \<Rightarrow> int \<Rightarrow> int" where
  "compute_r_theta net_time baseline_power realized baseline =
    (if net_time \<noteq> 0 then shl net_time - shl (baseline - realized) div baseline_power else 0)"

definition compute_baseline_supply :: "int \<Rightarrow> int \<Rightarrow> int" where
  "compute_baseline_supply theta total_supply =
    (let theta_lam = shr (theta * LAMBDA);
         etl = expneg theta_lam;
         one_sub = shl 1 - etl
     in one_sub * total_supply)"

definition compute_reward :: "ChainEpoch \<Rightarrow> int \<Rightarrow> int \<Rightarrow> int \<Rightarrow> int \<Rightarrow> TokenAmount" where
  "compute_reward epoch prev_theta curr_theta simple_tot baseline_tot =
    (let epoch_lam = LAMBDA * epoch;
         simple_reward = shr (simple_tot * EXP_LAM_SUB_ONE * expneg epoch_lam);
         baseline_reward = compute_baseline_supply curr_theta baseline_tot
                         - compute_baseline_supply prev_theta baseline_tot
     in shr (simple_reward + baseline_reward))"

section \<open>State updates\<close>

fun as_reward :: "ActorData \<Rightarrow> RewardState option" where
  "as_reward (RewardSt st) = Some st"
| "as_reward _ = None"

definition catch_up_step :: "RewardState \<Rightarrow> RewardState" where
  "catch_up_step st =
    (let p = baseline_power_from_prev (effective_baseline_power st) in
     st\<lparr>effective_network_time := effective_network_time st + 1,
        effective_baseline_power := p,
        cumsum_baseline := cumsum_baseline st + p\<rparr>)"

text \<open>
  The \<open>while\<close> loop of \<open>update_to_next_epoch\<close> ends for every state with a positive effective baseline
  power; \<open>None\<close> is a loop that does not end.
\<close>

definition catch_up_baseline :: "RewardState \<Rightarrow> RewardState option" where
  "catch_up_baseline st =
    while_option (\<lambda>s. cumsum_baseline s < cumsum_realized s) catch_up_step st"

definition update_to_next_epoch :: "int \<Rightarrow> RewardState \<Rightarrow> RewardState option" where
  "update_to_next_epoch curr_realized_power st =
    (let b = baseline_power_from_prev (this_epoch_baseline_power st);
         st1 = st\<lparr>reward_epoch := reward_epoch st + 1, this_epoch_baseline_power := b,
                  cumsum_realized := cumsum_realized st + min b curr_realized_power\<rparr>
     in catch_up_baseline st1)"

definition reward_theta :: "RewardState \<Rightarrow> int" where
  "reward_theta st = compute_r_theta (effective_network_time st) (effective_baseline_power st)
     (cumsum_realized st) (cumsum_baseline st)"

definition update_to_next_epoch_with_reward :: "int \<Rightarrow> RewardState \<Rightarrow> RewardState option" where
  "update_to_next_epoch_with_reward curr_realized_power st =
    map_option (\<lambda>st'. st'\<lparr>this_epoch_reward :=
        compute_reward (reward_epoch st') (reward_theta st) (reward_theta st')
          (simple_total st') (baseline_total st')\<rparr>)
      (update_to_next_epoch curr_realized_power st)"

definition update_smoothed_estimates :: "ChainEpoch \<Rightarrow> RewardState \<Rightarrow> RewardState" where
  "update_smoothed_estimates delta st =
    st\<lparr>this_epoch_reward_smoothed :=
      next_estimate (this_epoch_reward_smoothed st) DEFAULT_ALPHA DEFAULT_BETA (this_epoch_reward st) delta\<rparr>"

definition reward_state_new :: "int \<Rightarrow> RewardState option" where
  "reward_state_new curr_realized_power =
    update_to_next_epoch_with_reward curr_realized_power
      \<lparr>cumsum_baseline = 0, cumsum_realized = 0, effective_network_time = 0,
       effective_baseline_power = BASELINE_INITIAL_VALUE, this_epoch_reward = 0,
       this_epoch_reward_smoothed =
         filter_estimate_new INITIAL_REWARD_POSITION_ESTIMATE INITIAL_REWARD_VELOCITY_ESTIMATE,
       this_epoch_baseline_power = INIT_BASELINE_POWER, reward_epoch = EPOCH_UNDEFINED,
       total_storage_power_reward = 0, simple_total = SIMPLE_TOTAL, baseline_total = BASELINE_TOTAL\<rparr>"

text \<open>The loop of \<open>update_network_kpi\<close> over null rounds, one epoch per iteration.\<close>

definition catch_up_epochs :: "ChainEpoch \<Rightarrow> int \<Rightarrow> RewardState \<Rightarrow> RewardState option" where
  "catch_up_epochs curr_epoch pw st =
    (let n = nat (curr_epoch - reward_epoch st) in
     fold (\<lambda>_ r. Option.bind r (update_to_next_epoch pw)) [0 ..< n] (Some st))"

section \<open>Methods\<close>

record AwardBlockRewardParams =
  ab_miner :: Address
  ab_penalty :: TokenAmount
  ab_gas_reward :: TokenAmount
  ab_win_count :: int

record RewardCodec =
  de_reward_power :: "bytes \<Rightarrow> int option option"
  de_AwardBlockRewardParams :: "bytes \<Rightarrow> AwardBlockRewardParams option"
  ser_ApplyRewardParams :: "TokenAmount \<Rightarrow> TokenAmount \<Rightarrow> bytes"
  ser_ThisEpochRewardReturn :: "FilterEstimate \<Rightarrow> int \<Rightarrow> bytes"

text \<open>A diverging loop does not return; the model gives it the fatal error \<open>new_fatal\<close>.\<close>

definition reward_constructor :: "int option \<Rightarrow> unit rtm" where
  "reward_constructor curr_realized_power =
    sm_bind (validate_immediate_caller_is [SYSTEM_ACTOR_ADDR]) (\<lambda>_.
    case curr_realized_power of
      None \<Rightarrow> sm_err (actor_error ErrIllegalArgument)
    | Some pw \<Rightarrow>
        sm_bind (sm_lift (ok_or (reward_state_new pw) new_fatal)) (\<lambda>st. rt_create (RewardSt st)))"

definition award_transaction ::
  "AwardBlockRewardParams \<Rightarrow> TokenAmount \<Rightarrow> RewardState \<Rightarrow> (ActorError, TokenAmount \<times> RewardState) res" where
  "award_transaction params curr_balance st =
    (let block_reward = (this_epoch_reward st * ab_win_count params) div EXPECTED_LEADERS_PER_EPOCH;
         total_reward = ab_gas_reward params + block_reward in
     if curr_balance < total_reward then
       (let block_reward' = curr_balance - ab_gas_reward params in
        if block_reward' < 0 then Inl (actor_error ErrIllegalState)
        else Inr (curr_balance,
               st\<lparr>total_storage_power_reward := total_storage_power_reward st + block_reward'\<rparr>))
     else Inr (total_reward,
            st\<lparr>total_storage_power_reward := total_storage_power_reward st + block_reward\<rparr>))"

definition award_block_reward :: "RewardCodec \<Rightarrow> send_fn \<Rightarrow> AwardBlockRewardParams \<Rightarrow> unit rtm" where
  "award_block_reward cd exec params =
    sm_bind (validate_immediate_caller_is [SYSTEM_ACTOR_ADDR]) (\<lambda>_.
    sm_bind rt_current_balance (\<lambda>prior_balance.
    sm_bind (sm_when (ab_penalty params < 0) (actor_error ErrIllegalArgument)) (\<lambda>_.
    sm_bind (sm_when (ab_gas_reward params < 0) (actor_error ErrIllegalArgument)) (\<lambda>_.
    sm_bind (sm_when (prior_balance < ab_gas_reward params) (actor_error ErrIllegalState)) (\<lambda>_.
    sm_bind (sm_when (ab_win_count params \<le> 0) (actor_error ErrIllegalArgument)) (\<lambda>_.
    sm_bind (rt_resolve_address (ab_miner params)) (\<lambda>r.
    sm_bind (sm_lift (ok_or r (actor_error ErrNotFound))) (\<lambda>miner_addr.
    let penalty = ab_penalty params * PENALTY_MULTIPLIER in
    sm_bind (rt_transaction as_reward RewardSt (\<lambda>st.
               sm_bind rt_current_balance (\<lambda>curr_balance.
               sm_lift (award_transaction params curr_balance st)))) (\<lambda>total_reward.
    sm_bind (sm_when (prior_balance < total_reward) (actor_error ErrIllegalState)) (\<lambda>_.
    sm_bind (rt_try (rt_send exec miner_addr 14 (ser_ApplyRewardParams cd total_reward penalty)
                       total_reward)) (\<lambda>res.
    case res of
      Inr _ \<Rightarrow> sm_ret ()
    | Inl _ \<Rightarrow> sm_bind (rt_try (rt_send exec BURNT_FUNDS_ACTOR_ADDR METHOD_SEND [] total_reward)) (\<lambda>_.
               sm_ret ()))))))))))))"

definition this_epoch_reward_method :: "(FilterEstimate \<times> int) rtm" where
  "this_epoch_reward_method =
    sm_bind validate_immediate_caller_accept_any (\<lambda>_.
    sm_bind (rt_state as_reward) (\<lambda>st.
    sm_ret (this_epoch_reward_smoothed st, this_epoch_baseline_power st)))"

definition update_kpi_st :: "ChainEpoch \<Rightarrow> int \<Rightarrow> RewardState \<Rightarrow> RewardState option" where
  "update_kpi_st curr_epoch pw st =
    Option.bind (catch_up_epochs curr_epoch pw st) (\<lambda>st1.
    map_option (\<lambda>st2. update_smoothed_estimates (reward_epoch st2 - reward_epoch st) st2)
      (update_to_next_epoch_with_reward pw st1))"

definition update_network_kpi :: "int option \<Rightarrow> unit rtm" where
  "update_network_kpi curr_realized_power =
    sm_bind (validate_immediate_caller_is [STORAGE_POWER_ACTOR_ADDR]) (\<lambda>_.
    sm_bind (sm_lift (ok_or curr_realized_power (actor_error ErrIllegalArgument))) (\<lambda>pw.
    rt_transaction as_reward RewardSt (\<lambda>st.
      sm_bind (sm_get rt_epoch) (\<lambda>curr_epoch.
      sm_bind (sm_lift (ok_or (update_kpi_st curr_epoch pw st) new_fatal)) (\<lambda>st'.
      sm_ret ((), st'))))))"

definition reward_invoke_method ::
  "RewardCodec \<Rightarrow> send_fn \<Rightarrow> MethodNum \<Rightarrow> Serialized \<Rightarrow> Serialized rtm" where
  "reward_invoke_method cd exec method params =
    (if method = METHOD_CONSTRUCTOR then
       sm_bind (deserialize_params (de_reward_power cd) params) (\<lambda>p.
       sm_bind (reward_constructor p) (\<lambda>_. sm_ret []))
     else if method = 2 then
       sm_bind (deserialize_params (de_AwardBlockRewardParams cd) params) (\<lambda>p.
       sm_bind (award_block_reward cd exec p) (\<lambda>_. sm_ret []))
     else if method = 3 then
       sm_bind this_epoch_reward_method (\<lambda>(est, pw). sm_ret (ser_ThisEpochRewardReturn cd est pw))
     else if method = 4 then
       sm_bind (deserialize_params (de_reward_power cd) params) (\<lambda>p.
       sm_bind (update_network_kpi p) (\<lambda>_. sm_ret []))
     else sm_err (actor_error SysErrInvalidMethod))"

section \<open>Vesting of rewards\<close>

datatype VestingFunction = NoVesting | LinearVesting

record VestedReward =
  vr_vesting_function :: VestingFunction
  vr_start_epoch :: ChainEpoch
  vr_end_epoch :: ChainEpoch
  vr_value :: TokenAmount
  vr_amount_withdrawn :: TokenAmount

text \<open>The cast \<open>elapsed as u64\<close> takes an \<open>i64\<close> modulo \<open>2 ^ 64\<close>.\<close>

definition amount_vested :: "VestedReward \<Rightarrow> ChainEpoch \<Rightarrow> TokenAmount" where
  "amount_vested r curr_epoch =
    (case vr_vesting_function r of
       NoVesting \<Rightarrow> vr_value r
     | LinearVesting \<Rightarrow>
         let elapsed = curr_epoch - vr_start_epoch r;
             vest_duration = vr_end_epoch r - vr_start_epoch r in
         if vest_duration \<le> elapsed then vr_value r
         else (vr_value r * (elapsed mod 2 ^ 64)) div vest_duration)"

section \<open>Invariant\<close>

text \<open>
  The effective baseline power is positive, so that the loop of \<open>update_to_next_epoch\<close> ends, and the
  baseline has caught up with the realized power.
\<close>

definition reward_ok :: "RewardState \<Rightarrow> bool" where
  "reward_ok st = (0 < effective_baseline_power st \<and> cumsum_realized st \<le> cumsum_baseline st)"

lemma baseline_power_grows: "0 \<le> p \<Longrightarrow> p \<le> baseline_power_from_prev p"
proof -
  assume p: "0 \<le> p"
  have "p = (p * 2 ^ PRECISION) div 2 ^ PRECISION" by simp
  also have "\<dots> \<le> (p * BASELINE_EXPONENT) div 2 ^ PRECISION"
    using p by (intro zdiv_mono1 mult_left_mono) (simp_all add: BASELINE_EXPONENT_def PRECISION_def)
  finally show ?thesis by (simp add: baseline_power_from_prev_def shr_def)
qed

lemma catch_up_step_pos:
  "0 < effective_baseline_power st \<Longrightarrow> 0 < effective_baseline_power (catch_up_step st)"
  using baseline_power_grows [of "effective_baseline_power st"] by (simp add: catch_up_step_def Let_def)

lemma catch_up_step_progress:
  "0 < effective_baseline_power st \<Longrightarrow> cumsum_baseline st < cumsum_baseline (catch_up_step st)"
  using baseline_power_grows [of "effective_baseline_power st"] by (simp add: catch_up_step_def Let_def)

lemma catch_up_step_fields [simp]:
  "cumsum_realized (catch_up_step st) = cumsum_realized st" "reward_epoch (catch_up_step st) = reward_epoch st"
  "effective_network_time (catch_up_step st) = effective_network_time st + 1"
  by (simp_all add: catch_up_step_def Let_def)

lemma catch_up_baseline_ends:
  assumes "0 < effective_baseline_power st"
  shows "\<exists>st'. catch_up_baseline st = Some st'"
  unfolding catch_up_baseline_def
proof (rule measure_while_option_Some [where P = "\<lambda>s. 0 < effective_baseline_power s"
      and f = "\<lambda>s. nat (cumsum_realized s - cumsum_baseline s)"])
  fix s :: RewardState
  assume "0 < effective_baseline_power s" "cumsum_baseline s < cumsum_realized s"
  then show "0 < effective_baseline_power (catch_up_step s) \<and>
      nat (cumsum_realized (catch_up_step s) - cumsum_baseline (catch_up_step s))
        < nat (cumsum_realized s - cumsum_baseline s)"
    using catch_up_step_pos [of s] catch_up_step_progress [of s] by simp
qed (rule assms)

lemma catch_up_baseline_ok:
  assumes "catch_up_baseline st = Some st'" "0 < effective_baseline_power st"
  shows "reward_ok st'" "reward_epoch st' = reward_epoch st" "cumsum_realized st' = cumsum_realized st"
    "cumsum_baseline st \<le> cumsum_baseline st'" "effective_network_time st \<le> effective_network_time st'"
proof -
  let ?I = "\<lambda>s. 0 < effective_baseline_power s \<and> reward_epoch s = reward_epoch st \<and>
    cumsum_realized s = cumsum_realized st \<and> cumsum_baseline st \<le> cumsum_baseline s \<and>
    effective_network_time st \<le> effective_network_time s"
  have "?I st'"
    by (rule while_option_rule [where P = ?I, OF _ assms(1) [unfolded catch_up_baseline_def]])
      (use assms(2) catch_up_step_pos catch_up_step_progress in \<open>fastforce+\<close>)
  moreover have "\<not> cumsum_baseline st' < cumsum_realized st'"
    by (rule while_option_stop [OF assms(1) [unfolded catch_up_baseline_def]])
  ultimately show "reward_ok st'" "reward_epoch st' = reward_epoch st" "cumsum_realized st' = cumsum_realized st"
    "cumsum_baseline st \<le> cumsum_baseline st'" "effective_network_time st \<le> effective_network_time st'"
    by (simp_all add: reward_ok_def)
qed

lemma update_to_next_epoch_ok:
  assumes "0 < effective_baseline_power st"
  shows "\<exists>st'. update_to_next_epoch pw st = Some st' \<and> reward_ok st' \<and> reward_epoch st' = reward_epoch st + 1 \<and>
    effective_network_time st \<le> effective_network_time st'"
proof -
  let ?b = "baseline_power_from_prev (this_epoch_baseline_power st)"
  let ?st = "st\<lparr>reward_epoch := reward_epoch st + 1, this_epoch_baseline_power := ?b,
    cumsum_realized := cumsum_realized st + min ?b pw\<rparr>"
  from catch_up_baseline_ends [of ?st] assms obtain st' where st': "catch_up_baseline ?st = Some st'" by auto
  with catch_up_baseline_ok [OF st'] assms show ?thesis by (simp add: update_to_next_epoch_def Let_def)
qed

lemma update_with_reward_ok:
  assumes "0 < effective_baseline_power st"
  shows "\<exists>st'. update_to_next_epoch_with_reward pw st = Some st' \<and> reward_ok st' \<and>
    reward_epoch st' = reward_epoch st + 1"
  using update_to_next_epoch_ok [OF assms, of pw]
  by (auto simp: update_to_next_epoch_with_reward_def reward_ok_def)

lemma catch_up_epochs_ok:
  assumes "reward_ok st"
  shows "\<exists>st'. catch_up_epochs e pw st = Some st' \<and> reward_ok st' \<and> reward_epoch st' = max e (reward_epoch st)"
proof -
  have "\<exists>st'. fold (\<lambda>_ r. Option.bind r (update_to_next_epoch pw)) [0 ..< n] (Some st) = Some st' \<and>
      reward_ok st' \<and> reward_epoch st' = reward_epoch st + int n" for n
  proof (induction n)
    case 0
    then show ?case using assms by simp
  next
    case (Suc n)
    then obtain s where s: "fold (\<lambda>_ r. Option.bind r (update_to_next_epoch pw)) [0 ..< n] (Some st) = Some s"
      "reward_ok s" "reward_epoch s = reward_epoch st + int n" by blast
    with update_to_next_epoch_ok [of s pw] show ?case by (auto simp: reward_ok_def)
  qed
  from this [of "nat (e - reward_epoch st)"] show ?thesis
    unfolding catch_up_epochs_def Let_def by (auto simp: max_def)
qed

lemma update_kpi_ok:
  assumes "reward_ok st"
  shows "\<exists>st'. update_kpi_st e pw st = Some st' \<and> reward_ok st' \<and> reward_epoch st' = max e (reward_epoch st) + 1"
proof -
  from catch_up_epochs_ok [OF assms, of e pw] obtain s where s:
    "catch_up_epochs e pw st = Some s" "reward_ok s" "reward_epoch s = max e (reward_epoch st)" by blast
  from update_with_reward_ok [of s pw] s obtain s' where
    "update_to_next_epoch_with_reward pw s = Some s'" "reward_ok s'" "reward_epoch s' = reward_epoch s + 1"
    by (auto simp: reward_ok_def)
  with s show ?thesis by (auto simp: update_kpi_st_def update_smoothed_estimates_def reward_ok_def)
qed

lemma reward_state_new_ok: "\<exists>st. reward_state_new pw = Some st \<and> reward_ok st"
  unfolding reward_state_new_def
  using update_with_reward_ok [of "\<lparr>cumsum_baseline = 0, cumsum_realized = 0, effective_network_time = 0,
       effective_baseline_power = BASELINE_INITIAL_VALUE, this_epoch_reward = 0,
       this_epoch_reward_smoothed =
         filter_estimate_new INITIAL_REWARD_POSITION_ESTIMATE INITIAL_REWARD_VELOCITY_ESTIMATE,
       this_epoch_baseline_power = INIT_BASELINE_POWER, reward_epoch = EPOCH_UNDEFINED,
       total_storage_power_reward = 0, simple_total = SIMPLE_TOTAL, baseline_total = BASELINE_TOTAL\<rparr>" pw]
  by (auto simp: BASELINE_INITIAL_VALUE_def)

lemma award_transaction_ok: "award_transaction params b st = Inr (x, st') \<Longrightarrow> reward_ok st \<Longrightarrow> reward_ok st'"
  by (auto simp: award_transaction_def Let_def reward_ok_def split: if_splits)

section \<open>Methods keep the invariant\<close>

lemma as_rewardD: "as_reward d = Some st \<Longrightarrow> d = RewardSt st"
  by (cases d) simp_all

locale reward_commits = commits +
  assumes create_reward: "reward_ok st \<Longrightarrow> C EmptyArr (RewardSt st)"
    and update_reward: "(reward_ok st \<Longrightarrow> reward_ok st') \<Longrightarrow> C (RewardSt st) (RewardSt st')"
begin

lemma safe_reward_constructor: "safe C (reward_constructor p)"
  unfolding reward_constructor_def
  by (rule safe_bind, intro safe_laws, rule runs_option, intro safe_laws, intro safe_lift safe_create create_reward)
    (metis ok_or_eq_Inr option.inject reward_state_new_ok)

lemma safe_award:
  "safe C (rt_transaction as_reward RewardSt (\<lambda>st.
     sm_bind rt_current_balance (\<lambda>curr_balance. sm_lift (award_transaction params curr_balance st))))"
  by (rule safe_transaction)
    (auto intro!: rt_laws update_reward simp: guarded_Inr sm_bind_eq_Inr sm_simps
      dest!: as_rewardD elim: award_transaction_ok)

lemma safe_kpi:
  "safe C (rt_transaction as_reward RewardSt (\<lambda>st.
      sm_bind (sm_get rt_epoch) (\<lambda>curr_epoch.
      sm_bind (sm_lift (ok_or (update_kpi_st curr_epoch pw st) new_fatal)) (\<lambda>st'.
      sm_ret ((), st')))))"
proof (rule safe_transaction)
  fix d st rt1 x st' rt2
  assume "as_reward d = Some st"
    and "guarded (sm_bind (sm_get rt_epoch) (\<lambda>curr_epoch.
      sm_bind (sm_lift (ok_or (update_kpi_st curr_epoch pw st) new_fatal)) (\<lambda>st'. sm_ret ((), st')))) rt1 =
      (Inr (x, st'), rt2)"
  then obtain e where "d = RewardSt st" "update_kpi_st e pw st = Some st'"
    by (auto simp: guarded_Inr sm_bind_eq_Inr sm_simps ok_or_eq_Inr dest: as_rewardD)
  then show "C d (RewardSt st')" using update_kpi_ok [of st e pw] by (auto intro!: update_reward)
qed (intro rt_laws)

lemma safe_reward_invoke [safe_laws]:
  "sender C exec \<Longrightarrow> safe C (reward_invoke_method cd exec method params)"
  unfolding reward_invoke_method_def award_block_reward_def this_epoch_reward_method_def update_network_kpi_def
  by (intro safe_laws safe_reward_constructor safe_award safe_kpi)

end

section \<open>Properties\<close>

text \<open>C34. 
  The network's reward updates terminate: started in the constructor with any power and updated at any
  epochs with any powers, the loops that catch up the baseline and the skipped epochs always end, the
  state is defined, the baseline has caught up with the realized power, and the epoch of the reward has
  moved past the last update.
\<close>

theorem reward_updates_terminate:
  "\<exists>st. fold (\<lambda>(e, pw) r. Option.bind r (update_kpi_st e pw)) updates (reward_state_new pw0) = Some st \<and>
     cumsum_realized st \<le> cumsum_baseline st \<and> (\<forall>(e, pw) \<in> set updates. e < reward_epoch st)"
proof -
  have "\<exists>st. fold (\<lambda>(e, pw) r. Option.bind r (update_kpi_st e pw)) updates (Some s) = Some st \<and> reward_ok st \<and>
     reward_epoch s \<le> reward_epoch st \<and> (\<forall>(e, pw) \<in> set updates. e < reward_epoch st)" if "reward_ok s" for s
    using that
  proof (induction updates arbitrary: s)
    case (Cons u us)
    obtain e pw where u: "u = (e, pw)" by (cases u)
    from update_kpi_ok [OF Cons.prems, of e pw] obtain s1 where s1: "update_kpi_st e pw s = Some s1" "reward_ok s1"
      "reward_epoch s1 = max e (reward_epoch s) + 1" by blast
    from Cons.IH [OF s1(2)] obtain st where "fold (\<lambda>(e, pw) r. Option.bind r (update_kpi_st e pw)) us (Some s1) = Some st"
      "reward_ok st" "reward_epoch s1 \<le> reward_epoch st" "\<forall>(e, pw) \<in> set us. e < reward_epoch st" by blast
    then show ?case using s1 by (auto simp: u)
  qed auto
  moreover obtain s where "reward_state_new pw0 = Some s" "reward_ok s" using reward_state_new_ok by blast
  ultimately show ?thesis unfolding reward_ok_def by fastforce
qed

theorem reward_updates_terminate_witness:
  "\<exists>st. fold (\<lambda>(e, pw) r. Option.bind r (update_kpi_st e pw)) [(5, 100), (9, 200)] (reward_state_new 50) = Some st \<and>
     cumsum_realized st \<le> cumsum_baseline st \<and> 9 < reward_epoch st"
  using reward_updates_terminate [of "[(5, 100), (9, 200)]" 50] by auto

text \<open>C35. 
  The block reward is bounded by the reward actor's balance: with a gas reward the balance covers and a
  positive win count, the transaction does not fail, the winner is paid at least the gas reward and at
  most the balance, exactly the smaller of the balance and the sum of gas reward and the winner's
  share of the epoch's reward, and the total of the rewards grows by what is paid beyond the gas reward.
\<close>

theorem award_bounds:
  assumes "0 \<le> ab_gas_reward params" "ab_gas_reward params \<le> bal" "0 \<le> this_epoch_reward st" "0 < ab_win_count params"
  shows "\<exists>paid st'. award_transaction params bal st = Inr (paid, st') \<and> ab_gas_reward params \<le> paid \<and> paid \<le> bal \<and>
    paid = min bal (ab_gas_reward params +
      (this_epoch_reward st * ab_win_count params) div EXPECTED_LEADERS_PER_EPOCH) \<and>
    total_storage_power_reward st' = total_storage_power_reward st + (paid - ab_gas_reward params)"
proof -
  have "0 \<le> (this_epoch_reward st * ab_win_count params) div EXPECTED_LEADERS_PER_EPOCH"
    using assms by (simp add: EXPECTED_LEADERS_PER_EPOCH_def pos_imp_zdiv_nonneg_iff)
  then show ?thesis using assms by (auto simp: award_transaction_def Let_def)
qed

theorem award_bounds_witness:
  "let params = \<lparr>ab_miner = ID 1000, ab_penalty = 0, ab_gas_reward = 50, ab_win_count = 2\<rparr>;
       st = \<lparr>cumsum_baseline = 0, cumsum_realized = 0, effective_network_time = 0, effective_baseline_power = 1,
             this_epoch_reward = 100, this_epoch_reward_smoothed = \<lparr>position = 0, velocity = 0\<rparr>,
             this_epoch_baseline_power = 1, reward_epoch = 9, total_storage_power_reward = 0, simple_total = 0,
             baseline_total = 0\<rparr>
   in \<exists>paid st'. award_transaction params 85 st = Inr (paid, st') \<and> paid = 85 \<and> total_storage_power_reward st' = 35"
  unfolding Let_def
  using award_bounds [of "\<lparr>ab_miner = ID 1000, ab_penalty = 0, ab_gas_reward = 50, ab_win_count = 2\<rparr>" 85
      "\<lparr>cumsum_baseline = 0, cumsum_realized = 0, effective_network_time = 0, effective_baseline_power = 1,
        this_epoch_reward = 100, this_epoch_reward_smoothed = \<lparr>position = 0, velocity = 0\<rparr>,
        this_epoch_baseline_power = 1, reward_epoch = 9, total_storage_power_reward = 0, simple_total = 0,
        baseline_total = 0\<rparr>"]
  by (auto simp: EXPECTED_LEADERS_PER_EPOCH_def)

text \<open>Linear vesting: from the start epoch on, the vested amount lies between zero and the value of the
  reward and is the value once the end epoch is reached; before the start epoch, where nothing should
  be vested, the cast of the negative elapsed time to an unsigned number makes the vested amount at
  least the whole value.
\<close>

theorem amount_vested_range:
  assumes "vr_vesting_function r = LinearVesting" "0 \<le> vr_value r"
    and "- (2 ^ 63) \<le> epoch - vr_start_epoch r" "0 < vr_end_epoch r - vr_start_epoch r"
      "vr_end_epoch r - vr_start_epoch r < 2 ^ 63"
  shows "(vr_start_epoch r \<le> epoch \<longrightarrow> 0 \<le> amount_vested r epoch \<and> amount_vested r epoch \<le> vr_value r) \<and>
    (vr_end_epoch r \<le> epoch \<longrightarrow> amount_vested r epoch = vr_value r) \<and>
    (epoch < vr_start_epoch r \<longrightarrow> vr_value r \<le> amount_vested r epoch)"
proof (intro conjI impI)
  let ?e = "epoch - vr_start_epoch r" and ?d = "vr_end_epoch r - vr_start_epoch r"
  have v: "amount_vested r epoch = (if ?d \<le> ?e then vr_value r else (vr_value r * (?e mod 2 ^ 64)) div ?d)"
    using assms(1) by (simp add: amount_vested_def Let_def)
  have le: "(vr_value r * x) div ?d \<le> vr_value r" if "x \<le> ?d" for x
  proof -
    have "(vr_value r * x) div ?d \<le> (vr_value r * ?d) div ?d"
      using that assms(2,4) by (intro zdiv_mono1 mult_left_mono) auto
    then show ?thesis using assms(4) by simp
  qed
  {
    assume s: "vr_start_epoch r \<le> epoch"
    show "0 \<le> amount_vested r epoch" using assms(2,4) by (simp add: v pos_imp_zdiv_nonneg_iff)
    have "?e mod 2 ^ 64 \<le> ?e" using s by (intro zmod_le_nonneg_dividend) simp
    then show "amount_vested r epoch \<le> vr_value r" using le [of "?e mod 2 ^ 64"] by (simp add: v)
  next
    show "amount_vested r epoch = vr_value r" if "vr_end_epoch r \<le> epoch" using that by (simp add: v)
  next
    assume s: "epoch < vr_start_epoch r"
    have "?e mod 2 ^ 64 = (?e + 2 ^ 64) mod 2 ^ 64" by simp
    also have "\<dots> = ?e + 2 ^ 64" using s assms(3) by (intro mod_pos_pos_trivial) auto
    finally have "?d \<le> ?e mod 2 ^ 64" using assms(3,5) by simp
    then have "(vr_value r * ?d) div ?d \<le> (vr_value r * (?e mod 2 ^ 64)) div ?d"
      using assms(2,4) by (intro zdiv_mono1 mult_left_mono) auto
    then show "vr_value r \<le> amount_vested r epoch" using s assms(4) by (simp add: v)
  }
qed

theorem amount_vested_range_witness:
  "let r = \<lparr>vr_vesting_function = LinearVesting, vr_start_epoch = 10, vr_end_epoch = 20, vr_value = 100, vr_amount_withdrawn = 0\<rparr>
   in amount_vested r 15 = 50 \<and> 100 \<le> amount_vested r 9"
proof -
  let ?r = "\<lparr>vr_vesting_function = LinearVesting, vr_start_epoch = 10, vr_end_epoch = 20, vr_value = 100, vr_amount_withdrawn = 0\<rparr>"
  have "amount_vested ?r 15 = 50" by (simp add: amount_vested_def)
  moreover have "100 \<le> amount_vested ?r 9" using amount_vested_range [of ?r 9] by simp
  ultimately show ?thesis by (simp add: Let_def)
qed

end
