(* ===== verification/Vm.thy ===== *)
theory Vm
  imports Basic_Actors Multisig Paych Verifreg Reward "HOL-Library.Signed_Division"
begin

text \<open>
  The interpreter (\<open>vm/interpreter/src\<close>): dispatch of a message to the code of its receiver,
  execution of messages with the sends they make, gas accounting, and the application of the
  messages of a tipset.

  \<open>execute_send\<close> is recursive through the actor methods that send messages; the recursion is bounded
  by a fuel argument, and since the code refuses to go deeper than \<open>MAX_CALL_DEPTH\<close> from network
  version 6 on, fuel for that many levels is never used up.  The actors that are not modelled (storage power, miner,
  market, and all actors of earlier actors versions) are functions of the record \<open>Actors\<close>.
\<close>

section \<open>Dispatch\<close>

record Actors =
  cd_account :: AccountCodec
  cd_init :: InitCodec
  cd_cron :: "bytes \<Rightarrow> CronEntry list option"
  cd_multisig :: MultisigCodec
  cd_paych :: PaychCodec
  cd_verifreg :: VerifregCodec
  cd_reward :: RewardCodec
  power_code :: "send_fn \<Rightarrow> MethodNum \<Rightarrow> Serialized \<Rightarrow> Serialized rtm"
  miner_code :: "send_fn \<Rightarrow> MethodNum \<Rightarrow> Serialized \<Rightarrow> Serialized rtm"
  market_code :: "send_fn \<Rightarrow> MethodNum \<Rightarrow> Serialized \<Rightarrow> Serialized rtm"
  legacy_code :: "ActorVersion \<Rightarrow> CodeId \<Rightarrow> (send_fn \<Rightarrow> MethodNum \<Rightarrow> Serialized \<Rightarrow> Serialized rtm) option"

fun invoke_code ::
  "Actors \<Rightarrow> Ext \<Rightarrow> send_fn \<Rightarrow> CodeId \<Rightarrow> MethodNum \<Rightarrow> Serialized \<Rightarrow> Serialized rtm option" where
  "invoke_code acts ext exec (Builtin V6 kind) method params = Some (case kind of
      SystemActor \<Rightarrow> system_invoke_method method params
    | InitActor \<Rightarrow> init_invoke_method (cd_init acts) ext exec method params
    | CronActor \<Rightarrow> cron_invoke_method (cd_cron acts) exec method params
    | AccountActor \<Rightarrow> account_invoke_method (cd_account acts) method params
    | PowerActor \<Rightarrow> power_code acts exec method params
    | MinerActor \<Rightarrow> miner_code acts exec method params
    | MarketActor \<Rightarrow> market_code acts exec method params
    | PaychActor \<Rightarrow> paych_invoke_method (cd_paych acts) ext exec method params
    | MultisigActor \<Rightarrow> multisig_invoke_method (cd_multisig acts) ext exec method params
    | RewardActor \<Rightarrow> reward_invoke_method (cd_reward acts) exec method params
    | VerifregActor \<Rightarrow> verifreg_invoke_method (cd_verifreg acts) exec method params)"
| "invoke_code acts ext exec _ method params = None"

definition invoke ::
  "Actors \<Rightarrow> Ext \<Rightarrow> send_fn \<Rightarrow> CodeId \<Rightarrow> MethodNum \<Rightarrow> Serialized \<Rightarrow> Serialized rtm" where
  "invoke acts ext exec code method params =
    sm_bind (sm_get version) (\<lambda>v.
    sm_bind (case (if actor_version_of v = V6 then invoke_code acts ext exec code method params
                   else map_option (\<lambda>m. m exec method params) (legacy_code acts (actor_version_of v) code)) of
               Some m \<Rightarrow> m
             | None \<Rightarrow> sm_err (actor_error SysErrIllegalActor)) (\<lambda>ret.
    sm_bind (sm_get caller_validated) (\<lambda>validated.
    if \<not> validated then sm_err (actor_error SysErrIllegalActor) else sm_ret ret)))"

section \<open>Executing a message\<close>

definition make_actor :: "Address \<Rightarrow> ActorVersion \<Rightarrow> (ActorError, ActorState) res" where
  "make_actor a v = (case protocol a of
      PBLS \<Rightarrow> Inr (ActorState_new (Builtin v AccountActor) EmptyArr 0 0)
    | PSecp256k1 \<Rightarrow> Inr (ActorState_new (Builtin v AccountActor) EmptyArr 0 0)
    | PID \<Rightarrow> Inl (actor_error SysErrInvalidReceiver)
    | PActor \<Rightarrow> Inl (actor_error SysErrInvalidReceiver))"

definition try_create_account_actor :: "Ext \<Rightarrow> send_fn \<Rightarrow> Address \<Rightarrow> (ActorState \<times> Address) rtm" where
  "try_create_account_actor ext exec a =
    sm_bind (sm_get version) (\<lambda>v.
    sm_bind (sm_when (is_bls_zero_address a \<and> 10 \<le> v) (actor_error ErrIllegalArgument)) (\<lambda>_.
    sm_bind (fatal_tree (register_new_address a)) (\<lambda>addr_id.
    sm_bind (sm_lift (make_actor a (actor_version_of v))) (\<lambda>act.
    sm_bind (fatal_tree (set_actor addr_id act)) (\<lambda>_.
    sm_bind (internal_send exec SYSTEM_ACTOR_ADDR addr_id METHOD_CONSTRUCTOR 0 (x_ser_address ext a)) (\<lambda>_.
    sm_bind (fatal_tree (get_actor addr_id)) (\<lambda>r.
    sm_bind (sm_lift (ok_or r new_fatal)) (\<lambda>act'.
    sm_ret (act', addr_id)))))))))"

text \<open>
  \<open>nested\<close> runs a computation on the runtime of a sent message: the tree is shared with the sender's
  runtime, everything else is the nested runtime's own.
\<close>

definition nested :: "Address \<Rightarrow> Address \<Rightarrow> TokenAmount \<Rightarrow> 'a rtm \<Rightarrow> 'a rtm" where
  "nested c r v m self =
    (let new_rt = self\<lparr>depth := depth self + 1, caller_validated := False,
                       vm_msg := \<lparr>msg_caller = c, msg_receiver = r, msg_value_received = v\<rparr>\<rparr>
     in case m new_rt of (res, rt') \<Rightarrow> (res, self\<lparr>rt_tree := rt_tree rt'\<rparr>))"

definition run_message :: "Actors \<Rightarrow> Ext \<Rightarrow> send_fn \<Rightarrow> UnsignedMessage \<Rightarrow> Serialized rtm" where
  "run_message acts ext exec msg =
    sm_bind (fatal_tree (get_actor (um_to msg))) (\<lambda>maybe_to_actor.
    sm_bind (case maybe_to_actor of
               Some act \<Rightarrow> sm_ret act
             | None \<Rightarrow>
                 sm_bind (try_create_account_actor ext exec (um_to msg)) (\<lambda>(to_actor, id_addr).
                 sm_bind (sm_upd (\<lambda>rt. if 3 < version rt
                                      then rt\<lparr>vm_msg := (vm_msg rt)\<lparr>msg_receiver := id_addr\<rparr>\<rparr> else rt)) (\<lambda>_.
                 sm_ret to_actor))) (\<lambda>to_actor.
    sm_bind (if um_value msg \<noteq> 0 then transfer (um_from msg) (um_to msg) (um_value msg) else sm_ret ()) (\<lambda>_.
    if um_method_num msg \<noteq> METHOD_SEND
    then invoke acts ext exec (acode to_actor) (um_method_num msg) (um_params msg)
    else sm_ret [])))"

definition execute_send_body :: "Actors \<Rightarrow> Ext \<Rightarrow> send_fn \<Rightarrow> UnsignedMessage \<Rightarrow> Serialized rtm" where
  "execute_send_body acts ext exec msg =
    sm_bind (sm_get (\<lambda>rt. MAX_CALL_DEPTH < depth rt + 1 \<and> 6 \<le> version rt)) (\<lambda>too_deep.
    sm_bind (sm_when too_deep (new_recovered SysErrForbidden)) (\<lambda>_.
    sm_bind (rt_resolve_address (um_from msg)) (\<lambda>c.
    sm_bind (sm_lift (ok_or c (actor_error SysErrInvalidReceiver))) (\<lambda>caller_id.
    sm_bind (sm_get version) (\<lambda>v.
    sm_bind (if v \<le> 3 then sm_ret (um_to msg)
             else sm_bind (rt_resolve_address (um_to msg)) (\<lambda>r.
                  sm_ret (case r of Some resolved \<Rightarrow> resolved | None \<Rightarrow> um_to msg))) (\<lambda>rcv.
    nested caller_id rcv (um_value msg) (run_message acts ext exec msg)))))))"

primrec execute_send :: "Actors \<Rightarrow> Ext \<Rightarrow> nat \<Rightarrow> send_fn" where
  "execute_send acts ext 0 = (\<lambda>msg. sm_err new_fatal)"
| "execute_send acts ext (Suc n) = (\<lambda>msg. execute_send_body acts ext (execute_send acts ext n) msg)"

section \<open>Gas\<close>

record GasTracker =
  gas_available :: int
  gas_used :: int

definition charge_gas :: "int \<Rightarrow> (GasTracker, ActorError, unit) sm" where
  "charge_gas to_use t =
    (if gas_available t - to_use < gas_used t
     then (Inl (actor_error SysErrOutOfGas), t\<lparr>gas_used := gas_available t\<rparr>)
     else (Inr (), t\<lparr>gas_used := gas_used t + to_use\<rparr>))"

primrec charge_all :: "int list \<Rightarrow> (GasTracker, ActorError, unit) sm" where
  "charge_all [] = sm_ret ()"
| "charge_all (c # cs) = sm_bind (charge_gas c) (\<lambda>_. charge_all cs)"

definition GAS_OVERUSE_NUM :: int where "GAS_OVERUSE_NUM = 11"
definition GAS_OVERUSE_DENOM :: int where "GAS_OVERUSE_DENOM = 10"

definition compute_gas_overestimation_burn :: "int \<Rightarrow> int \<Rightarrow> int \<times> int" where
  "compute_gas_overestimation_burn used limit =
    (if used = 0 then (0, limit)
     else
       let over = limit - (GAS_OVERUSE_NUM * used) sdiv GAS_OVERUSE_DENOM in
       if over < 0 then (limit - used, 0)
       else
         let over' = (if used < over then used else over);
             gas_to_burn = ((limit - used) * over') sdiv used
         in (limit - used - gas_to_burn, gas_to_burn))"

record GasOutputs =
  go_base_fee_burn :: TokenAmount
  go_over_estimation_burn :: TokenAmount
  go_miner_penalty :: TokenAmount
  go_miner_tip :: TokenAmount
  go_refund :: TokenAmount
  go_gas_refund :: int
  go_gas_burned :: int

definition compute_gas_outputs ::
  "int \<Rightarrow> int \<Rightarrow> TokenAmount \<Rightarrow> TokenAmount \<Rightarrow> TokenAmount \<Rightarrow> bool \<Rightarrow> GasOutputs" where
  "compute_gas_outputs used limit base_fee fee_cap gas_premium charge_network_fee =
    (let base_fee_to_pay = (if fee_cap < base_fee then fee_cap else base_fee);
         penalty0 = (if fee_cap < base_fee then (base_fee - fee_cap) * used else 0);
         base_fee_burn = (if charge_network_fee then base_fee_to_pay * used else 0);
         tip = (if fee_cap < base_fee_to_pay + gas_premium then fee_cap - base_fee_to_pay else gas_premium);
         miner_tip = tip * limit;
         (refund_gas, burned) = compute_gas_overestimation_burn used limit;
         over_burn = (if burned \<noteq> 0 then base_fee_to_pay * burned else 0);
         penalty = (if burned \<noteq> 0 then penalty0 + (base_fee - base_fee_to_pay) * burned else penalty0);
         required_funds = fee_cap * limit
     in \<lparr>go_base_fee_burn = base_fee_burn, go_over_estimation_burn = over_burn,
         go_miner_penalty = penalty, go_miner_tip = miner_tip,
         go_refund = required_funds - base_fee_burn - miner_tip - over_burn,
         go_gas_refund = refund_gas, go_gas_burned = burned\<rparr>)"

section \<open>Applying messages\<close>

record Message =
  m_msg :: UnsignedMessage
  m_sequence :: nat
  m_gas_limit :: int
  m_gas_fee_cap :: TokenAmount
  m_gas_premium :: TokenAmount

record ApplyRet =
  apr_return_data :: Serialized
  apr_exit_code :: ExitCode
  apr_gas_used :: int
  apr_act_error :: "ActorError option"
  apr_penalty :: TokenAmount
  apr_miner_tip :: TokenAmount

datatype ApplyError =
    NoGasLimit | NegativeGasLimit | TreeFailed | FatalSend | NoRuntime | NegativeTransfer | GasMathWrong
  | MigrationFailed | RewardFailed

text \<open>
  The environment of the interpreter: the actors' code and external functions, the network version
  and the base fee, the gas charged for a message on chain, the further charges its execution makes
  in order (they depend on the sizes of the blocks read and written), the identifier of a message,
  the serialization of the reward parameters and the state migration at an epoch (\<open>None\<close> when the
  migrated root equals the previous one).
\<close>

record VmEnv =
  ve_acts :: Actors
  ve_ext :: Ext
  ve_network_version :: "ChainEpoch \<Rightarrow> NetworkVersion"
  ve_base_fee :: TokenAmount
  ve_msg_cost :: "Message \<Rightarrow> int"
  ve_charges :: "Message \<Rightarrow> StateTree \<Rightarrow> int list"
  ve_msg_cid :: "Message \<Rightarrow> nat"
  ve_ser_award :: "AwardBlockRewardParams \<Rightarrow> Serialized"
  ve_migrate :: "ChainEpoch \<Rightarrow> (Address \<rightharpoonup> ActorState) \<Rightarrow> (ApplyError, Address \<rightharpoonup> ActorState) res option"

definition apply_tree :: "(StateTree, TreeError, 'a) sm \<Rightarrow> (StateTree, ApplyError, 'a) sm" where
  "apply_tree f t = (case f t of (Inl _, t') \<Rightarrow> (Inl TreeFailed, t') | (Inr x, t') \<Rightarrow> (Inr x, t'))"

definition check_message :: "Message \<Rightarrow> (ApplyError, unit) res" where
  "check_message msg =
    (if m_gas_limit msg = 0 then Inl NoGasLimit
     else if m_gas_limit msg < 0 then Inl NegativeGasLimit else Inr ())"

definition runtime_new ::
  "NetworkVersion \<Rightarrow> ChainEpoch \<Rightarrow> UnsignedMessage \<Rightarrow> nat \<Rightarrow> (StateTree, ActorError, Runtime) sm" where
  "runtime_new v ep msg seq t =
    (case lookup_id (um_from msg) t of
       (Inl _, t1) \<Rightarrow> (Inl new_fatal, t1)
     | (Inr None, t1) \<Rightarrow> (Inl (actor_error SysErrInvalidReceiver), t1)
     | (Inr (Some caller_id), t1) \<Rightarrow>
         (case (if v \<le> 3 then (Inr (Some (um_to msg)), t1) else lookup_id (um_to msg) t1) of
            (Inl _, t2) \<Rightarrow> (Inl new_fatal, t2)
          | (Inr r, t2) \<Rightarrow>
              (Inr \<lparr>version = v, rt_tree = t2,
                    vm_msg = \<lparr>msg_caller = caller_id,
                              msg_receiver = (case r of Some a \<Rightarrow> a | None \<Rightarrow> um_to msg),
                              msg_value_received = um_value msg\<rparr>,
                    rt_epoch = ep, origin = um_from msg, origin_nonce = seq, depth = 0,
                    num_actors_created = 0, caller_validated = False, allow_internal = True\<rparr>, t2)))"

text \<open>\<open>VM::send\<close>: the flag tells whether a runtime was built.\<close>

definition vm_send ::
  "VmEnv \<Rightarrow> ChainEpoch \<Rightarrow> UnsignedMessage \<Rightarrow> nat \<Rightarrow> StateTree \<Rightarrow>
   (bool \<times> (ActorError, Serialized) res) \<times> StateTree" where
  "vm_send env ep msg seq t =
    (case runtime_new (ve_network_version env ep) ep msg seq t of
       (Inl e, t') \<Rightarrow> ((False, Inl e), t')
     | (Inr rt, _) \<Rightarrow>
         (case execute_send (ve_acts env) (ve_ext env) (Suc MAX_CALL_DEPTH) msg rt of
            (r, rt') \<Rightarrow> ((True, r), rt_tree rt')))"

definition UPGRADE_CLAUS_HEIGHT :: ChainEpoch where "UPGRADE_CLAUS_HEIGHT = 343200"
definition UPGRADE_ACTORS_V4_HEIGHT :: ChainEpoch where "UPGRADE_ACTORS_V4_HEIGHT = 712320"

definition should_burn :: "ChainEpoch \<Rightarrow> Message \<Rightarrow> ExitCode \<Rightarrow> (StateTree, TreeError, bool) sm" where
  "should_burn ep msg code =
    (if ep \<le> UPGRADE_ACTORS_V4_HEIGHT \<and> UPGRADE_CLAUS_HEIGHT < ep \<and> code = ExitOk \<and>
        um_method_num (m_msg msg) = 5 then
       sm_bind (get_actor (um_to (m_msg msg))) (\<lambda>r.
       sm_ret (case r of Some act \<Rightarrow> \<not> is_miner_actor (acode act) | None \<Rightarrow> True))
     else sm_ret True)"

definition transfer_to_actor :: "Address \<Rightarrow> TokenAmount \<Rightarrow> (StateTree, ApplyError, unit) sm" where
  "transfer_to_actor a amt =
    (if amt < 0 then sm_err NegativeTransfer
     else if amt = 0 then sm_ret ()
     else apply_tree (mutate_actor a (\<lambda>act. Some (deposit_funds act amt))))"

definition rejected :: "ExitCode \<Rightarrow> TokenAmount \<Rightarrow> ApplyRet" where
  "rejected code pen = \<lparr>apr_return_data = [], apr_exit_code = code, apr_gas_used = 0,
     apr_act_error = Some (actor_error code), apr_penalty = pen, apr_miner_tip = 0\<rparr>"

definition exec_with_gas ::
  "VmEnv \<Rightarrow> ChainEpoch \<Rightarrow> Message \<Rightarrow> (StateTree, ApplyError, (ActorError, Serialized) res \<times> int) sm" where
  "exec_with_gas env ep msg t =
    (case charge_all (ve_msg_cost env msg # ve_charges env msg t)
            \<lparr>gas_available = m_gas_limit msg, gas_used = 0\<rparr> of (metered, tracker) \<Rightarrow>
     case vm_send env ep (m_msg msg) (m_sequence msg) t of ((built, sent), t') \<Rightarrow>
     let res = (case metered of Inl e \<Rightarrow> Inl e | Inr _ \<Rightarrow> sent);
         used = (if gas_used tracker < 0 then 0 else gas_used tracker) in
     if \<not> built then (Inl NoRuntime, t')
     else if (case res of Inl e \<Rightarrow> fatal e | Inr _ \<Rightarrow> False) then (Inl FatalSend, t')
     else (Inr (res, used), t'))"

definition settle_gas ::
  "VmEnv \<Rightarrow> Message \<Rightarrow> TokenAmount \<Rightarrow> int \<Rightarrow> bool \<Rightarrow> (StateTree, ApplyError, GasOutputs) sm" where
  "settle_gas env msg gas_cost used burn =
    (let out = compute_gas_outputs used (m_gas_limit msg) (ve_base_fee env) (m_gas_fee_cap msg)
                 (m_gas_premium msg) burn in
     sm_bind (transfer_to_actor BURNT_FUNDS_ACTOR_ADDR (go_base_fee_burn out)) (\<lambda>_.
     sm_bind (transfer_to_actor REWARD_ACTOR_ADDR (go_miner_tip out)) (\<lambda>_.
     sm_bind (transfer_to_actor BURNT_FUNDS_ACTOR_ADDR (go_over_estimation_burn out)) (\<lambda>_.
     sm_bind (transfer_to_actor (um_from (m_msg msg)) (go_refund out)) (\<lambda>_.
     sm_bind (sm_when (go_base_fee_burn out + go_over_estimation_burn out + go_refund out
                       + go_miner_tip out \<noteq> gas_cost) GasMathWrong) (\<lambda>_.
     sm_ret out))))))"

definition send_clo :: "VmEnv \<Rightarrow> ChainEpoch \<Rightarrow> Message \<Rightarrow> TokenAmount \<Rightarrow> (StateTree, ApplyError, ApplyRet) sm" where
  "send_clo env ep msg gas_cost =
    sm_bind (apply_tree snapshot) (\<lambda>_.
    sm_bind (exec_with_gas env ep msg) (\<lambda>(res, used).
    sm_bind (case res of
               Inl e \<Rightarrow>
                 sm_bind (if exit_code e \<noteq> ExitOk then apply_tree revert_to_snapshot else sm_ret ()) (\<lambda>_.
                 sm_ret (exit_code e))
             | Inr _ \<Rightarrow> sm_ret ExitOk) (\<lambda>err_code.
    sm_bind (apply_tree (should_burn ep msg err_code)) (\<lambda>burn.
    sm_bind (settle_gas env msg gas_cost used burn) (\<lambda>out.
    sm_ret \<lparr>apr_return_data = (case res of Inr ret \<Rightarrow> ret | Inl _ \<Rightarrow> []), apr_exit_code = err_code,
            apr_gas_used = used, apr_act_error = (case res of Inl e \<Rightarrow> Some e | Inr _ \<Rightarrow> None),
            apr_penalty = go_miner_penalty out, apr_miner_tip = go_miner_tip out\<rparr>)))))"

definition apply_message :: "VmEnv \<Rightarrow> ChainEpoch \<Rightarrow> Message \<Rightarrow> (StateTree, ApplyError, ApplyRet) sm" where
  "apply_message env ep msg =
    sm_bind (sm_lift (check_message msg)) (\<lambda>_.
    if m_gas_limit msg < ve_msg_cost env msg then
      sm_ret (rejected SysErrOutOfGas (ve_base_fee env * ve_msg_cost env msg))
    else
      let miner_penalty_amount = ve_base_fee env * m_gas_limit msg;
          from_a = um_from (m_msg msg) in
      sm_bind (\<lambda>t. case get_actor from_a t of
                 (r, t') \<Rightarrow> (Inr (case r of Inr (Some act) \<Rightarrow> Some act | _ \<Rightarrow> None), t')) (\<lambda>from_act.
      case from_act of
        None \<Rightarrow> sm_ret (rejected SysErrSenderInvalid miner_penalty_amount)
      | Some act \<Rightarrow>
          if \<not> is_account_actor (acode act) then
            sm_ret (rejected SysErrSenderInvalid miner_penalty_amount)
          else if m_sequence msg \<noteq> asequence act then
            sm_ret (rejected SysErrSenderStateInvalid miner_penalty_amount)
          else
            let gas_cost = m_gas_fee_cap msg * m_gas_limit msg in
            if abalance act < gas_cost then
              sm_ret (rejected SysErrSenderStateInvalid miner_penalty_amount)
            else
              sm_bind (apply_tree (mutate_actor from_a (\<lambda>act.
                         map_option (\<lambda>a. a\<lparr>asequence := asequence a + 1\<rparr>) (deduct_funds act gas_cost)))) (\<lambda>_.
              \<lambda>t. case send_clo env ep msg gas_cost t of
                (res, t1) \<Rightarrow> (case apply_tree clear_snapshot t1 of
                   (Inl e, t2) \<Rightarrow> (Inl e, t2)
                 | (Inr _, t2) \<Rightarrow> (res, t2)))))"

section \<open>Applying the messages of a tipset\<close>

record BlockMessages =
  bm_miner :: Address
  bm_messages :: "Message list"
  bm_win_count :: int

record VM =
  vm_state :: StateTree
  vm_epoch :: ChainEpoch

definition apply_implicit_message :: "VmEnv \<Rightarrow> UnsignedMessage \<Rightarrow> nat \<Rightarrow> VM \<Rightarrow> ApplyRet \<times> VM" where
  "apply_implicit_message env msg seq vm =
    (case vm_send env (vm_epoch vm) msg seq (vm_state vm) of ((_, r), t) \<Rightarrow>
     (\<lparr>apr_return_data = (case r of Inr ret \<Rightarrow> ret | Inl _ \<Rightarrow> []),
       apr_exit_code = (case r of Inl e \<Rightarrow> exit_code e | Inr _ \<Rightarrow> ExitOk),
       apr_gas_used = 0, apr_act_error = (case r of Inl e \<Rightarrow> Some e | Inr _ \<Rightarrow> None),
       apr_penalty = 0, apr_miner_tip = 0\<rparr>, vm\<lparr>vm_state := t\<rparr>))"

text \<open>\<open>run_cron\<close>; its error is only logged by the caller, so the state it leaves is what matters.\<close>

definition run_cron :: "VmEnv \<Rightarrow> ChainEpoch \<Rightarrow> VM \<Rightarrow> VM" where
  "run_cron env ep vm =
    snd (apply_implicit_message env
      \<lparr>um_from = SYSTEM_ACTOR_ADDR, um_to = CRON_ACTOR_ADDR, um_method_num = 2, um_value = 0,
       um_params = []\<rparr> (nat ep) vm)"

definition migrate_state :: "VmEnv \<Rightarrow> ChainEpoch \<Rightarrow> (VM, ApplyError, unit) sm" where
  "migrate_state env ep vm =
    (if ep \<noteq> UPGRADE_ACTORS_V4_HEIGHT then (Inr (), vm)
     else case flush (vm_state vm) of
       (Inl _, t) \<Rightarrow> (Inl TreeFailed, vm\<lparr>vm_state := t\<rparr>)
     | (Inr h, t) \<Rightarrow>
         (case ve_migrate env ep h of
            None \<Rightarrow> (Inl MigrationFailed, vm\<lparr>vm_state := t\<rparr>)
          | Some (Inl e) \<Rightarrow> (Inl e, vm\<lparr>vm_state := t\<rparr>)
          | Some (Inr h') \<Rightarrow> (Inr (), vm\<lparr>vm_state := tree_new h'\<rparr>)))"

primrec null_rounds :: "VmEnv \<Rightarrow> ChainEpoch \<Rightarrow> nat \<Rightarrow> (VM, ApplyError, unit) sm" where
  "null_rounds env parent_epoch 0 = sm_ret ()"
| "null_rounds env parent_epoch (Suc k) =
    sm_bind (null_rounds env parent_epoch k) (\<lambda>_.
    let i = parent_epoch + int k in
    sm_bind (sm_upd (\<lambda>vm. if parent_epoch < i then run_cron env i vm else vm)) (\<lambda>_.
    sm_bind (migrate_state env i) (\<lambda>_.
    sm_upd (\<lambda>vm. vm\<lparr>vm_epoch := i + 1\<rparr>))))"

definition vm_apply_message :: "VmEnv \<Rightarrow> Message \<Rightarrow> (VM, ApplyError, ApplyRet) sm" where
  "vm_apply_message env msg vm =
    (case apply_message env (vm_epoch vm) msg (vm_state vm) of (r, t) \<Rightarrow> (r, vm\<lparr>vm_state := t\<rparr>))"

text \<open>The messages of a block: the receipts and processed identifiers so far, the gas reward and the penalty.\<close>

primrec apply_block ::
  "VmEnv \<Rightarrow> Message list \<Rightarrow> ApplyRet list \<times> nat list \<times> TokenAmount \<times> TokenAmount \<Rightarrow>
   (VM, ApplyError, ApplyRet list \<times> nat list \<times> TokenAmount \<times> TokenAmount) sm" where
  "apply_block env [] acc = sm_ret acc"
| "apply_block env (msg # msgs) acc =
    (case acc of (receipts, processed, gas_reward, penalty) \<Rightarrow>
     if ve_msg_cid env msg \<in> set processed then apply_block env msgs acc
     else
       sm_bind (vm_apply_message env msg) (\<lambda>ret.
       apply_block env msgs (receipts @ [ret], ve_msg_cid env msg # processed,
         gas_reward + apr_miner_tip ret, penalty + apr_penalty ret)))"

text \<open>The implicit message that pays the reward of a block.\<close>

definition award_block ::
  "VmEnv \<Rightarrow> ChainEpoch \<Rightarrow> BlockMessages \<Rightarrow> TokenAmount \<Rightarrow> TokenAmount \<Rightarrow> (VM, ApplyError, unit) sm" where
  "award_block env ep block gas_reward penalty vm =
    (case apply_implicit_message env
          \<lparr>um_from = SYSTEM_ACTOR_ADDR, um_to = REWARD_ACTOR_ADDR, um_method_num = 2, um_value = 0,
           um_params = ve_ser_award env \<lparr>ab_miner = bm_miner block, ab_penalty = penalty,
             ab_gas_reward = gas_reward, ab_win_count = bm_win_count block\<rparr>\<rparr> (nat ep) vm of
       (ret, vm') \<Rightarrow> (if apr_act_error ret \<noteq> None \<or> apr_exit_code ret \<noteq> ExitOk
                    then (Inl RewardFailed, vm') else (Inr (), vm')))"

primrec apply_blocks ::
  "VmEnv \<Rightarrow> ChainEpoch \<Rightarrow> BlockMessages list \<Rightarrow> ApplyRet list \<times> nat list \<Rightarrow> (VM, ApplyError, ApplyRet list) sm" where
  "apply_blocks env ep [] acc = sm_ret (fst acc)"
| "apply_blocks env ep (block # blocks) acc =
    sm_bind (apply_block env (bm_messages block) (fst acc, snd acc, 0, 0))
      (\<lambda>(receipts, processed, gas_reward, penalty).
    sm_bind (award_block env ep block gas_reward penalty) (\<lambda>_.
    apply_blocks env ep blocks (receipts, processed)))"

definition apply_block_messages ::
  "VmEnv \<Rightarrow> BlockMessages list \<Rightarrow> ChainEpoch \<Rightarrow> ChainEpoch \<Rightarrow> (VM, ApplyError, ApplyRet list) sm" where
  "apply_block_messages env messages parent_epoch ep =
    sm_bind (null_rounds env parent_epoch (nat (ep - parent_epoch))) (\<lambda>_.
    sm_bind (apply_blocks env ep messages ([], [])) (\<lambda>receipts.
    sm_bind (sm_upd (run_cron env ep)) (\<lambda>_.
    sm_ret receipts)))"

end
