(* ===== verification/Vm_Safety.thy ===== *)
theory Vm_Safety
  imports Vm
begin

text \<open>
  What executing messages does to the table of actors: the laws of the actors' methods are put
  together, along the recursion of sends, to the statement that every message, whether it succeeds or
  fails, makes only steps \<open>vstep\<close> with commits \<open>vm_commit\<close>.  Conservation of tokens and the invariants of
  all actor states follow by induction on those steps.
\<close>

section \<open>Commits\<close>

text \<open>
  \<open>data_ok\<close> collects the invariants of the actors' states.  \<open>vm_commit\<close> are the commits of state data
  the interpreter performs: they keep the invariant, and those of the init actor never give an
  identifier out twice and, once an actor has a state, keep the type of its state.
\<close>

fun data_ok :: "ActorData \<Rightarrow> bool" where
  "data_ok (InitSt st) = init_ok st"
| "data_ok (MultisigSt st) = msig_ok st"
| "data_ok (PaychSt st) = paych_ok st"
| "data_ok (VerifregSt st) = vr_ok st"
| "data_ok (RewardSt st) = reward_ok st"
| "data_ok _ = True"

datatype DataKind = EmptyKind | InitKind | AccountKind | CronKind | MultisigKind | PaychKind | VerifregKind
  | RewardKind | RawKind

fun data_kind :: "ActorData \<Rightarrow> DataKind" where
  "data_kind EmptyArr = EmptyKind"
| "data_kind (InitSt _) = InitKind"
| "data_kind (AccountSt _) = AccountKind"
| "data_kind (CronSt _) = CronKind"
| "data_kind (MultisigSt _) = MultisigKind"
| "data_kind (PaychSt _) = PaychKind"
| "data_kind (VerifregSt _) = VerifregKind"
| "data_kind (RewardSt _) = RewardKind"
| "data_kind (RawState _) = RawKind"

definition kept_kind :: "ActorData \<Rightarrow> ActorData \<Rightarrow> bool" where
  "kept_kind d d' = (data_kind d = EmptyKind \<or> data_kind d' = data_kind d)"

lemma kept_kind_refl [simp]: "kept_kind d d"
  by (simp add: kept_kind_def)

lemma kept_kind_trans: "kept_kind d e \<Longrightarrow> kept_kind e f \<Longrightarrow> kept_kind d f"
  by (auto simp: kept_kind_def)

definition vm_commit :: "ActorData \<Rightarrow> ActorData \<Rightarrow> bool" where
  "vm_commit d d' = ((data_ok d \<longrightarrow> data_ok d') \<and> kept_kind d d' \<and>
     (\<forall>st. d = InitSt st \<longrightarrow> (\<exists>st'. d' = InitSt st' \<and> next_id st \<le> next_id st')))"

lemma init_commits_vm: "init_commits vm_commit"
  by (simp add: init_commits_def vm_commit_def)

lemma vm_commit_allocate: "vm_commit (InitSt st) (InitSt (snd (map_address_to_new_id st a)))"
  using init_ok_map_address [of st a] by (simp add: vm_commit_def kept_kind_def) (simp add: map_address_to_new_id_def Let_def)

interpretation vm_basic: basic_commits vm_commit
  by unfold_locales (rule init_commits_vm vm_commit_allocate | simp add: vm_commit_def kept_kind_def)+

interpretation vm_multisig: multisig_commits vm_commit
  by unfold_locales (auto simp: vm_commit_def kept_kind_def)

interpretation vm_paych: paych_commits vm_commit
  by unfold_locales (auto simp: vm_commit_def kept_kind_def)

interpretation vm_verifreg: verifreg_commits vm_commit
  by unfold_locales (auto simp: vm_commit_def kept_kind_def)

interpretation vm_reward: reward_commits vm_commit
  by unfold_locales (auto simp: vm_commit_def kept_kind_def)

section \<open>Running a message\<close>

text \<open>The actor at the receiver has the given code.\<close>

definition receiver_code :: "CodeId \<Rightarrow> Runtime \<Rightarrow> bool" where
  "receiver_code c rt = (\<exists>act. receiver_actor rt = Some act \<and> acode act = c)"

text \<open>
  The assumption on the actor code that is not modelled: run on a runtime, it changes the state tree
  only by the operations of the runtime, like the modelled actors.
\<close>

definition code_ok :: "Actors \<Rightarrow> bool" where
  "code_ok acts = (\<forall>exec method params. sender vm_commit exec \<longrightarrow>
     safe vm_commit (power_code acts exec method params) \<and>
     safe vm_commit (miner_code acts exec method params) \<and>
     safe vm_commit (market_code acts exec method params) \<and>
     (\<forall>av c m. legacy_code acts av c = Some m \<longrightarrow>
        runs vm_commit (receiver_code c) (m exec method params) (\<lambda>_ _. True)))"

lemma receiver_code_paych:
  assumes "rt_id rt" "receiver_code c rt" "is_paych_code c"
  shows "paych_receiver rt"
proof -
  from rt_id_receiver [OF assms(1)] obtain r where r: "receiver rt = ID r" ..
  with assms receiver_actor_id [OF assms(1) r] obtain act where
    act: "view (rt_tree rt) (ID r) = Some act" "acode act = c" by (auto simp: receiver_code_def)
  have "table_inv (hamt (rt_tree rt)) (view (rt_tree rt))"
    using assms(1) by (simp add: rt_id_def rt_inv_def tree_inv_def)
  then show ?thesis using act r assms(3) unfolding paych_receiver_def table_inv_def coded_def by fastforce
qed

lemma receiver_code_init:
  assumes "rt_id rt" "receiver_code c rt" "is_init_code c"
  shows "receiver rt = ID 1"
proof -
  from rt_id_receiver [OF assms(1)] obtain r where r: "receiver rt = ID r" ..
  with assms receiver_actor_id [OF assms(1) r] obtain act where
    act: "view (rt_tree rt) (ID r) = Some act" "acode act = c" by (auto simp: receiver_code_def)
  have "table_inv (hamt (rt_tree rt)) (view (rt_tree rt))"
    using assms(1) by (simp add: rt_id_def rt_inv_def tree_inv_def)
  then show ?thesis using act r assms(3) by (auto simp: table_inv_def)
qed

lemma runs_invoke_code:
  assumes "code_ok acts" "sender vm_commit exec" "invoke_code acts ext exec c method params = Some m"
  shows "runs vm_commit (receiver_code c) m (\<lambda>_ _. True)"
proof -
  from assms(3) obtain k where c: "c = Builtin V6 k"
    by (cases "(acts, ext, exec, c, method, params)" rule: invoke_code.cases) auto
  have safe: "runs vm_commit (receiver_code d) p (\<lambda>_ _. True)" if "safe vm_commit p" for d and p :: "Serialized rtm"
    by (rule runs_forget [OF that])
  show ?thesis
  proof (cases k)
    case PaychActor
    then have "runs vm_commit paych_receiver m (\<lambda>_ _. True)"
      using assms(3) c vm_paych.runs_paych_invoke [OF assms(2)] by auto
    then show ?thesis by (rule runs_weaken) (use receiver_code_paych c PaychActor in auto)
  next
    case InitActor
    then have "runs vm_commit (\<lambda>rt. receiver rt = ID 1) m (\<lambda>_ _. True)"
      using assms(3) c vm_basic.runs_init_invoke [OF assms(2)] by auto
    then show ?thesis by (rule runs_weaken) (use receiver_code_init c InitActor in auto)
  qed (use assms c in \<open>auto intro!: safe vm_basic.safe_system_invoke vm_basic.safe_account_invoke
      vm_basic.safe_cron_invoke vm_multisig.safe_multisig_invoke vm_verifreg.safe_verifreg_invoke
      vm_reward.safe_reward_invoke simp: code_ok_def\<close>)
qed

lemma runs_invoke:
  assumes "code_ok acts" "sender vm_commit exec"
  shows "runs vm_commit (receiver_code c) (invoke acts ext exec c method params) (\<lambda>_ _. True)"
  unfolding invoke_def
proof (rule runs_get_any, rule runs_then)
  fix v
  show "runs vm_commit (receiver_code c)
    (case if actor_version_of v = V6 then invoke_code acts ext exec c method params
          else map_option (\<lambda>m. m exec method params) (legacy_code acts (actor_version_of v) c) of
       None \<Rightarrow> sm_err (actor_error SysErrIllegalActor) | Some m \<Rightarrow> m) (\<lambda>_ _. True)"
    by (intro runs_option runs_pure)
      (use runs_invoke_code [OF assms] assms in \<open>auto simp: code_ok_def intro: runs_forget split: if_splits\<close>)
qed (intro safe_laws)

text \<open>A transfer changes no code.\<close>

lemma runs_transfer_code: "runs vm_commit (receiver_code c) (transfer a b x) (\<lambda>_. receiver_code c)"
proof (rule runsI, intro conjI allI impI)
  fix rt r rt' y
  assume rt: "rt_id rt" "receiver_code c rt" and run: "transfer a b x rt = (r, rt')"
  have inv: "rt_inv rt" using rt by (simp add: rt_id_def)
  note t = vm_basic.transfer_run [OF inv run]
  show rel: "rt_rel vm_commit rt rt'" using t by blast
  assume "r = Inr y"
  with t have "moved a b x rt rt' \<or> rt_reads rt rt'" by auto
  moreover obtain i where i: "receiver rt = ID i" using rt_id_receiver [OF rt(1)] by blast
  moreover have i': "receiver rt' = ID i" using i rt_same_receiver rt_rel_same [OF rel] by simp
  ultimately show "receiver_code c rt'"
    using rt(2) receiver_actor_id [OF rt(1) i] receiver_actor_id [OF rt_rel_id [OF rel rt(1)] i']
    by (auto simp: receiver_code_def moved_def dest: rt_reads_tree(1) [OF _ inv])
qed

definition finish_message :: "Actors \<Rightarrow> Ext \<Rightarrow> send_fn \<Rightarrow> UnsignedMessage \<Rightarrow> CodeId \<Rightarrow> Serialized rtm" where
  "finish_message acts ext exec msg c =
    sm_bind (if um_value msg \<noteq> 0 then transfer (um_from msg) (um_to msg) (um_value msg) else sm_ret ()) (\<lambda>_.
    if um_method_num msg \<noteq> METHOD_SEND
    then invoke acts ext exec c (um_method_num msg) (um_params msg) else sm_ret [])"

lemma runs_finish:
  assumes "code_ok acts" "sender vm_commit exec"
  shows "runs vm_commit (receiver_code c) (finish_message acts ext exec msg c) (\<lambda>_ _. True)"
  unfolding finish_message_def
proof (rule runs_bind [where Q = "\<lambda>_. receiver_code c"])
  show "runs vm_commit (receiver_code c)
    (if um_value msg \<noteq> 0 then transfer (um_from msg) (um_to msg) (um_value msg) else sm_ret ()) (\<lambda>_. receiver_code c)"
    by (intro runs_if runs_transfer_code runs_ret)
  show "runs vm_commit (receiver_code c) (if um_method_num msg \<noteq> METHOD_SEND
      then invoke acts ext exec c (um_method_num msg) (um_params msg) else sm_ret []) (\<lambda>_ _. True)" for x :: unit
    by (intro runs_if runs_invoke assms runs_ret TrueI)
qed

text \<open>The account created for the receiver of a message.\<close>

lemma register_run:
  assumes inv: "rt_inv rt" and run: "fatal_tree (register_new_address a) rt = (res, rt')"
  shows "rt_rel vm_commit rt rt' \<and> (\<exists>i st. res = Inr (ID i) \<and> init_of (view (rt_tree rt')) = Some st \<and>
    i < next_id st \<and> view (rt_tree rt') (ID i) = None)"
proof -
  have ti: "tree_inv (rt_tree rt)" using inv by (simp add: rt_inv_def)
  then have "table_inv (hamt (rt_tree rt)) (view (rt_tree rt))" by (simp add: tree_inv_def)
  then obtain st act where st: "init_of (view (rt_tree rt)) = Some st" "view (rt_tree rt) (ID 1) = Some act"
    "adata act = InitSt st" "\<forall>i. next_id st \<le> i \<longrightarrow> view (rt_tree rt) (ID i) = None"
    by (rule table_invD)
  let ?st = "snd (map_address_to_new_id st a)"
  let ?v = "(view (rt_tree rt))(ID 1 \<mapsto> act\<lparr>adata := InitSt ?st\<rparr>)"
  have m: "map_address_to_new_id st a = (ID (next_id st), ?st)" "next_id ?st = next_id st + 1"
    by (simp_all add: map_address_to_new_id_def Let_def)
  from get_actor_run [OF inv, of "\<lambda>_. new_fatal" "ID 1"] obtain rt1 where l1:
    "fatal_tree (get_actor (ID 1)) rt = (Inr (Some act), rt1)" "rt_reads rt rt1"
    using st(2) unfolding actor_at_def by auto
  note e1 = rt_reads_tree [OF l1(2) inv]
  from l1(1) obtain t1 where g: "get_actor (ID 1) (rt_tree rt) = (Inr (Some act), t1)" "rt1 = rt\<lparr>rt_tree := t1\<rparr>"
    by (auto simp: on_tree_def split: prod.splits sum.splits)
  obtain q rt2 where w: "fatal_tree (set_actor (ID 1) (act\<lparr>adata := InitSt ?st\<rparr>)) rt1 = (q, rt2)"
    by (cases "fatal_tree (set_actor (ID 1) (act\<lparr>adata := InitSt ?st\<rparr>)) rt1")
  have step: "vstep vm_commit (hamt (rt_tree rt1)) (view (rt_tree rt1)) ((view (rt_tree rt1))(ID 1 \<mapsto> act\<lparr>adata := InitSt ?st\<rparr>))"
    by (rule vstep.commit) (use st e1 vm_commit_allocate in simp_all)
  from fatal_set_actor_rel [OF init_commits_vm e1(6) resolve_ID step w] e1
  have s: "q = Inr ()" "rt_rel vm_commit rt1 rt2" "view (rt_tree rt2) = ?v" by simp_all
  have "res = Inr (ID (next_id st))" "rt' = rt2"
    using run w s(1) g st(3) m(1)
    by (auto simp: register_new_address_def on_tree_def sm_bind_def sm_simps INIT_ACTOR_ADDR_def ok_or_def
        split: prod.splits sum.splits)
  moreover have "init_of ?v = Some ?st" by (simp add: init_of_Some)
  moreover have "next_id st \<noteq> 1" using st(2,4) by auto
  ultimately show ?thesis using rt_reads_rel_trans [OF l1(2) s(2)] s(3) st(4) m(2) by simp
qed

lemma make_actor_Inr: "make_actor a v = Inr act \<Longrightarrow> act = ActorState_new (Builtin v AccountActor) EmptyArr 0 0"
  by (auto simp: make_actor_def split: Protocol.splits)

lemma view_get_run:
  assumes "rt_inv rt" "fatal_tree (get_actor (ID i)) rt = (r, rt')"
  shows "r = Inr (view (rt_tree rt) (ID i))" "rt_reads rt rt'"
proof -
  from get_actor_run [OF assms(1), of "\<lambda>_. new_fatal" "ID i"] obtain rt1 where
    "fatal_tree (get_actor (ID i)) rt = (Inr (actor_at (rt_tree rt) (ID i)), rt1)" "rt_reads rt rt1" .
  then show "r = Inr (view (rt_tree rt) (ID i))" "rt_reads rt rt'" using assms(2) by (auto simp: actor_at_def)
qed

lemma try_create_run:
  assumes exec: "sender vm_commit exec" and inv: "rt_inv rt"
    and run: "try_create_account_actor ext exec a rt = (res, rt')"
  shows "rt_rel vm_commit rt rt' \<and>
    (\<forall>act x. res = Inr (act, x) \<longrightarrow> (\<exists>i. x = ID i \<and> view (rt_tree rt') (ID i) = Some act))"
proof (cases "is_bls_zero_address a \<and> 10 \<le> version rt")
  case True
  then have "rt' = rt" "\<exists>e. res = Inl e"
    using run by (auto simp: try_create_account_actor_def sm_bind_def sm_simps)
  then show ?thesis using reflp_rt_rel by (auto dest: reflpD)
next
  case False
  obtain q1 rt1 where r1: "fatal_tree (register_new_address a) rt = (q1, rt1)"
    by (cases "fatal_tree (register_new_address a) rt")
  from register_run [OF inv r1] obtain i st where reg: "rt_rel vm_commit rt rt1" "q1 = Inr (ID i)"
    "init_of (view (rt_tree rt1)) = Some st" "i < next_id st" "view (rt_tree rt1) (ID i) = None" by blast
  have inv1: "rt_inv rt1" by (rule rt_rel_inv [OF reg(1) inv])
  note ev = try_create_account_actor_def sm_bind_def sm_simps False r1 reg(2)
  show ?thesis
  proof (cases "make_actor a (actor_version_of (version rt))")
    case (Inl e)
    then have "rt' = rt1" "res = Inl e" using run by (auto simp: ev)
    then show ?thesis using reg(1) by simp
  next
    case (Inr act)
    note act = make_actor_Inr [OF Inr]
    obtain q2 rt2 where r2: "fatal_tree (set_actor (ID i) act) rt1 = (q2, rt2)"
      by (cases "fatal_tree (set_actor (ID i) act) rt1")
    have s2: "q2 = Inr ()" "rt_rel vm_commit rt1 rt2"
      using vm_basic.set_new_run [OF inv1 reg(3,4,5) _ r2 [unfolded act]] by simp_all
    have inv2: "rt_inv rt2" by (rule rt_rel_inv [OF s2(2) inv1])
    let ?send = "internal_send exec SYSTEM_ACTOR_ADDR (ID i) METHOD_CONSTRUCTOR 0 (x_ser_address ext a)"
    obtain q3 rt3 where r3: "?send rt2 = (q3, rt3)" by (cases "?send rt2")
    have s3: "rt_rel vm_commit rt rt3"
      using internal_send_run [OF exec inv2 r3] reg(1) s2(2) by (blast intro: rt_rel_trans)
    obtain q4 rt4 where r4: "fatal_tree (get_actor (ID i)) rt3 = (q4, rt4)"
      by (cases "fatal_tree (get_actor (ID i)) rt3")
    note g = view_get_run [OF rt_rel_inv [OF s3 inv] r4]
    have s4: "rt_rel vm_commit rt rt4" by (rule rt_rel_trans [OF s3 rt_reads_rel [OF g(2)]])
    show ?thesis
    proof (cases q3)
      case q3: (Inl e)
      then have "rt' = rt3" "res = Inl e" using run Inr s2 r2 r3 by (auto simp: ev)
      then show ?thesis using s3 by simp
    next
      case q3: (Inr y)
      have "rt' = rt4" "\<forall>act x. res = Inr (act, x) \<longrightarrow> x = ID i \<and> view (rt_tree rt3) (ID i) = Some act"
        using run Inr s2 r2 r3 r4 g(1) q3 by (auto simp: ev ok_or_def split: option.splits)
      then show ?thesis using s4 rt_reads_tree(1) [OF g(2) rt_rel_inv [OF s3 inv]] by auto
    qed
  qed
qed

text \<open>
  A message run on a runtime whose receiver is the resolved address of the message, if it resolves.
\<close>

lemma run_message_run:
  assumes code: "code_ok acts" and exec: "sender vm_commit exec" and inv: "rt_inv rt"
    and rcv: "\<And>r. resolve (rt_tree rt) (um_to msg) = Some r \<Longrightarrow> receiver rt = r"
    and run: "run_message acts ext exec msg rt = (res, rt')"
  shows "tree_rel vm_commit (rt_tree rt) (rt_tree rt')"
proof -
  have tree: "tree_rel vm_commit (rt_tree rt) (rt_tree u)" if "rt_rel vm_commit rt u" for u
    using that inv by (simp add: rt_rel_def)
  from get_actor_run [OF inv, of "\<lambda>_. new_fatal" "um_to msg"] obtain rt1 where l1:
    "fatal_tree (get_actor (um_to msg)) rt = (Inr (actor_at (rt_tree rt) (um_to msg)), rt1)" "rt_reads rt rt1" .
  note e1 = rt_reads_tree [OF l1(2) inv]
  have fin: "run_message acts ext exec msg rt =
      (case actor_at (rt_tree rt) (um_to msg) of
         Some act \<Rightarrow> finish_message acts ext exec msg (acode act) rt1
       | None \<Rightarrow> sm_bind (try_create_account_actor ext exec (um_to msg)) (\<lambda>(act, x).
           sm_bind (sm_upd (\<lambda>rt. if 3 < version rt
             then rt\<lparr>vm_msg := (vm_msg rt)\<lparr>msg_receiver := x\<rparr>\<rparr> else rt)) (\<lambda>_.
           finish_message acts ext exec msg (acode act))) rt1)"
    using l1(1)
    by (auto simp: run_message_def finish_message_def sm_bind_def sm_simps split: option.split prod.split sum.split)
  show ?thesis
  proof (cases "actor_at (rt_tree rt) (um_to msg)")
    case (Some act)
    then obtain b where b: "resolve (rt_tree rt) (um_to msg) = Some b" "view (rt_tree rt) b = Some act"
      by (auto simp: actor_at_def bind_eq_Some_conv)
    have "tree_inv (rt_tree rt)" using inv by (simp add: rt_inv_def)
    from resolve_ID_obtain [OF this b(1)] obtain i where i: "b = ID i" .
    have r1: "receiver rt1 = ID i" using rcv [OF b(1)] i rt_same_receiver [OF e1(5)] by simp
    then have "rt_id rt1" using e1(6) by (simp add: rt_id_def)
    moreover from this have "receiver_code (acode act) rt1"
      using receiver_actor_id [OF _ r1] b(2) i e1(1) by (simp add: receiver_code_def)
    ultimately have "rt_rel vm_commit rt1 rt'"
      using runsD(1) [OF runs_finish [OF code exec]] run fin Some by simp
    then show ?thesis by (intro tree rt_reads_rel_trans [OF l1(2)])
  next
    case None
    obtain q2 rt2 where r2: "try_create_account_actor ext exec (um_to msg) rt1 = (q2, rt2)"
      by (cases "try_create_account_actor ext exec (um_to msg) rt1")
    note c = try_create_run [OF exec e1(6) r2]
    have t2: "rt_rel vm_commit rt rt2" using c rt_reads_rel_trans [OF l1(2)] by blast
    show ?thesis
    proof (cases q2)
      case (Inl e)
      then have "rt' = rt2" using run fin None r2 by (simp add: sm_bind_def)
      then show ?thesis using tree [OF t2] by simp
    next
      case (Inr y)
      obtain act x where y: "y = (act, x)" by (cases y)
      with c Inr obtain i where i: "x = ID i" "view (rt_tree rt2) (ID i) = Some act" by blast
      let ?rt = "rt2\<lparr>vm_msg := (vm_msg rt2)\<lparr>msg_receiver := ID i\<rparr>\<rparr>"
      have inv2: "rt_inv rt2" by (rule rt_rel_inv [OF t2 inv])
      then have v: "3 < version rt2" by (simp add: rt_inv_def)
      have id: "rt_id ?rt" using inv2 by (simp add: rt_id_def rt_inv_def receiver_def)
      have rc: "receiver ?rt = ID i" by (simp add: receiver_def)
      have "receiver_code (acode act) ?rt" using receiver_actor_id [OF id rc] i(2) by (simp add: receiver_code_def)
      moreover have "finish_message acts ext exec msg (acode act) ?rt = (res, rt')"
        using run fin None r2 Inr y i(1) v by (simp add: sm_bind_def sm_simps)
      ultimately have "rt_rel vm_commit ?rt rt'" using runsD(1) [OF runs_finish [OF code exec] id] by simp
      moreover have "rt_inv ?rt" using id by (simp add: rt_id_def)
      ultimately have "tree_rel vm_commit (rt_tree rt2) (rt_tree rt')" by (simp add: rt_rel_def)
      then show ?thesis by (rule tree_rel_trans [OF tree [OF t2]])
    qed
  qed
qed

section \<open>Executing sends\<close>

lemma nested_rel:
  assumes "\<And>rt res rt'. rt_inv rt \<Longrightarrow> rt_tree rt = rt_tree rt0 \<Longrightarrow> receiver rt = r \<Longrightarrow> m rt = (res, rt') \<Longrightarrow>
      tree_rel C (rt_tree rt) (rt_tree rt')"
    and run: "nested c r v m rt0 = (res, rt')"
  shows "rt_rel C rt0 rt'"
proof -
  let ?rt = "rt0\<lparr>depth := depth rt0 + 1, caller_validated := False,
    vm_msg := \<lparr>msg_caller = c, msg_receiver = r, msg_value_received = v\<rparr>\<rparr>"
  obtain q rt1 where q: "m ?rt = (q, rt1)" by (cases "m ?rt")
  then have rt': "rt' = rt0\<lparr>rt_tree := rt_tree rt1\<rparr>" using run by (auto simp: nested_def)
  have "tree_rel C (rt_tree rt0) (rt_tree rt1)" if "rt_inv rt0"
    using assms(1) [OF _ _ _ q] that by (simp add: rt_inv_def receiver_def)
  then show ?thesis by (simp add: rt' rt_rel_def rt_same_def)
qed

lemmas rel_pure = sm_keeps_pure [OF reflp_rt_rel]

lemma execute_send_same:
  "sm_keeps rt_same (execute_send acts ext n msg)"
proof (cases n)
  case 0
  then show ?thesis by (simp add: sm_keeps_def sm_simps)
next
  case (Suc k)
  have n: "sm_keeps rt_same (nested c r v m)" for c r v m
    by (auto simp: sm_keeps_def nested_def rt_same_def split: prod.splits)
  have "sm_keeps rt_same (execute_send_body acts ext exec msg)" for exec
    unfolding execute_send_body_def rt_resolve_address_def by (intro rt_laws n)
  then show ?thesis using Suc by simp
qed

lemma execute_send_body_rel:
  assumes code: "code_ok acts" and exec: "sender vm_commit exec" and inv: "rt_inv rt"
    and run: "execute_send_body acts ext exec msg rt = (res, rt')"
  shows "rt_rel vm_commit rt rt'"
proof -
  from lookup_id_run [OF inv] obtain rt1 where l1:
    "rt_resolve_address (um_from msg) rt = (Inr (resolve (rt_tree rt) (um_from msg)), rt1)" "rt_reads rt rt1"
    unfolding rt_resolve_address_def by blast
  note e1 = rt_reads_tree [OF l1(2) inv]
  from lookup_id_run [OF e1(6)] obtain rt2 where l2:
    "rt_resolve_address (um_to msg) rt1 = (Inr (resolve (rt_tree rt) (um_to msg)), rt2)" "rt_reads rt1 rt2"
    unfolding rt_resolve_address_def e1(2) by blast
  note e2 = rt_reads_tree [OF l2(2) e1(6)]
  have v: "\<not> version rt1 \<le> 3" using e1(6) by (simp add: rt_inv_def)
  define rcv where "rcv = (case resolve (rt_tree rt) (um_to msg) of Some resolved \<Rightarrow> resolved | None \<Rightarrow> um_to msg)"
  note ev = execute_send_body_def sm_bind_def sm_simps ok_or_def
  show ?thesis
  proof (cases "MAX_CALL_DEPTH < depth rt + 1 \<and> 6 \<le> version rt")
    case True
    then have "rt' = rt" using run by (simp add: ev)
    then show ?thesis using reflp_rt_rel by (auto dest: reflpD)
  next
    case False
    show ?thesis
    proof (cases "resolve (rt_tree rt) (um_from msg)")
      case None
      then have "rt' = rt1" using run False l1 by (auto simp: ev)
      then show ?thesis using l1(2) by (simp add: rt_reads_rel)
    next
      case (Some c)
      then have "nested c rcv (um_value msg) (run_message acts ext exec msg) rt2 = (res, rt')"
        using run False l1(1) l2(1) v by (auto simp: ev rcv_def)
      then have "rt_rel vm_commit rt2 rt'"
        by (rule nested_rel [rotated], intro run_message_run [OF code exec])
          (auto simp: rcv_def e1 e2)
      then show ?thesis by (intro rt_reads_rel_trans [OF l1(2)] rt_reads_rel_trans [OF l2(2)])
    qed
  qed
qed

lemma sender_execute_send:
  assumes "code_ok acts"
  shows "sender vm_commit (execute_send acts ext n)"
proof (induction n)
  case 0
  then show ?case by (simp add: sender_def rel_pure)
next
  case (Suc n)
  show ?case
    unfolding sender_def
  proof (intro allI sm_keepsI)
    fix msg rt res rt'
    assume run: "execute_send acts ext (Suc n) msg rt = (res, rt')"
    show "rt_rel vm_commit rt rt'"
    proof (cases "rt_inv rt")
      case True
      then show ?thesis using execute_send_body_rel [OF assms Suc.IH True] run by simp
    next
      case False
      then show ?thesis using sm_keepsD [OF execute_send_same run] by (simp add: rt_rel_def)
    qed
  qed
qed

section \<open>Cron\<close>

lemma same_internal_send:
  assumes "\<And>msg. sm_keeps rt_same (exec msg)"
  shows "sm_keeps rt_same (internal_send exec a b mt x p)"
proof -
  let ?msg = "\<lparr>um_from = a, um_to = b, um_method_num = mt, um_value = x, um_params = p\<rparr>"
  have "sm_keeps rt_same (\<lambda>rt. case exec ?msg rt of
          (Inr ret, rt') \<Rightarrow> (Inr (Inr ret), rt')
        | (Inl e, rt') \<Rightarrow>
            (case revert_to_snapshot (rt_tree rt') of
               (Inl _, t) \<Rightarrow> (Inr (Inl new_fatal), rt'\<lparr>rt_tree := t\<rparr>)
             | (Inr _, t) \<Rightarrow> (Inr (Inl e), rt'\<lparr>rt_tree := t\<rparr>)))"
  proof (rule sm_keepsI)
    fix rt r rt'
    assume run: "(case exec ?msg rt of
          (Inr ret, rt') \<Rightarrow> (Inr (Inr ret), rt')
        | (Inl e, rt') \<Rightarrow>
            (case revert_to_snapshot (rt_tree rt') of
               (Inl _, t) \<Rightarrow> (Inr (Inl new_fatal), rt'\<lparr>rt_tree := t\<rparr>)
             | (Inr _, t) \<Rightarrow> (Inr (Inl e), rt'\<lparr>rt_tree := t\<rparr>))) = (r, rt')"
    obtain q rt1 where q: "exec ?msg rt = (q, rt1)" by (cases "exec ?msg rt")
    have "\<exists>t. rt' = rt1\<lparr>rt_tree := t\<rparr>"
      using run q by (cases q) (auto split: prod.splits sum.splits intro: exI [of _ "rt_tree rt1"])
    then show "rt_same rt rt'" using sm_keepsD [OF assms q] by (auto simp: rt_same_def)
  qed
  then show ?thesis unfolding internal_send_def by (intro rt_laws)
qed

lemma cron_sends_all:
  assumes "\<And>msg. sm_keeps rt_same (exec msg)"
  shows "allow_internal rt \<Longrightarrow> cron_send_entries exec es rt =
    (Inr (), fold (\<lambda>e rt. snd (internal_send exec (receiver rt) (entry_receiver e) (entry_method_num e) 0 [] rt)) es rt)"
proof (induction es arbitrary: rt)
  case (Cons e es)
  let ?s = "internal_send exec (receiver rt) (entry_receiver e) (entry_method_num e) 0 [] rt"
  have "rt_same rt (snd ?s)" by (rule sm_keepsD [OF same_internal_send [OF assms] prod.collapse [symmetric]])
  then have "allow_internal (snd ?s)" using Cons.prems by (simp add: rt_same_def)
  note IH = Cons.IH [OF this]
  obtain q rt1 where s: "?s = (q, rt1)" by (cases ?s)
  have "rt_send exec (entry_receiver e) (entry_method_num e) [] 0 rt = (q, rt1)"
    using Cons.prems s by (simp add: rt_send_def sm_bind_def sm_simps)
  then show ?case using IH s by (simp add: sm_bind_def rt_try_def)
qed (simp add: sm_simps)


lemma epoch_tick_runs:
  assumes exec: "\<And>msg. sm_keeps rt_same (exec msg)" and rt: "rt_id rt" "receiver_data rt = Some (CronSt es)"
    and caller: "caller rt = SYSTEM_ACTOR_ADDR" "\<not> caller_validated rt" "allow_internal rt"
  shows "\<exists>rt0. rt_reads rt rt0 \<and> epoch_tick exec rt =
    (Inr (), fold (\<lambda>e rt. snd (internal_send exec (receiver rt) (entry_receiver e) (entry_method_num e) 0 [] rt)) es rt0)"
proof -
  let ?rt = "rt\<lparr>caller_validated := True\<rparr>"
  have v: "validate_immediate_caller_is [SYSTEM_ACTOR_ADDR] rt = (Inr (), ?rt)"
    using caller by (simp add: validate_immediate_caller_is_def abort_if_already_validated_def sm_bind_def sm_simps caller_def)
  have r1: "rt_reads rt ?rt" by (rule sm_keepsD [OF reads_validate(2) v])
  have inv: "rt_inv ?rt" using rt(1) by (simp add: rt_id_def rt_inv_def)
  from get_actor_run [OF inv, of "\<lambda>_. actor_error SysErrIllegalArgument" "receiver ?rt"] obtain rt0 where g:
    "on_tree (\<lambda>_. actor_error SysErrIllegalArgument) (get_actor (receiver ?rt)) ?rt = (Inr (actor_at (rt_tree ?rt) (receiver ?rt)), rt0)"
    "rt_reads ?rt rt0" .
  have "map_option adata (actor_at (rt_tree rt) (receiver rt)) = Some (CronSt es)"
    using rt(2) by (simp add: receiver_data_def receiver_actor_def)
  then obtain act where act: "actor_at (rt_tree rt) (receiver rt) = Some act" "adata act = CronSt es" by auto
  have st: "rt_state as_cron ?rt = (Inr es, rt0)"
    using g(1) act by (simp add: rt_state_def sm_bind_def sm_simps receiver_def ok_or_def)
  have "allow_internal rt0" using g(2) caller(3) by (simp add: rt_reads_def rt_same_def)
  from cron_sends_all [of exec, OF exec this, of es] have "epoch_tick exec rt =
    (Inr (), fold (\<lambda>e rt. snd (internal_send exec (receiver rt) (entry_receiver e) (entry_method_num e) 0 [] rt)) es rt0)"
    using v st by (simp add: epoch_tick_def sm_bind_def)
  then show ?thesis using rt_reads_trans [OF r1 g(2)] by blast
qed

section \<open>A small chain\<close>

text \<open>
  A state with the system, init, reward and cron actors, two accounts, the burnt funds account and a multisig, run with
  actor code that decodes only the parameters of a block reward; it is used to apply the properties at concrete values.
\<close>

definition sample_acts :: Actors where
  "sample_acts = \<lparr>
     cd_account = \<lparr>de_account_address = (\<lambda>_. None), ser_account_address = (\<lambda>_. [])\<rparr>,
     cd_init = \<lparr>de_init_constructor = (\<lambda>_. None), de_ExecParams = (\<lambda>_. None), ser_ExecReturn = (\<lambda>_. [])\<rparr>,
     cd_cron = (\<lambda>_. None),
     cd_multisig = \<lparr>de_MsigConstructorParams = (\<lambda>_. None), de_ProposeParams = (\<lambda>_. None),
       de_TxnIDParams = (\<lambda>_. None), de_AddSignerParams = (\<lambda>_. None), de_RemoveSignerParams = (\<lambda>_. None),
       de_SwapSignerParams = (\<lambda>_. None), de_ChangeThresholdParams = (\<lambda>_. None),
       de_LockBalanceParams = (\<lambda>_. None), ser_ProposeReturn = (\<lambda>_. []), ser_ApproveReturn = (\<lambda>_. []),
       ser_ProposalHashData = (\<lambda>_ _ _ _ _. [])\<rparr>,
     cd_paych = \<lparr>de_PaychConstructorParams = (\<lambda>_. None), de_UpdateChannelStateParams = (\<lambda>_. None),
       ser_SignedVoucher = (\<lambda>_. []), ser_Serialized = (\<lambda>p. p)\<rparr>,
     cd_verifreg = \<lparr>de_verifreg_address = (\<lambda>_. None), de_VerifierParams = (\<lambda>_. None), de_BytesParams = (\<lambda>_. None)\<rparr>,
     cd_reward = \<lparr>de_reward_power = (\<lambda>_. None), de_AwardBlockRewardParams = (\<lambda>_. Some \<lparr>ab_miner = ID 101,
         ab_penalty = 0, ab_gas_reward = 50, ab_win_count = 1\<rparr>),
       ser_ApplyRewardParams = (\<lambda>_ _. []), ser_ThisEpochRewardReturn = (\<lambda>_ _. [])\<rparr>,
     power_code = (\<lambda>_ _ _. sm_err (actor_error SysErrInvalidMethod)),
     miner_code = (\<lambda>_ _ _. sm_err (actor_error SysErrInvalidMethod)),
     market_code = (\<lambda>_ _ _. sm_err (actor_error SysErrInvalidMethod)),
     legacy_code = (\<lambda>_ _. None)\<rparr>"

definition sample_ext :: Ext where
  "sample_ext = \<lparr>x_blake2b_256 = (\<lambda>b. b), x_blake2b_var = (\<lambda>b n. replicate n 0), x_ser_address = (\<lambda>_. []),
     x_be64 = (\<lambda>_. []), x_verify_signature = (\<lambda>_ _ _. False)\<rparr>"

definition sample_account :: "nat \<Rightarrow> TokenAmount \<Rightarrow> ActorState" where
  "sample_account i b = ActorState_new (Builtin V6 AccountActor) (AccountSt (ID i)) b 0"

definition sample_reward :: RewardState where
  "sample_reward = \<lparr>cumsum_baseline = 0, cumsum_realized = 0, effective_network_time = 0,
     effective_baseline_power = 1, this_epoch_reward = 100,
     this_epoch_reward_smoothed = \<lparr>position = 0, velocity = 0\<rparr>, this_epoch_baseline_power = 1, reward_epoch = 9,
     total_storage_power_reward = 0, simple_total = 0, baseline_total = 0\<rparr>"

definition sample_multisig :: MultisigState where
  "sample_multisig = \<lparr>signers = [ID 100, ID 101], num_approvals_threshold = 2, next_tx_id = 1, initial_balance = 0,
     start_epoch = 0, unlock_duration = 0,
     pending_txs = [(0, \<lparr>tx_to = ID 101, tx_value = 9, tx_method = METHOD_SEND, tx_params = [],
       tx_approved = [ID 101]\<rparr>)]\<rparr>"

definition sample_table :: table where
  "sample_table = [
     ID 0 \<mapsto> ActorState_new (Builtin V6 SystemActor) EmptyArr 0 0,
     ID 1 \<mapsto> ActorState_new (Builtin V6 InitActor)
       (InitSt \<lparr>address_map = Map.empty, next_id = 103, network_name = ''sample''\<rparr>) 0 0,
     ID 2 \<mapsto> ActorState_new (Builtin V6 RewardActor) (RewardSt sample_reward) 1000 0,
     ID 3 \<mapsto> ActorState_new (Builtin V6 CronActor)
       (CronSt [\<lparr>entry_receiver = ID 101, entry_method_num = METHOD_SEND\<rparr>]) 0 0,
     ID 99 \<mapsto> sample_account 99 0, ID 100 \<mapsto> sample_account 100 5000, ID 101 \<mapsto> sample_account 101 7,
     ID 102 \<mapsto> ActorState_new (Builtin V6 MultisigActor) (MultisigSt sample_multisig) 50 0]"

definition sample_tree :: StateTree where
  "sample_tree = tree_new sample_table"

definition sample_runtime :: Runtime where
  "sample_runtime = \<lparr>version = 14, rt_tree = sample_tree,
     vm_msg = \<lparr>msg_caller = ID 100, msg_receiver = ID 100, msg_value_received = 0\<rparr>,
     rt_epoch = 10, origin = ID 100, origin_nonce = 0, depth = 0, num_actors_created = 0,
     caller_validated = False, allow_internal = True\<rparr>"

lemmas sample_states = sample_reward_def sample_tree_def sample_table_def sample_account_def ActorState_new_def

lemmas sample_defs = sample_states sample_multisig_def

lemma sample_multisig_ok: "msig_ok sample_multisig"
  by (auto simp: msig_ok_def sample_multisig_def SIGNERS_MAX_def txn_ok_def split: if_splits)

lemma call_depth: "MAX_CALL_DEPTH \<noteq> 0" "0 < MAX_CALL_DEPTH"
  by (simp_all add: MAX_CALL_DEPTH_def)

lemmas send_simps = internal_send_def execute_send_body_def run_message_def nested_def transfer_def
  rt_resolve_address_def on_tree_def sm_bind_def sm_simps ok_or_def get_actor_def get_actor_at_def lookup_id_def
  set_actor_def deduct_funds_def deposit_funds_def snapshot_def revert_to_snapshot_def clear_snapshot_def
  on_layers_def add_layer_def tree_new_def layer_default_def call_depth METHOD_SEND_def

lemma sample_code_ok: "code_ok sample_acts"
  by (auto simp: code_ok_def sample_acts_def intro: safe_laws)

lemma view_tree_new [simp]: "view (tree_new h) = h"
  by (simp add: view_def tree_new_def) (simp add: view_of_def layer_default_def)

lemma sample_tree_inv: "tree_inv sample_tree"
proof -
  have "tree_ok sample_tree" by (simp add: sample_tree_def tree_new_def tree_ok_def layer_default_def)
  moreover have "table_inv sample_table sample_table"
    unfolding table_inv_def
  proof (intro conjI)
    show "init_of sample_table \<noteq> None" "coded sample_table sample_table"
      by (auto simp: coded_def sample_defs init_of_def INIT_ACTOR_ADDR_def)
    show "fresh sample_table" by (auto simp: fresh_def sample_defs init_of_def INIT_ACTOR_ADDR_def)
  qed (auto simp: sample_defs split: if_splits)
  moreover have "hamt sample_tree = sample_table" by (simp add: sample_tree_def tree_new_def)
  ultimately show ?thesis by (simp add: tree_inv_def sample_tree_def)
qed

section \<open>Properties\<close>

text \<open>C26. 
  A failed message has no effect: when a message sent by an actor fails, at any depth and in any
  method, the state tree of the sender is, layers included, the very tree it had before the send.
\<close>

theorem failed_send_has_no_effect:
  assumes "code_ok acts" "tree_inv (rt_tree rt)" "7 \<le> version rt"
    and "internal_send (execute_send acts ext n) a b mt x p rt = (Inl e, rt')"
  shows "rt_tree rt' = rt_tree rt"
  using internal_send_run [OF sender_execute_send [OF assms(1)] _ assms(4)] assms(2,3) by (simp add: rt_inv_def)

theorem failed_send_has_no_effect_witness:
  "let s = internal_send (execute_send sample_acts sample_ext 1) (ID 100) (ID 101) METHOD_SEND 6000 [] sample_runtime
   in fst s = Inl (actor_error SysErrInsufficientFunds) \<and> rt_tree (snd s) = sample_tree"
proof -
  obtain r rt' where s:
    "internal_send (execute_send sample_acts sample_ext 1) (ID 100) (ID 101) METHOD_SEND 6000 [] sample_runtime = (r, rt')"
    by (cases "internal_send (execute_send sample_acts sample_ext 1) (ID 100) (ID 101) METHOD_SEND 6000 [] sample_runtime")
  have "fst (internal_send (execute_send sample_acts sample_ext 1) (ID 100) (ID 101) METHOD_SEND 6000 [] sample_runtime)
      = Inl (actor_error SysErrInsufficientFunds)"
    by (simp add: send_simps sample_runtime_def sample_defs)
  then have r: "r = Inl (actor_error SysErrInsufficientFunds)" using s by simp
  have "rt_tree rt' = rt_tree sample_runtime"
    by (rule failed_send_has_no_effect [OF sample_code_ok _ _ s [unfolded r]])
      (use sample_tree_inv in \<open>simp_all add: sample_runtime_def\<close>)
  then have "rt_tree rt' = sample_tree" by (simp add: sample_runtime_def)
  then show ?thesis unfolding Let_def s r by simp
qed

text \<open>C30. 
  A multisig executes a transaction only on a threshold of different current signers: when a call of
  \<open>approve\<close> reports that the transaction was applied, the caller is a signer, the transaction was
  pending, and the signers that approved it before together with the caller are at least as many as
  the threshold.
\<close>

theorem multisig_executes_only_approved:
  assumes "code_ok acts" "tree_inv (rt_tree rt)" "7 \<le> version rt" "receiver rt = ID r"
    and "view (rt_tree rt) (ID r) = Some act" "adata act = MultisigSt st" "msig_ok st"
    and "approve cd ext (execute_send acts ext n) params rt = (Inr ret, rt')" "ar_applied ret"
  shows "caller rt \<in> set (signers st) \<and> (\<exists>txn. map_of (pending_txs st) (ti_id params) = Some txn \<and>
    set (tx_approved txn) \<subseteq> set (signers st) \<and>
    num_approvals_threshold st \<le> card (insert (caller rt) (set (tx_approved txn))))"
proof -
  have id: "rt_id rt" using assms(2-4) by (simp add: rt_id_def rt_inv_def)
  then have "receiver_data rt = Some (MultisigSt st)"
    using receiver_actor_id [OF id assms(4)] assms(5,6) by (simp add: receiver_data_def)
  from vm_multisig.approve_authorised [OF sender_execute_send [OF assms(1)] id this assms(7-9)]
  show ?thesis by (simp add: authorised_def)
qed

theorem multisig_executes_only_approved_witness:
  "let rt = sample_runtime\<lparr>vm_msg := \<lparr>msg_caller = ID 100, msg_receiver = ID 102, msg_value_received = 0\<rparr>\<rparr>;
       params = \<lparr>ti_id = 0, ti_proposal_hash = []\<rparr>
   in \<exists>ret rt'. approve (cd_multisig sample_acts) sample_ext (execute_send sample_acts sample_ext 1) params rt = (Inr ret, rt') \<and>
      ar_applied ret \<and> caller rt \<in> set (signers sample_multisig)"
proof -
  let ?rt = "sample_runtime\<lparr>vm_msg := \<lparr>msg_caller = ID 100, msg_receiver = ID 102, msg_value_received = 0\<rparr>\<rparr>"
  let ?run = "approve (cd_multisig sample_acts) sample_ext (execute_send sample_acts sample_ext 1)
    \<lparr>ti_id = 0, ti_proposal_hash = []\<rparr> ?rt"
  have "\<exists>rt'. ?run = (Inr \<lparr>ar_applied = True, ar_code = ExitOk, ar_ret = []\<rparr>, rt')"
    by (simp add: send_simps sample_runtime_def sample_defs approve_def validate_immediate_caller_type_def
        abort_if_already_validated_def caller_def receiver_def rt_get_actor_code_cid_def CALLER_TYPES_SIGNABLE_def
        rt_transaction_def guarded_def state_commit_def approve_st_def is_signer_def get_transaction_def res_simps
        execute_transaction_if_approved_def approve_transaction_def rt_current_balance_def get_balance_def
        check_available_def rt_try_def rt_send_def amount_locked_def Let_def)
  then obtain rt' where run: "?run = (Inr \<lparr>ar_applied = True, ar_code = ExitOk, ar_ret = []\<rparr>, rt')" by blast
  have "caller ?rt \<in> set (signers sample_multisig)"
    using multisig_executes_only_approved [OF sample_code_ok _ _ _ _ _ sample_multisig_ok run] sample_tree_inv
    by (simp add: sample_runtime_def receiver_def sample_tree_def sample_table_def ActorState_new_def)
  then show ?thesis unfolding Let_def using run by auto
qed

text \<open>C33. 
  The end-of-epoch tick reaches every entry of the cron table: called by the system actor, \<open>epoch_tick\<close>
  always returns successfully, and it sends the message of each entry, in order, to the state the
  earlier ones left, also when earlier ones failed.
\<close>

theorem cron_tick_sends_every_entry:
  assumes "tree_inv (rt_tree rt)" "7 \<le> version rt" "receiver rt = ID r"
    and "view (rt_tree rt) (ID r) = Some act" "adata act = CronSt entries"
    and "caller rt = SYSTEM_ACTOR_ADDR" "\<not> caller_validated rt" "allow_internal rt"
  shows "\<exists>rt0. view (rt_tree rt0) = view (rt_tree rt) \<and> receiver rt0 = receiver rt \<and>
    epoch_tick (execute_send acts ext n) rt =
      (Inr (), fold (\<lambda>e rt. snd (internal_send (execute_send acts ext n) (receiver rt) (entry_receiver e)
         (entry_method_num e) 0 [] rt)) entries rt0)"
proof -
  have id: "rt_id rt" using assms(1-3) by (simp add: rt_id_def rt_inv_def)
  then have "receiver_data rt = Some (CronSt entries)"
    using receiver_actor_id [OF id assms(3)] assms(4,5) by (simp add: receiver_data_def)
  from epoch_tick_runs [of "execute_send acts ext n", OF execute_send_same id this assms(6-8)] obtain rt0 where
    r: "rt_reads rt rt0" and run: "epoch_tick (execute_send acts ext n) rt = (Inr (),
      fold (\<lambda>e rt. snd (internal_send (execute_send acts ext n) (receiver rt) (entry_receiver e)
         (entry_method_num e) 0 [] rt)) entries rt0)" by blast
  have "rt_inv rt" using id by (simp add: rt_id_def)
  with run rt_reads_tree(1,5) [OF r] show ?thesis by (auto dest: rt_same_receiver)
qed

theorem cron_tick_sends_every_entry_witness:
  "let rt = sample_runtime\<lparr>vm_msg := \<lparr>msg_caller = ID 0, msg_receiver = ID 3, msg_value_received = 0\<rparr>\<rparr>
   in \<exists>rt0. view (rt_tree rt0) = sample_table \<and> epoch_tick (execute_send sample_acts sample_ext 2) rt =
        (Inr (), snd (internal_send (execute_send sample_acts sample_ext 2) (ID 3) (ID 101) METHOD_SEND 0 [] rt0))"
proof -
  let ?rt = "sample_runtime\<lparr>vm_msg := \<lparr>msg_caller = ID 0, msg_receiver = ID 3, msg_value_received = 0\<rparr>\<rparr>"
  let ?e = "\<lparr>entry_receiver = ID 101, entry_method_num = METHOD_SEND\<rparr>"
  have t: "rt_tree ?rt = sample_tree" "view sample_tree = sample_table" by (simp_all add: sample_runtime_def sample_tree_def)
  have "\<exists>rt0. view (rt_tree rt0) = view (rt_tree ?rt) \<and> receiver rt0 = receiver ?rt \<and>
    epoch_tick (execute_send sample_acts sample_ext 2) ?rt =
      (Inr (), fold (\<lambda>e rt. snd (internal_send (execute_send sample_acts sample_ext 2) (receiver rt) (entry_receiver e)
         (entry_method_num e) 0 [] rt)) [?e] rt0)"
    by (rule cron_tick_sends_every_entry [where r = 3 and
        act = "ActorState_new (Builtin V6 CronActor) (CronSt [?e]) 0 0"])
      (use sample_tree_inv in \<open>simp_all add: t\<close>,
       simp_all add: sample_runtime_def sample_table_def ActorState_new_def receiver_def caller_def SYSTEM_ACTOR_ADDR_def)
  then show ?thesis by (auto simp: Let_def t) (auto simp: receiver_def sample_runtime_def)
qed

end
