(* ===== verification/Vm_Ledger.thy ===== *)
theory Vm_Ledger
  imports Vm_Safety
begin

text \<open>
  The ledger of the chain under message application: no message, no gas payment, no block reward and
  no cron run destroys tokens, balances stay non-negative, the states of all actors keep
  their invariants, and the sequence number of the sender of an applied message, and of no other
  actor, grows by one.  No tokens are created either when the payment channels stored in the base table are
  empty; a channel stored there with a balance comes back with it after it was collected and deleted.
\<close>

section \<open>The ledger\<close>

text \<open>
  \<open>tokens v\<close> is the sum of all balances.  \<open>ledger_ok\<close>: finitely many actors, no negative balance, and
  every actor's state satisfies its invariant.  \<open>base_ok\<close> says the same of the actors of the base table, and
  \<open>channels_empty\<close> that its payment channels hold nothing: a channel that is deleted in the cache of the state tree
  is read from the base table again, with the balance it has there.
\<close>

definition tokens :: "table \<Rightarrow> TokenAmount" where
  "tokens v = (\<Sum>a \<in> dom v. abalance (the (v a)))"

definition ledger_ok :: "table \<Rightarrow> bool" where
  "ledger_ok v = (finite (dom v) \<and> (\<forall>a act. v a = Some act \<longrightarrow> 0 \<le> abalance act \<and> data_ok (adata act)))"

definition base_ok :: "table \<Rightarrow> bool" where
  "base_ok h = (\<forall>a b. h a = Some b \<longrightarrow>
     0 \<le> abalance b \<and> data_ok (adata b))"

definition channels_empty :: "table \<Rightarrow> bool" where
  "channels_empty h = (\<forall>a b. h a = Some b \<longrightarrow> is_paych_code (acode b) \<longrightarrow> abalance b = 0)"

definition held :: "ActorState option \<Rightarrow> TokenAmount" where
  "held x = (case x of None \<Rightarrow> 0 | Some act \<Rightarrow> abalance act)"

lemma tokens_upd:
  assumes "finite (dom v)"
  shows "tokens (v(a := x)) = tokens v - held (v a) + held x"
proof -
  let ?s = "\<lambda>w. \<Sum>b \<in> dom w. abalance (the (w b))"
  have rest: "(\<Sum>b \<in> dom v - {a}. abalance (the ((v(a := x)) b))) = (\<Sum>b \<in> dom v - {a}. abalance (the (v b)))"
    by (rule sum.cong) auto
  have old: "?s v = held (v a) + (\<Sum>b \<in> dom v - {a}. abalance (the (v b)))"
    using assms by (cases "v a") (auto simp: held_def sum.remove [of "dom v" a] domIff)
  have "?s (v(a := x)) = held x + (\<Sum>b \<in> dom v - {a}. abalance (the (v b)))"
  proof (cases x)
    case None
    then show ?thesis using rest by (simp add: held_def)
  next
    case (Some act)
    have "?s (v(a := x)) = abalance act + (\<Sum>b \<in> dom v - {a}. abalance (the ((v(a := x)) b)))"
      using assms Some sum.insert_remove [of "dom v" "\<lambda>b. abalance (the ((v(a := x)) b))" a] by simp
    then show ?thesis using rest Some by (simp add: held_def)
  qed
  with old show ?thesis by (simp add: tokens_def)
qed

lemma ledger_ok_upd:
  assumes "ledger_ok v" "\<And>act. x = Some act \<Longrightarrow> 0 \<le> abalance act \<and> data_ok (adata act)"
  shows "ledger_ok (v(a := x))" "tokens (v(a := x)) = tokens v - held (v a) + held x"
  using assms tokens_upd [of v a x] by (auto simp: ledger_ok_def)

text \<open>
  \<open>counts k\<close>: a change of the table that adds \<open>k a\<close> to the sequence number of each actor \<open>a\<close> of the base
  table that is no payment channel, and keeps its code and the type of its state.  \<open>evolves x k\<close>: moreover \<open>x\<close> tokens are added,
  or more than that where the base table has a payment channel that is not empty.
\<close>

definition counts :: "(Address \<Rightarrow> nat) \<Rightarrow> table \<Rightarrow> table \<Rightarrow> table \<Rightarrow> bool" where
  "counts k h v w = (\<forall>a b act. h a = Some b \<longrightarrow> \<not> is_paych_code (acode b) \<longrightarrow> v a = Some act \<longrightarrow>
     (\<exists>act'. w a = Some act' \<and> acode act' = acode act \<and> kept_kind (adata act) (adata act') \<and>
        asequence act' = asequence act + k a))"

definition evolves :: "TokenAmount \<Rightarrow> (Address \<Rightarrow> nat) \<Rightarrow> table \<Rightarrow> table \<Rightarrow> table \<Rightarrow> bool" where
  "evolves x k h v w = (counts k h v w \<and>
     (base_ok h \<longrightarrow> ledger_ok v \<longrightarrow>
       ledger_ok w \<and> tokens v + x \<le> tokens w \<and> (channels_empty h \<longrightarrow> tokens w = tokens v + x)))"

lemma evolves_refl: "evolves 0 (\<lambda>_. 0) h v v"
  by (simp add: evolves_def counts_def)

lemma counts_trans:
  assumes "counts k h u v" "counts l h v w"
  shows "counts (\<lambda>a. k a + l a) h u w"
  unfolding counts_def
proof (intro allI impI)
  fix a b act
  assume h: "h a = Some b" "\<not> is_paych_code (acode b)" "u a = Some act"
  from assms(1) h obtain act' where
    v: "v a = Some act'" "acode act' = acode act" "kept_kind (adata act) (adata act')" "asequence act' = asequence act + k a"
    unfolding counts_def by blast
  from assms(2) h v(1) obtain act'' where
    "w a = Some act''" "acode act'' = acode act'" "kept_kind (adata act') (adata act'')"
    "asequence act'' = asequence act' + l a"
    unfolding counts_def by blast
  with v show "\<exists>act'. w a = Some act' \<and> acode act' = acode act \<and> kept_kind (adata act) (adata act') \<and>
      asequence act' = asequence act + (k a + l a)"
    by (auto intro: kept_kind_trans)
qed

lemma evolves_trans:
  assumes "evolves x k h u v" "evolves y l h v w"
  shows "evolves (x + y) (\<lambda>a. k a + l a) h u w"
  unfolding evolves_def
proof (intro conjI impI)
  show "counts (\<lambda>a. k a + l a) h u w" using assms by (auto simp: evolves_def intro: counts_trans)
  assume h: "base_ok h" "ledger_ok u"
  then have v: "ledger_ok v" "tokens u + x \<le> tokens v" "channels_empty h \<longrightarrow> tokens v = tokens u + x"
    using assms(1) by (simp_all add: evolves_def)
  then have w: "ledger_ok w" "tokens v + y \<le> tokens w" "channels_empty h \<longrightarrow> tokens w = tokens v + y"
    using assms(2) h(1) by (simp_all add: evolves_def)
  show "ledger_ok w" by (rule w)
  show "tokens u + (x + y) \<le> tokens w" using v w by simp
  assume "channels_empty h"
  then show "tokens w = tokens u + (x + y)" using v w by simp
qed

lemma vstep_evolves:
  assumes "vstep vm_commit h v w" "table_inv h v"
  shows "evolves 0 (\<lambda>_. 0) h v w"
  using assms(1)
proof cases
  case (commit r act d)
  have "ledger_ok w \<and> tokens w = tokens v" if "ledger_ok v"
  proof -
    have "0 \<le> abalance act" "data_ok d"
      using that commit(2,3) by (auto simp: ledger_ok_def vm_commit_def)
    then show ?thesis
      unfolding commit(1) using ledger_ok_upd [OF that, of "Some (act\<lparr>adata := d\<rparr>)" "ID r"] commit(2)
      by (simp add: held_def)
  qed
  then show ?thesis using commit by (auto simp: evolves_def counts_def vm_commit_def)
next
  case (create i st c)
  have "ledger_ok w \<and> tokens w = tokens v" if "ledger_ok v"
    unfolding create(1) using ledger_ok_upd [OF that, of "Some (ActorState_new c EmptyArr 0 0)" "ID i"] create(2)
    by (auto simp: held_def ActorState_new_def)
  then show ?thesis using create by (auto simp: evolves_def counts_def)
next
  case (move a f b g x)
  have "ledger_ok w \<and> tokens w = tokens v" if v: "ledger_ok v"
  proof -
    have fg: "0 \<le> abalance g" "data_ok (adata f)" "data_ok (adata g)"
      using v move(2,3) by (auto simp: ledger_ok_def)
    let ?u = "v(ID a \<mapsto> f\<lparr>abalance := abalance f - x\<rparr>)"
    note u = ledger_ok_upd [OF v, of "Some (f\<lparr>abalance := abalance f - x\<rparr>)" "ID a"]
    have u1: "ledger_ok ?u" by (rule u(1)) (use move(6) fg in simp)
    have u2: "tokens ?u = tokens v - x" using u(2) move(2,6) fg by (simp add: held_def)
    note w = ledger_ok_upd [OF u1, of "Some (g\<lparr>abalance := abalance g + x\<rparr>)" "ID b"]
    have "ledger_ok w" unfolding move(1) by (rule w(1)) (use move(5) fg in simp)
    moreover have "tokens w = tokens ?u + x" unfolding move(1) using w(2) move(3,4,5) fg by (simp add: held_def)
    ultimately show ?thesis using u2 by simp
  qed
  then show ?thesis using move by (auto simp: evolves_def counts_def)
next
  case (remove a act)
  have "ledger_ok w \<and> tokens v \<le> tokens w \<and> (channels_empty h \<longrightarrow> tokens w = tokens v)" if "ledger_ok v" "base_ok h"
  proof -
    have h: "0 \<le> held (h (ID a))" "channels_empty h \<longrightarrow> held (h (ID a)) = 0"
      using that(2) remove(5) by (auto simp: held_def base_ok_def channels_empty_def split: option.split)
    show ?thesis
      unfolding remove(1) using ledger_ok_upd [OF that(1), of "h (ID a)" "ID a"] h remove(2,4) that(2)
      by (auto simp: held_def base_ok_def)
  qed
  moreover have "\<exists>act'. w b = Some act' \<and> acode act' = acode c \<and> kept_kind (adata c) (adata act') \<and>
      asequence act' = asequence c"
    if "h b = Some d" "\<not> is_paych_code (acode d)" "v b = Some c" for b c d
    using that remove by (cases "b = ID a") auto
  ultimately show ?thesis by (auto simp: evolves_def counts_def)
qed

lemma vsteps_evolves:
  assumes "vsteps vm_commit h v w" "table_inv h v"
  shows "evolves 0 (\<lambda>_. 0) h v w"
  using assms
proof (induction rule: rtranclp_induct)
  case base
  then show ?case by (simp add: evolves_refl)
next
  case (step u w)
  have "table_inv h u" by (rule vsteps_inv [OF step(1) init_commits_vm step(4)])
  from evolves_trans [OF step(3) [OF step(4)] vstep_evolves [OF step(2) this]] show ?case by simp
qed

section \<open>Changes of the state tree\<close>

definition tree_evolves :: "TokenAmount \<Rightarrow> (Address \<Rightarrow> nat) \<Rightarrow> StateTree \<Rightarrow> StateTree \<Rightarrow> bool" where
  "tree_evolves x k t t' = (tree_inv t' \<and> frame t t' \<and> evolves x k (hamt t) (view t) (view t'))"

abbreviation uncounted :: "Address \<Rightarrow> nat" where "uncounted \<equiv> (\<lambda>_. 0)"

lemma tree_evolves_trans:
  assumes "tree_evolves x k t u" "tree_evolves y l u w"
  shows "tree_evolves (x + y) (\<lambda>a. k a + l a) t w"
proof -
  have "hamt u = hamt t" using assms(1) by (simp add: tree_evolves_def frame_def)
  then show ?thesis using assms evolves_trans [of x k "hamt t" "view t" "view u" y l "view w"] frame_trans [of t u w]
    by (simp add: tree_evolves_def)
qed

lemma tree_evolves_then: "tree_evolves x k t u \<Longrightarrow> tree_evolves y uncounted u w \<Longrightarrow> tree_evolves (x + y) k t w"
  using tree_evolves_trans [of x k t u y uncounted w] by simp

lemma tree_evolves_rel: "tree_inv t \<Longrightarrow> tree_rel vm_commit t t' \<Longrightarrow> tree_evolves 0 uncounted t t'"
  by (simp add: tree_rel_def tree_evolves_def tree_inv_def vsteps_evolves)

lemma tree_evolves_reads: "tree_inv t \<Longrightarrow> tree_ok t' \<Longrightarrow> read_eq t t' \<Longrightarrow> tree_evolves 0 uncounted t t'"
  using tree_inv_cong [of t t'] by (simp add: tree_evolves_def read_eqD evolves_refl)

lemma tree_evolves_refl: "tree_inv t \<Longrightarrow> tree_evolves 0 uncounted t t"
  by (simp add: tree_evolves_def evolves_refl)

text \<open>A change of one actor's balance and sequence number.\<close>

lemma mutate_actor_evolves:
  assumes t: "tree_inv t" and run: "mutate_actor a f t = (Inr (), t')"
    and f: "\<And>act act'. f act = Some act' \<Longrightarrow> acode act' = acode act \<and> adata act' = adata act \<and>
      asequence act' = asequence act + n \<and> abalance act' = abalance act + x \<and>
      (0 \<le> abalance act \<longrightarrow> 0 \<le> abalance act')"
  obtains i act act' where "resolve t a = Some (ID i)" "view t (ID i) = Some act" "f act = Some act'"
    "resolve t' = resolve t" "tree_evolves x (uncounted(ID i := n)) t t'"
proof -
  from get_actor_ok [OF tree_invD [OF t], of a] obtain u where u:
    "get_actor a t = (Inr (Option.bind (resolve t a) (view t)), u)" "read_eq t u" "tree_ok u" .
  from u(1) run obtain b act act' where act: "resolve t a = Some b" "view t b = Some act" "f act = Some act'"
    and set: "set_actor a act' u = (Inr (), t')"
    by (auto simp: mutate_actor_def sm_bind_def sm_simps ok_or_def split: option.splits Option.bind_splits)
  from resolve_ID_obtain [OF t act(1)] obtain i where i: "b = ID i" .
  have ui: "tree_inv u" "resolve u a = Some (ID i)" "view u = view t" "hamt u = hamt t" "frame t u" "resolve u = resolve t"
    using tree_inv_cong [OF t u(3)] u(2) act(1) i by (simp_all add: read_eqD)
  from set_actor_view [OF ui(1,2), of act'] obtain t1 where t1: "set_actor a act' u = (Inr (), t1)" "frame u t1"
    "tree_ok t1" "view t1 = (view t)(ID i \<mapsto> act')" "init_of (view t1) = init_of (view t) \<longrightarrow> resolve t1 = resolve t"
    unfolding ui(3,6) .
  have t': "t' = t1" using t1(1) set by simp
  note fa = f [OF act(3)]
  have v: "view t (ID i) = Some act" using act(2) i by simp
  have init: "init_of ((view t)(ID i \<mapsto> act')) = init_of (view t)"
    by (rule init_of_upd [of "view t", OF v]) (use fa in simp)
  have "table_inv (hamt t) ((view t)(ID i \<mapsto> act'))"
    by (rule table_inv_write [of _ "view t", OF _ v]) (use t fa init in \<open>auto simp: tree_inv_def simp del: fun_upd_apply\<close>)
  then have inv: "tree_inv t1"
    using t1(2,3,4) ui(4) by (simp add: tree_inv_def frame_def)
  have "ledger_ok ((view t)(ID i \<mapsto> act')) \<and> tokens ((view t)(ID i \<mapsto> act')) = tokens (view t) + x"
    if "ledger_ok (view t)"
  proof -
    have "0 \<le> abalance act \<and> data_ok (adata act)" using that v by (simp add: ledger_ok_def)
    then show ?thesis
      using ledger_ok_upd [OF that, of "Some act'" "ID i"] fa v by (simp add: held_def)
  qed
  then have "evolves x (uncounted(ID i := n)) (hamt t) (view t) (view t1)"
    using fa v unfolding t1(4) by (simp add: evolves_def counts_def)
  then have "tree_evolves x (uncounted(ID i := n)) t t1"
    using inv frame_trans [OF ui(5) t1(2)] by (simp add: tree_evolves_def)
  then show ?thesis using that [OF _ v act(3)] act(1) i t' t1(4,5) init by simp
qed

lemma transfer_to_actor_evolves:
  assumes t: "tree_inv t" and run: "transfer_to_actor a x t = (Inr (), t')"
  shows "tree_evolves x uncounted t t'"
proof (cases "x = 0")
  case True
  then show ?thesis using run t by (simp add: transfer_to_actor_def sm_simps tree_evolves_refl)
next
  case False
  then have x: "0 < x" and m: "mutate_actor a (\<lambda>act. Some (deposit_funds act x)) t = (Inr (), t')"
    using run by (auto simp: transfer_to_actor_def sm_simps apply_tree_def split: if_splits prod.splits sum.splits)
  have f: "\<And>act act'. Some (deposit_funds act x) = Some act' \<Longrightarrow> acode act' = acode act \<and> adata act' = adata act \<and>
      asequence act' = asequence act + 0 \<and> abalance act' = abalance act + x \<and>
      (0 \<le> abalance act \<longrightarrow> 0 \<le> abalance act')"
    using x by (auto simp: deposit_funds_def)
  from mutate_actor_evolves [OF t m f] obtain i where "tree_evolves x (uncounted(ID i := 0)) t t'" .
  moreover have "uncounted(ID i := 0) = uncounted" by (rule ext) simp
  ultimately show ?thesis by simp
qed

section \<open>Sends\<close>

text \<open>The assumptions on the environment of the interpreter.\<close>

definition env_ok :: "VmEnv \<Rightarrow> bool" where
  "env_ok env = (code_ok (ve_acts env) \<and> (\<forall>ep. 7 \<le> ve_network_version env ep))"

lemma vm_send_rel:
  assumes env: "env_ok env" and t: "tree_inv t" and run: "vm_send env ep msg seq t = (r, t')"
  shows "tree_rel vm_commit t t'"
proof -
  let ?v = "ve_network_version env ep"
  have v: "7 \<le> ?v" "\<not> ?v \<le> 3" using env by (auto simp: env_ok_def dest: spec [of _ ep])
  from lookup_id_ok [OF tree_invD [OF t], of "um_from msg"] obtain t1 where t1:
    "lookup_id (um_from msg) t = (Inr (resolve t (um_from msg)), t1)" "read_eq t t1" "tree_ok t1" .
  have i1: "tree_inv t1" using tree_inv_cong [OF t t1(3)] t1(2) by (simp add: read_eqD)
  from lookup_id_ok [OF tree_invD [OF i1], of "um_to msg"] obtain t2 where t2:
    "lookup_id (um_to msg) t1 = (Inr (resolve t1 (um_to msg)), t2)" "read_eq t1 t2" "tree_ok t2" .
  have i2: "tree_inv t2" using tree_inv_cong [OF i1 t2(3)] t2(2) by (simp add: read_eqD)
  have r1: "tree_rel vm_commit t t1" and r2: "tree_rel vm_commit t t2"
    using read_eq_tree_rel [OF i1 t1(2)] read_eq_tree_rel [OF i2 t2(2)] by (auto intro: tree_rel_trans)
  show ?thesis
  proof (cases "resolve t (um_from msg)")
    case None
    then have "t' = t1" using run t1(1) by (simp add: vm_send_def runtime_new_def)
    then show ?thesis using r1 by simp
  next
    case (Some c)
    define rt where "rt = \<lparr>version = ?v, rt_tree = t2, vm_msg = \<lparr>msg_caller = c,
        msg_receiver = (case resolve t1 (um_to msg) of Some a \<Rightarrow> a | None \<Rightarrow> um_to msg), msg_value_received = um_value msg\<rparr>,
      rt_epoch = ep, origin = um_from msg, origin_nonce = seq, depth = 0, num_actors_created = 0,
      caller_validated = False, allow_internal = True\<rparr>"
    obtain q rt' where q: "execute_send (ve_acts env) (ve_ext env) (Suc MAX_CALL_DEPTH) msg rt = (q, rt')"
      by (cases "execute_send (ve_acts env) (ve_ext env) (Suc MAX_CALL_DEPTH) msg rt")
    have t': "t' = rt_tree rt'"
      using run t1(1) t2(1) v(2) Some q
      by (simp add: vm_send_def runtime_new_def rt_def del: execute_send.simps)
    have "sm_keeps (rt_rel vm_commit) (execute_send (ve_acts env) (ve_ext env) (Suc MAX_CALL_DEPTH) msg)"
      using sender_execute_send env unfolding sender_def env_ok_def by blast
    from sm_keepsD [OF this q] have "rt_rel vm_commit rt rt'" .
    moreover have "rt_inv rt" using i2 v by (simp add: rt_inv_def rt_def)
    ultimately have "tree_rel vm_commit t2 t'" by (simp add: rt_rel_def rt_def t')
    then show ?thesis by (rule tree_rel_trans [OF r2])
  qed
qed

lemma exec_with_gas_evolves:
  assumes "env_ok env" "tree_inv t" "exec_with_gas env ep msg t = (r, t')"
  shows "tree_evolves 0 uncounted t t'"
proof -
  obtain q where "vm_send env ep (m_msg msg) (m_sequence msg) t = (q, t')"
    using assms(3) by (auto simp: exec_with_gas_def Let_def split: prod.splits if_splits)
  from vm_send_rel [OF assms(1,2) this] show ?thesis by (rule tree_evolves_rel [OF assms(2)])
qed

lemma tree_evolves_inv: "tree_evolves x k t t' \<Longrightarrow> tree_inv t'"
  by (simp add: tree_evolves_def)

lemma settle_gas_evolves:
  assumes t: "tree_inv t" and run: "settle_gas env msg gas_cost used burn t = (Inr out, t')"
  shows "tree_evolves gas_cost uncounted t t'"
proof -
  let ?o = "compute_gas_outputs used (m_gas_limit msg) (ve_base_fee env) (m_gas_fee_cap msg)
    (m_gas_premium msg) burn"
  from run obtain t1 t2 t3 where s:
    "transfer_to_actor BURNT_FUNDS_ACTOR_ADDR (go_base_fee_burn ?o) t = (Inr (), t1)"
    "transfer_to_actor REWARD_ACTOR_ADDR (go_miner_tip ?o) t1 = (Inr (), t2)"
    "transfer_to_actor BURNT_FUNDS_ACTOR_ADDR (go_over_estimation_burn ?o) t2 = (Inr (), t3)"
    "transfer_to_actor (um_from (m_msg msg)) (go_refund ?o) t3 = (Inr (), t')"
    and sum: "go_base_fee_burn ?o + go_over_estimation_burn ?o + go_refund ?o + go_miner_tip ?o = gas_cost"
    by (auto simp: settle_gas_def Let_def sm_bind_eq_Inr sm_simps split: if_splits)
  note e1 = transfer_to_actor_evolves [OF t s(1)]
  note e2 = tree_evolves_then [OF e1 transfer_to_actor_evolves [OF tree_evolves_inv [OF e1] s(2)]]
  note e3 = tree_evolves_then [OF e2 transfer_to_actor_evolves [OF tree_evolves_inv [OF e2] s(3)]]
  note e4 = tree_evolves_then [OF e3 transfer_to_actor_evolves [OF tree_evolves_inv [OF e3] s(4)]]
  have "go_base_fee_burn ?o + go_miner_tip ?o + go_over_estimation_burn ?o + go_refund ?o = gas_cost"
    using sum by simp
  with e4 show ?thesis by (simp only:)
qed

section \<open>Applying a message\<close>

abbreviation pushed :: "StateTree \<Rightarrow> StateTree" where
  "pushed t \<equiv> t\<lparr>layers := layer_default # layers t\<rparr>"

lemma pushed_evolves:
  assumes "tree_inv t" "tree_evolves x k (pushed t) u"
  shows "\<exists>v. clear_snapshot u = (Inr (), v) \<and> tree_evolves x k t v"
proof -
  have ok: "tree_ok t" "layers t \<noteq> []" using tree_invD(1) [OF assms(1)] by (simp_all add: tree_ok_def)
  have u: "tree_inv u" "hamt u = hamt t" "tl (layers u) = layers t" "length (layers u) = Suc (length (layers t))"
    "evolves x k (hamt t) (view t) (view u)"
    using assms(2) snapshot_ok(3) [OF ok(1)] by (simp_all add: tree_evolves_def frame_def)
  then obtain l where l: "layers u = l # layers t" by (cases "layers u") auto
  obtain m ls where m: "layers t = m # ls" using ok(2) by (cases "layers t") auto
  from clear_snapshot_ok [OF tree_invD(1) [OF u(1)], of l m ls] l m obtain v where v:
    "clear_snapshot u = (Inr (), v)" "tree_ok v" "view v = view u" "hamt v = hamt u" "tl (layers v) = ls"
    "length (layers v) = Suc (length ls)" by auto
  then show ?thesis using u m tree_inv_cong [OF u(1) v(2,3)] by (simp add: tree_evolves_def frame_def)
qed

lemma revert_pushed:
  assumes "tree_inv t" "frame (pushed t) u"
  shows "revert_to_snapshot u = (Inr (), pushed t)"
proof -
  have "layers t \<noteq> []" using tree_invD(1) [OF assms(1)] by (simp add: tree_ok_def)
  moreover have u: "hamt u = hamt t" "tl (layers u) = layers t" "length (layers u) = Suc (length (layers t))"
    using assms(2) by (simp_all add: frame_def)
  then obtain l where "layers u = l # layers t" by (cases "layers u") auto
  ultimately show ?thesis
    using u by (cases "layers t") (simp_all add: revert_to_snapshot_def sm_bind_def on_layers_def add_layer_def)
qed

lemma should_burn_evolves:
  assumes "tree_inv t" "should_burn ep msg code t = (r, t')"
  shows "tree_evolves 0 uncounted t t'"
proof -
  from get_actor_ok [OF tree_invD [OF assms(1)], of "um_to (m_msg msg)"] obtain u where
    "get_actor (um_to (m_msg msg)) t = (Inr (Option.bind (resolve t (um_to (m_msg msg))) (view t)), u)"
    "read_eq t u" "tree_ok u" .
  with assms show ?thesis
    by (auto simp: should_burn_def sm_bind_def sm_simps intro: tree_evolves_refl tree_evolves_reads split: if_splits)
qed

text \<open>What one message does between the snapshot and its merge: the gas paid is handed out again.\<close>

lemma send_clo_evolves:
  assumes env: "env_ok env" and t: "tree_inv t" and run: "send_clo env ep msg gas_cost t = (Inr ret, u)"
  shows "tree_evolves gas_cost uncounted (pushed t) u"
proof -
  have ok: "tree_ok t" by (rule tree_invD [OF t])
  have p: "tree_inv (pushed t)" by (rule snapshot_inv [OF t])
  obtain r1 t1 where x: "exec_with_gas env ep msg (pushed t) = (r1, t1)"
    by (cases "exec_with_gas env ep msg (pushed t)")
  note e1 = exec_with_gas_evolves [OF env p x]
  have rev: "revert_to_snapshot t1 = (Inr (), pushed t)"
    by (rule revert_pushed [OF t]) (use e1 in \<open>simp add: tree_evolves_def\<close>)
  from run x obtain res used where r1: "r1 = Inr (res, used)"
    by (cases r1) (auto simp: send_clo_def sm_bind_def apply_tree_def snapshot_ok(1) [OF ok])
  obtain code t2 where t2: "tree_evolves 0 uncounted (pushed t) t2"
    and rest: "sm_bind (apply_tree (should_burn ep msg code)) (\<lambda>burn.
      sm_bind (settle_gas env msg gas_cost used burn) (\<lambda>out.
      sm_ret \<lparr>apr_return_data = (case res of Inr ret \<Rightarrow> ret | Inl _ \<Rightarrow> []), apr_exit_code = code,
              apr_gas_used = used, apr_act_error = (case res of Inl e \<Rightarrow> Some e | Inr _ \<Rightarrow> None),
              apr_penalty = go_miner_penalty out, apr_miner_tip = go_miner_tip out\<rparr>)) t2 = (Inr ret, u)"
  proof (cases "\<exists>e. res = Inl e \<and> exit_code e \<noteq> ExitOk")
    case True
    then obtain e where "res = Inl e" "exit_code e \<noteq> ExitOk" by blast
    then show thesis
      using run x r1 rev that [OF tree_evolves_refl [OF p], of "exit_code e"]
      by (simp add: send_clo_def sm_bind_def apply_tree_def snapshot_ok(1) [OF ok] sm_simps)
  next
    case False
    then show thesis
      using run x r1 that [OF e1, of ExitOk]
      by (auto simp: send_clo_def sm_bind_def apply_tree_def snapshot_ok(1) [OF ok] sm_simps split: sum.splits)
  qed
  from rest obtain burn t3 out where b: "apply_tree (should_burn ep msg code) t2 = (Inr burn, t3)"
    and s: "settle_gas env msg gas_cost used burn t3 = (Inr out, u)"
    by (auto simp: sm_bind_eq_Inr sm_simps)
  from b obtain q where "should_burn ep msg code t2 = (q, t3)"
    by (auto simp: apply_tree_def split: prod.splits sum.splits)
  note e3 = tree_evolves_then [OF t2 should_burn_evolves [OF tree_evolves_inv [OF t2] this]]
  from tree_evolves_then [OF e3 settle_gas_evolves [OF tree_evolves_inv [OF e3] s]] show ?thesis by simp
qed

lemma deduct_evolves:
  assumes "tree_inv t"
    and "mutate_actor a (\<lambda>act. map_option (\<lambda>a. a\<lparr>asequence := asequence a + 1\<rparr>) (deduct_funds act x)) t = (Inr (), t')"
  shows "\<exists>i. resolve t a = Some (ID i) \<and> tree_evolves (- x) (uncounted(ID i := 1)) t t'"
proof -
  have f: "acode act' = acode act \<and> adata act' = adata act \<and> asequence act' = asequence act + 1 \<and>
      abalance act' = abalance act + - x \<and> (0 \<le> abalance act \<longrightarrow> 0 \<le> abalance act')"
    if "map_option (\<lambda>a. a\<lparr>asequence := asequence a + 1\<rparr>) (deduct_funds act x) = Some act'" for act act'
    using that by (auto simp: deduct_funds_def split: if_splits)
  from mutate_actor_evolves [OF assms f] obtain i where
    "resolve t a = Some (ID i)" "tree_evolves (- x) (uncounted(ID i := 1)) t t'" .
  then show ?thesis by blast
qed

text \<open>
  A message is rejected without a change, or it is the next message of an account that can pay for
  its gas, and then the account's sequence number grows by one.
\<close>

definition applied :: "VmEnv \<Rightarrow> Message \<Rightarrow> StateTree \<Rightarrow> StateTree \<Rightarrow> bool" where
  "applied env msg t t' = (\<exists>i act. resolve t (um_from (m_msg msg)) = Some (ID i) \<and> view t (ID i) = Some act \<and>
     is_account_actor (acode act) \<and> asequence act = m_sequence msg \<and>
     m_gas_fee_cap msg * m_gas_limit msg \<le> abalance act \<and> ve_msg_cost env msg \<le> m_gas_limit msg \<and>
     0 < m_gas_limit msg \<and> tree_evolves 0 (uncounted(ID i := 1)) t t')"

lemma apply_message_cases:
  assumes env: "env_ok env" and t: "tree_inv t" and run: "apply_message env ep msg t = (Inr ret, t')"
  shows "(\<exists>code pen. ret = rejected code pen) \<and> read_eq t t' \<and> tree_ok t' \<or> applied env msg t t'"
proof -
  let ?from = "um_from (m_msg msg)" and ?cost = "m_gas_fee_cap msg * m_gas_limit msg"
  from get_actor_ok [OF tree_invD [OF t], of ?from] obtain u where u:
    "get_actor ?from t = (Inr (Option.bind (resolve t ?from) (view t)), u)" "read_eq t u" "tree_ok u" .
  have ui: "tree_inv u" using tree_inv_cong [OF t u(3)] u(2) by (simp add: read_eqD)
  have lim: "0 < m_gas_limit msg"
    using run by (auto simp: apply_message_def sm_bind_def sm_simps check_message_def split: if_splits)
  let ?m = "mutate_actor ?from (\<lambda>act. map_option (\<lambda>a. a\<lparr>asequence := asequence a + 1\<rparr>) (deduct_funds act ?cost))"
  have ev: "apply_message env ep msg t =
      (if m_gas_limit msg < ve_msg_cost env msg
       then (Inr (rejected SysErrOutOfGas (ve_base_fee env * ve_msg_cost env msg)), t)
       else case Option.bind (resolve t ?from) (view t) of
         None \<Rightarrow> (Inr (rejected SysErrSenderInvalid (ve_base_fee env * m_gas_limit msg)), u)
       | Some act \<Rightarrow>
           if \<not> is_account_actor (acode act) then (Inr (rejected SysErrSenderInvalid (ve_base_fee env * m_gas_limit msg)), u)
           else if m_sequence msg \<noteq> asequence act \<or> abalance act < ?cost
             then (Inr (rejected SysErrSenderStateInvalid (ve_base_fee env * m_gas_limit msg)), u)
           else sm_bind (apply_tree ?m) (\<lambda>_ t. case send_clo env ep msg ?cost t of
               (res, t1) \<Rightarrow> (case apply_tree clear_snapshot t1 of (Inl e, t2) \<Rightarrow> (Inl e, t2) | (Inr _, t2) \<Rightarrow> (res, t2))) u)"
    using lim u(1)
    by (auto simp: apply_message_def sm_bind_def sm_simps check_message_def Let_def split: option.splits)
  show ?thesis
  proof (cases "\<exists>act. Option.bind (resolve t ?from) (view t) = Some act \<and> is_account_actor (acode act) \<and>
      m_sequence msg = asequence act \<and> ?cost \<le> abalance act \<and> ve_msg_cost env msg \<le> m_gas_limit msg")
    case False
    then have "(ret = rejected SysErrOutOfGas (ve_base_fee env * ve_msg_cost env msg) \<and> t' = t) \<or>
        (\<exists>code pen. ret = rejected code pen \<and> t' = u)"
      using run by (auto simp: ev split: option.splits if_splits)
    then show ?thesis using u(2,3) tree_invD(1) [OF t] by auto
  next
    case True
    then obtain b act where act: "resolve t ?from = Some b" "view t b = Some act" "is_account_actor (acode act)"
      "m_sequence msg = asequence act" "?cost \<le> abalance act" "ve_msg_cost env msg \<le> m_gas_limit msg"
      by (auto simp: bind_eq_Some_conv)
    from resolve_ID_obtain [OF t act(1)] obtain i where i: "b = ID i" .
    from act run obtain t1 t2 where m: "?m u = (Inr (), t1)" and s: "send_clo env ep msg ?cost t1 = (Inr ret, t2)"
      and c: "clear_snapshot t2 = (Inr (), t')"
      by (auto simp: ev sm_bind_def apply_tree_def split: prod.splits sum.splits)
    from deduct_evolves [OF ui m] act(1) i u(2) have e1: "tree_evolves (- ?cost) (uncounted(ID i := 1)) u t1"
      by (auto simp: read_eqD)
    note i1 = tree_evolves_inv [OF e1]
    from pushed_evolves [OF i1 send_clo_evolves [OF env i1 s]] c have e2: "tree_evolves ?cost uncounted t1 t'" by auto
    have "tree_evolves 0 (uncounted(ID i := 1)) u t'" using tree_evolves_then [OF e1 e2] by simp
    from tree_evolves_trans [OF tree_evolves_reads [OF t u(3,2)] this]
    have "tree_evolves 0 (uncounted(ID i := 1)) t t'" by (simp add: fun_upd_def)
    then have "applied env msg t t'" unfolding applied_def using act i lim by auto
    then show ?thesis ..
  qed
qed

section \<open>Applying the messages of a tipset\<close>

text \<open>The tree of the machine after some messages: tokens and invariants are kept.\<close>

definition vm_kept :: "VM \<Rightarrow> VM \<Rightarrow> bool" where
  "vm_kept vm vm' = (\<exists>k. tree_evolves 0 k (vm_state vm) (vm_state vm'))"

abbreviation vm_inv :: "VM \<Rightarrow> bool" where
  "vm_inv vm \<equiv> tree_inv (vm_state vm)"

lemma vm_kept_inv: "vm_kept vm vm' \<Longrightarrow> vm_inv vm'"
  by (auto simp: vm_kept_def tree_evolves_def)

lemma vm_kept_refl: "vm_inv vm \<Longrightarrow> vm_kept vm vm"
  using tree_evolves_refl [of "vm_state vm"] by (auto simp: vm_kept_def)

lemma vm_kept_trans: "vm_kept a b \<Longrightarrow> vm_kept b c \<Longrightarrow> vm_kept a c"
  using tree_evolves_trans [of 0 _ _ _ 0] by (fastforce simp: vm_kept_def)

lemma implicit_kept:
  assumes "env_ok env" "vm_inv vm" "apply_implicit_message env msg seq vm = (ret, vm')"
  shows "vm_kept vm vm'"
proof -
  obtain q t where s: "vm_send env (vm_epoch vm) msg seq (vm_state vm) = (q, t)"
    by (cases "vm_send env (vm_epoch vm) msg seq (vm_state vm)")
  then have "vm_state vm' = t" using assms(3) by (cases q) (auto simp: apply_implicit_message_def)
  then show ?thesis
    using tree_evolves_rel [OF assms(2) vm_send_rel [OF assms(1,2) s]] unfolding vm_kept_def by blast
qed

lemma run_cron_kept: "env_ok env \<Longrightarrow> vm_inv vm \<Longrightarrow> vm_kept vm (run_cron env ep vm)"
  unfolding run_cron_def by (rule implicit_kept) (auto intro: prod.collapse [symmetric])

lemma vm_kept_epoch [simp]: "vm_kept vm (vm'\<lparr>vm_epoch := e\<rparr>) = vm_kept vm vm'"
  by (simp add: vm_kept_def)

lemma vm_apply_message_kept:
  assumes "env_ok env" "vm_inv vm" "vm_apply_message env msg vm = (Inr ret, vm')"
  shows "vm_kept vm vm'"
proof -
  from assms(3) have "apply_message env (vm_epoch vm) msg (vm_state vm) = (Inr ret, vm_state vm')"
    by (auto simp: vm_apply_message_def split: prod.splits)
  from apply_message_cases [OF assms(1,2) this] show ?thesis
    using tree_evolves_reads [OF assms(2)] by (auto simp: vm_kept_def applied_def)
qed

lemma null_rounds_kept:
  assumes env: "env_ok env"
  shows "vm_inv vm \<Longrightarrow> null_rounds env p k vm = (Inr (), vm') \<Longrightarrow>
    \<not> (p \<le> UPGRADE_ACTORS_V4_HEIGHT \<and> UPGRADE_ACTORS_V4_HEIGHT < p + int k) \<Longrightarrow> vm_kept vm vm'"
proof (induction k arbitrary: vm')
  case 0
  then show ?case by (simp add: sm_simps vm_kept_refl)
next
  case (Suc k)
  let ?i = "p + int k"
  from Suc.prems(3) have no: "?i \<noteq> UPGRADE_ACTORS_V4_HEIGHT"
    "\<not> (p \<le> UPGRADE_ACTORS_V4_HEIGHT \<and> UPGRADE_ACTORS_V4_HEIGHT < p + int k)" by auto
  from Suc.prems(2) no(1) obtain vm1 where vm1: "null_rounds env p k vm = (Inr (), vm1)"
    "vm' = (if p < ?i then run_cron env ?i vm1 else vm1)\<lparr>vm_epoch := ?i + 1\<rparr>"
    by (auto simp: sm_bind_eq_Inr sm_simps migrate_state_def Let_def)
  have k1: "vm_kept vm vm1" by (rule Suc.IH [OF Suc.prems(1) vm1(1) no(2)])
  show ?case
    using k1 vm_kept_trans [OF k1 run_cron_kept [OF env vm_kept_inv [OF k1], of ?i]] by (simp add: vm1(2))
qed

lemma apply_block_kept:
  assumes env: "env_ok env"
  shows "vm_inv vm \<Longrightarrow> apply_block env msgs acc vm = (Inr res, vm') \<Longrightarrow> vm_kept vm vm'"
proof (induction msgs arbitrary: acc vm)
  case Nil
  then show ?case by (simp add: sm_simps vm_kept_refl)
next
  case (Cons msg msgs)
  obtain receipts processed gas_reward penalty where acc: "acc = (receipts, processed, gas_reward, penalty)"
    by (cases acc)
  show ?case
  proof (cases "ve_msg_cid env msg \<in> set processed")
    case True
    then show ?thesis using Cons.IH [OF Cons.prems(1)] Cons.prems(2) by (simp add: acc)
  next
    case False
    then obtain ret vm1 acc' where vm1: "vm_apply_message env msg vm = (Inr ret, vm1)"
      "apply_block env msgs acc' vm1 = (Inr res, vm')"
      using Cons.prems(2) by (auto simp: acc sm_bind_eq_Inr)
    have k: "vm_kept vm vm1" by (rule vm_apply_message_kept [OF env Cons.prems(1) vm1(1)])
    show ?thesis by (rule vm_kept_trans [OF k Cons.IH [OF vm_kept_inv [OF k] vm1(2)]])
  qed
qed

lemma award_block_kept:
  assumes "env_ok env" "vm_inv vm" "award_block env ep block gas_reward penalty vm = (r, vm')"
  shows "vm_kept vm vm'"
  using assms(3) implicit_kept [OF assms(1,2)]
  by (auto simp: award_block_def split: prod.splits if_splits)

lemma apply_blocks_kept:
  assumes env: "env_ok env"
  shows "vm_inv vm \<Longrightarrow> apply_blocks env ep blocks acc vm = (Inr res, vm') \<Longrightarrow> vm_kept vm vm'"
proof (induction blocks arbitrary: acc vm)
  case Nil
  then show ?case by (simp add: sm_simps vm_kept_refl)
next
  case (Cons block blocks)
  from Cons.prems(2) obtain o1 vm1 x y vm2 acc' where s:
    "apply_block env (bm_messages block) (fst acc, snd acc, 0, 0) vm = (Inr o1, vm1)"
    "award_block env ep block x y vm1 = (Inr (), vm2)"
    "apply_blocks env ep blocks acc' vm2 = (Inr res, vm')"
    by (auto simp: sm_bind_eq_Inr split: prod.splits if_splits)
  note k1 = apply_block_kept [OF env Cons.prems(1) s(1)]
  note k2 = vm_kept_trans [OF k1 award_block_kept [OF env vm_kept_inv [OF k1] s(2)]]
  show ?case by (rule vm_kept_trans [OF k2 Cons.IH [OF vm_kept_inv [OF k2] s(3)]])
qed

lemma apply_block_messages_kept:
  assumes env: "env_ok env" and vm: "vm_inv vm"
    and run: "apply_block_messages env messages p ep vm = (Inr receipts, vm')"
    and no: "\<not> (p \<le> UPGRADE_ACTORS_V4_HEIGHT \<and> UPGRADE_ACTORS_V4_HEIGHT < ep)"
  shows "vm_kept vm vm'"
proof -
  from run obtain vm1 vm2 where s: "null_rounds env p (nat (ep - p)) vm = (Inr (), vm1)"
    "apply_blocks env ep messages ([], []) vm1 = (Inr receipts, vm2)" "vm' = run_cron env ep vm2"
    by (auto simp: apply_block_messages_def sm_bind_eq_Inr sm_simps)
  note k1 = null_rounds_kept [OF env vm s(1)]
  have k1: "vm_kept vm vm1" by (rule k1) (use no in auto)
  note k2 = vm_kept_trans [OF k1 apply_blocks_kept [OF env vm_kept_inv [OF k1] s(2)]]
  show ?thesis unfolding s(3) by (rule vm_kept_trans [OF k2 run_cron_kept [OF env vm_kept_inv [OF k2]]])
qed

section \<open>Gas\<close>



lemma sdiv_nonneg: "0 \<le> (a :: int) \<Longrightarrow> 0 \<le> b \<Longrightarrow> a sdiv b = a div b"
  by (simp add: signed_divide_int_def sgn_if)



section \<open>A small tipset\<close>

definition sample_env :: VmEnv where
  "sample_env = \<lparr>ve_acts = sample_acts, ve_ext = sample_ext, ve_network_version = (\<lambda>_. 14), ve_base_fee = 2,
     ve_msg_cost = (\<lambda>_. 10), ve_charges = (\<lambda>_ _. [5, 15]), ve_msg_cid = (\<lambda>m. m_sequence m),
     ve_ser_award = (\<lambda>_. []), ve_migrate = (\<lambda>_ _. None)\<rparr>"

definition sample_message :: "Address \<Rightarrow> TokenAmount \<Rightarrow> Message" where
  "sample_message a x = \<lparr>m_msg = \<lparr>um_from = ID 100, um_to = a, um_method_num = METHOD_SEND, um_value = x,
     um_params = []\<rparr>, m_sequence = 0, m_gas_limit = 50, m_gas_fee_cap = 4, m_gas_premium = 1\<rparr>"

lemma sample_env_ok: "env_ok sample_env"
  by (simp add: env_ok_def sample_env_def sample_code_ok)

lemma sample_hamt [simp]: "hamt sample_tree = sample_table" "view sample_tree = sample_table"
  by (simp_all add: sample_tree_def) (simp add: tree_new_def)

lemma sample_base_ok: "base_ok sample_table"
  by (auto simp: base_ok_def sample_states init_ok_def reward_ok_def sample_multisig_ok split: if_splits)

lemma sample_channels_empty: "channels_empty sample_table"
  by (auto simp: channels_empty_def sample_states split: if_splits)

lemma sample_ledger_ok: "ledger_ok sample_table"
  by (auto simp: ledger_ok_def sample_states init_ok_def reward_ok_def sample_multisig_ok split: if_splits)

lemmas apply_simps = apply_message_def check_message_def apply_tree_def mutate_actor_def send_clo_def exec_with_gas_def
  vm_send_def runtime_new_def settle_gas_def compute_gas_outputs_def compute_gas_overestimation_burn_def
  GAS_OVERUSE_NUM_def GAS_OVERUSE_DENOM_def transfer_to_actor_def should_burn_def charge_gas_def send_simps
  BURNT_FUNDS_ACTOR_ADDR_def REWARD_ACTOR_ADDR_def Let_def UPGRADE_CLAUS_HEIGHT_def UPGRADE_ACTORS_V4_HEIGHT_def

lemma sample_apply:
  "\<exists>t'. apply_message sample_env 10 (sample_message (ID 101) 9) sample_tree =
     (Inr \<lparr>apr_return_data = [], apr_exit_code = ExitOk, apr_gas_used = 30, apr_act_error = None,
       apr_penalty = 0, apr_miner_tip = 50\<rparr>, t')"
  by (simp add: apply_simps sample_env_def sample_message_def sample_defs sdiv_nonneg)


definition sample_block :: BlockMessages where
  "sample_block = \<lparr>bm_miner = ID 101, bm_messages = [sample_message (ID 101) 9], bm_win_count = 1\<rparr>"

lemma nested_fuel:
  "execute_send acts ext MAX_CALL_DEPTH = execute_send_body acts ext (execute_send acts ext 4095)"
  "\<not> MAX_CALL_DEPTH < Suc (Suc 0)"
proof -
  have m: "MAX_CALL_DEPTH = Suc 4095" by (simp add: MAX_CALL_DEPTH_def)
  show "execute_send acts ext MAX_CALL_DEPTH = execute_send_body acts ext (execute_send acts ext 4095)"
    unfolding m execute_send.simps by simp
  show "\<not> MAX_CALL_DEPTH < Suc (Suc 0)" unfolding m by simp
qed

lemmas award_simps = invoke_def sample_acts_def reward_invoke_method_def award_block_reward_def METHOD_CONSTRUCTOR_def
  actor_version_of_def deserialize_params_def validate_immediate_caller_is_def abort_if_already_validated_def
  caller_def rt_current_balance_def receiver_def get_balance_def rt_transaction_def guarded_def award_transaction_def
  EXPECTED_LEADERS_PER_EPOCH_def state_commit_def rt_try_def rt_send_def nested_fuel account_invoke_method_def

lemma sample_tipset:
  "\<exists>vm'. apply_block_messages sample_env [sample_block] 9 10 \<lparr>vm_state = sample_tree, vm_epoch = 9\<rparr> =
     (Inr [\<lparr>apr_return_data = [], apr_exit_code = ExitOk, apr_gas_used = 30, apr_act_error = None,
       apr_penalty = 0, apr_miner_tip = 50\<rparr>], vm')"
  by (simp add: apply_block_messages_def award_block_def apply_implicit_message_def migrate_state_def
    vm_apply_message_def sample_block_def apply_simps award_simps SYSTEM_ACTOR_ADDR_def
    sample_env_def sample_message_def sample_defs sdiv_nonneg)


section \<open>Properties\<close>

text \<open>C24. 
  Applying a tipset destroys no tokens and keeps the invariants.  Let the actors of the base table and of the current table have
  non-negative balances and states that satisfy their invariants.  When the messages of a tipset (null rounds with
  their cron runs, the messages of every block with gas payments, block rewards, and the final cron
  run; no state migration in between) are applied without an error, the sum of all balances is at least what
  it was, and exactly what it was if the payment channels stored in the base table have balance zero (a collected channel
  with a balance there is read again with that balance, so tokens are created).  No balance is
  negative, and the state of every actor satisfies the invariant of its type:
  multisig signers, thresholds and approvals, payment channel debts and settlement heights, disjoint
  verifiers and clients, identifiers of the init actor and baseline sums of the reward actor.
\<close>

theorem apply_block_messages_ledger:
  assumes "env_ok env" "tree_inv (vm_state vm)" "base_ok (hamt (vm_state vm))" "ledger_ok (view (vm_state vm))"
    and "\<not> (parent_epoch \<le> UPGRADE_ACTORS_V4_HEIGHT \<and> UPGRADE_ACTORS_V4_HEIGHT < ep)"
    and "apply_block_messages env messages parent_epoch ep vm = (Inr receipts, vm')"
  shows "tokens (view (vm_state vm)) \<le> tokens (view (vm_state vm')) \<and>
    (channels_empty (hamt (vm_state vm)) \<longrightarrow> tokens (view (vm_state vm')) = tokens (view (vm_state vm))) \<and>
    ledger_ok (view (vm_state vm')) \<and> tree_inv (vm_state vm') \<and> hamt (vm_state vm') = hamt (vm_state vm)"
  using apply_block_messages_kept [OF assms(1,2,6,5)] assms(3,4)
  by (auto simp: vm_kept_def tree_evolves_def evolves_def frame_def)

theorem apply_block_messages_ledger_witness:
  "\<exists>receipts vm'. apply_block_messages sample_env [sample_block] 9 10 \<lparr>vm_state = sample_tree, vm_epoch = 9\<rparr>
      = (Inr receipts, vm') \<and> length receipts = 1 \<and> tokens (view (vm_state vm')) = tokens sample_table"
proof -
  from sample_tipset obtain vm' where run:
    "apply_block_messages sample_env [sample_block] 9 10 \<lparr>vm_state = sample_tree, vm_epoch = 9\<rparr> =
     (Inr [\<lparr>apr_return_data = [], apr_exit_code = ExitOk, apr_gas_used = 30, apr_act_error = None,
       apr_penalty = 0, apr_miner_tip = 50\<rparr>], vm')" by blast
  have "tokens (view (vm_state vm')) = tokens sample_table"
    using apply_block_messages_ledger [OF sample_env_ok _ _ _ _ run] sample_tree_inv sample_base_ok sample_ledger_ok
      sample_channels_empty
    by (simp add: UPGRADE_ACTORS_V4_HEIGHT_def)
  with run show ?thesis by auto
qed

text \<open>C25. 
  A message takes effect at most once.  When the same message is applied twice in a row, the first
  application or the second one is a rejection that leaves every actor as it was: an applied message
  has the sequence number of its sender, which then grows by one (the sender is an account of the
  base table, and its address still resolves to it).
\<close>

theorem apply_message_once:
  assumes "env_ok env" "tree_inv t"
    and "resolve t (um_from (m_msg msg)) = Some (ID i)" "hamt t (ID i) = Some b" "\<not> is_paych_code (acode b)"
    and "apply_message env ep msg t = (Inr ret, t')" "resolve t' (um_from (m_msg msg)) = Some (ID i)"
    and "apply_message env ep' msg t' = (Inr ret', t'')"
  shows "view t' = view t \<and> (\<exists>code pen. ret = rejected code pen) \<or>
    view t'' = view t' \<and> (\<exists>code pen. ret' = rejected code pen)"
proof -
  from apply_message_cases [OF assms(1,2,6)] show ?thesis
  proof
    assume a: "applied env msg t t'"
    with assms(3) obtain act where act: "view t (ID i) = Some act" "asequence act = m_sequence msg"
      and e: "tree_evolves 0 (uncounted(ID i := 1)) t t'" by (auto simp: applied_def)
    then obtain act' where act': "view t' (ID i) = Some act'" "asequence act' = asequence act + 1"
      using assms(4,5) by (fastforce simp: tree_evolves_def evolves_def counts_def)
    have "\<not> applied env msg t' t''" using act act' assms(7) by (auto simp: applied_def)
    with apply_message_cases [OF assms(1) tree_evolves_inv [OF e] assms(8)] show ?thesis
      by (auto simp: read_eqD)
  qed (auto simp: read_eqD)
qed

theorem apply_message_once_witness:
  "\<exists>ret t' ret' t''. apply_message sample_env 10 (sample_message (ID 101) 9) sample_tree = (Inr ret, t') \<and>
     apply_message sample_env 10 (sample_message (ID 101) 9) t' = (Inr ret', t'') \<and>
     apr_exit_code ret = ExitOk \<and> apr_exit_code ret' = SysErrSenderStateInvalid \<and> view t'' = view t'"
proof -
  let ?m = "sample_message (ID 101) 9"
  have two: "\<exists>t' ret' t''. apply_message sample_env 10 ?m sample_tree =
       (Inr \<lparr>apr_return_data = [], apr_exit_code = ExitOk, apr_gas_used = 30, apr_act_error = None,
         apr_penalty = 0, apr_miner_tip = 50\<rparr>, t') \<and>
     apply_message sample_env 10 ?m t' = (Inr ret', t'') \<and> apr_exit_code ret' = SysErrSenderStateInvalid"
    by (simp add: apply_simps sample_env_def sample_message_def sample_defs sdiv_nonneg rejected_def)
  then obtain t' ret' t'' where run: "apply_message sample_env 10 ?m sample_tree =
       (Inr \<lparr>apr_return_data = [], apr_exit_code = ExitOk, apr_gas_used = 30, apr_act_error = None,
         apr_penalty = 0, apr_miner_tip = 50\<rparr>, t')"
     "apply_message sample_env 10 ?m t' = (Inr ret', t'')" "apr_exit_code ret' = SysErrSenderStateInvalid" by blast
  have "view t'' = view t'"
    using apply_message_once [OF sample_env_ok sample_tree_inv _ _ _ run(1) _ run(2), of 100]
    by (auto simp: sample_message_def sample_defs rejected_def tree_new_def)
  with run show ?thesis by auto
qed

text \<open>C28. 
  Actors keep their code and the type of their state.  Applying a message changes the code of no actor
  of the base table that is not a payment channel, and the state of such an actor, once it has one,
  stays of the same type; its sequence number changes only if it is the sender of the message.
\<close>

theorem apply_message_types:
  assumes "env_ok env" "tree_inv t" "apply_message env ep msg t = (Inr ret, t')"
    and "hamt t a = Some b" "\<not> is_paych_code (acode b)" "view t a = Some act"
  shows "\<exists>act'. view t' a = Some act' \<and> acode act' = acode act \<and>
    (data_kind (adata act) \<noteq> EmptyKind \<longrightarrow> data_kind (adata act') = data_kind (adata act)) \<and>
    (resolve t (um_from (m_msg msg)) \<noteq> Some a \<longrightarrow> asequence act' = asequence act)"
  using apply_message_cases [OF assms(1-3)]
proof
  assume "applied env msg t t'"
  then obtain i where "resolve t (um_from (m_msg msg)) = Some (ID i)" "counts (uncounted(ID i := 1)) (hamt t) (view t) (view t')"
    by (auto simp: applied_def tree_evolves_def evolves_def)
  with assms(4-6) show ?thesis by (fastforce simp: counts_def kept_kind_def)
qed (use assms(6) in \<open>auto simp: read_eqD\<close>)

theorem apply_message_types_witness:
  "\<exists>ret t' act'. apply_message sample_env 10 (sample_message (ID 101) 9) sample_tree = (Inr ret, t') \<and>
     view t' (ID 101) = Some act' \<and> acode act' = Builtin V6 AccountActor \<and> data_kind (adata act') = AccountKind \<and>
     asequence act' = 0"
proof -
  from sample_apply obtain t' where run: "apply_message sample_env 10 (sample_message (ID 101) 9) sample_tree =
     (Inr \<lparr>apr_return_data = [], apr_exit_code = ExitOk, apr_gas_used = 30, apr_act_error = None,
       apr_penalty = 0, apr_miner_tip = 50\<rparr>, t')" by blast
  show ?thesis
    using run apply_message_types [OF sample_env_ok sample_tree_inv run, of "ID 101"]
    by (auto simp: sample_table_def sample_account_def ActorState_new_def sample_message_def)
qed



end
