(* ===== verification/Vm_Fuel.thy ===== *)
theory Vm_Fuel
  imports Vm_Safety
begin

text \<open>
  The fuel of \<open>execute_send\<close> is enough: at call depth \<open>d\<close> the code never sends deeper than
  \<open>MAX_CALL_DEPTH\<close>, so with fuel for the remaining levels the result is that of any larger fuel.  The
  proof is a congruence: two send functions that agree at a depth make every actor method agree
  there.
\<close>

named_theorems agree_laws \<open>congruence of runtime computations in the send function\<close>

section \<open>Computations that agree at a call depth\<close>

definition lvl :: "nat \<Rightarrow> Runtime \<Rightarrow> bool" where
  "lvl d rt = (depth rt = d \<and> 6 \<le> version rt)"

definition agree :: "nat \<Rightarrow> 'a rtm \<Rightarrow> 'a rtm \<Rightarrow> bool" where
  "agree d m m' = (\<forall>rt. lvl d rt \<longrightarrow> m' rt = m rt \<and> lvl d (snd (m rt)))"

definition same_sends :: "nat \<Rightarrow> send_fn \<Rightarrow> send_fn \<Rightarrow> bool" where
  "same_sends d e e' = (\<forall>msg. agree d (e msg) (e' msg))"

lemma agreeD: "agree d m m' \<Longrightarrow> lvl d rt \<Longrightarrow> m' rt = m rt" "agree d m m' \<Longrightarrow> lvl d rt \<Longrightarrow> lvl d (snd (m rt))"
  by (simp_all add: agree_def)

lemma agree_bind [agree_laws]:
  assumes "agree d m m'" "\<And>x. agree d (k x) (k' x)"
  shows "agree d (sm_bind m k) (sm_bind m' k')"
  unfolding agree_def
proof (intro allI impI)
  fix rt
  assume "lvl d rt"
  then have m: "m' rt = m rt" "lvl d (snd (m rt))" using assms(1) by (simp_all add: agreeD)
  show "sm_bind m' k' rt = sm_bind m k rt \<and> lvl d (snd (sm_bind m k rt))"
    using m agreeD [OF assms(2)] by (auto simp: sm_bind_def split: prod.splits sum.splits)
qed

lemma agree_pure [agree_laws]:
  "agree d (sm_ret x) (sm_ret x)" "agree d (sm_err e) (sm_err e)" "agree d (sm_lift l) (sm_lift l)"
  "agree d (sm_get g) (sm_get g)" "agree d (sm_when b e) (sm_when b e)"
  by (simp_all add: agree_def sm_simps)

lemma agree_same: "sm_keeps rt_same m \<Longrightarrow> agree d m m"
proof -
  assume "sm_keeps rt_same m"
  then have "rt_same rt (snd (m rt))" for rt using sm_keepsD [of rt_same m rt "fst (m rt)" "snd (m rt)"] by simp
  then show ?thesis by (auto simp: agree_def lvl_def rt_same_def)
qed

lemma agree_if [agree_laws]:
  "(b \<Longrightarrow> agree d m m') \<Longrightarrow> (\<not> b \<Longrightarrow> agree d n n') \<Longrightarrow> agree d (if b then m else n) (if b then m' else n')"
  by simp

lemma agree_option [agree_laws]:
  "agree d m m' \<Longrightarrow> (\<And>y. agree d (n y) (n' y)) \<Longrightarrow>
   agree d (case x of None \<Rightarrow> m | Some y \<Rightarrow> n y) (case x of None \<Rightarrow> m' | Some y \<Rightarrow> n' y)"
  by (cases x) simp_all

lemma agree_sum [agree_laws]:
  "(\<And>y. agree d (m y) (m' y)) \<Longrightarrow> (\<And>y. agree d (n y) (n' y)) \<Longrightarrow>
   agree d (case x of Inl y \<Rightarrow> m y | Inr y \<Rightarrow> n y) (case x of Inl y \<Rightarrow> m' y | Inr y \<Rightarrow> n' y)"
  by (cases x) simp_all

lemma agree_prod [agree_laws]:
  "(\<And>y z. agree d (m y z) (m' y z)) \<Longrightarrow> agree d (case x of (y, z) \<Rightarrow> m y z) (case x of (y, z) \<Rightarrow> m' y z)"
  by (cases x) simp

lemma agree_Let [agree_laws]: "(\<And>y. agree d (m y) (m' y)) \<Longrightarrow> agree d (let y = x in m y) (let y = x in m' y)"
  by simp

lemma agree_try [agree_laws]: "agree d m m' \<Longrightarrow> agree d (rt_try m) (rt_try m')"
  by (auto simp: agree_def rt_try_def split: prod.splits)

lemma agree_on_tree [agree_laws]: "agree d (on_tree conv f) (on_tree conv f)"
  by (rule agree_same [OF same_on_tree])

lemma agree_reads: "sm_keeps rt_reads m \<Longrightarrow> agree d m m"
  by (rule agree_same [OF keeps_reads_same])

lemmas agree_reading [agree_laws] =
  reads_resolve_address [THEN agree_reads] reads_code_cid [THEN agree_reads]
  reads_current_balance [THEN agree_reads] reads_state [THEN agree_reads]
  reads_verify_signature [THEN agree_reads] reads_deserialize [THEN agree_reads]
  reads_new_actor_address [THEN agree_reads] reads_validate [THEN agree_reads]

lemma agree_commit [agree_laws]: "agree d (state_commit old new) (state_commit old new)"
  by (rule agree_same [OF same_state_commit])

lemma agree_create [agree_laws]: "agree d (rt_create obj) (rt_create obj)"
  unfolding rt_create_def by (rule agree_commit)

lemma agree_transfer [agree_laws]: "agree d (transfer a b x) (transfer a b x)"
  unfolding transfer_def by (intro agree_laws)

lemma agree_create_actor [agree_laws]: "agree d (rt_create_actor c a) (rt_create_actor c a)"
proof -
  have f: "agree d f f" if f: "\<forall>rt. \<exists>t. snd (f rt) = rt\<lparr>rt_tree := t\<rparr>" for f :: "bool rtm"
    unfolding agree_def
  proof (intro allI impI conjI refl)
    fix rt :: Runtime
    assume "lvl d rt"
    moreover from f obtain t where "snd (f rt) = rt\<lparr>rt_tree := t\<rparr>" by blast
    ultimately show "lvl d (snd (f rt))" by (simp add: lvl_def)
  qed
  show ?thesis unfolding rt_create_actor_def by (intro agree_laws f) (auto split: prod.splits)
qed

lemma agree_delete_actor [agree_laws]: "agree d (rt_delete_actor b) (rt_delete_actor b)"
  unfolding rt_delete_actor_def by (intro agree_laws)

lemma agree_guarded [agree_laws]:
  assumes "agree d m m'"
  shows "agree d (guarded m) (guarded m')"
  unfolding agree_def
proof (intro allI impI)
  fix rt
  assume "lvl d rt"
  then have "lvl d (rt\<lparr>allow_internal := False\<rparr>)" by (simp add: lvl_def)
  from agreeD [OF assms this] show "guarded m' rt = guarded m rt \<and> lvl d (snd (guarded m rt))"
    by (auto simp: guarded_def lvl_def split: prod.splits)
qed

lemma agree_transaction [agree_laws]:
  assumes "\<And>st. agree d (f st) (f' st)"
  shows "agree d (rt_transaction proj emb f) (rt_transaction proj emb f')"
  unfolding rt_transaction_def by (intro agree_laws assms)

lemma agree_internal_send [agree_laws]:
  assumes "same_sends d e e'"
  shows "agree d (internal_send e a b mt x p) (internal_send e' a b mt x p)"
proof -
  let ?msg = "\<lparr>um_from = a, um_to = b, um_method_num = mt, um_value = x, um_params = p\<rparr>"
  let ?f = "\<lambda>e rt. case e ?msg rt of
          (Inr ret, rt') \<Rightarrow> (Inr (Inr ret), rt')
        | (Inl e, rt') \<Rightarrow>
            (case revert_to_snapshot (rt_tree rt') of
               (Inl _, t) \<Rightarrow> (Inr (Inl new_fatal), rt'\<lparr>rt_tree := t\<rparr>)
             | (Inr _, t) \<Rightarrow> (Inr (Inl e), rt'\<lparr>rt_tree := t\<rparr>))"
  have "agree d (?f e) (?f e')"
    unfolding agree_def
  proof (intro allI impI)
    fix rt
    assume rt: "lvl d rt"
    have "agree d (e ?msg) (e' ?msg)" using assms by (simp add: same_sends_def)
    from agreeD [OF this rt] show "?f e' rt = ?f e rt \<and> lvl d (snd (?f e rt))"
      by (auto simp: lvl_def split: prod.splits sum.splits)
  qed
  then show ?thesis unfolding internal_send_def by (intro agree_laws)
qed

lemma agree_send [agree_laws]: "same_sends d e e' \<Longrightarrow> agree d (rt_send e b mt p x) (rt_send e' b mt p x)"
  unfolding rt_send_def by (intro agree_laws)

lemma agree_resolve_to_id [agree_laws]:
  "same_sends d e e' \<Longrightarrow> agree d (resolve_to_id_addr e a) (resolve_to_id_addr e' a)"
  unfolding resolve_to_id_addr_def by (intro agree_laws)

section \<open>The actors\<close>

lemma agree_system [agree_laws]: "agree d (system_invoke_method mt p) (system_invoke_method mt p)"
  unfolding system_invoke_method_def system_constructor_def by (intro agree_laws)

lemma agree_Protocol [agree_laws]:
  "agree d k k' \<Longrightarrow> agree d l l' \<Longrightarrow> agree d m m' \<Longrightarrow> agree d n n' \<Longrightarrow>
   agree d (case x of PID \<Rightarrow> k | PSecp256k1 \<Rightarrow> l | PActor \<Rightarrow> m | PBLS \<Rightarrow> n)
     (case x of PID \<Rightarrow> k' | PSecp256k1 \<Rightarrow> l' | PActor \<Rightarrow> m' | PBLS \<Rightarrow> n')"
  by (cases x) simp_all

lemma agree_account [agree_laws]: "agree d (account_invoke_method cd mt p) (account_invoke_method cd mt p)"
  unfolding account_invoke_method_def account_constructor_def pubkey_address_def by (intro agree_laws)

lemma agree_init [agree_laws]:
  "same_sends d e e' \<Longrightarrow> agree d (init_invoke_method cd ext e mt p) (init_invoke_method cd ext e' mt p)"
  unfolding init_invoke_method_def init_constructor_def init_exec_def by (intro agree_laws)

lemma agree_cron_entries [agree_laws]:
  "same_sends d e e' \<Longrightarrow> agree d (cron_send_entries e es) (cron_send_entries e' es)"
  by (induction es) (auto intro!: agree_laws)

lemma agree_cron [agree_laws]:
  "same_sends d e e' \<Longrightarrow> agree d (cron_invoke_method de e mt p) (cron_invoke_method de e' mt p)"
  unfolding cron_invoke_method_def cron_constructor_def epoch_tick_def by (intro agree_laws)

lemma agree_msig_update [agree_laws]: "agree d (msig_update f) (msig_update f)"
  by (intro agree_laws)

lemma agree_resolve_signers [agree_laws]:
  "same_sends d e e' \<Longrightarrow> agree d (resolve_signers e ss rs) (resolve_signers e' ss rs)"
  by (induction ss arbitrary: rs) (auto intro!: agree_laws)

lemma agree_execute [agree_laws]:
  "same_sends d e e' \<Longrightarrow>
   agree d (execute_transaction_if_approved e st i txn) (execute_transaction_if_approved e' st i txn)"
  unfolding execute_transaction_if_approved_def by (intro agree_laws)

lemma agree_approve_transaction [agree_laws]:
  "same_sends d e e' \<Longrightarrow> agree d (approve_transaction e i txn) (approve_transaction e' i txn)"
  unfolding approve_transaction_def by (intro agree_laws)

lemma agree_multisig [agree_laws]:
  "same_sends d e e' \<Longrightarrow> agree d (multisig_invoke_method cd ext e mt p) (multisig_invoke_method cd ext e' mt p)"
  unfolding multisig_invoke_method_def msig_constructor_def propose_def approve_def cancel_def add_signer_def
    remove_signer_def swap_signer_def change_num_approvals_threshold_def lock_balance_def
  by (intro agree_laws)

lemma agree_paych [agree_laws]:
  "same_sends d e e' \<Longrightarrow> agree d (paych_invoke_method cd ext e mt p) (paych_invoke_method cd ext e' mt p)"
  unfolding paych_invoke_method_def paych_constructor_def update_channel_state_def settle_def collect_def
    resolve_account_def
  by (intro agree_laws)

lemma agree_verifreg [agree_laws]:
  "same_sends d e e' \<Longrightarrow> agree d (verifreg_invoke_method cd e mt p) (verifreg_invoke_method cd e' mt p)"
  unfolding verifreg_invoke_method_def verifreg_constructor_def add_verifier_def remove_verifier_def
    add_verified_client_def use_bytes_def restore_bytes_def vr_update_def
  by (intro agree_laws)

lemma agree_reward [agree_laws]:
  "same_sends d e e' \<Longrightarrow> agree d (reward_invoke_method cd e mt p) (reward_invoke_method cd e' mt p)"
  unfolding reward_invoke_method_def reward_constructor_def award_block_reward_def this_epoch_reward_method_def
    update_network_kpi_def
  by (intro agree_laws)

section \<open>Messages\<close>

text \<open>
  The assumption on actor code that is not modelled: it uses the send function only by calling it on
  its own runtime.
\<close>

definition code_uniform :: "Actors \<Rightarrow> bool" where
  "code_uniform acts = (\<forall>d e e' method params. same_sends d e e' \<longrightarrow>
     agree d (power_code acts e method params) (power_code acts e' method params) \<and>
     agree d (miner_code acts e method params) (miner_code acts e' method params) \<and>
     agree d (market_code acts e method params) (market_code acts e' method params) \<and>
     (\<forall>av c m. legacy_code acts av c = Some m \<longrightarrow> agree d (m e method params) (m e' method params)))"

lemma agree_invoke_code:
  assumes "code_uniform acts" "same_sends d e e'"
  shows "rel_option (agree d) (invoke_code acts ext e c mt p) (invoke_code acts ext e' c mt p)"
proof (cases "(acts, ext, e, c, mt, p)" rule: invoke_code.cases)
  case (1 acts' ext' exec' kind mt' p')
  then show ?thesis using assms by (cases kind) (auto intro!: agree_laws simp: code_uniform_def)
qed auto

lemma agree_invoke [agree_laws]:
  assumes "code_uniform acts" "same_sends d e e'"
  shows "agree d (invoke acts ext e c mt p) (invoke acts ext e' c mt p)"
proof -
  have "agree d
     (case (if actor_version_of v = V6 then invoke_code acts ext e c mt p
            else map_option (\<lambda>m. m e mt p) (legacy_code acts (actor_version_of v) c)) of
        Some m \<Rightarrow> m | None \<Rightarrow> sm_err (actor_error SysErrIllegalActor))
     (case (if actor_version_of v = V6 then invoke_code acts ext e' c mt p
            else map_option (\<lambda>m. m e' mt p) (legacy_code acts (actor_version_of v) c)) of
        Some m \<Rightarrow> m | None \<Rightarrow> sm_err (actor_error SysErrIllegalActor))" for v
  proof (cases "actor_version_of v = V6")
    case True
    then show ?thesis
      using agree_invoke_code [OF assms, of ext c mt p] by (auto simp: agree_pure split: option.split)
  next
    case False
    have "agree d (m e mt p) (m e' mt p)" if "legacy_code acts (actor_version_of v) c = Some m" for m
      using assms that unfolding code_uniform_def by blast
    then show ?thesis
      using False by (auto simp: agree_pure split: option.split)
  qed
  then show ?thesis unfolding invoke_def by (intro agree_laws)
qed

lemma agree_set_receiver [agree_laws]:
  "agree d (sm_upd (\<lambda>rt. if 3 < version rt then rt\<lparr>vm_msg := (vm_msg rt)\<lparr>msg_receiver := x\<rparr>\<rparr> else rt))
     (sm_upd (\<lambda>rt. if 3 < version rt then rt\<lparr>vm_msg := (vm_msg rt)\<lparr>msg_receiver := x\<rparr>\<rparr> else rt))"
  by (simp add: agree_def sm_simps lvl_def)

lemma agree_run_message [agree_laws]:
  assumes "code_uniform acts" "same_sends d e e'"
  shows "agree d (run_message acts ext e msg) (run_message acts ext e' msg)"
  unfolding run_message_def try_create_account_actor_def by (intro agree_laws assms)

lemma agree_nested:
  assumes "agree (Suc d) m m'"
  shows "agree d (nested c r v m) (nested c r v m')"
  unfolding agree_def
proof (intro allI impI)
  fix rt :: Runtime
  assume rt: "lvl d rt"
  let ?rt = "rt\<lparr>depth := depth rt + 1, caller_validated := False,
    vm_msg := \<lparr>msg_caller = c, msg_receiver = r, msg_value_received = v\<rparr>\<rparr>"
  have "lvl (Suc d) ?rt" using rt by (simp add: lvl_def)
  from agreeD(1) [OF assms this] rt
  show "nested c r v m' rt = nested c r v m rt \<and> lvl d (snd (nested c r v m rt))"
    by (auto simp: nested_def lvl_def split: prod.splits)
qed

lemma agree_execute_send_body:
  assumes "code_uniform acts" "same_sends (Suc d) e e'"
  shows "agree d (execute_send_body acts ext e msg) (execute_send_body acts ext e' msg)"
  unfolding execute_send_body_def by (intro agree_laws agree_nested assms)

lemma too_deep:
  assumes "MAX_CALL_DEPTH \<le> d"
  shows "agree d (execute_send_body acts ext e msg) (execute_send_body acts ext e' msg)"
  using assms unfolding agree_def lvl_def execute_send_body_def by (auto simp: sm_bind_def sm_simps)

lemma execute_send_fuel:
  assumes "code_uniform acts"
  shows "MAX_CALL_DEPTH - d < n \<Longrightarrow> MAX_CALL_DEPTH - d < n' \<Longrightarrow>
    same_sends d (execute_send acts ext n) (execute_send acts ext n')"
proof (induction "MAX_CALL_DEPTH - d" arbitrary: d n n')
  case 0
  then obtain k k' where "n = Suc k" "n' = Suc k'" by (cases n; cases n') auto
  then show ?case using 0(1) by (auto simp: same_sends_def intro: too_deep)
next
  case (Suc j)
  then obtain k k' where n: "n = Suc k" "n' = Suc k'" by (cases n; cases n') auto
  have "same_sends (Suc d) (execute_send acts ext k) (execute_send acts ext k')"
    by (rule Suc(1)) (use Suc(2-4) n in auto)
  then show ?case using n by (auto simp: same_sends_def intro!: agree_execute_send_body [OF assms])
qed

section \<open>Properties\<close>

lemma sample_code_uniform: "code_uniform sample_acts"
  by (auto simp: code_uniform_def sample_acts_def intro: agree_laws)

text \<open>C27. 
  Executing a message returns: the code refuses to call deeper than \<open>MAX_CALL_DEPTH\<close>, so a recursion
  bound of one more than the levels left below the current call depth is never reached, and every
  larger bound gives the same result and the same state.
\<close>

theorem execute_send_terminates:
  assumes "code_uniform acts" "6 \<le> version rt" "MAX_CALL_DEPTH - depth rt < n"
  shows "execute_send acts ext n msg rt = execute_send acts ext (Suc (MAX_CALL_DEPTH - depth rt)) msg rt"
proof -
  have "same_sends (depth rt) (execute_send acts ext (Suc (MAX_CALL_DEPTH - depth rt))) (execute_send acts ext n)"
    by (rule execute_send_fuel) (use assms in simp_all)
  then show ?thesis using assms(2) by (simp add: same_sends_def agree_def lvl_def)
qed

theorem execute_send_terminates_witness:
  "execute_send sample_acts sample_ext 100000
     \<lparr>um_from = ID 100, um_to = ID 101, um_method_num = METHOD_SEND, um_value = 9, um_params = []\<rparr> sample_runtime
   = execute_send sample_acts sample_ext (Suc MAX_CALL_DEPTH)
     \<lparr>um_from = ID 100, um_to = ID 101, um_method_num = METHOD_SEND, um_value = 9, um_params = []\<rparr> sample_runtime"
  using execute_send_terminates [OF sample_code_uniform, of sample_runtime 100000 sample_ext
      "\<lparr>um_from = ID 100, um_to = ID 101, um_method_num = METHOD_SEND, um_value = 9, um_params = []\<rparr>"]
  by (simp add: sample_runtime_def MAX_CALL_DEPTH_def del: execute_send.simps)

end
