(* ===== verification/Deadlines.thy ===== *)
theory Deadlines
  imports Actor_Types "HOL-Library.Signed_Division" "HOL-Library.While_Combinator"
begin

text \<open>
  Deadlines of the proof of spacetime: quantization of epochs (\<open>types/src/deadlines/quantize.rs\<close>), the
  windows of a deadline (\<open>types/src/deadlines/mod.rs\<close>) and the predicates of the miner actor on them
  (\<open>vm/actor/src/builtin/miner/deadlines.rs\<close>, constants from its \<open>policy.rs\<close>).

  The operators \<open>/\<close> and \<open>%\<close> on epochs truncate towards zero, which is \<open>sdiv\<close> and \<open>smod\<close>.  Epochs are
  unbounded here; an \<open>i64\<close> holds every epoch for some trillions of years.
\<close>

section \<open>Quantization\<close>

record QuantSpec =
  quant_unit :: ChainEpoch
  quant_offset :: ChainEpoch

definition NO_QUANTIZATION :: QuantSpec where
  "NO_QUANTIZATION = \<lparr>quant_unit = 1, quant_offset = 0\<rparr>"

definition quantize_up :: "QuantSpec \<Rightarrow> ChainEpoch \<Rightarrow> ChainEpoch" where
  "quantize_up q epoch =
    (let off = quant_offset q smod quant_unit q;
         remainder = (epoch - off) smod quant_unit q;
         quotient = (epoch - off) sdiv quant_unit q
     in if remainder = 0 \<or> epoch - off < 0 then quant_unit q * quotient + off
        else quant_unit q * (quotient + 1) + off)"

definition quantize_down :: "QuantSpec \<Rightarrow> ChainEpoch \<Rightarrow> ChainEpoch" where
  "quantize_down q epoch =
    (let nxt = quantize_up q epoch in if epoch = nxt then nxt else nxt - quant_unit q)"

section \<open>Windows of a deadline\<close>

record DeadlineInfo =
  current_epoch :: ChainEpoch
  period_start :: ChainEpoch
  dl_index :: nat
  dl_open :: ChainEpoch
  dl_close :: ChainEpoch
  dl_challenge :: ChainEpoch
  fault_cutoff :: ChainEpoch
  w_post_period_deadlines :: nat
  w_post_proving_period :: ChainEpoch
  w_post_challenge_window :: ChainEpoch
  w_post_challenge_lookback :: ChainEpoch
  fault_declaration_cutoff :: ChainEpoch

definition DeadlineInfo_new ::
  "ChainEpoch \<Rightarrow> nat \<Rightarrow> ChainEpoch \<Rightarrow> nat \<Rightarrow> ChainEpoch \<Rightarrow> ChainEpoch \<Rightarrow> ChainEpoch \<Rightarrow> ChainEpoch \<Rightarrow> DeadlineInfo" where
  "DeadlineInfo_new start idx cur deadlines proving window lookback cutoff =
    (if idx < deadlines then
       let deadline_open = start + int idx * window in
       \<lparr>current_epoch = cur, period_start = start, dl_index = idx,
        dl_open = deadline_open, dl_close = deadline_open + window,
        dl_challenge = deadline_open - lookback, fault_cutoff = deadline_open - cutoff,
        w_post_period_deadlines = deadlines, w_post_proving_period = proving,
        w_post_challenge_window = window, w_post_challenge_lookback = lookback,
        fault_declaration_cutoff = cutoff\<rparr>
     else
       let after_last_deadline = start + proving in
       \<lparr>current_epoch = cur, period_start = start, dl_index = idx,
        dl_open = after_last_deadline, dl_close = after_last_deadline,
        dl_challenge = after_last_deadline, fault_cutoff = 0,
        w_post_period_deadlines = deadlines, w_post_proving_period = proving,
        w_post_challenge_window = window, w_post_challenge_lookback = lookback,
        fault_declaration_cutoff = cutoff\<rparr>)"

definition next_period_start :: "DeadlineInfo \<Rightarrow> ChainEpoch" where
  "next_period_start d = period_start d + w_post_proving_period d"

definition period_started :: "DeadlineInfo \<Rightarrow> bool" where
  "period_started d = (period_start d \<le> current_epoch d)"

definition period_elapsed :: "DeadlineInfo \<Rightarrow> bool" where
  "period_elapsed d = (next_period_start d \<le> current_epoch d)"

definition period_end :: "DeadlineInfo \<Rightarrow> ChainEpoch" where
  "period_end d = period_start d + w_post_proving_period d - 1"

definition is_open :: "DeadlineInfo \<Rightarrow> bool" where
  "is_open d = (dl_open d \<le> current_epoch d \<and> current_epoch d < dl_close d)"

definition has_elapsed :: "DeadlineInfo \<Rightarrow> bool" where
  "has_elapsed d = (dl_close d \<le> current_epoch d)"

definition dl_last :: "DeadlineInfo \<Rightarrow> ChainEpoch" where
  "dl_last d = dl_close d - 1"

definition next_open :: "DeadlineInfo \<Rightarrow> ChainEpoch" where
  "next_open d = dl_close d"

definition fault_cutoff_passed :: "DeadlineInfo \<Rightarrow> bool" where
  "fault_cutoff_passed d = (fault_cutoff d \<le> current_epoch d)"

text \<open>
  \<open>next_not_elapsed\<close> searches an infinite iterator; \<open>None\<close> stands for a search that does not end.
\<close>

definition next_instance :: "DeadlineInfo \<Rightarrow> DeadlineInfo \<Rightarrow> DeadlineInfo" where
  "next_instance self info =
    DeadlineInfo_new (next_period_start info) (dl_index info) (current_epoch info)
      (w_post_period_deadlines self) (w_post_proving_period self) (w_post_challenge_window self)
      (w_post_challenge_lookback self) (fault_declaration_cutoff self)"

definition next_not_elapsed :: "DeadlineInfo \<Rightarrow> DeadlineInfo option" where
  "next_not_elapsed self = while_option has_elapsed (next_instance self) self"

definition dl_quant_spec :: "DeadlineInfo \<Rightarrow> QuantSpec" where
  "dl_quant_spec d = \<lparr>quant_unit = w_post_proving_period d, quant_offset = dl_last d\<rparr>"

section \<open>Deadlines of a miner\<close>

definition EPOCH_DURATION_SECONDS :: int where "EPOCH_DURATION_SECONDS = 30"
definition EPOCHS_IN_HOUR :: ChainEpoch where "EPOCHS_IN_HOUR = 3600 sdiv EPOCH_DURATION_SECONDS"
definition EPOCHS_IN_DAY :: ChainEpoch where "EPOCHS_IN_DAY = 86400 sdiv EPOCH_DURATION_SECONDS"
definition WPOST_PROVING_PERIOD :: ChainEpoch where "WPOST_PROVING_PERIOD = EPOCHS_IN_DAY"
definition WPOST_CHALLENGE_WINDOW :: ChainEpoch where
  "WPOST_CHALLENGE_WINDOW = (30 * 60) sdiv EPOCH_DURATION_SECONDS"
definition WPOST_PERIOD_DEADLINES :: nat where "WPOST_PERIOD_DEADLINES = 48"
definition CHAIN_FINALITY :: ChainEpoch where "CHAIN_FINALITY = 900"
definition WPOST_DISPUTE_WINDOW :: ChainEpoch where "WPOST_DISPUTE_WINDOW = 2 * CHAIN_FINALITY"
definition WPOST_CHALLENGE_LOOKBACK :: ChainEpoch where "WPOST_CHALLENGE_LOOKBACK = 20"
definition FAULT_DECLARATION_CUTOFF :: ChainEpoch where
  "FAULT_DECLARATION_CUTOFF = WPOST_CHALLENGE_LOOKBACK + 50"

definition new_deadline_info :: "ChainEpoch \<Rightarrow> nat \<Rightarrow> ChainEpoch \<Rightarrow> DeadlineInfo" where
  "new_deadline_info proving_period_start deadline_idx cur =
    DeadlineInfo_new proving_period_start deadline_idx cur WPOST_PERIOD_DEADLINES WPOST_PROVING_PERIOD
      WPOST_CHALLENGE_WINDOW WPOST_CHALLENGE_LOOKBACK FAULT_DECLARATION_CUTOFF"

definition deadline_is_mutable :: "ChainEpoch \<Rightarrow> nat \<Rightarrow> ChainEpoch \<Rightarrow> bool option" where
  "deadline_is_mutable proving_period_start deadline_idx cur =
    map_option (\<lambda>deadline_info. cur < dl_open deadline_info - WPOST_CHALLENGE_WINDOW)
      (next_not_elapsed (new_deadline_info proving_period_start deadline_idx cur))"

definition quant_spec_for_deadline :: "DeadlineInfo \<Rightarrow> QuantSpec" where
  "quant_spec_for_deadline di = \<lparr>quant_unit = WPOST_PROVING_PERIOD, quant_offset = dl_last di\<rparr>"

definition deadline_available_for_optimistic_post_dispute :: "ChainEpoch \<Rightarrow> nat \<Rightarrow> ChainEpoch \<Rightarrow> bool option" where
  "deadline_available_for_optimistic_post_dispute proving_period_start deadline_idx cur =
    (if cur < proving_period_start then Some False
     else map_option (\<lambda>dl_info. \<not> is_open dl_info \<and>
              cur < (dl_close dl_info - WPOST_PROVING_PERIOD) + WPOST_DISPUTE_WINDOW)
            (next_not_elapsed (new_deadline_info proving_period_start deadline_idx cur)))"

definition deadline_available_for_compaction :: "ChainEpoch \<Rightarrow> nat \<Rightarrow> ChainEpoch \<Rightarrow> bool option" where
  "deadline_available_for_compaction proving_period_start deadline_idx cur =
    Option.bind (deadline_is_mutable proving_period_start deadline_idx cur) (\<lambda>m.
    if \<not> m then Some False
    else map_option Not (deadline_available_for_optimistic_post_dispute proving_period_start deadline_idx cur))"

definition new_deadline_info_from_offset_and_epoch :: "ChainEpoch \<Rightarrow> ChainEpoch \<Rightarrow> DeadlineInfo" where
  "new_deadline_info_from_offset_and_epoch period_start_seed cur =
    (let q = \<lparr>quant_unit = WPOST_PROVING_PERIOD, quant_offset = period_start_seed\<rparr>;
         current_period_start = quantize_down q cur;
         current_deadline_idx =
           nat (((cur - current_period_start) sdiv WPOST_CHALLENGE_WINDOW) mod 2 ^ 64) mod WPOST_PERIOD_DEADLINES
     in new_deadline_info current_period_start current_deadline_idx cur)"

section \<open>Quantized epochs\<close>

lemma smod_pos: "0 < u \<Longrightarrow> (x :: int) smod u = (if 0 \<le> x then x mod u else - ((- x) mod u))"
  by (cases "x = 0") (simp_all add: signed_modulo_int_def)

lemma sdiv_pos: "0 < u \<Longrightarrow> (x :: int) sdiv u = (if 0 \<le> x then x div u else - ((- x) div u))"
  by (cases "x = 0") (simp_all add: signed_divide_int_def)

lemma smod_cong: "0 < u \<Longrightarrow> u dvd (x :: int) - x smod u"
  by (simp add: minus_smod_eq_mult_sdiv)

lemma quantize_up_bounds:
  assumes "0 < quant_unit q"
  shows "e \<le> quantize_up q e" "quantize_up q e < e + quant_unit q" "quant_unit q dvd quantize_up q e - quant_offset q"
proof -
  let ?u = "quant_unit q"
  define off where "off = quant_offset q smod ?u"
  define x where "x = e - off"
  have off: "?u dvd quant_offset q - off" unfolding off_def by (rule smod_cong [OF assms])
  have up: "quantize_up q e = (if x smod ?u = 0 \<or> x < 0 then ?u * (x sdiv ?u) + off else ?u * (x sdiv ?u + 1) + off)"
    by (simp add: quantize_up_def Let_def off_def x_def)
  have "\<exists>k. quantize_up q e = ?u * k + off \<and> x \<le> ?u * k \<and> ?u * k < x + ?u"
  proof (cases "0 \<le> x")
    case True
    define d r where dr: "d = x div ?u" "r = x mod ?u"
    have d: "x = ?u * d + r" "0 \<le> r" "r < ?u" "x div ?u = d" "x mod ?u = r" using assms by (simp_all add: dr)
    have "quantize_up q e = ?u * (if r = 0 then d else d + 1) + off"
      using True assms unfolding up by (simp add: smod_pos sdiv_pos d(4,5))
    then show ?thesis using d(1-3) by (intro exI [of _ "if r = 0 then d else d + 1"]) (auto simp: algebra_simps)
  next
    case False
    define d r where dr: "d = (- x) div ?u" "r = (- x) mod ?u"
    have d: "- x = ?u * d + r" "0 \<le> r" "r < ?u" "(- x) div ?u = d" using assms by (simp_all add: dr)
    have "quantize_up q e = ?u * (- d) + off" using False assms unfolding up by (simp add: sdiv_pos d(4))
    then show ?thesis using d(1-3) by (intro exI [of _ "- d"]) (auto simp: algebra_simps)
  qed
  then obtain k where k: "quantize_up q e = ?u * k + off" "x \<le> ?u * k" "?u * k < x + ?u" by blast
  then show "e \<le> quantize_up q e" "quantize_up q e < e + ?u" by (simp_all add: x_def)
  have "quantize_up q e - quant_offset q = ?u * k - (quant_offset q - off)" using k(1) by simp
  then show "?u dvd quantize_up q e - quant_offset q" using off by (metis dvd_diff dvd_triv_left)
qed

lemma quantize_down_bounds:
  assumes "0 < quant_unit q"
  shows "quantize_down q e \<le> e" "e < quantize_down q e + quant_unit q" "quant_unit q dvd quantize_down q e - quant_offset q"
proof -
  note up = quantize_up_bounds [OF assms, of e]
  show "quantize_down q e \<le> e" "e < quantize_down q e + quant_unit q"
    using up assms by (auto simp: quantize_down_def Let_def)
  have "quantize_up q e - quant_unit q - quant_offset q = (quantize_up q e - quant_offset q) - quant_unit q" by simp
  then have "quant_unit q dvd quantize_up q e - quant_unit q - quant_offset q" using up(3) by (metis dvd_diff dvd_refl)
  then show "quant_unit q dvd quantize_down q e - quant_offset q" using up(3) by (auto simp: quantize_down_def Let_def)
qed

text \<open>Two epochs of the grid less than a unit apart are equal.\<close>

lemma grid_unique:
  assumes "(u :: int) dvd x - c" "u dvd y - c" "x - y < u" "y - x < u"
  shows "x = y"
proof (rule ccontr)
  assume "x \<noteq> y"
  have "u dvd (x - c) - (y - c)" using assms(1,2) by (rule dvd_diff)
  then have "u dvd x - y" by simp
  then have "\<bar>u\<bar> \<le> \<bar>x - y\<bar>" using \<open>x \<noteq> y\<close> by (intro dvd_imp_le_int) auto
  then show False using assms(3,4) by linarith
qed

section \<open>Searching the next window\<close>

lemmas policy_defs = EPOCH_DURATION_SECONDS_def EPOCHS_IN_HOUR_def EPOCHS_IN_DAY_def WPOST_PROVING_PERIOD_def
  WPOST_CHALLENGE_WINDOW_def WPOST_PERIOD_DEADLINES_def CHAIN_FINALITY_def WPOST_DISPUTE_WINDOW_def
  WPOST_CHALLENGE_LOOKBACK_def FAULT_DECLARATION_CUTOFF_def

lemma policy_values:
  "EPOCHS_IN_DAY = 2880" "EPOCHS_IN_HOUR = 120" "WPOST_PROVING_PERIOD = 2880" "WPOST_CHALLENGE_WINDOW = 60"
  "WPOST_PERIOD_DEADLINES = 48" "WPOST_DISPUTE_WINDOW = 1800" "WPOST_CHALLENGE_LOOKBACK = 20" "FAULT_DECLARATION_CUTOFF = 70"
  by (simp_all add: policy_defs sdiv_pos)

lemma new_deadline_info_simps [simp]:
  "current_epoch (new_deadline_info ps i cur) = cur" "period_start (new_deadline_info ps i cur) = ps"
  "dl_index (new_deadline_info ps i cur) = i" "w_post_proving_period (new_deadline_info ps i cur) = 2880"
  "dl_close (new_deadline_info ps i cur) = (if i < 48 then ps + 60 * int i + 60 else ps + 2880)"
  "dl_open (new_deadline_info ps i cur) = (if i < 48 then ps + 60 * int i else ps + 2880)"
  by (simp_all add: new_deadline_info_def DeadlineInfo_new_def policy_values Let_def)

lemma next_instance_new:
  "next_instance (new_deadline_info ps0 i0 cur0) (new_deadline_info ps i cur) = new_deadline_info (ps + 2880) i cur"
  by (simp add: next_instance_def next_period_start_def)
    (simp add: new_deadline_info_def DeadlineInfo_new_def policy_values Let_def)

text \<open>The search ends, at the first period from the given one on whose window has not closed.\<close>

lemma next_not_elapsed_new:
  obtains k :: nat where "next_not_elapsed (new_deadline_info ps i cur) = Some (new_deadline_info (ps + 2880 * int k) i cur)"
    "cur < dl_close (new_deadline_info (ps + 2880 * int k) i cur)"
    "k = 0 \<or> dl_close (new_deadline_info (ps + 2880 * int k) i cur) - 2880 \<le> cur"
proof -
  let ?P = "\<lambda>d. \<exists>k :: nat. d = new_deadline_info (ps + 2880 * int k) i cur \<and> (k = 0 \<or> dl_close d - 2880 \<le> cur)"
  let ?self = "new_deadline_info ps i cur"
  have init: "?P ?self" by (rule exI [of _ 0]) simp
  have step: "?P (next_instance ?self d) \<and> nat (cur + 1 - dl_close (next_instance ?self d)) < nat (cur + 1 - dl_close d)"
    if d: "?P d" and e: "has_elapsed d" for d
  proof -
    from d obtain k :: nat where k: "d = new_deadline_info (ps + 2880 * int k) i cur" by blast
    have n: "next_instance ?self d = new_deadline_info (ps + 2880 * int (Suc k)) i cur"
      unfolding k next_instance_new by (simp add: algebra_simps)
    have "dl_close (new_deadline_info (ps + 2880 * int (Suc k)) i cur) - 2880 \<le> cur" using e by (auto simp: k has_elapsed_def)
    then have "?P (next_instance ?self d)" unfolding n by blast
    moreover have "nat (cur + 1 - dl_close (next_instance ?self d)) < nat (cur + 1 - dl_close d)"
    proof -
      have "dl_close (next_instance ?self d) = dl_close d + 2880" unfolding n by (simp add: k)
      moreover have "current_epoch d = cur" by (simp add: k)
      ultimately show ?thesis using e by (simp add: has_elapsed_def)
    qed
    ultimately show ?thesis ..
  qed
  from measure_while_option_Some [of ?P, OF step init] obtain d where d: "next_not_elapsed ?self = Some d"
    unfolding next_not_elapsed_def by blast
  have "?P d"
    by (rule while_option_rule [OF _ d [unfolded next_not_elapsed_def], where P = ?P, OF conjunct1 [OF step] init])
  moreover have "\<not> has_elapsed d" using while_option_stop [OF d [unfolded next_not_elapsed_def]] .
  ultimately obtain k :: nat where k: "d = new_deadline_info (ps + 2880 * int k) i cur"
    "k = 0 \<or> dl_close d - 2880 \<le> cur" "\<not> has_elapsed d" by blast
  show ?thesis by (rule that [of k]) (use d k in \<open>simp_all only: has_elapsed_def new_deadline_info_simps not_le\<close>)
qed

section \<open>Properties\<close>

text \<open>Quantization rounds to the grid of epochs \<open>offset + n * unit\<close>: \<open>quantize_up\<close> gives the first epoch of the
  grid that is not before its argument, \<open>quantize_down\<close> the last one that is not after it, also for negative epochs and offsets, where
  the truncating operators round the other way.\<close>

theorem quantize_nearest:
  assumes "0 < quant_unit q"
  shows "quant_unit q dvd quantize_up q e - quant_offset q \<and> e \<le> quantize_up q e \<and>
      (\<forall>x. quant_unit q dvd x - quant_offset q \<and> e \<le> x \<longrightarrow> quantize_up q e \<le> x) \<and>
    quant_unit q dvd quantize_down q e - quant_offset q \<and> quantize_down q e \<le> e \<and>
      (\<forall>x. quant_unit q dvd x - quant_offset q \<and> x \<le> e \<longrightarrow> x \<le> quantize_down q e)"
proof -
  note up = quantize_up_bounds [OF assms, of e] and dn = quantize_down_bounds [OF assms, of e]
  have "quantize_up q e \<le> x" if "quant_unit q dvd x - quant_offset q" "e \<le> x" for x
    using grid_unique [OF up(3) that(1)] up(2) that(2) by linarith
  moreover have "x \<le> quantize_down q e" if "quant_unit q dvd x - quant_offset q" "x \<le> e" for x
    using grid_unique [OF dn(3) that(1)] dn(2) that(2) by linarith
  ultimately show ?thesis using up dn by blast
qed

theorem quantize_nearest_witness:
  "let q = \<lparr>quant_unit = 10, quant_offset = - 3\<rparr> in
     quantize_up q (- 8) \<le> - 3 \<and> - 8 \<le> quantize_up q (- 8) \<and> - 13 \<le> quantize_down q (- 8) \<and> quantize_down q (- 8) \<le> - 8"
proof -
  let ?q = "\<lparr>quant_unit = 10, quant_offset = - 3\<rparr>"
  have "0 < quant_unit ?q" by simp
  note n = quantize_nearest [OF this, of "- 8"]
  then have "10 dvd x + 3 \<and> - 8 \<le> x \<longrightarrow> quantize_up ?q (- 8) \<le> x" "10 dvd x + 3 \<and> x \<le> - 8 \<longrightarrow> x \<le> quantize_down ?q (- 8)" for x
    by simp_all
  from this(1) [of "- 3"] this(2) [of "- 13"] n show ?thesis unfolding Let_def by simp
qed

text \<open>C37. The deadline computed from the current epoch and the offset of a miner's proving periods is the one whose
  window is open: its period belongs to the grid of the offset and contains the current epoch, the index is below 48, and the current
  epoch is in the window.\<close>

theorem current_deadline_is_open:
  "let d = new_deadline_info_from_offset_and_epoch seed cur in
     is_open d \<and> dl_index d < WPOST_PERIOD_DEADLINES \<and> current_epoch d = cur \<and>
     period_started d \<and> \<not> period_elapsed d \<and> WPOST_PROVING_PERIOD dvd period_start d - seed"
proof -
  let ?q = "\<lparr>quant_unit = WPOST_PROVING_PERIOD, quant_offset = seed\<rparr>"
  define p where "p = quantize_down ?q cur"
  have p: "p \<le> cur" "cur < p + 2880" "2880 dvd p - seed"
    using quantize_down_bounds [of ?q cur] by (simp_all add: policy_values p_def)
  define i where "i = (cur - p) div 60"
  have i: "60 * i \<le> cur - p" "cur - p < 60 * i + 60" "0 \<le> i" "i < 48"
    using p by (simp_all add: i_def) 
  then have "nat (((cur - p) sdiv WPOST_CHALLENGE_WINDOW) mod 2 ^ 64) mod WPOST_PERIOD_DEADLINES = nat i"
    using p by (simp add: sdiv_pos policy_values i_def [symmetric])
  then have "new_deadline_info_from_offset_and_epoch seed cur = new_deadline_info p (nat i) cur"
    by (simp add: new_deadline_info_from_offset_and_epoch_def p_def Let_def)
  then show ?thesis using p i
    by (simp add: Let_def is_open_def period_started_def period_elapsed_def next_period_start_def policy_values)
qed

text \<open>C36. When a deadline may change.  With the proving period of a miner starting at \<open>ps\<close>, the windows of deadline \<open>i\<close> are
  \<open>[ps + 2880 k + 60 i, ps + 2880 k + 60 i + 60)\<close>.  The search for the next window ends; the deadline is mutable iff no window of it is open or
  opens within the next window's time; proofs are disputable iff a window, possibly the one of the period before, closed less than
  1800 epochs ago; and partitions may be compacted iff the deadline is mutable and nothing is disputable.\<close>

theorem deadline_changes:
  assumes "i < WPOST_PERIOD_DEADLINES"
  shows "deadline_is_mutable ps i cur = Some (\<forall>k \<ge> 0. let open = ps + 2880 * k + 60 * int i in
        \<not> (open \<le> cur + 60 \<and> cur < open + 60)) \<and>
    deadline_available_for_optimistic_post_dispute ps i cur = Some (ps \<le> cur \<and>
      (\<exists>k \<ge> - 1. let close = ps + 2880 * k + 60 * int i + 60 in close \<le> cur \<and> cur < close + 1800)) \<and>
    (deadline_available_for_compaction ps i cur = Some True \<longleftrightarrow> deadline_is_mutable ps i cur = Some True \<and>
      deadline_available_for_optimistic_post_dispute ps i cur = Some False)"
proof -
  have i: "i < 48" using assms by (simp add: policy_values)
  obtain n where n: "next_not_elapsed (new_deadline_info ps i cur) = Some (new_deadline_info (ps + 2880 * int n) i cur)"
    "cur < ps + 2880 * int n + 60 * int i + 60" "n = 0 \<or> ps + 2880 * int n + 60 * int i + 60 - 2880 \<le> cur"
    by (rule next_not_elapsed_new [of ps i cur]) (use i in simp)
  have far: P if "k = int n \<Longrightarrow> P" "k \<le> int n - 1 \<Longrightarrow> P" "int n + 1 \<le> k \<Longrightarrow> P" for k P
    using that by linarith
  have m: "deadline_is_mutable ps i cur = Some (cur < ps + 2880 * int n + 60 * int i - 60)"
    using n(1) i by (simp add: deadline_is_mutable_def policy_values)
  have mut: "(\<forall>k \<ge> 0. let open = ps + 2880 * k + 60 * int i in \<not> (open \<le> cur + 60 \<and> cur < open + 60)) \<longleftrightarrow>
      cur < ps + 2880 * int n + 60 * int i - 60" (is "?l = ?r")
  proof
    assume ?l
    from this [rule_format, of "int n"] show ?r using n(2) by (simp add: Let_def)
  next
    assume r: ?r
    show ?l unfolding Let_def
    proof (intro allI impI notI)
      fix k assume "0 \<le> k" "ps + 2880 * k + 60 * int i \<le> cur + 60 \<and> cur < ps + 2880 * k + 60 * int i + 60"
      then show False using r n(3) by (cases rule: far [of k]) auto
    qed
  qed
  have dis: "deadline_available_for_optimistic_post_dispute ps i cur = Some (ps \<le> cur \<and>
      \<not> (ps + 2880 * int n + 60 * int i \<le> cur) \<and> cur < ps + 2880 * int n + 60 * int i + 60 - 2880 + 1800)"
    using n(1,2) i by (auto simp: deadline_available_for_optimistic_post_dispute_def policy_values is_open_def)
  have disp: "(\<exists>k \<ge> - 1. let close = ps + 2880 * k + 60 * int i + 60 in close \<le> cur \<and> cur < close + 1800) \<longleftrightarrow>
      \<not> (ps + 2880 * int n + 60 * int i \<le> cur) \<and> cur < ps + 2880 * int n + 60 * int i + 60 - 2880 + 1800" (is "?l = ?r")
    if "ps \<le> cur"
  proof
    assume ?l
    then obtain k where "ps + 2880 * k + 60 * int i + 60 \<le> cur" "cur < ps + 2880 * k + 60 * int i + 60 + 1800"
      by (auto simp: Let_def)
    then show ?r using n by (cases rule: far [of k]) auto
  next
    assume ?r
    then show ?l using n i that by (intro exI [of _ "int n - 1"]) (auto simp: Let_def)
  qed
  have "deadline_available_for_compaction ps i cur = Some True \<longleftrightarrow> deadline_is_mutable ps i cur = Some True \<and>
      deadline_available_for_optimistic_post_dispute ps i cur = Some False"
    by (auto simp: deadline_available_for_compaction_def m dis)
  then show ?thesis using m mut dis disp by auto
qed

theorem deadline_changes_witness:
  "7 < WPOST_PERIOD_DEADLINES \<and> deadline_is_mutable 0 7 5000 = Some True \<and>
   deadline_available_for_optimistic_post_dispute 0 7 5000 = Some (\<exists>k \<ge> - 1. 2880 * k + 480 \<le> 5000 \<and> 5000 < 2880 * k + (2280 :: int))"
proof -
  have "7 < WPOST_PERIOD_DEADLINES" by (simp add: policy_values)
  moreover have "\<not> (0 + 2880 * k + 60 * int 7 \<le> 5000 + 60 \<and> 5000 < 0 + 2880 * k + 60 * int 7 + 60)" for k :: int
    by simp presburger
  ultimately show ?thesis using deadline_changes [of 7 0 5000] by (simp add: Let_def algebra_simps)
qed

end
