(* ===== verification/Miner_Queue.thy ===== *)
theory Miner_Queue
  imports Bitfield Deadlines
begin

text \<open>
  The queue of bit fields by epoch that the miner schedules sectors in
  (\<open>vm/actor/src/builtin/miner/bitfield_queue.rs\<close>).

  Its array is taken as the list of its entries in the order of their indices: that is what the array of
  theory \<open>Amt\<close> is shown to be there (reads after writes, iteration in ascending order, deletion), and loading and
  flushing it do not fail.  \<open>add_many_to_queue_values\<close> is not modelled.
\<close>

section \<open>The queue\<close>

record BitFieldQueue =
  q_amt :: "(nat \<times> bitfield) list"
  q_quant :: QuantSpec

text \<open>An epoch as an index (\<open>as usize\<close>) and back (\<open>as ChainEpoch\<close>).\<close>

definition epoch_index :: "ChainEpoch \<Rightarrow> nat" where
  "epoch_index e = nat (e mod 2 ^ 64)"

definition index_epoch :: "nat \<Rightarrow> ChainEpoch" where
  "index_epoch i = (if i < 2 ^ 63 then int i else int i - 2 ^ 64)"

fun entry_set :: "nat \<Rightarrow> 'v \<Rightarrow> (nat \<times> 'v) list \<Rightarrow> (nat \<times> 'v) list" where
  "entry_set i v [] = [(i, v)]"
| "entry_set i v ((j, w) # es) =
    (if i < j then (i, v) # (j, w) # es
     else if i = j then (i, v) # es
     else (j, w) # entry_set i v es)"

text \<open>The array refuses the index \<open>usize::MAX\<close>.\<close>

definition add_to_queue :: "ChainEpoch \<Rightarrow> bitfield \<Rightarrow> BitFieldQueue \<Rightarrow> (string, BitFieldQueue) res" where
  "add_to_queue raw_epoch vals q =
    (if BitField_is_empty vals then Inr q
     else
       let epoch = quantize_up (q_quant q) raw_epoch;
           i = epoch_index epoch
       in if 2 ^ 64 - 2 < i then Inl ''failed to lookup queue epoch''
          else
            let bf = (case map_of (q_amt q) i of None \<Rightarrow> BitField_new | Some bf \<Rightarrow> bf)
            in Inr (q\<lparr>q_amt := entry_set i (bitor bf vals) (q_amt q)\<rparr>))"

definition add_to_queue_values :: "ChainEpoch \<Rightarrow> nat list \<Rightarrow> BitFieldQueue \<Rightarrow> (string, BitFieldQueue) res" where
  "add_to_queue_values epoch vals q =
    (if vals = [] then Inr q else add_to_queue epoch (from_iter_usize vals) q)"

definition cut_queue :: "bitfield \<Rightarrow> BitFieldQueue \<Rightarrow> BitFieldQueue" where
  "cut_queue to_cut q =
    q\<lparr>q_amt := filter (\<lambda>(i, bf). \<not> BitField_is_empty bf) (map (\<lambda>(i, bf). (i, BitField_cut bf to_cut)) (q_amt q))\<rparr>"

definition pop_until :: "ChainEpoch \<Rightarrow> BitFieldQueue \<Rightarrow> (bitfield \<times> bool) \<times> BitFieldQueue" where
  "pop_until until q =
    (let popped = takeWhile (\<lambda>(i, bf). \<not> until < index_epoch i) (q_amt q);
         popped_keys = map fst popped;
         popped_values = foldl bitor BitField_new (map snd popped)
     in if popped_keys = [] then ((BitField_new, False), q)
        else ((popped_values, True), q\<lparr>q_amt := filter (\<lambda>(i, bf). i \<notin> set popped_keys) (q_amt q)\<rparr>))"

section \<open>What is scheduled\<close>

text \<open>
  \<open>scheduled es e\<close> are the sectors of the entry for epoch \<open>e\<close>, and \<open>queue_ok\<close> is the invariant of the entries: ascending
  indices that stand for epochs from zero on, and proper bit fields.
\<close>

definition scheduled :: "(nat \<times> bitfield) list \<Rightarrow> ChainEpoch \<Rightarrow> nat set" where
  "scheduled es e = {n. \<exists>(i, bf) \<in> set es. int i = e \<and> n \<in> bf_bits bf}"

definition queue_ok :: "(nat \<times> bitfield) list \<Rightarrow> bool" where
  "queue_ok es = (sorted_wrt (<) (map fst es) \<and> (\<forall>(i, bf) \<in> set es. i < 2 ^ 63 \<and> bf_inv bf))"

lemma entry_set_keys: "set (map fst (entry_set i v es)) = insert i (set (map fst es))"
  by (induction i v es rule: entry_set.induct) auto

lemma entry_set_sorted: "sorted_wrt (<) (map fst es) \<Longrightarrow> sorted_wrt (<) (map fst (entry_set i v es))"
proof (induction i v es rule: entry_set.induct)
  case (2 i v j w es)
  then show ?case using entry_set_keys [of i v es] by (auto simp: less_le_not_le)
qed simp

lemma entry_set_set:
  assumes "sorted_wrt (<) (map fst es)"
  shows "set (entry_set i v es) = insert (i, v) {x \<in> set es. fst x \<noteq> i}"
  using assms
proof (induction i v es rule: entry_set.induct)
  case (2 i v j w es)
  then have es: "sorted_wrt (<) (map fst es)" "\<forall>x \<in> set es. j < fst x" by auto
  consider "i < j" | "i = j" | "j < i" by linarith
  then show ?case
  proof cases
    case 3
    then show ?thesis using 2(1) es(1) by auto
  qed (use es(2) in \<open>auto simp: less_le_not_le\<close>)
qed simp

lemma epoch_index_nonneg: "0 \<le> e \<Longrightarrow> e < 2 ^ 63 \<Longrightarrow> epoch_index e = nat e \<and> nat e < 2 ^ 63"
  by (simp add: epoch_index_def)

lemma queue_ok_nth: "queue_ok es \<Longrightarrow> map_of es i = Some bf \<Longrightarrow> bf_inv bf"
  by (auto simp: queue_ok_def dest: map_of_SomeD)

lemma add_to_queue_ok:
  assumes "queue_ok (q_amt q)" "bf_inv vals" "0 \<le> quantize_up (q_quant q) raw" "quantize_up (q_quant q) raw < 2 ^ 63"
  obtains q' where "add_to_queue raw vals q = Inr q'" "queue_ok (q_amt q')" "q_quant q' = q_quant q"
    "scheduled (q_amt q') = (scheduled (q_amt q))(quantize_up (q_quant q) raw :=
       scheduled (q_amt q) (quantize_up (q_quant q) raw) \<union> bf_bits vals)"
proof (cases "BitField_is_empty vals")
  case True
  then show ?thesis using assms that [of q] by (simp add: add_to_queue_def BitField_is_empty_iff)
next
  case False
  let ?e = "quantize_up (q_quant q) raw"
  let ?i = "nat ?e" and ?es = "q_amt q"
  define bf where "bf = (case map_of ?es ?i of None \<Rightarrow> BitField_new | Some bf \<Rightarrow> bf)"
  let ?q = "q\<lparr>q_amt := entry_set ?i (bitor bf vals) ?es\<rparr>"
  have i: "epoch_index ?e = ?i" "?i < 2 ^ 63" "int ?i = ?e" using assms(3,4) epoch_index_nonneg by auto
  have j: "int j = ?e \<longleftrightarrow> j = ?i" for j using assms(3) by auto
  have srt: "sorted_wrt (<) (map fst ?es)" using assms(1) by (simp add: queue_ok_def)
  then have dist: "distinct (map fst ?es)" by (simp add: strict_sorted_iff)
  have bf: "bf_inv bf" "bf_bits bf = scheduled ?es ?e"
  proof -
    show "bf_inv bf" using queue_ok_nth [OF assms(1)] by (auto simp: bf_def split: option.splits)
    have "scheduled ?es ?e = {n. \<exists>b. (?i, b) \<in> set ?es \<and> n \<in> bf_bits b}" using j by (auto simp: scheduled_def)
    also have "\<dots> = {n. \<exists>b. map_of ?es ?i = Some b \<and> n \<in> bf_bits b}" using dist by simp
    finally show "bf_bits bf = scheduled ?es ?e" by (auto simp: bf_def split: option.splits)
  qed
  have set: "set (q_amt ?q) = insert (?i, bitor bf vals) {x \<in> set ?es. fst x \<noteq> ?i}" by (simp add: entry_set_set [OF srt])
  have "add_to_queue raw vals q = Inr ?q"
    using False i by (simp add: add_to_queue_def Let_def bf_def)
  moreover have "queue_ok (q_amt ?q)"
    unfolding queue_ok_def set using assms(1,2) bf(1) i(2) entry_set_sorted [OF srt] by (auto simp: queue_ok_def)
  moreover have "scheduled (q_amt ?q) = (scheduled ?es)(?e := scheduled ?es ?e \<union> bf_bits vals)"
  proof
    fix e
    show "scheduled (q_amt ?q) e = ((scheduled ?es)(?e := scheduled ?es ?e \<union> bf_bits vals)) e"
    proof (cases "e = ?e")
      case True
      then have "scheduled (q_amt ?q) e = bf_bits (bitor bf vals)" unfolding scheduled_def set using i(3) by auto
      then show ?thesis using True bf assms(2) by simp
    next
      case False
      then have "k \<noteq> ?i" if "int k = e" for k using that i(3) by metis
      then have "scheduled (q_amt ?q) e = scheduled ?es e" unfolding scheduled_def set by (auto simp del: int_nat_eq)
      with False show ?thesis by simp
    qed
  qed
  ultimately show ?thesis using that [of ?q] by simp
qed

lemma takeWhile_sorted:
  assumes "queue_ok es"
  shows "set (takeWhile (\<lambda>(i, bf). \<not> u < index_epoch i) es) = {x \<in> set es. int (fst x) \<le> u}"
  using assms
proof (induction es)
  case (Cons x es)
  then have "queue_ok es" "\<forall>y \<in> set es. fst x < fst y" "fst x < 2 ^ 63" by (auto simp: queue_ok_def)
  with Cons.IH show ?case by (cases x) (auto simp: index_epoch_def)
qed simp

lemma pop_until_ok:
  assumes "queue_ok (q_amt q)" "pop_until u q = ((sectors, modified), q')"
  shows "bf_inv sectors" "bf_bits sectors = (\<Union>e \<in> {..u}. scheduled (q_amt q) e)" "queue_ok (q_amt q')"
    "scheduled (q_amt q') e = (if e \<le> u then {} else scheduled (q_amt q) e)" "\<not> modified \<Longrightarrow> q' = q"
proof -
  let ?p = "takeWhile (\<lambda>(i, bf). \<not> u < index_epoch i) (q_amt q)"
  note p = takeWhile_sorted [OF assms(1), of u]
  have keys: "i \<in> set (map fst ?p) \<longleftrightarrow> int i \<le> u" if "(i, bf) \<in> set (q_amt q)" for i bf
    using that p by force
  have union: "bf_inv (foldl bitor BitField_new (map snd ?p))"
    "bf_bits (foldl bitor BitField_new (map snd ?p)) = (\<Union>b \<in> set (map snd ?p). bf_bits b)"
  proof -
    have "list_all bf_inv (map snd ?p)"
      unfolding list_all_iff set_map p using assms(1) by (auto simp: queue_ok_def)
    from foldl_bitor [OF BitField_new_correct(1) this]
    show "bf_inv (foldl bitor BitField_new (map snd ?p))"
      "bf_bits (foldl bitor BitField_new (map snd ?p)) = (\<Union>b \<in> set (map snd ?p). bf_bits b)" by simp_all
  qed
  have bits: "(\<Union>b \<in> set (map snd ?p). bf_bits b) = (\<Union>e \<in> {..u}. scheduled (q_amt q) e)"
    unfolding set_map p by (force simp: scheduled_def)
  have rest: "{x \<in> set (q_amt q). int (fst x) \<le> u} = {}" if "?p = []" using p that by simp
  show inv: "bf_inv sectors" and b: "bf_bits sectors = (\<Union>e \<in> {..u}. scheduled (q_amt q) e)"
    using assms(2) union bits by (auto simp: pop_until_def Let_def split: if_splits)
  show "\<not> modified \<Longrightarrow> q' = q" using assms(2) by (auto simp: pop_until_def Let_def split: if_splits)
  have q': "set (q_amt q') = {x \<in> set (q_amt q). u < int (fst x)} \<and> sorted_wrt (<) (map fst (q_amt q'))"
  proof (cases "?p = []")
    case True
    then show ?thesis using assms rest by (auto simp: pop_until_def Let_def queue_ok_def not_le)
  next
    case False
    then have "q_amt q' = filter (\<lambda>(i, bf). i \<notin> set (map fst ?p)) (q_amt q)"
      using assms(2) by (auto simp: pop_until_def Let_def)
    then show ?thesis using keys assms(1) by (auto simp: queue_ok_def not_le sorted_wrt_map intro!: sorted_wrt_filter simp del: set_map)
  qed
  then show "queue_ok (q_amt q')" using assms(1) by (auto simp: queue_ok_def)
  show "scheduled (q_amt q') e = (if e \<le> u then {} else scheduled (q_amt q) e)"
    using q' by (auto simp: scheduled_def)
qed

text \<open>A cut keeps the order of the entries and drops those it empties.\<close>

lemma cut_queue_ok:
  assumes "queue_ok (q_amt q)" "bf_inv to_cut"
  shows "queue_ok (q_amt (cut_queue to_cut q))" "\<forall>(i, bf) \<in> set (q_amt (cut_queue to_cut q)). bf_bits bf \<noteq> {}"
proof -
  have inv: "bf_inv (BitField_cut bf to_cut)" if "(i, bf) \<in> set (q_amt q)" for i bf
    using assms that by (auto simp: queue_ok_def)
  have "sorted_wrt (<) (map fst (q_amt q))" using assms(1) by (simp add: queue_ok_def)
  moreover have "map fst (map (\<lambda>(i, bf). (i, BitField_cut bf to_cut)) (q_amt q)) = map fst (q_amt q)" by auto
  ultimately have "sorted_wrt (\<lambda>x y. fst x < fst y) (map (\<lambda>(i, bf). (i, BitField_cut bf to_cut)) (q_amt q))"
    by (simp only: sorted_wrt_map [symmetric, where f = fst])
  then show "queue_ok (q_amt (cut_queue to_cut q))"
    using assms inv by (auto simp: queue_ok_def cut_queue_def sorted_wrt_map intro!: sorted_wrt_filter)
  show "\<forall>(i, bf) \<in> set (q_amt (cut_queue to_cut q)). bf_bits bf \<noteq> {}"
    using inv by (auto simp: cut_queue_def BitField_is_empty_iff)
qed

end
