(* ===== verification/Miner_Funds.thy ===== *)
theory Miner_Funds
  imports Miner_Queue
begin

text \<open>
  The funds of a storage miner (\<open>vm/actor/src/builtin/miner\<close>): the table of vesting rewards
  (\<open>vesting_state.rs\<close>), and the part of the miner state that accounts for deposits, pledges, locked rewards
  and debts (\<open>state.rs\<close>), with the pre-committed sectors and the queue of their expirations, whose
  deposits the clean-up takes out of the account again.

  The identifiers of the vesting table, of the pre-committed sectors and of the queue in the state are these tables, so loading and saving them cannot fail.
  Errors are the strings of the source without their arguments; \<open>MinerPanic\<close> is a panic.
\<close>

datatype MinerError = MinerErr string | MinerActorErr ExitCode | MinerPanic string

section \<open>The vesting table\<close>

record VestSpec =
  initial_delay :: ChainEpoch
  vest_period :: ChainEpoch
  step_duration :: ChainEpoch
  quantization :: ChainEpoch

definition REWARD_VESTING_SPEC :: VestSpec where
  "REWARD_VESTING_SPEC =
    \<lparr>initial_delay = 0, vest_period = 180 * EPOCHS_IN_DAY, step_duration = EPOCHS_IN_DAY,
     quantization = 12 * EPOCHS_IN_HOUR\<rparr>"

record VestingFund =
  vf_epoch :: ChainEpoch
  vf_amount :: TokenAmount

type_synonym VestingFunds = "VestingFund list"

definition vf_unlock_vested_funds :: "ChainEpoch \<Rightarrow> VestingFunds \<Rightarrow> TokenAmount \<times> VestingFunds" where
  "vf_unlock_vested_funds cur funds =
    (let i = length (takeWhile (\<lambda>fund. \<not> cur \<le> vf_epoch fund) funds) in
     (sum_list (map vf_amount (take i funds)), drop i funds))"

text \<open>
  The state of the loop of \<open>add_locked_funds\<close>: the epoch, what has been scheduled so far, the table and
  the index of its epochs.  The loop has no result when it does not end.
\<close>

record VestLoop =
  vl_epoch :: ChainEpoch
  vested_so_far :: TokenAmount
  vl_funds :: VestingFunds
  epoch_to_index :: "ChainEpoch \<rightharpoonup> nat"

definition index_epochs :: "VestingFunds \<Rightarrow> ChainEpoch \<rightharpoonup> nat" where
  "index_epochs funds = fold (\<lambda>(i, fund) m. m(vf_epoch fund \<mapsto> i)) (enumerate 0 funds) Map.empty"

definition target_vest :: "VestSpec \<Rightarrow> TokenAmount \<Rightarrow> ChainEpoch \<Rightarrow> TokenAmount" where
  "target_vest spec vesting_sum elapsed =
    (if elapsed < vest_period spec then (vesting_sum * elapsed) div vest_period spec else vesting_sum)"

definition vest_step :: "VestSpec \<Rightarrow> TokenAmount \<Rightarrow> ChainEpoch \<Rightarrow> ChainEpoch \<Rightarrow> VestLoop \<Rightarrow> VestLoop" where
  "vest_step spec vesting_sum proving_period_start vest_begin s =
    (let epoch = vl_epoch s + step_duration spec;
         vest_epoch = quantize_up \<lparr>quant_unit = quantization spec, quant_offset = proving_period_start\<rparr> epoch;
         target = target_vest spec vesting_sum (vest_epoch - vest_begin);
         vest_this_time = target - vested_so_far s
     in case epoch_to_index s vest_epoch of
          Some index \<Rightarrow>
            s\<lparr>vl_epoch := epoch, vested_so_far := target,
              vl_funds := (vl_funds s)[index := (vl_funds s ! index)\<lparr>vf_amount := vf_amount (vl_funds s ! index) + vest_this_time\<rparr>]\<rparr>
        | None \<Rightarrow>
            s\<lparr>vl_epoch := epoch, vested_so_far := target,
              vl_funds := vl_funds s @ [\<lparr>vf_epoch = vest_epoch, vf_amount = vest_this_time\<rparr>],
              epoch_to_index := (epoch_to_index s)(vest_epoch \<mapsto> length (vl_funds s))\<rparr>)"

definition vf_add_locked_funds ::
  "ChainEpoch \<Rightarrow> TokenAmount \<Rightarrow> ChainEpoch \<Rightarrow> VestSpec \<Rightarrow> VestingFunds \<Rightarrow> VestingFunds option" where
  "vf_add_locked_funds cur vesting_sum proving_period_start spec funds =
    (let vest_begin = cur + initial_delay spec in
     map_option (\<lambda>s. sort_key vf_epoch (vl_funds s))
       (while_option (\<lambda>s. vested_so_far s < vesting_sum)
         (vest_step spec vesting_sum proving_period_start vest_begin)
         \<lparr>vl_epoch = vest_begin, vested_so_far = 0, vl_funds = funds, epoch_to_index = index_epochs funds\<rparr>))"

text \<open>The loop of \<open>unlock_unvested_funds\<close> over the entries from index \<open>i\<close> on.\<close>

fun unlock_loop ::
  "ChainEpoch \<Rightarrow> TokenAmount \<Rightarrow> nat \<Rightarrow> TokenAmount \<Rightarrow> nat option \<Rightarrow> nat \<Rightarrow> VestingFunds \<Rightarrow>
   TokenAmount \<times> nat option \<times> nat \<times> VestingFunds" where
  "unlock_loop cur target i amount_unlocked lst start [] = (amount_unlocked, lst, start, [])"
| "unlock_loop cur target i amount_unlocked lst start (vf # vfs) =
    (if target \<le> amount_unlocked then (amount_unlocked, lst, start, vf # vfs)
     else if cur \<le> vf_epoch vf then
       let unlock_amount = min (target - amount_unlocked) (vf_amount vf);
           new_amount = vf_amount vf - unlock_amount
       in if new_amount = 0 then
            case unlock_loop cur target (i + 1) (amount_unlocked + unlock_amount) (Some i) start vfs of
              (a, l, s, vs) \<Rightarrow> (a, l, s, vf # vs)
          else
            case unlock_loop cur target (i + 1) (amount_unlocked + unlock_amount) lst start vfs of
              (a, l, s, vs) \<Rightarrow> (a, l, s, vf\<lparr>vf_amount := new_amount\<rparr> # vs)
     else case unlock_loop cur target (i + 1) amount_unlocked lst (i + 1) vfs of
            (a, l, s, vs) \<Rightarrow> (a, l, s, vf # vs))"

definition vf_unlock_unvested_funds ::
  "ChainEpoch \<Rightarrow> TokenAmount \<Rightarrow> VestingFunds \<Rightarrow> (MinerError, TokenAmount \<times> VestingFunds) res" where
  "vf_unlock_unvested_funds cur target funds =
    (case unlock_loop cur target 0 0 None 0 funds of
       (amount_unlocked, lst, start, funds') \<Rightarrow>
         (case lst of
            None \<Rightarrow> Inr (amount_unlocked, funds')
          | Some end_i \<Rightarrow>
              if end_i + 1 < start then Inl (MinerPanic ''drain'')
              else Inr (amount_unlocked, take start funds' @ drop (end_i + 1) funds')))"

section \<open>Pre-committed sectors\<close>

datatype RegisteredSealProof =
    StackedDRG2KiBV1 | StackedDRG512MiBV1 | StackedDRG8MiBV1 | StackedDRG32GiBV1 | StackedDRG64GiBV1
  | StackedDRG2KiBV1P1 | StackedDRG512MiBV1P1 | StackedDRG8MiBV1P1 | StackedDRG32GiBV1P1 | StackedDRG64GiBV1P1
  | InvalidSealProof int

type_synonym SectorNumber = nat
type_synonym DealID = nat
type_synonym DealWeight = int

record SectorPreCommitInfo =
  seal_proof :: RegisteredSealProof
  sector_number :: SectorNumber
  sealed_cid :: bytes
  seal_rand_epoch :: ChainEpoch
  deal_ids :: "DealID list"
  expiration :: ChainEpoch
  replace_capacity :: bool
  replace_sector_deadline :: nat
  replace_sector_partition :: nat
  replace_sector_number :: SectorNumber

record SectorPreCommitOnChainInfo =
  pc_info :: SectorPreCommitInfo
  pre_commit_deposit :: TokenAmount
  pre_commit_epoch :: ChainEpoch
  deal_weight :: DealWeight
  verified_deal_weight :: DealWeight

text \<open>The loop of \<open>put_precommitted_sectors\<close> over the table, which is written back only when it ends without an error.\<close>

fun put_all_if_absent ::
  "SectorPreCommitOnChainInfo list \<Rightarrow> (SectorNumber \<rightharpoonup> SectorPreCommitOnChainInfo) \<Rightarrow>
   (MinerError, SectorNumber \<rightharpoonup> SectorPreCommitOnChainInfo) res" where
  "put_all_if_absent [] precommitted = Inr precommitted"
| "put_all_if_absent (precommit # precommits) precommitted =
    (let sector_no = sector_number (pc_info precommit) in
     case precommitted sector_no of
       Some _ \<Rightarrow> Inl (MinerErr ''sector already pre-commited'')
     | None \<Rightarrow> put_all_if_absent precommits (precommitted(sector_no \<mapsto> precommit)))"

section \<open>The accounts of a miner\<close>

record MinerFunds =
  pre_commit_deposits :: TokenAmount
  locked_funds :: TokenAmount
  vesting_funds :: VestingFunds
  fee_debt :: TokenAmount
  initial_pledge :: TokenAmount
  pre_committed_sectors :: "SectorNumber \<rightharpoonup> SectorPreCommitOnChainInfo"
  pre_committed_sectors_cleanup :: "(nat \<times> bitfield) list"
  proving_period_start :: ChainEpoch

type_synonym 'a mfm = "(MinerFunds, MinerError, 'a) sm"

definition continue_deadline_cron :: "MinerFunds \<Rightarrow> bool" where
  "continue_deadline_cron st = (pre_commit_deposits st \<noteq> 0 \<or> initial_pledge st \<noteq> 0 \<or> locked_funds st \<noteq> 0)"

definition add_pre_commit_deposit :: "TokenAmount \<Rightarrow> unit mfm" where
  "add_pre_commit_deposit amount =
    sm_bind (sm_get (\<lambda>st. pre_commit_deposits st + amount)) (\<lambda>new_total.
    sm_bind (sm_when (new_total < 0) (MinerErr ''negative pre-commit deposit'')) (\<lambda>_.
    sm_upd (\<lambda>st. st\<lparr>pre_commit_deposits := new_total\<rparr>)))"

definition add_initial_pledge :: "TokenAmount \<Rightarrow> unit mfm" where
  "add_initial_pledge amount =
    sm_bind (sm_get (\<lambda>st. initial_pledge st + amount)) (\<lambda>new_total.
    sm_bind (sm_when (new_total < 0) (MinerErr ''negative initial pledge requirement'')) (\<lambda>_.
    sm_upd (\<lambda>st. st\<lparr>initial_pledge := new_total\<rparr>)))"

definition apply_penalty :: "TokenAmount \<Rightarrow> unit mfm" where
  "apply_penalty penalty =
    (if penalty < 0 then sm_err (MinerErr ''applying negative penalty'')
     else sm_upd (\<lambda>st. st\<lparr>fee_debt := fee_debt st + penalty\<rparr>))"

text \<open>What is deducted from the locked funds stays deducted when the check after it fails.\<close>

definition deduct_locked :: "TokenAmount \<Rightarrow> string \<Rightarrow> unit mfm" where
  "deduct_locked amount_unlocked msg =
    sm_bind (sm_upd (\<lambda>st. st\<lparr>locked_funds := locked_funds st - amount_unlocked\<rparr>)) (\<lambda>_.
    sm_bind (sm_get locked_funds) (\<lambda>l.
    sm_when (l < 0) (MinerErr msg)))"

definition add_locked_funds ::
  "ChainEpoch \<Rightarrow> TokenAmount \<Rightarrow> VestSpec \<Rightarrow> MinerFunds \<Rightarrow> ((MinerError, TokenAmount) res \<times> MinerFunds) option" where
  "add_locked_funds cur vesting_sum spec st =
    (if vesting_sum < 0 then Some (Inl (MinerErr ''negative vesting sum''), st)
     else case vf_unlock_vested_funds cur (vesting_funds st) of
       (amount_unlocked, funds) \<Rightarrow>
         (case deduct_locked amount_unlocked ''negative locked funds'' st of
            (Inl e, st1) \<Rightarrow> Some (Inl e, st1)
          | (Inr _, st1) \<Rightarrow>
              map_option (\<lambda>funds'. (Inr amount_unlocked,
                  st1\<lparr>locked_funds := locked_funds st1 + vesting_sum, vesting_funds := funds'\<rparr>))
                (vf_add_locked_funds cur vesting_sum (proving_period_start st1) spec funds)))"

definition get_unlocked_balance :: "TokenAmount \<Rightarrow> TokenAmount mfm" where
  "get_unlocked_balance actor_balance =
    sm_bind (sm_get (\<lambda>st. actor_balance - locked_funds st - pre_commit_deposits st - initial_pledge st)) (\<lambda>unlocked_balance.
    if unlocked_balance < 0 then sm_err (MinerErr ''negative unlocked balance'') else sm_ret unlocked_balance)"

definition get_available_balance :: "TokenAmount \<Rightarrow> TokenAmount mfm" where
  "get_available_balance actor_balance =
    sm_bind (get_unlocked_balance actor_balance) (\<lambda>b. sm_get (\<lambda>st. b - fee_debt st))"

definition unlock_unvested_funds :: "ChainEpoch \<Rightarrow> TokenAmount \<Rightarrow> TokenAmount mfm" where
  "unlock_unvested_funds cur target =
    sm_bind (sm_get locked_funds) (\<lambda>locked.
    if target = 0 \<or> locked = 0 then sm_ret 0
    else
      sm_bind (sm_get vesting_funds) (\<lambda>funds.
      sm_bind (sm_lift (vf_unlock_unvested_funds cur target funds)) (\<lambda>(amount_unlocked, funds').
      sm_bind (deduct_locked amount_unlocked ''negative locked funds'') (\<lambda>_.
      sm_bind (sm_upd (\<lambda>st. st\<lparr>vesting_funds := funds'\<rparr>)) (\<lambda>_.
      sm_ret amount_unlocked)))))"

definition unlock_vested_funds :: "ChainEpoch \<Rightarrow> TokenAmount mfm" where
  "unlock_vested_funds cur =
    sm_bind (sm_get locked_funds) (\<lambda>locked.
    if locked = 0 then sm_ret 0
    else
      sm_bind (sm_get (\<lambda>st. vf_unlock_vested_funds cur (vesting_funds st))) (\<lambda>(amount_unlocked, funds').
      sm_bind (deduct_locked amount_unlocked ''vesting cause locked funds to become negative'') (\<lambda>_.
      sm_bind (sm_upd (\<lambda>st. st\<lparr>vesting_funds := funds'\<rparr>)) (\<lambda>_.
      sm_ret amount_unlocked))))"

definition check_vested_funds :: "ChainEpoch \<Rightarrow> TokenAmount mfm" where
  "check_vested_funds cur =
    sm_get (\<lambda>st. fold (\<lambda>fund acc. acc + vf_amount fund) (takeWhile (\<lambda>fund. vf_epoch fund < cur) (vesting_funds st)) 0)"

definition repay_partial_debt_in_priority_order :: "ChainEpoch \<Rightarrow> TokenAmount \<Rightarrow> (TokenAmount \<times> TokenAmount) mfm" where
  "repay_partial_debt_in_priority_order cur curr_balance =
    sm_bind (get_unlocked_balance curr_balance) (\<lambda>unlocked_balance.
    sm_bind (sm_get fee_debt) (\<lambda>debt.
    sm_bind (unlock_unvested_funds cur debt) (\<lambda>from_vesting.
    sm_bind (sm_get fee_debt) (\<lambda>debt1.
    sm_bind (sm_when (debt1 < from_vesting) (MinerErr ''should never unlock more than the debt we need to repay'')) (\<lambda>_.
    sm_bind (sm_upd (\<lambda>st. st\<lparr>fee_debt := fee_debt st - from_vesting\<rparr>)) (\<lambda>_.
    sm_bind (sm_get (\<lambda>st. min unlocked_balance (fee_debt st))) (\<lambda>from_balance.
    sm_bind (sm_upd (\<lambda>st. st\<lparr>fee_debt := fee_debt st - from_balance\<rparr>)) (\<lambda>_.
    sm_ret (from_vesting, from_balance)))))))))"

definition repay_debts :: "TokenAmount \<Rightarrow> TokenAmount mfm" where
  "repay_debts curr_balance =
    sm_bind (get_unlocked_balance curr_balance) (\<lambda>unlocked_balance.
    sm_bind (sm_get fee_debt) (\<lambda>debt.
    sm_bind (sm_when (unlocked_balance < debt) (MinerActorErr ErrInsufficientFunds)) (\<lambda>_.
    sm_bind (sm_upd (\<lambda>st. st\<lparr>fee_debt := 0\<rparr>)) (\<lambda>_.
    sm_ret debt))))"

definition check_balance_invariants :: "TokenAmount \<Rightarrow> unit mfm" where
  "check_balance_invariants balance =
    sm_bind (sm_get id) (\<lambda>st.
    sm_bind (sm_when (pre_commit_deposits st < 0) (MinerErr ''pre-commit deposit is negative'')) (\<lambda>_.
    sm_bind (sm_when (locked_funds st < 0) (MinerErr ''locked funds is negative'')) (\<lambda>_.
    sm_bind (sm_when (initial_pledge st < 0) (MinerErr ''initial pledge is negative'')) (\<lambda>_.
    sm_bind (sm_when (fee_debt st < 0) (MinerErr ''fee debt is negative'')) (\<lambda>_.
    let min_balance = pre_commit_deposits st + locked_funds st + initial_pledge st in
    sm_when (balance < min_balance) (MinerErr ''fee debt is negative''))))))"

text \<open>
  The clean-up deletes only sectors it has found, so no deletion of an absent key arises; \<open>cleanup_events\<close> is a hash map, its keys are
  visited in ascending order.
\<close>

definition put_precommitted_sectors :: "SectorPreCommitOnChainInfo list \<Rightarrow> unit mfm" where
  "put_precommitted_sectors precommits =
    sm_bind (sm_get pre_committed_sectors) (\<lambda>precommitted.
    sm_bind (sm_lift (put_all_if_absent precommits precommitted)) (\<lambda>precommitted'.
    sm_upd (\<lambda>st. st\<lparr>pre_committed_sectors := precommitted'\<rparr>)))"

definition get_precommitted_sector :: "SectorNumber \<Rightarrow> MinerFunds \<Rightarrow> SectorPreCommitOnChainInfo option" where
  "get_precommitted_sector sector_num st = pre_committed_sectors st sector_num"

definition delete_precommitted_sectors :: "SectorNumber list \<Rightarrow> unit mfm" where
  "delete_precommitted_sectors sector_nums =
    sm_upd (\<lambda>st. st\<lparr>pre_committed_sectors := fold (\<lambda>sector_num m. m(sector_num := None)) sector_nums (pre_committed_sectors st)\<rparr>)"

definition quant_spec_every_deadline :: "MinerFunds \<Rightarrow> QuantSpec" where
  "quant_spec_every_deadline st = \<lparr>quant_unit = WPOST_CHALLENGE_WINDOW, quant_offset = proving_period_start st\<rparr>"

definition cleanup_queue :: "MinerFunds \<Rightarrow> BitFieldQueue" where
  "cleanup_queue st = \<lparr>q_amt = pre_committed_sectors_cleanup st, q_quant = quant_spec_every_deadline st\<rparr>"

type_synonym CleanupEvents = "(ChainEpoch \<times> SectorNumber list) list"

fun add_cleanup_events :: "CleanupEvents \<Rightarrow> ChainEpoch list \<Rightarrow> BitFieldQueue \<Rightarrow> (string, BitFieldQueue) res" where
  "add_cleanup_events events [] q = Inr q"
| "add_cleanup_events events (epoch # epochs) q =
    res_bind (add_to_queue_values epoch (the (map_of events epoch)) q) (\<lambda>q'. add_cleanup_events events epochs q')"

definition add_pre_commit_clean_ups :: "CleanupEvents \<Rightarrow> unit mfm" where
  "add_pre_commit_clean_ups events =
    sm_bind (sm_get cleanup_queue) (\<lambda>queue.
    sm_bind (sm_lift (map_sum MinerErr id (add_cleanup_events events (sort (map fst events)) queue))) (\<lambda>queue'.
    sm_upd (\<lambda>st. st\<lparr>pre_committed_sectors_cleanup := q_amt queue'\<rparr>)))"

fun collect_expired :: "MinerFunds \<Rightarrow> SectorNumber list \<Rightarrow> SectorNumber list \<times> TokenAmount \<Rightarrow> SectorNumber list \<times> TokenAmount" where
  "collect_expired st [] acc = acc"
| "collect_expired st (i # is) (precommits_to_delete, deposit_to_burn) =
    (case get_precommitted_sector i st of
       None \<Rightarrow> collect_expired st is (precommits_to_delete, deposit_to_burn)
     | Some sector \<Rightarrow> collect_expired st is (precommits_to_delete @ [i], deposit_to_burn + pre_commit_deposit sector))"

definition cleanup_expired_pre_commits :: "ChainEpoch \<Rightarrow> TokenAmount mfm" where
  "cleanup_expired_pre_commits cur =
    sm_bind (sm_get (\<lambda>st. pop_until cur (cleanup_queue st))) (\<lambda>((sectors, modified), queue).
    sm_bind (if modified then sm_upd (\<lambda>st. st\<lparr>pre_committed_sectors_cleanup := q_amt queue\<rparr>) else sm_ret ()) (\<lambda>_.
    sm_bind (sm_get (\<lambda>st. collect_expired st (BitField_iter sectors) ([], 0))) (\<lambda>(precommits_to_delete, deposit_to_burn).
    sm_bind (if precommits_to_delete = [] then sm_ret () else delete_precommitted_sectors precommits_to_delete) (\<lambda>_.
    sm_bind (sm_upd (\<lambda>st. st\<lparr>pre_commit_deposits := pre_commit_deposits st - deposit_to_burn\<rparr>)) (\<lambda>_.
    sm_bind (sm_get pre_commit_deposits) (\<lambda>deposits.
    sm_bind (sm_when (deposits < 0) (MinerErr ''pre-commit clean up caused negative deposits'')) (\<lambda>_.
    sm_ret deposit_to_burn)))))))"

section \<open>Sums over the vesting table\<close>

text \<open>\<open>vf_sum P\<close> adds up the amounts that vest at an epoch with \<open>P\<close>; a table is sorted and its amounts are not negative.\<close>

definition vf_sum :: "(ChainEpoch \<Rightarrow> bool) \<Rightarrow> VestingFunds \<Rightarrow> TokenAmount" where
  "vf_sum P fs = sum_list (map vf_amount (filter (\<lambda>f. P (vf_epoch f)) fs))"

definition vest_ok :: "VestingFunds \<Rightarrow> bool" where
  "vest_ok fs = (sorted_wrt (<) (map vf_epoch fs) \<and> (\<forall>f \<in> set fs. 0 \<le> vf_amount f))"

lemma vf_sum_simps [simp]:
  "vf_sum P [] = 0" "vf_sum P (f # fs) = (if P (vf_epoch f) then vf_amount f else 0) + vf_sum P fs"
  "vf_sum P (fs @ gs) = vf_sum P fs + vf_sum P gs"
  by (simp_all add: vf_sum_def)

lemma vf_sum_True: "vf_sum (\<lambda>_. True) fs = sum_list (map vf_amount fs)"
  by (simp add: vf_sum_def)

lemma vf_sum_nonneg: "\<forall>f \<in> set fs. 0 \<le> vf_amount f \<Longrightarrow> 0 \<le> vf_sum P fs"
  by (auto simp: vf_sum_def intro!: sum_list_nonneg)

lemma vf_sum_mono:
  assumes "\<forall>f \<in> set fs. 0 \<le> vf_amount f" "\<And>e. P e \<Longrightarrow> Q e"
  shows "vf_sum P fs \<le> vf_sum Q fs"
  using assms by (induction fs) force+

lemma vf_sum_update:
  "i < length fs \<Longrightarrow> vf_sum P (fs[i := (fs ! i)\<lparr>vf_amount := vf_amount (fs ! i) + a\<rparr>]) =
     vf_sum P fs + (if P (vf_epoch (fs ! i)) then a else 0)"
proof (induction fs arbitrary: i)
  case (Cons f fs)
  then show ?case by (cases i) auto
qed simp

lemma vf_sum_mset: "mset fs = mset gs \<Longrightarrow> vf_sum P fs = vf_sum P gs"
  by (simp add: vf_sum_def flip: sum_mset_sum_list)

lemma vest_ok_sort:
  assumes "distinct (map vf_epoch fs)" "\<forall>f \<in> set fs. 0 \<le> vf_amount f"
  shows "vest_ok (sort_key vf_epoch fs)" "vf_sum P (sort_key vf_epoch fs) = vf_sum P fs"
proof -
  have "mset (map vf_epoch (sort_key vf_epoch fs)) = mset (map vf_epoch fs)" by simp
  then have "distinct (map vf_epoch (sort_key vf_epoch fs))" using assms(1) mset_eq_imp_distinct_iff by blast
  moreover have "sorted (map vf_epoch (sort_key vf_epoch fs))" by (rule sorted_sort_key)
  ultimately show "vest_ok (sort_key vf_epoch fs)"
    using assms(2) by (simp add: vest_ok_def strict_sorted_iff)
  show "vf_sum P (sort_key vf_epoch fs) = vf_sum P fs" by (rule vf_sum_mset) simp
qed

text \<open>The index of the epochs of a table.\<close>

definition indexes :: "(ChainEpoch \<rightharpoonup> nat) \<Rightarrow> VestingFunds \<Rightarrow> bool" where
  "indexes m fs = (\<forall>e i. m e = Some i \<longleftrightarrow> i < length fs \<and> vf_epoch (fs ! i) = e)"

lemma indexes_append:
  assumes "indexes m fs" "m (vf_epoch f) = None"
  shows "indexes (m(vf_epoch f \<mapsto> length fs)) (fs @ [f])"
  unfolding indexes_def
proof (intro allI)
  fix e i
  have m: "m e = Some i \<longleftrightarrow> i < length fs \<and> vf_epoch (fs ! i) = e" for e i using assms(1) by (simp add: indexes_def)
  show "(m(vf_epoch f \<mapsto> length fs)) e = Some i \<longleftrightarrow> i < length (fs @ [f]) \<and> vf_epoch ((fs @ [f]) ! i) = e"
    using m [of e i] m [of "vf_epoch f" i] assms(2) by (cases "i < length fs"; cases "e = vf_epoch f") (auto simp: nth_append)
qed

lemma indexes_update:
  assumes "indexes m fs" "vf_epoch f = vf_epoch (fs ! i)"
  shows "indexes m (fs[i := f])"
proof -
  have "vf_epoch (fs[i := f] ! j) = vf_epoch (fs ! j)" if "j < length fs" for j
    using that assms(2) by (simp add: nth_list_update_if)
  then show ?thesis using assms(1) by (auto simp: indexes_def)
qed

lemma indexes_new:
  assumes "distinct (map vf_epoch fs)"
  shows "indexes (index_epochs fs) fs"
  using assms
proof (induction fs rule: rev_induct)
  case (snoc f fs)
  have "index_epochs fs (vf_epoch f) \<noteq> Some i" for i
  proof
    assume "index_epochs fs (vf_epoch f) = Some i"
    then have "i < length fs" "vf_epoch (fs ! i) = vf_epoch f" using snoc by (auto simp: indexes_def)
    then have "vf_epoch f \<in> vf_epoch ` set fs" by (metis image_eqI nth_mem)
    then show False using snoc.prems by simp
  qed
  then have "index_epochs fs (vf_epoch f) = None" by (cases "index_epochs fs (vf_epoch f)") auto
  moreover have "index_epochs (fs @ [f]) = (index_epochs fs)(vf_epoch f \<mapsto> length fs)"
    by (simp add: index_epochs_def enumerate_append_eq)
  moreover have "indexes (index_epochs fs) fs" using snoc by simp
  ultimately show ?case using indexes_append by (simp only:)
qed (simp add: indexes_def index_epochs_def)

section \<open>The vesting schedule\<close>

definition spec_ok :: "VestSpec \<Rightarrow> bool" where
  "spec_ok spec = (0 < step_duration spec \<and> 0 < quantization spec)"

lemma target_vest_bounds:
  assumes "0 \<le> S" "0 < x"
  shows "0 \<le> target_vest spec S x" "target_vest spec S x \<le> S"
    "x \<le> y \<Longrightarrow> target_vest spec S x \<le> target_vest spec S y"
proof -
  let ?p = "vest_period spec"
  have le: "S * z div ?p \<le> S" if "z < ?p" "0 < z" for z
  proof -
    have "S * z div ?p \<le> S * ?p div ?p" using that assms(1) by (intro zdiv_mono1 mult_left_mono) auto
    then show ?thesis using that by simp
  qed
  show "0 \<le> target_vest spec S x"
    using assms by (auto simp: target_vest_def intro!: pos_imp_zdiv_nonneg_iff [THEN iffD2])
  show "target_vest spec S x \<le> S" using le assms by (simp add: target_vest_def)
  show "target_vest spec S x \<le> target_vest spec S y" if "x \<le> y"
    using that le [of x] assms by (auto simp: target_vest_def intro!: zdiv_mono1 mult_left_mono)
qed

lemma quantize_up_mono: "0 < quant_unit q \<Longrightarrow> e \<le> f \<Longrightarrow> quantize_up q e \<le> quantize_up q f"
  using quantize_up_bounds [of q e] quantize_up_bounds [of q f] grid_unique [of "quant_unit q" "quantize_up q e" "quant_offset q" "quantize_up q f"]
  by linarith

text \<open>
  The invariant of the loop of \<open>add_locked_funds\<close>: \<open>S\<close> is to vest from epoch \<open>b\<close> on, \<open>fs\<close> is the table the loop started with.
  From the next epoch of the grid on everything scheduled so far is due, and before that never more than the schedule allows.
\<close>

definition next_vest :: "VestSpec \<Rightarrow> ChainEpoch \<Rightarrow> VestLoop \<Rightarrow> ChainEpoch" where
  "next_vest spec pps s = quantize_up \<lparr>quant_unit = quantization spec, quant_offset = pps\<rparr> (vl_epoch s + step_duration spec)"

definition vest_inv :: "VestSpec \<Rightarrow> ChainEpoch \<Rightarrow> TokenAmount \<Rightarrow> ChainEpoch \<Rightarrow> VestingFunds \<Rightarrow> VestLoop \<Rightarrow> bool" where
  "vest_inv spec pps S b fs s =
    (distinct (map vf_epoch (vl_funds s)) \<and> indexes (epoch_to_index s) (vl_funds s) \<and>
     (\<forall>f \<in> set (vl_funds s). 0 \<le> vf_amount f) \<and> b \<le> vl_epoch s \<and>
     0 \<le> vested_so_far s \<and> vested_so_far s \<le> S \<and>
     (\<forall>t \<ge> next_vest spec pps s. vested_so_far s \<le> target_vest spec S (t - b)) \<and>
     (vl_epoch s = b \<or> vl_epoch s - b < vest_period spec \<or> vested_so_far s = S) \<and>
     vf_sum (\<lambda>_. True) (vl_funds s) = vf_sum (\<lambda>_. True) fs + vested_so_far s \<and>
     (\<forall>t \<ge> next_vest spec pps s. vf_sum (\<lambda>e. e \<le> t) (vl_funds s) = vf_sum (\<lambda>e. e \<le> t) fs + vested_so_far s) \<and>
     (\<forall>t. vf_sum (\<lambda>e. e \<le> t) fs \<le> vf_sum (\<lambda>e. e \<le> t) (vl_funds s) \<and>
        vf_sum (\<lambda>e. e \<le> t) (vl_funds s) \<le> vf_sum (\<lambda>e. e \<le> t) fs + (if t \<le> b then 0 else target_vest spec S (t - b))))"

lemma next_vest_bounds:
  assumes "spec_ok spec"
  shows "vl_epoch s < next_vest spec pps s"
    "vl_epoch s' = vl_epoch s + step_duration spec \<Longrightarrow> next_vest spec pps s \<le> next_vest spec pps s'"
  using assms quantize_up_bounds(1) [of "\<lparr>quant_unit = quantization spec, quant_offset = pps\<rparr>" "vl_epoch s + step_duration spec"]
  by (auto simp: next_vest_def spec_ok_def intro!: quantize_up_mono)

text \<open>A step adds an amount at one epoch of the table.\<close>

lemma vest_step_funds:
  assumes "indexes (epoch_to_index s) (vl_funds s)" "distinct (map vf_epoch (vl_funds s))"
    "\<forall>f \<in> set (vl_funds s). 0 \<le> vf_amount f" "vested_so_far s \<le> target_vest spec S (next_vest spec pps s - b)"
  defines "v \<equiv> next_vest spec pps s" and "s' \<equiv> vest_step spec S pps b s"
  shows "vl_epoch s' = vl_epoch s + step_duration spec" "vested_so_far s' = target_vest spec S (v - b)"
    "indexes (epoch_to_index s') (vl_funds s')" "distinct (map vf_epoch (vl_funds s'))"
    "\<forall>f \<in> set (vl_funds s'). 0 \<le> vf_amount f"
    "vf_sum P (vl_funds s') = vf_sum P (vl_funds s) + (if P v then target_vest spec S (v - b) - vested_so_far s else 0)"
proof -
  let ?a = "target_vest spec S (v - b) - vested_so_far s"
  have a: "0 \<le> ?a" using assms(4) by (simp add: v_def)
  have step: "s' = (case epoch_to_index s v of
      Some i \<Rightarrow> s\<lparr>vl_epoch := vl_epoch s + step_duration spec, vested_so_far := target_vest spec S (v - b),
        vl_funds := (vl_funds s)[i := (vl_funds s ! i)\<lparr>vf_amount := vf_amount (vl_funds s ! i) + ?a\<rparr>]\<rparr>
    | None \<Rightarrow> s\<lparr>vl_epoch := vl_epoch s + step_duration spec, vested_so_far := target_vest spec S (v - b),
        vl_funds := vl_funds s @ [\<lparr>vf_epoch = v, vf_amount = ?a\<rparr>],
        epoch_to_index := (epoch_to_index s)(v \<mapsto> length (vl_funds s))\<rparr>)"
    unfolding s'_def v_def vest_step_def next_vest_def Let_def by (rule refl)
  then show "vl_epoch s' = vl_epoch s + step_duration spec" "vested_so_far s' = target_vest spec S (v - b)"
    by (simp_all split: option.splits)
  have "indexes (epoch_to_index s') (vl_funds s') \<and> distinct (map vf_epoch (vl_funds s')) \<and>
    (\<forall>f \<in> set (vl_funds s'). 0 \<le> vf_amount f) \<and> vf_sum P (vl_funds s') = vf_sum P (vl_funds s) + (if P v then ?a else 0)"
  proof (cases "epoch_to_index s v")
    case None
    then have "v \<noteq> vf_epoch (vl_funds s ! i)" if "i < length (vl_funds s)" for i
      using assms(1) that unfolding indexes_def by (metis option.distinct(1))
    then have "v \<notin> vf_epoch ` set (vl_funds s)" by (metis imageE in_set_conv_nth)
    moreover have "indexes ((epoch_to_index s)(v \<mapsto> length (vl_funds s))) (vl_funds s @ [\<lparr>vf_epoch = v, vf_amount = ?a\<rparr>])"
      using indexes_append [OF assms(1), of "\<lparr>vf_epoch = v, vf_amount = ?a\<rparr>"] None by simp
    ultimately show ?thesis using None assms(2,3) a by (auto simp: step)
  next
    case (Some i)
    then have i: "i < length (vl_funds s)" "vf_epoch (vl_funds s ! i) = v" using assms(1) by (auto simp: indexes_def)
    let ?f = "(vl_funds s ! i)\<lparr>vf_amount := vf_amount (vl_funds s ! i) + ?a\<rparr>"
    have "0 \<le> vf_amount ?f" using a assms(3) i(1) by simp
    then have "\<forall>f \<in> set ((vl_funds s)[i := ?f]). 0 \<le> vf_amount f"
      using assms(3) set_update_subset_insert [of "vl_funds s" i ?f] by blast
    moreover have "map vf_epoch ((vl_funds s)[i := ?f]) = map vf_epoch (vl_funds s)"
      using i by (simp add: map_update list_update_same_conv)
    moreover have "indexes (epoch_to_index s) ((vl_funds s)[i := ?f])" by (rule indexes_update [OF assms(1)]) simp
    ultimately show ?thesis using Some assms(2) vf_sum_update [OF i(1), of P ?a] i(2) by (simp add: step)
  qed
  then show "indexes (epoch_to_index s') (vl_funds s')" "distinct (map vf_epoch (vl_funds s'))"
    "\<forall>f \<in> set (vl_funds s'). 0 \<le> vf_amount f"
    "vf_sum P (vl_funds s') = vf_sum P (vl_funds s) + (if P v then ?a else 0)" by blast+
qed

lemma vest_inv_step:
  assumes ok: "spec_ok spec" "0 \<le> S" and inv: "vest_inv spec pps S b fs s"
  shows "vest_inv spec pps S b fs (vest_step spec S pps b s)"
proof -
  let ?v = "next_vest spec pps s" and ?s = "vest_step spec S pps b s"
  note i = inv [unfolded vest_inv_def]
  have v: "b < ?v" "vl_epoch s < ?v" using next_vest_bounds(1) [OF ok(1), of s pps] i by auto
  have pre: "vested_so_far s \<le> target_vest spec S (?v - b)" using i by blast
  note st = vest_step_funds [OF conjunct1 [OF conjunct2 [OF i]] conjunct1 [OF i] _ pre]
  have nn: "\<forall>f \<in> set (vl_funds s). 0 \<le> vf_amount f" using i by blast
  note st = st [OF nn]
  have v': "?v \<le> next_vest spec pps ?s" by (rule next_vest_bounds(2) [OF ok(1) st(1)])
  have T: "0 \<le> target_vest spec S (?v - b)" "target_vest spec S (?v - b) \<le> S"
    "\<And>t. ?v \<le> t \<Longrightarrow> target_vest spec S (?v - b) \<le> target_vest spec S (t - b)"
    using target_vest_bounds [OF ok(2), where x = "?v - b" and spec = spec] v by auto
  have e: "vl_epoch ?s - b < vest_period spec \<or> vested_so_far ?s = S"
    using quantize_up_bounds(1) [of "\<lparr>quant_unit = quantization spec, quant_offset = pps\<rparr>" "vl_epoch s + step_duration spec"] ok(1)
    by (auto simp: st(1,2) target_vest_def next_vest_def spec_ok_def)
  have u: "vf_sum (\<lambda>e. e \<le> t) (vl_funds ?s) =
      (if ?v \<le> t then vf_sum (\<lambda>e. e \<le> t) fs + target_vest spec S (?v - b) else vf_sum (\<lambda>e. e \<le> t) (vl_funds s))" for t
    using i by (simp add: st(6))
  have old: "vf_sum (\<lambda>e. e \<le> t) fs \<le> vf_sum (\<lambda>e. e \<le> t) (vl_funds s)"
    "vf_sum (\<lambda>e. e \<le> t) (vl_funds s) \<le> vf_sum (\<lambda>e. e \<le> t) fs + (if t \<le> b then 0 else target_vest spec S (t - b))" for t
    using i by blast+
  have "vf_sum (\<lambda>e. e \<le> t) fs \<le> vf_sum (\<lambda>e. e \<le> t) (vl_funds ?s) \<and>
    vf_sum (\<lambda>e. e \<le> t) (vl_funds ?s) \<le> vf_sum (\<lambda>e. e \<le> t) fs + (if t \<le> b then 0 else target_vest spec S (t - b))" for t
    using old [of t] T(1) T(3) [of t] v(1) by (simp add: u)
  moreover have "vf_sum (\<lambda>_. True) (vl_funds ?s) = vf_sum (\<lambda>_. True) fs + target_vest spec S (?v - b)"
    using i by (simp add: st(6))
  moreover have "b \<le> vl_epoch ?s" using i ok(1) by (auto simp: st(1) spec_ok_def)
  moreover have "\<forall>t \<ge> next_vest spec pps ?s. target_vest spec S (?v - b) \<le> target_vest spec S (t - b)"
    using T(3) v' by auto
  moreover have "\<forall>t \<ge> next_vest spec pps ?s. vf_sum (\<lambda>e. e \<le> t) (vl_funds ?s) = vf_sum (\<lambda>e. e \<le> t) fs + target_vest spec S (?v - b)"
    using v' by (auto simp: u)
  ultimately show ?thesis using T(1,2) e st(2-5) unfolding vest_inv_def by (simp only: st(2)) blast
qed

lemma vest_inv_init:
  assumes "spec_ok spec" "0 \<le> S" "vest_ok fs"
  shows "vest_inv spec pps S b fs \<lparr>vl_epoch = b, vested_so_far = 0, vl_funds = fs, epoch_to_index = index_epochs fs\<rparr>" (is "vest_inv _ _ _ _ _ ?s")
proof -
  have "b < next_vest spec pps ?s" using next_vest_bounds(1) [OF assms(1), of ?s] by simp
  then have "\<forall>t \<ge> next_vest spec pps ?s. 0 \<le> target_vest spec S (t - b)" "\<forall>t. \<not> t \<le> b \<longrightarrow> 0 \<le> target_vest spec S (t - b)"
    using target_vest_bounds(1) [OF assms(2)] by auto
  moreover have "distinct (map vf_epoch fs)" using assms(3) by (simp add: vest_ok_def strict_sorted_iff)
  ultimately show ?thesis using assms(2,3) indexes_new unfolding vest_inv_def by (simp add: vest_ok_def)
qed

lemma vf_add_locked_funds_ok:
  assumes "spec_ok spec" "0 \<le> S" "vest_ok fs"
  obtains fs' where "vf_add_locked_funds cur S pps spec fs = Some fs'" "vest_ok fs'"
    "vf_sum (\<lambda>_. True) fs' = vf_sum (\<lambda>_. True) fs + S"
    "\<forall>t. vf_sum (\<lambda>e. e \<le> t) fs \<le> vf_sum (\<lambda>e. e \<le> t) fs'"
    "\<forall>t. vf_sum (\<lambda>e. e \<le> t) fs' \<le> vf_sum (\<lambda>e. e \<le> t) fs +
       (if t \<le> cur + initial_delay spec then 0 else target_vest spec S (t - (cur + initial_delay spec)))"
proof -
  let ?b = "cur + initial_delay spec"
  let ?I = "vest_inv spec pps S ?b fs" and ?c = "\<lambda>s. vested_so_far s < S" and ?st = "vest_step spec S pps ?b"
  let ?s = "\<lparr>vl_epoch = ?b, vested_so_far = 0, vl_funds = fs, epoch_to_index = index_epochs fs\<rparr>"
  let ?m = "\<lambda>s. nat (?b + max 1 (vest_period spec) - vl_epoch s)"
  have step: "?I (?st s) \<and> ?m (?st s) < ?m s" if "?I s" "?c s" for s
  proof -
    have "vl_epoch (?st s) = vl_epoch s + step_duration spec"
      by (simp add: vest_step_def Let_def split: option.splits)
    moreover have "vl_epoch s = ?b \<or> vl_epoch s - ?b < vest_period spec" using that by (auto simp: vest_inv_def)
    ultimately show ?thesis using vest_inv_step [OF assms(1,2) that(1)] assms(1) by (auto simp: spec_ok_def)
  qed
  note init = vest_inv_init [OF assms, of pps ?b]
  from measure_while_option_Some [where P = ?I and b = ?c and c = ?st and f = ?m and s = ?s, OF step init] obtain s where s: "while_option ?c ?st ?s = Some s" by blast
  have "?I s" by (rule while_option_rule [where P = ?I and b = ?c and c = ?st and s = ?s, OF _ s init]) (rule conjunct1 [OF step])
  moreover have "\<not> ?c s" by (rule while_option_stop [OF s])
  ultimately have i: "distinct (map vf_epoch (vl_funds s))" "\<forall>f \<in> set (vl_funds s). 0 \<le> vf_amount f" "vested_so_far s = S"
    "vf_sum (\<lambda>_. True) (vl_funds s) = vf_sum (\<lambda>_. True) fs + vested_so_far s"
    "\<And>t. vf_sum (\<lambda>e. e \<le> t) fs \<le> vf_sum (\<lambda>e. e \<le> t) (vl_funds s) \<and>
        vf_sum (\<lambda>e. e \<le> t) (vl_funds s) \<le> vf_sum (\<lambda>e. e \<le> t) fs + (if t \<le> ?b then 0 else target_vest spec S (t - ?b))"
    unfolding vest_inv_def by auto
  have "vf_add_locked_funds cur S pps spec fs = Some (sort_key vf_epoch (vl_funds s))"
    by (simp add: vf_add_locked_funds_def s)
  from this vest_ok_sort(1) [OF i(1,2)] show ?thesis
    by (rule that) (use vest_ok_sort(2) [OF i(1,2)] i(3-5) in auto)
qed

section \<open>Unlocking\<close>

lemma vest_ok_Cons: "vest_ok (f # fs) \<longleftrightarrow> 0 \<le> vf_amount f \<and> vest_ok fs \<and> (\<forall>g \<in> set fs. vf_epoch f < vf_epoch g)"
  by (auto simp: vest_ok_def)

lemma vest_ok_append: "vest_ok (fs @ gs) \<longleftrightarrow> vest_ok fs \<and> vest_ok gs \<and> (\<forall>f \<in> set fs. \<forall>g \<in> set gs. vf_epoch f < vf_epoch g)"
  by (induction fs) (auto simp: vest_ok_Cons vest_ok_def [of "[]"])

lemma vest_ok_nonneg: "vest_ok fs \<Longrightarrow> 0 \<le> vf_sum P fs"
  by (rule vf_sum_nonneg) (simp add: vest_ok_def)

lemma vf_sum_eq_0: "(\<And>f. f \<in> set fs \<Longrightarrow> \<not> P (vf_epoch f)) \<Longrightarrow> vf_sum P fs = 0"
  by (simp add: vf_sum_def)

lemma vf_sum_cong: "(\<And>f. f \<in> set fs \<Longrightarrow> P (vf_epoch f) = Q (vf_epoch f)) \<Longrightarrow> vf_sum P fs = vf_sum Q fs"
  unfolding vf_sum_def by (metis (mono_tags, lifting) filter_cong)

text \<open>A table splits at the current epoch.\<close>

lemma vest_ok_split:
  assumes "vest_ok fs"
  obtains old new where "fs = old @ new" "vest_ok old" "vest_ok new"
    "\<forall>f \<in> set old. vf_epoch f < cur" "\<forall>f \<in> set new. cur \<le> vf_epoch f"
    "takeWhile (\<lambda>f. \<not> cur \<le> vf_epoch f) fs = old"
proof -
  let ?P = "\<lambda>f. \<not> cur \<le> vf_epoch f"
  have fs: "fs = takeWhile ?P fs @ dropWhile ?P fs" by simp
  then have ok: "vest_ok (takeWhile ?P fs @ dropWhile ?P fs)" using assms by simp
  have "\<forall>f \<in> set (dropWhile ?P fs). cur \<le> vf_epoch f"
  proof (cases "dropWhile ?P fs")
    case (Cons g gs)
    then have "cur \<le> vf_epoch g" using hd_dropWhile [of ?P fs] by simp
    then show ?thesis using ok Cons by (force simp: vest_ok_append vest_ok_Cons)
  next
    case Nil
    then show ?thesis by (simp only: list.set ball_empty)
  qed
  moreover have "\<forall>f \<in> set (takeWhile ?P fs). vf_epoch f < cur" by (auto dest: set_takeWhileD)
  moreover have "vest_ok (takeWhile ?P fs)" "vest_ok (dropWhile ?P fs)" using ok by (simp_all only: vest_ok_append)
  ultimately show ?thesis by (intro that [OF fs]) (rule refl | assumption)+
qed

lemma vf_unlock_vested_funds_ok:
  assumes "vest_ok fs"
  shows "\<exists>fs'. vf_unlock_vested_funds cur fs = (vf_sum (\<lambda>e. e < cur) fs, fs') \<and> vest_ok fs' \<and>
    (\<forall>P. vf_sum P fs' = vf_sum (\<lambda>e. cur \<le> e \<and> P e) fs)"
proof -
  obtain old new where s: "fs = old @ new" "vest_ok old" "vest_ok new" "\<forall>f \<in> set old. vf_epoch f < cur"
    "\<forall>f \<in> set new. cur \<le> vf_epoch f" "takeWhile (\<lambda>f. \<not> cur \<le> vf_epoch f) fs = old"
    by (rule vest_ok_split [OF assms, where cur = cur])
  have "vf_sum (\<lambda>e. e < cur) old = vf_sum (\<lambda>_. True) old" "vf_sum (\<lambda>e. e < cur) new = 0"
    "vf_sum (\<lambda>e. cur \<le> e \<and> P e) old = 0" "vf_sum (\<lambda>e. cur \<le> e \<and> P e) new = vf_sum P new" for P
    using s(4,5) by (auto intro!: vf_sum_cong vf_sum_eq_0)
  then show ?thesis using s(1-3) s(6) by (simp add: vf_unlock_vested_funds_def Let_def vf_sum_True)
qed

text \<open>\<open>consume r\<close> takes the amount \<open>r\<close> from the front of a table.\<close>

fun consume :: "TokenAmount \<Rightarrow> VestingFunds \<Rightarrow> VestingFunds" where
  "consume r [] = []"
| "consume r (f # fs) =
    (if r \<le> 0 then f # fs else if vf_amount f \<le> r then consume (r - vf_amount f) fs
     else f\<lparr>vf_amount := vf_amount f - r\<rparr> # fs)"

lemma consume_sums:
  assumes "vest_ok fs" "0 \<le> r"
  shows "vest_ok (consume r fs) \<and> vf_epoch ` set (consume r fs) \<subseteq> vf_epoch ` set fs \<and>
    vf_sum (\<lambda>e. e \<le> t) (consume r fs) = max 0 (vf_sum (\<lambda>e. e \<le> t) fs - r) \<and>
    vf_sum (\<lambda>_. True) (consume r fs) = max 0 (vf_sum (\<lambda>_. True) fs - r)"
  using assms
proof (induction r fs rule: consume.induct)
  case (2 r f fs)
  have f: "0 \<le> vf_amount f" "vest_ok fs" "\<forall>g \<in> set fs. vf_epoch f < vf_epoch g" using 2(2) by (simp_all add: vest_ok_Cons)
  note nn = vest_ok_nonneg [OF f(2), of "\<lambda>e. e \<le> t"] vest_ok_nonneg [OF f(2), of "\<lambda>_. True"]
  have z: "vf_sum (\<lambda>e. e \<le> t) fs = 0" if "\<not> vf_epoch f \<le> t" using that f(3) by (force intro: vf_sum_eq_0)
  consider (stop) "r = 0" | (all) "0 < r" "vf_amount f \<le> r" | (part) "0 < r" "r < vf_amount f" using 2(3) by linarith
  then show ?case
  proof cases
    case all
    with 2(1) f(2) have "vest_ok (consume (r - vf_amount f) fs) \<and> vf_epoch ` set (consume (r - vf_amount f) fs) \<subseteq> vf_epoch ` set fs \<and>
      vf_sum (\<lambda>e. e \<le> t) (consume (r - vf_amount f) fs) = max 0 (vf_sum (\<lambda>e. e \<le> t) fs - (r - vf_amount f)) \<and>
      vf_sum (\<lambda>_. True) (consume (r - vf_amount f) fs) = max 0 (vf_sum (\<lambda>_. True) fs - (r - vf_amount f))" by simp
    then show ?thesis using all z by (cases "vf_epoch f \<le> t") (auto simp: algebra_simps)
  next
    case part
    then show ?thesis using f nn z by (cases "vf_epoch f \<le> t") (auto simp: vest_ok_Cons)
  qed (use 2(2) f nn z in auto)
qed (simp add: vest_ok_def)

lemmas consume_ok = consume_sums [THEN conjunct1] consume_sums [THEN conjunct2, THEN conjunct1]
  consume_sums [THEN conjunct2, THEN conjunct2, THEN conjunct1] consume_sums [THEN conjunct2, THEN conjunct2, THEN conjunct2]

lemma unlock_loop_new:
  assumes "\<forall>f \<in> set fs. cur \<le> vf_epoch f \<and> 0 \<le> vf_amount f" "am \<le> target"
  shows "\<exists>n fs'. unlock_loop cur target i am lst start fs =
      (am + min (target - am) (vf_sum (\<lambda>_. True) fs), if n = 0 then lst else Some (i + n - 1), start, fs') \<and>
    n \<le> length fs \<and> length fs' = length fs \<and> drop n fs' = consume (target - am) fs"
  using assms
proof (induction fs arbitrary: i am lst)
  case (Cons f fs)
  have nn: "0 \<le> vf_sum (\<lambda>_. True) fs" using Cons.prems by (intro vf_sum_nonneg) simp
  consider (stop) "target \<le> am" | (all) "am < target" "vf_amount f \<le> target - am" | (part) "am < target" "target - am < vf_amount f"
    by linarith
  then show ?case
  proof cases
    case stop
    then show ?thesis using Cons.prems nn by (intro exI [of _ 0] exI [of _ "f # fs"]) auto
  next
    case all
    have "\<forall>f \<in> set fs. cur \<le> vf_epoch f \<and> 0 \<le> vf_amount f" "am + vf_amount f \<le> target" using Cons.prems all by auto
    from Cons.IH [OF this, of "i + 1" "Some i"] obtain n fs' where n: "unlock_loop cur target (i + 1) (am + vf_amount f) (Some i) start fs =
      (am + vf_amount f + min (target - (am + vf_amount f)) (vf_sum (\<lambda>_. True) fs), if n = 0 then Some i else Some (i + 1 + n - 1), start, fs')"
      "n \<le> length fs" "length fs' = length fs" "drop n fs' = consume (target - (am + vf_amount f)) fs"
      by (elim exE conjE) rule
    have m: "min (target - am) (vf_amount f) = vf_amount f" using all by simp
    have "unlock_loop cur target i am lst start (f # fs) =
      (am + vf_amount f + min (target - (am + vf_amount f)) (vf_sum (\<lambda>_. True) fs), Some (i + n), start, f # fs')"
      using Cons.prems all(1) n(1) by (simp add: m Let_def)
    then show ?thesis using n(2-4) all
      by (intro exI [of _ "n + 1"] exI [of _ "f # fs'"]) (simp add: min_add_distrib_left algebra_simps)
  next
    case part
    have "unlock_loop cur target (i + 1) target lst start fs = (target, lst, start, fs)" by (cases fs) simp_all
    then show ?thesis using Cons.prems part nn
      by (intro exI [of _ 0] exI [of _ "f\<lparr>vf_amount := vf_amount f - (target - am)\<rparr> # fs"]) auto
  qed
qed auto

lemma unlock_loop_old:
  assumes "\<forall>f \<in> set old. vf_epoch f < cur" "am < target"
  shows "unlock_loop cur target i am lst start (old @ new) =
    (case unlock_loop cur target (i + length old) am lst (if old = [] then start else i + length old) new of
       (a, l, s, vs) \<Rightarrow> (a, l, s, old @ vs))"
  using assms by (induction old arbitrary: i start) (auto split: prod.splits)

lemma vf_unlock_unvested_funds_ok:
  assumes "vest_ok fs" "0 \<le> target"
  obtains fs' where "vf_unlock_unvested_funds cur target fs = Inr (min target (vf_sum (\<lambda>e. cur \<le> e) fs), fs')" "vest_ok fs'"
    "\<forall>P. vf_sum (\<lambda>e. e < cur \<and> P e) fs' = vf_sum (\<lambda>e. e < cur \<and> P e) fs"
    "\<forall>t. vf_sum (\<lambda>e. cur \<le> e \<and> e \<le> t) fs' = max 0 (vf_sum (\<lambda>e. cur \<le> e \<and> e \<le> t) fs - target)"
    "vf_sum (\<lambda>e. cur \<le> e) fs' = max 0 (vf_sum (\<lambda>e. cur \<le> e) fs - target)"
proof -
  obtain old new where s: "fs = old @ new" "vest_ok old" "vest_ok new" "\<forall>f \<in> set old. vf_epoch f < cur"
    "\<forall>f \<in> set new. cur \<le> vf_epoch f" "takeWhile (\<lambda>f. \<not> cur \<le> vf_epoch f) fs = old"
    by (rule vest_ok_split [OF assms(1), where cur = cur])
  note c = consume_ok [OF s(3) assms(2)]
  have new: "\<forall>f \<in> set (consume target new). cur \<le> vf_epoch f" using c(2) s(5) by fastforce
  have run: "vf_unlock_unvested_funds cur target fs = Inr (min target (vf_sum (\<lambda>_. True) new), old @ consume target new)"
  proof (cases "0 < target")
    case False
    then have "unlock_loop cur target 0 0 None 0 fs = (0, None, 0, fs)" by (cases fs) simp_all
    moreover have "consume target new = new" using False by (cases new) simp_all
    ultimately show ?thesis using False assms(2) vest_ok_nonneg [OF s(3), of "\<lambda>_. True"] s(1) by (simp add: vf_unlock_unvested_funds_def)
  next
    case True
    have "\<forall>f \<in> set new. cur \<le> vf_epoch f \<and> 0 \<le> vf_amount f" using s(3,5) by (simp add: vest_ok_def)
    from unlock_loop_new [OF this, of 0 target "length old" None "length old"] assms(2) obtain n fs' where
      n: "unlock_loop cur target (length old) 0 None (length old) new =
        (min target (vf_sum (\<lambda>_. True) new), if n = 0 then None else Some (length old + n - 1), length old, fs')"
      "n \<le> length new" "length fs' = length new" "drop n fs' = consume target new" by auto
    have "unlock_loop cur target 0 0 None 0 fs =
        (min target (vf_sum (\<lambda>_. True) new), if n = 0 then None else Some (length old + n - 1), length old, old @ fs')"
      using unlock_loop_old [OF s(4) True, of 0 None 0 new] n(1) s(1) by (cases "old = []") auto
    then show ?thesis using n(4) by (cases n) (auto simp: vf_unlock_unvested_funds_def)
  qed
  have o: "vf_sum (\<lambda>e. cur \<le> e \<and> P e) old = 0" "vf_sum (\<lambda>e. cur \<le> e) old = 0" for P
    using s(4) by (auto intro!: vf_sum_eq_0)
  have w: "vf_sum (\<lambda>e. cur \<le> e \<and> P e) gs = vf_sum P gs" "vf_sum (\<lambda>e. e < cur \<and> P e) gs = 0" "vf_sum (\<lambda>e. cur \<le> e) gs = vf_sum (\<lambda>_. True) gs"
    if "\<forall>f \<in> set gs. cur \<le> vf_epoch f" for gs P
    using that by (auto intro!: vf_sum_cong vf_sum_eq_0)
  have "vest_ok (old @ consume target new)" using s(2,4) c(1) new by (fastforce simp: vest_ok_append)
  with run show ?thesis by (intro that [of "old @ consume target new"]) (use s(1) o w [OF s(5)] w [OF new] c(3,4) in simp_all)
qed

section \<open>The accounts\<close>

text \<open>
  \<open>miner_funds_ok\<close> is the invariant of the accounts: the locked funds are the sum of the vesting table, and the queue of
  expirations is well-formed.  \<open>FundsOp\<close> are
  the calls that change the accounts or what the clean-up reads, \<open>funds_step\<close> runs one.  (When sectors are proven the actor also
  calls \<open>delete_precommitted_sectors\<close> directly, which changes no account.)
\<close>

definition miner_funds_ok :: "MinerFunds \<Rightarrow> bool" where
  "miner_funds_ok st = (vest_ok (vesting_funds st) \<and> locked_funds st = vf_sum (\<lambda>_. True) (vesting_funds st) \<and>
     0 \<le> pre_commit_deposits st \<and> 0 \<le> initial_pledge st \<and> 0 \<le> fee_debt st \<and> queue_ok (pre_committed_sectors_cleanup st))"

definition min_balance :: "MinerFunds \<Rightarrow> TokenAmount" where
  "min_balance st = pre_commit_deposits st + locked_funds st + initial_pledge st"

datatype FundsOp =
    Deposit TokenAmount | Pledge TokenAmount | Penalty TokenAmount | Lock ChainEpoch TokenAmount VestSpec
  | UnlockVested ChainEpoch | UnlockUnvested ChainEpoch TokenAmount | RepayPartial ChainEpoch TokenAmount | Repay TokenAmount
  | PutPrecommits "SectorPreCommitOnChainInfo list" | AddCleanUps CleanupEvents | CleanUp ChainEpoch

definition discard :: "('e, 'a) res \<times> 's \<Rightarrow> ('e, unit) res \<times> 's" where
  "discard x = (case x of (Inl e, s) \<Rightarrow> (Inl e, s) | (Inr _, s) \<Rightarrow> (Inr (), s))"

fun funds_step :: "FundsOp \<Rightarrow> MinerFunds \<Rightarrow> ((MinerError, unit) res \<times> MinerFunds) option" where
  "funds_step (Deposit a) st = Some (add_pre_commit_deposit a st)"
| "funds_step (Pledge a) st = Some (add_initial_pledge a st)"
| "funds_step (Penalty a) st = Some (apply_penalty a st)"
| "funds_step (Lock cur a spec) st = map_option discard (add_locked_funds cur a spec st)"
| "funds_step (UnlockVested cur) st = Some (discard (unlock_vested_funds cur st))"
| "funds_step (UnlockUnvested cur a) st = Some (discard (unlock_unvested_funds cur a st))"
| "funds_step (RepayPartial cur b) st = Some (discard (repay_partial_debt_in_priority_order cur b st))"
| "funds_step (Repay b) st = Some (discard (repay_debts b st))"
| "funds_step (PutPrecommits infos) st = Some (put_precommitted_sectors infos st)"
| "funds_step (AddCleanUps events) st = Some (add_pre_commit_clean_ups events st)"
| "funds_step (CleanUp cur) st = Some (discard (cleanup_expired_pre_commits cur st))"

text \<open>
  The arguments for which a call cannot go wrong inside: a schedule with positive step and quantization, no negative target, and clean-up events at epochs from
  zero on (with room for the rounding below the end of the type), each with distinct sectors.
\<close>

fun funds_args_ok :: "FundsOp \<Rightarrow> bool" where
  "funds_args_ok (Lock cur a spec) = spec_ok spec"
| "funds_args_ok (UnlockUnvested cur a) = (0 \<le> a)"
| "funds_args_ok (AddCleanUps events) =
    (\<forall>(e, ns) \<in> set events. 0 \<le> e \<and> e + WPOST_CHALLENGE_WINDOW \<le> 2 ^ 63 \<and> distinct ns)"
| "funds_args_ok _ = True"

text \<open>The pre-committed sectors that are due for the clean-up at an epoch, and their deposits.\<close>

definition expired :: "ChainEpoch \<Rightarrow> MinerFunds \<Rightarrow> SectorNumber set" where
  "expired cur st = {n \<in> dom (pre_committed_sectors st). \<exists>e \<le> cur. n \<in> scheduled (pre_committed_sectors_cleanup st) e}"

definition expired_deposits :: "ChainEpoch \<Rightarrow> MinerFunds \<Rightarrow> TokenAmount" where
  "expired_deposits cur st = (\<Sum>n \<in> expired cur st. pre_commit_deposit (the (pre_committed_sectors st n)))"

lemma discard_simps [simp]: "discard (Inl e, s) = (Inl e, s)" "discard (Inr x, s) = (Inr (), s)"
  by (simp_all add: discard_def)

lemma vf_sum_split: "vf_sum P fs = vf_sum (\<lambda>e. e < c \<and> P e) fs + vf_sum (\<lambda>e. c \<le> e \<and> P e) fs"
  by (induction fs) auto

lemma locked_nonneg: "miner_funds_ok st \<Longrightarrow> 0 \<le> locked_funds st"
  by (auto simp: miner_funds_ok_def vest_ok_nonneg)

lemma unlock_vested_funds_run:
  assumes "miner_funds_ok st"
  obtains st' where "unlock_vested_funds cur st = (Inr (vf_sum (\<lambda>e. e < cur) (vesting_funds st)), st')" "miner_funds_ok st'"
    "st' = st\<lparr>locked_funds := locked_funds st', vesting_funds := vesting_funds st'\<rparr>"
proof -
  have ok: "vest_ok (vesting_funds st)" "locked_funds st = vf_sum (\<lambda>_. True) (vesting_funds st)" using assms by (simp_all add: miner_funds_ok_def)
  from vf_unlock_vested_funds_ok [OF ok(1), of cur] obtain fs' where fs':
    "vf_unlock_vested_funds cur (vesting_funds st) = (vf_sum (\<lambda>e. e < cur) (vesting_funds st), fs')" "vest_ok fs'"
    "\<And>P. vf_sum P fs' = vf_sum (\<lambda>e. cur \<le> e \<and> P e) (vesting_funds st)" by blast
  let ?u = "vf_sum (\<lambda>e. e < cur) (vesting_funds st)"
  have sum: "locked_funds st - ?u = vf_sum (\<lambda>_. True) fs'"
    using vf_sum_split [of "\<lambda>_. True" "vesting_funds st" cur] by (simp add: ok(2) fs'(3))
  have nn: "0 \<le> vf_sum (\<lambda>_. True) fs'" by (rule vest_ok_nonneg [OF fs'(2)])
  show ?thesis
  proof (cases "locked_funds st = 0")
    case True
    moreover have "0 \<le> ?u" by (rule vest_ok_nonneg [OF ok(1)])
    ultimately have "?u = 0" using sum nn by linarith
    then show ?thesis using True assms by (intro that [of st]) (simp_all add: unlock_vested_funds_def sm_bind_def sm_simps)
  next
    case False
    then have "unlock_vested_funds cur st = (Inr ?u, st\<lparr>locked_funds := locked_funds st - ?u, vesting_funds := fs'\<rparr>)"
      using fs'(1) sum nn by (simp add: unlock_vested_funds_def deduct_locked_def sm_bind_def sm_simps)
    then show ?thesis by (rule that) (use assms fs'(2) sum in \<open>simp_all add: miner_funds_ok_def\<close>)
  qed
qed

lemma unlock_unvested_funds_run:
  assumes "miner_funds_ok st" "0 \<le> a"
  obtains st' where "unlock_unvested_funds cur a st = (Inr (min a (vf_sum (\<lambda>e. cur \<le> e) (vesting_funds st))), st')" "miner_funds_ok st'"
    "st' = st\<lparr>locked_funds := locked_funds st', vesting_funds := vesting_funds st'\<rparr>"
    "locked_funds st' = locked_funds st - min a (vf_sum (\<lambda>e. cur \<le> e) (vesting_funds st))"
    "vf_sum (\<lambda>e. cur \<le> e) (vesting_funds st') = max 0 (vf_sum (\<lambda>e. cur \<le> e) (vesting_funds st) - a)"
proof -
  have ok: "vest_ok (vesting_funds st)" "locked_funds st = vf_sum (\<lambda>_. True) (vesting_funds st)" using assms by (simp_all add: miner_funds_ok_def)
  obtain fs' where fs':
    "vf_unlock_unvested_funds cur a (vesting_funds st) = Inr (min a (vf_sum (\<lambda>e. cur \<le> e) (vesting_funds st)), fs')" "vest_ok fs'"
    "\<forall>P. vf_sum (\<lambda>e. e < cur \<and> P e) fs' = vf_sum (\<lambda>e. e < cur \<and> P e) (vesting_funds st)"
    "\<forall>t. vf_sum (\<lambda>e. cur \<le> e \<and> e \<le> t) fs' = max 0 (vf_sum (\<lambda>e. cur \<le> e \<and> e \<le> t) (vesting_funds st) - a)"
    "vf_sum (\<lambda>e. cur \<le> e) fs' = max 0 (vf_sum (\<lambda>e. cur \<le> e) (vesting_funds st) - a)"
    by (rule vf_unlock_unvested_funds_ok [OF ok(1) assms(2), where cur = cur])
  let ?s = "vf_sum (\<lambda>e. cur \<le> e) (vesting_funds st)"
  have nn: "0 \<le> ?s" "0 \<le> vf_sum (\<lambda>e. e < cur) (vesting_funds st)" "0 \<le> vf_sum (\<lambda>_. True) fs'"
    using vest_ok_nonneg [OF ok(1)] vest_ok_nonneg [OF fs'(2)] by blast+
  have sum: "locked_funds st - min a ?s = vf_sum (\<lambda>_. True) fs'"
    using vf_sum_split [of "\<lambda>_. True" "vesting_funds st" cur] vf_sum_split [of "\<lambda>_. True" fs' cur] fs'(3) [THEN spec, of "\<lambda>_. True"] fs'(5)
    by (simp add: ok(2))
  show ?thesis
  proof (cases "a = 0 \<or> locked_funds st = 0")
    case True
    have "?s = 0" if "locked_funds st = 0"
      using vf_sum_split [of "\<lambda>_. True" "vesting_funds st" cur] nn that by (simp add: ok(2))
    then have "min a ?s = 0" using True assms(2) nn(1) by auto
    then show ?thesis using True assms \<open>locked_funds st = 0 \<Longrightarrow> ?s = 0\<close> nn(1)
      by (intro that [of st]) (auto simp: unlock_unvested_funds_def sm_bind_def sm_simps)
  next
    case False
    then have "unlock_unvested_funds cur a st = (Inr (min a ?s), st\<lparr>locked_funds := locked_funds st - min a ?s, vesting_funds := fs'\<rparr>)"
      using fs'(1) sum nn by (simp add: unlock_unvested_funds_def deduct_locked_def sm_bind_def sm_simps)
    then show ?thesis by (rule that) (use assms fs'(2,5) sum in \<open>simp_all add: miner_funds_ok_def\<close>)
  qed
qed

lemma add_locked_funds_run:
  assumes "miner_funds_ok st" "0 \<le> a" "spec_ok spec"
  obtains st' where "add_locked_funds cur a spec st = Some (Inr (vf_sum (\<lambda>e. e < cur) (vesting_funds st)), st')" "miner_funds_ok st'"
proof -
  have ok: "vest_ok (vesting_funds st)" "locked_funds st = vf_sum (\<lambda>_. True) (vesting_funds st)" using assms by (simp_all add: miner_funds_ok_def)
  from vf_unlock_vested_funds_ok [OF ok(1), of cur] obtain fs where fs:
    "vf_unlock_vested_funds cur (vesting_funds st) = (vf_sum (\<lambda>e. e < cur) (vesting_funds st), fs)" "vest_ok fs"
    "\<And>P. vf_sum P fs = vf_sum (\<lambda>e. cur \<le> e \<and> P e) (vesting_funds st)" by blast
  have sum: "locked_funds st - vf_sum (\<lambda>e. e < cur) (vesting_funds st) = vf_sum (\<lambda>_. True) fs"
    using vf_sum_split [of "\<lambda>_. True" "vesting_funds st" cur] by (simp add: ok(2) fs(3))
  obtain fs' where
    fs': "vf_add_locked_funds cur a (proving_period_start st) spec fs = Some fs'" "vest_ok fs'"
    "vf_sum (\<lambda>_. True) fs' = vf_sum (\<lambda>_. True) fs + a"
    by (rule vf_add_locked_funds_ok [OF assms(3,2) fs(2), where cur = cur and pps = "proving_period_start st"])
  let ?st = "st\<lparr>locked_funds := vf_sum (\<lambda>_. True) fs + a, vesting_funds := fs'\<rparr>"
  have "add_locked_funds cur a spec st = Some (Inr (vf_sum (\<lambda>e. e < cur) (vesting_funds st)), ?st)"
    using assms(2) fs(1) fs'(1) sum vest_ok_nonneg [OF fs(2), of "\<lambda>_. True"]
    by (simp add: add_locked_funds_def deduct_locked_def sm_bind_def sm_simps)
  then show ?thesis by (rule that) (use assms fs' in \<open>simp add: miner_funds_ok_def\<close>)
qed

lemma repay_partial_run:
  assumes "miner_funds_ok st"
  shows "if b < min_balance st
    then repay_partial_debt_in_priority_order cur b st = (Inl (MinerErr ''negative unlocked balance''), st)
    else \<exists>v w st'. repay_partial_debt_in_priority_order cur b st = (Inr (v, w), st') \<and> miner_funds_ok st' \<and>
      v = min (fee_debt st) (vf_sum (\<lambda>e. cur \<le> e) (vesting_funds st)) \<and> w = min (b - min_balance st) (fee_debt st - v) \<and>
      fee_debt st' = fee_debt st - v - w \<and> min_balance st' = min_balance st - v \<and>
      vf_sum (\<lambda>e. cur \<le> e) (vesting_funds st') = vf_sum (\<lambda>e. cur \<le> e) (vesting_funds st) - v"
proof -
  let ?v = "min (fee_debt st) (vf_sum (\<lambda>e. cur \<le> e) (vesting_funds st))"
  let ?w = "min (b - min_balance st) (fee_debt st - ?v)"
  have d: "0 \<le> fee_debt st" "0 \<le> vf_sum (\<lambda>e. cur \<le> e) (vesting_funds st)"
    using assms by (auto simp: miner_funds_ok_def vest_ok_nonneg)
  obtain st1 where st1:
    "unlock_unvested_funds cur (fee_debt st) st = (Inr ?v, st1)" "miner_funds_ok st1"
    "st1 = st\<lparr>locked_funds := locked_funds st1, vesting_funds := vesting_funds st1\<rparr>"
    "locked_funds st1 = locked_funds st - ?v"
    "vf_sum (\<lambda>e. cur \<le> e) (vesting_funds st1) = max 0 (vf_sum (\<lambda>e. cur \<le> e) (vesting_funds st) - fee_debt st)"
    by (rule unlock_unvested_funds_run [OF assms d(1), where cur = cur])
  have u: "b - locked_funds st - pre_commit_deposits st - initial_pledge st = b - min_balance st" by (simp add: min_balance_def)
  have f1: "fee_debt st1 = fee_debt st" "pre_commit_deposits st1 = pre_commit_deposits st" "initial_pledge st1 = initial_pledge st"
    by (subst st1(3), simp)+
  show ?thesis
  proof (cases "b < min_balance st")
    case True
    then show ?thesis by (simp add: repay_partial_debt_in_priority_order_def get_unlocked_balance_def u sm_bind_def sm_simps)
  next
    case False
    then have "repay_partial_debt_in_priority_order cur b st = (Inr (?v, ?w), st1\<lparr>fee_debt := fee_debt st - ?v - ?w\<rparr>)"
      using st1(1) f1 by (simp add: repay_partial_debt_in_priority_order_def get_unlocked_balance_def u sm_bind_def sm_simps)
    moreover have "miner_funds_ok (st1\<lparr>fee_debt := fee_debt st - ?v - ?w\<rparr>)"
      using st1(2) by (auto simp: miner_funds_ok_def)
    moreover have "min_balance (st1\<lparr>fee_debt := fee_debt st - ?v - ?w\<rparr>) = min_balance st - ?v"
      using st1(4) f1 by (simp add: min_balance_def)
    moreover have "vf_sum (\<lambda>e. cur \<le> e) (vesting_funds st1) = vf_sum (\<lambda>e. cur \<le> e) (vesting_funds st) - ?v" using st1(5) by auto
    ultimately show ?thesis using False by simp
  qed
qed

section \<open>The clean-up\<close>

lemma collect_expired_eq:
  "collect_expired st is (ds, x) =
    (ds @ filter (\<lambda>i. pre_committed_sectors st i \<noteq> None) is,
     x + (\<Sum>i \<leftarrow> filter (\<lambda>i. pre_committed_sectors st i \<noteq> None) is. pre_commit_deposit (the (pre_committed_sectors st i))))"
  by (induction "is" arbitrary: ds x) (auto simp: get_precommitted_sector_def)

lemma delete_all_eq: "fold (\<lambda>n m. m(n := None)) ns m = m |` (- set ns)"
  by (induction ns arbitrary: m) (auto simp: fun_eq_iff restrict_map_def)

lemma cleanup_run:
  assumes "miner_funds_ok st"
  obtains st' where "cleanup_expired_pre_commits cur st =
      (if pre_commit_deposits st < expired_deposits cur st then Inl (MinerErr ''pre-commit clean up caused negative deposits'')
       else Inr (expired_deposits cur st), st')"
    "pre_commit_deposits st' = pre_commit_deposits st - expired_deposits cur st"
    "pre_committed_sectors st' = pre_committed_sectors st |` (- expired cur st)"
    "\<forall>e. scheduled (pre_committed_sectors_cleanup st') e = (if e \<le> cur then {} else scheduled (pre_committed_sectors_cleanup st) e)"
    "expired_deposits cur st \<le> pre_commit_deposits st \<longrightarrow> miner_funds_ok st'"
proof -
  obtain sectors modified q where pop: "pop_until cur (cleanup_queue st) = ((sectors, modified), q)" by (metis prod.exhaust)
  have "queue_ok (q_amt (cleanup_queue st))" using assms by (simp add: miner_funds_ok_def cleanup_queue_def)
  note q = pop_until_ok [OF this pop]
  let ?p = "pre_committed_sectors st"
  define ds where "ds = filter (\<lambda>i. ?p i \<noteq> None) (BitField_iter sectors)"
  have fin: "finite (bf_bits sectors)" by (rule finite_bf_bits [OF q(1)])
  have ds: "distinct ds" "set ds = expired cur st"
    unfolding ds_def BitField_iter_sorted [OF q(1)] using fin q(2) by (auto simp: expired_def cleanup_queue_def)
  have sum: "(\<Sum>i \<leftarrow> ds. pre_commit_deposit (the (?p i))) = expired_deposits cur st"
    using ds by (simp add: expired_deposits_def sum_list_distinct_conv_sum_set)
  let ?x = "expired_deposits cur st"
  let ?s = "st\<lparr>pre_committed_sectors_cleanup := q_amt q\<rparr>"
  have save: "(if modified then sm_upd (\<lambda>st. st\<lparr>pre_committed_sectors_cleanup := q_amt q\<rparr>) else sm_ret ()) st = (Inr () :: (MinerError, unit) res, ?s)"
    using q(5) by (auto simp: sm_simps cleanup_queue_def)
  have collect: "collect_expired ?s (BitField_iter sectors) ([], 0) = (ds, ?x)"
    using sum by (simp add: collect_expired_eq ds_def)
  have delete: "(if ds = [] then sm_ret () else delete_precommitted_sectors ds) ?s =
      (Inr (), ?s\<lparr>pre_committed_sectors := ?p |` (- expired cur st)\<rparr>)"
  proof (cases "ds = []")
    case True
    then have "?p |` (- expired cur st) = ?p" using ds(2) by (simp add: restrict_map_def)
    then show ?thesis using True by (simp add: sm_simps)
  qed (simp add: delete_precommitted_sectors_def sm_simps delete_all_eq ds(2))
  have "cleanup_expired_pre_commits cur st =
      (if pre_commit_deposits st < ?x then Inl (MinerErr ''pre-commit clean up caused negative deposits'') else Inr ?x,
       st\<lparr>pre_committed_sectors_cleanup := q_amt q, pre_committed_sectors := ?p |` (- expired cur st),
         pre_commit_deposits := pre_commit_deposits st - ?x\<rparr>)"
    unfolding cleanup_expired_pre_commits_def
    by (simp only: sm_bind_def sm_get_def pop save collect delete prod.case sum.case) (simp add: sm_bind_def sm_simps)
  then show ?thesis
    by (rule that) (use assms q(3,4) in \<open>auto simp: miner_funds_ok_def cleanup_queue_def\<close>)
qed

lemma add_cleanup_events_ok:
  assumes "queue_ok (q_amt q)" "0 < quant_unit (q_quant q)" "set es \<subseteq> fst ` set events"
    "\<forall>(e, ns) \<in> set events. 0 \<le> e \<and> e + quant_unit (q_quant q) \<le> 2 ^ 63 \<and> distinct ns"
  obtains q' where "add_cleanup_events events es q = Inr q'" "queue_ok (q_amt q')"
  using assms
proof (induction es arbitrary: q thesis)
  case (Cons e es)
  from Cons.prems(4) obtain ns where ns: "map_of events e = Some ns" "(e, ns) \<in> set events"
    by (metis insert_subset list.simps(15) map_of_SomeD map_of_eq_None_iff option.exhaust)
  with Cons.prems(5) have e: "0 \<le> e" "e + quant_unit (q_quant q) \<le> 2 ^ 63" "distinct ns" by auto
  have up: "0 \<le> quantize_up (q_quant q) e" "quantize_up (q_quant q) e < 2 ^ 63"
    using quantize_up_bounds(1,2) [OF Cons.prems(3), of e] e by linarith+
  obtain q1 where q1: "add_to_queue_values e ns q = Inr q1" "queue_ok (q_amt q1)" "q_quant q1 = q_quant q"
  proof (cases "ns = []")
    case True
    then show ?thesis using that [of q] Cons.prems(2) by (simp add: add_to_queue_values_def)
  next
    case False
    then show ?thesis
      using add_to_queue_ok [OF Cons.prems(2) from_iter_usize_correct(1) [OF e(3)] up] that by (auto simp: add_to_queue_values_def)
  qed
  obtain q' where "add_cleanup_events events es q1 = Inr q'" "queue_ok (q_amt q')"
    by (rule Cons.IH [OF _ q1(2)]) (use Cons.prems(3-5) q1(3) in auto)
  then show ?case using Cons.prems(1) ns(1) q1(1) by simp
qed simp

lemma put_all_if_absent_error: "put_all_if_absent infos m = Inl e \<Longrightarrow> e = MinerErr ''sector already pre-commited''"
  by (induction infos m rule: put_all_if_absent.induct) (auto simp: Let_def split: option.splits)

section \<open>A sample state\<close>

definition sample_precommit :: "SectorNumber \<Rightarrow> TokenAmount \<Rightarrow> SectorPreCommitOnChainInfo" where
  "sample_precommit n d = \<lparr>pc_info = \<lparr>seal_proof = StackedDRG32GiBV1P1, sector_number = n, sealed_cid = [1], seal_rand_epoch = 3, deal_ids = [],
     expiration = 900, replace_capacity = False, replace_sector_deadline = 0, replace_sector_partition = 0, replace_sector_number = 0\<rparr>,
     pre_commit_deposit = d, pre_commit_epoch = 5, deal_weight = 0, verified_deal_weight = 0\<rparr>"

definition sample_funds :: "TokenAmount \<Rightarrow> TokenAmount \<Rightarrow> MinerFunds" where
  "sample_funds deposits debt = \<lparr>pre_commit_deposits = deposits, locked_funds = 30, vesting_funds = [\<lparr>vf_epoch = 10, vf_amount = 30\<rparr>], fee_debt = debt,
     initial_pledge = 7, pre_committed_sectors = [5 \<mapsto> sample_precommit 5 4, 2 \<mapsto> sample_precommit 2 6],
     pre_committed_sectors_cleanup = [(60, from_iter_usize [5, 3]), (120, from_iter_usize [2])], proving_period_start = 0\<rparr>"

section \<open>Properties\<close>

text \<open>C38. Locking a reward ends and follows the vesting schedule.  For a schedule with positive step and quantization the loop ends; the
  new table is sorted, without negative amounts, and holds exactly the amount more.  Up to any epoch it releases at least what the
  old table released, and at most what linear vesting since the start of the schedule allows on top of that.\<close>

theorem vesting_schedule:
  assumes "spec_ok spec" "0 \<le> S" "vest_ok fs"
  shows "\<exists>fs'. vf_add_locked_funds cur S pps spec fs = Some fs' \<and> vest_ok fs' \<and>
    vf_sum (\<lambda>_. True) fs' = vf_sum (\<lambda>_. True) fs + S \<and>
    (\<forall>t. vf_sum (\<lambda>e. e \<le> t) fs \<le> vf_sum (\<lambda>e. e \<le> t) fs' \<and>
      vf_sum (\<lambda>e. e \<le> t) fs' \<le> vf_sum (\<lambda>e. e \<le> t) fs +
        (if t \<le> cur + initial_delay spec then 0 else target_vest spec S (t - (cur + initial_delay spec))))"
proof -
  obtain fs' where "vf_add_locked_funds cur S pps spec fs = Some fs'" "vest_ok fs'"
    "vf_sum (\<lambda>_. True) fs' = vf_sum (\<lambda>_. True) fs + S"
    "\<forall>t. vf_sum (\<lambda>e. e \<le> t) fs \<le> vf_sum (\<lambda>e. e \<le> t) fs'"
    "\<forall>t. vf_sum (\<lambda>e. e \<le> t) fs' \<le> vf_sum (\<lambda>e. e \<le> t) fs +
       (if t \<le> cur + initial_delay spec then 0 else target_vest spec S (t - (cur + initial_delay spec)))"
    by (rule vf_add_locked_funds_ok [OF assms, where cur = cur and pps = pps])
  then show ?thesis by (intro exI [of _ fs'] conjI allI) simp_all
qed

theorem vesting_schedule_witness:
  "spec_ok REWARD_VESTING_SPEC \<and> vest_ok [] \<and>
   (\<exists>fs'. vf_add_locked_funds 100 1000 7 REWARD_VESTING_SPEC [] = Some fs' \<and> vest_ok fs' \<and> vf_sum (\<lambda>_. True) fs' = 1000)"
proof -
  have ok: "spec_ok REWARD_VESTING_SPEC" "vest_ok []" by (simp_all add: spec_ok_def REWARD_VESTING_SPEC_def policy_values vest_ok_def)
  have "(0 :: int) \<le> 1000" by simp
  from vesting_schedule [OF ok(1) this ok(2), of 100 7] ok show ?thesis by auto
qed

text \<open>C39. The accounts of a miner stay consistent.  Let the schedule of a lock have positive step and quantization, the target of an early unlock be non-negative, and
  the epochs of clean-up events be non-negative with distinct sectors.  Then every call that changes the accounts ends without a panic, and when it succeeds it keeps the locked funds equal to the sum of the
  vesting table and all accounts non-negative; in particular the checks for negative locked funds never fail.
  A call that reports an error has changed nothing, with one exception: the clean-up of expired pre-commitments fails exactly when the deposits of the expired
  sectors that are still pre-committed exceed the account, and has deducted them and deleted the sectors by then.
\<close>

theorem miner_accounts_consistent:
  assumes "miner_funds_ok st" "funds_args_ok op"
  shows "\<exists>r st'. funds_step op st = Some (r, st') \<and>
    (r = Inr () \<longrightarrow> miner_funds_ok st') \<and>
    (\<forall>e. r = Inl e \<longrightarrow>
      st' = st \<and> e \<in> {MinerErr ''negative pre-commit deposit'', MinerErr ''negative initial pledge requirement'',
        MinerErr ''applying negative penalty'', MinerErr ''negative vesting sum'', MinerErr ''negative unlocked balance'',
        MinerActorErr ErrInsufficientFunds, MinerErr ''sector already pre-commited''} \<or>
      (\<exists>cur. op = CleanUp cur) \<and> e = MinerErr ''pre-commit clean up caused negative deposits'') \<and>
    (\<forall>cur. op = CleanUp cur \<longrightarrow> (r = Inr () \<longleftrightarrow> expired_deposits cur st \<le> pre_commit_deposits st) \<and>
      pre_commit_deposits st' = pre_commit_deposits st - expired_deposits cur st \<and>
      pre_committed_sectors st' = pre_committed_sectors st |` (- expired cur st))"
proof (cases op)
  case (Lock cur a spec)
  show ?thesis
  proof (cases "a < 0")
    case True
    then show ?thesis using assms(1) Lock by (simp add: add_locked_funds_def)
  next
    case False
    then obtain st' where "add_locked_funds cur a spec st = Some (Inr (vf_sum (\<lambda>e. e < cur) (vesting_funds st)), st')" "miner_funds_ok st'"
      using add_locked_funds_run [OF assms(1), of a spec cur] assms(2) Lock by auto
    then show ?thesis by (simp add: Lock)
  qed
next
  case (UnlockVested cur)
  obtain st' where "unlock_vested_funds cur st = (Inr (vf_sum (\<lambda>e. e < cur) (vesting_funds st)), st')" "miner_funds_ok st'"
    by (rule unlock_vested_funds_run [OF assms(1)])
  then show ?thesis by (simp add: UnlockVested)
next
  case (UnlockUnvested cur a)
  then have "0 \<le> a" using assms(2) by simp
  then obtain st' where "unlock_unvested_funds cur a st = (Inr (min a (vf_sum (\<lambda>e. cur \<le> e) (vesting_funds st))), st')" "miner_funds_ok st'"
    by (rule unlock_unvested_funds_run [OF assms(1)])
  then show ?thesis by (simp add: UnlockUnvested)
next
  case (RepayPartial cur b)
  then show ?thesis using repay_partial_run [OF assms(1), of b cur] assms(1) by (auto split: if_splits)
next
  case (Repay b)
  then show ?thesis using assms(1)
    by (simp add: repay_debts_def get_unlocked_balance_def sm_bind_def sm_simps discard_def) (auto simp: miner_funds_ok_def)
next
  case (PutPrecommits infos)
  then show ?thesis using assms(1) put_all_if_absent_error [of infos]
    by (cases "put_all_if_absent infos (pre_committed_sectors st)")
      (auto simp: put_precommitted_sectors_def sm_bind_def sm_simps miner_funds_ok_def)
next
  case (AddCleanUps events)
  obtain q where "add_cleanup_events events (sort (map fst events)) (cleanup_queue st) = Inr q" "queue_ok (q_amt q)"
    by (rule add_cleanup_events_ok [where q = "cleanup_queue st" and events = events and es = "sort (map fst events)"])
      (use assms AddCleanUps in \<open>auto simp: cleanup_queue_def quant_spec_every_deadline_def miner_funds_ok_def policy_values\<close>)
  then show ?thesis using assms(1) AddCleanUps by (simp add: add_pre_commit_clean_ups_def sm_bind_def sm_simps miner_funds_ok_def)
next
  case (CleanUp cur)
  obtain st' where "cleanup_expired_pre_commits cur st =
      (if pre_commit_deposits st < expired_deposits cur st then Inl (MinerErr ''pre-commit clean up caused negative deposits'')
       else Inr (expired_deposits cur st), st')"
    "pre_commit_deposits st' = pre_commit_deposits st - expired_deposits cur st"
    "pre_committed_sectors st' = pre_committed_sectors st |` (- expired cur st)"
    "expired_deposits cur st \<le> pre_commit_deposits st \<longrightarrow> miner_funds_ok st'"
    by (rule cleanup_run [OF assms(1), where cur = cur])
  then show ?thesis by (simp add: CleanUp)
qed (use assms(1) in \<open>auto simp: add_pre_commit_deposit_def add_initial_pledge_def apply_penalty_def sm_bind_def sm_simps miner_funds_ok_def\<close>)

theorem miner_accounts_consistent_witness:
  "miner_funds_ok (sample_funds 5 0) \<and>
   (\<exists>r st'. funds_step (UnlockUnvested 5 12) (sample_funds 5 0) = Some (r, st') \<and> (r = Inr () \<longrightarrow> miner_funds_ok st')) \<and>
   (\<exists>st'. funds_step (CleanUp 70) (sample_funds 5 0) = Some (Inr (), st') \<and> miner_funds_ok st' \<and> pre_commit_deposits st' = 1) \<and>
   (\<exists>e st'. funds_step (CleanUp 130) (sample_funds 5 0) = Some (Inl e, st') \<and> pre_commit_deposits st' = - 5)"
proof -
  have b: "bf_bits (from_iter_usize [5, 3]) = {5, 3}" "bf_bits (from_iter_usize [2]) = {2}"
    by (simp_all add: from_iter_usize_correct)
  have ok: "miner_funds_ok (sample_funds 5 0)"
    by (simp add: sample_funds_def miner_funds_ok_def vest_ok_def queue_ok_def from_iter_usize_correct)
  have s: "scheduled [(60, from_iter_usize [5, 3]), (120, from_iter_usize [2])] e = (if e = 60 then {5, 3} else if e = 120 then {2} else {})" for e
    using b by (auto simp: scheduled_def)
  have x: "expired 70 (sample_funds 5 0) = {5}" "expired 130 (sample_funds 5 0) = {5, 2}"
    by (auto simp: expired_def sample_funds_def s intro: exI [of _ 60] exI [of _ 120] split: if_splits)
  have d: "expired_deposits 70 (sample_funds 5 0) = 4" "expired_deposits 130 (sample_funds 5 0) = 10" "pre_commit_deposits (sample_funds 5 0) = 5"
    unfolding expired_deposits_def x by (simp_all add: sample_funds_def sample_precommit_def)
  have "\<exists>st'. funds_step (CleanUp 70) (sample_funds 5 0) = Some (Inr (), st') \<and> miner_funds_ok st' \<and> pre_commit_deposits st' = 1"
    using miner_accounts_consistent [OF ok, of "CleanUp 70"] d by auto
  moreover have "\<exists>e st'. funds_step (CleanUp 130) (sample_funds 5 0) = Some (Inl e, st') \<and> pre_commit_deposits st' = - 5"
  proof -
    from miner_accounts_consistent [OF ok, of "CleanUp 130"] d obtain r st' where
      "funds_step (CleanUp 130) (sample_funds 5 0) = Some (r, st')" "r \<noteq> Inr ()" "pre_commit_deposits st' = - 5"
      by (auto simp del: funds_step.simps)
    then show ?thesis by (cases r) auto
  qed
  moreover have "\<exists>r st'. funds_step (UnlockUnvested 5 12) (sample_funds 5 0) = Some (r, st') \<and> (r = Inr () \<longrightarrow> miner_funds_ok st')"
    using miner_accounts_consistent [OF ok, of "UnlockUnvested 5 12"] by (simp del: funds_step.simps) blast
  ultimately show ?thesis using ok by blast
qed

text \<open>C40. Repaying debt in priority order.  It fails only when the balance does not cover the locked accounts.  Otherwise the vesting table pays first, as much of the debt as its
  unvested funds cover, and the free balance pays only what is left of the debt, as far as it goes; what is taken from both
  together with the debt that is left is the debt before; burning what was taken leaves a balance that still satisfies
  the balance invariants; and debt is left only when no unvested funds and no free balance remain.\<close>

theorem miner_repays_debt:
  assumes "miner_funds_ok st" "min_balance st \<le> b"
  shows "\<exists>v w st'. repay_partial_debt_in_priority_order cur b st = (Inr (v, w), st') \<and>
    v = min (fee_debt st) (vf_sum (\<lambda>e. cur \<le> e) (vesting_funds st)) \<and> w = min (b - min_balance st) (fee_debt st - v) \<and>
    0 \<le> v \<and> 0 \<le> w \<and> v + w + fee_debt st' = fee_debt st \<and>
    check_balance_invariants (b - v - w) st' = (Inr (), st') \<and>
    (fee_debt st' = 0 \<or> vf_sum (\<lambda>e. cur \<le> e) (vesting_funds st') = 0 \<and> b - v - w = min_balance st')"
proof -
  have d: "0 \<le> fee_debt st" "0 \<le> vf_sum (\<lambda>e. cur \<le> e) (vesting_funds st)"
    using assms(1) by (auto simp: miner_funds_ok_def vest_ok_nonneg)
  from repay_partial_run [OF assms(1), of b cur] assms(2) obtain v w st' where r:
    "repay_partial_debt_in_priority_order cur b st = (Inr (v, w), st')" "miner_funds_ok st'"
    "v = min (fee_debt st) (vf_sum (\<lambda>e. cur \<le> e) (vesting_funds st))" "w = min (b - min_balance st) (fee_debt st - v)"
    "fee_debt st' = fee_debt st - v - w" "min_balance st' = min_balance st - v"
    "vf_sum (\<lambda>e. cur \<le> e) (vesting_funds st') = vf_sum (\<lambda>e. cur \<le> e) (vesting_funds st) - v"
    by (simp only: if_False not_less [symmetric]) blast
  have "min_balance st' \<le> b - v - w" using r(4,6) by simp
  then have "check_balance_invariants (b - v - w) st' = (Inr (), st')"
    using r(2) locked_nonneg [OF r(2)] by (simp add: check_balance_invariants_def miner_funds_ok_def min_balance_def sm_bind_def sm_simps)
  moreover have "fee_debt st' = 0 \<or> vf_sum (\<lambda>e. cur \<le> e) (vesting_funds st') = 0 \<and> b - v - w = min_balance st'"
    using r(3-7) assms(2) d by linarith
  ultimately show ?thesis using r(1,3-5) d assms(2) by (intro exI [of _ v] exI [of _ w] exI [of _ st']) auto
qed

theorem miner_repays_debt_witness:
  "miner_funds_ok (sample_funds 5 50) \<and> min_balance (sample_funds 5 50) \<le> 45 \<and>
   (\<exists>st'. repay_partial_debt_in_priority_order 5 45 (sample_funds 5 50) = (Inr (30, 3), st') \<and> fee_debt st' = 17)"
proof -
  have st: "miner_funds_ok (sample_funds 5 50)" "min_balance (sample_funds 5 50) \<le> 45"
    by (simp_all add: sample_funds_def miner_funds_ok_def vest_ok_def min_balance_def queue_ok_def from_iter_usize_correct)
  from miner_repays_debt [OF st, of 5] st show ?thesis by (auto simp: sample_funds_def min_balance_def)
qed

end
