(* ===== verification/Spec2Isabelle.thy ===== *)
theory Spec2Isabelle
  imports Rleplus Amt_Correct Hamt_Correct Vm_Ledger Vm_Fuel Miner_Funds
begin

text \<open>
  \<^bold>\<open>Verification of the Forest node: data structures, state tree, actors and interpreter.\<close>

  Forest is a Filecoin node in Rust.  The part that decides the state of the chain is a tower: bit
  fields and the two persistent tries at the bottom, the state tree with its snapshots on top of
  them, the runtime that gives an actor's method access to the tree, the built-in actors, and the
  interpreter that executes the messages of a tipset.  This development models that tower, from the
  bytes of a bit field to the settlement of gas, and proves it correct layer by layer.

  \<^bold>\<open>Conventions.\<close>  A \<open>Result\<close> is a value of a sum type, \<open>Inl\<close> the error; a method on \<open>&mut self\<close> is a
  function to a result and the state it leaves, also when it fails (\<open>sm\<close> in \<open>Prelude\<close>), so that what
  a failing method has already written is visible until the code rolls it back.  Panics are errors of
  their own where the code can reach them.  Machine integers are words, or numbers with the bound
  written out, where the width matters (\<open>Bitstream\<close>, \<open>Rleplus\<close>, \<open>Amt\<close>, \<open>Hamt\<close>); amounts of tokens are
  \<open>int\<close> as in the source (\<open>BigInt\<close>).  Epochs and gas, \<open>i64\<close> in the source, are \<open>int\<close> as well: their overflow is not modelled.  Code outside of \<open>src\<close> (hash functions, signatures, CBOR, the
  varint and base32 crates) is an argument of the definitions that use it, and the facts a theorem
  needs of it are hypotheses of the theorem.

  \<^bold>\<open>Bit fields\<close> (\<open>src/utils/bitfield\<close>).  \<open>Ranges\<close> models the range iterators as lists and the merge loop
  of \<open>combine.rs\<close> for any \<open>Combinator\<close>; the locale \<open>combinator_spec\<close> is the contract of that trait,
  interpreted for union, intersection, difference, symmetric difference; \<open>cut\<close> has a
  theorem of its own.  \<open>Bitfield\<close> models \<open>lib.rs\<close>: ranges with pending set and unset bits; the locale
  \<open>index_set\<close> is the interface of a set of indices, and its interpretation \<open>bf\<close> gives the set
  operations.  \<open>Bitstream\<close> and \<open>Rleplus\<close> model the reader, the writer, the RLE+ encoder and decoder and
  \<open>UnvalidatedBitField\<close>: decoding inverts encoding, ends on every input and yields proper bit fields within
  \<open>u64\<close>, and two bit fields are encoded by the same bytes exactly when they are equal; the theorems on the encoder are for runs shorter than
  \<open>2 ^ 63\<close> bits, beyond which the decoder refuses what the encoder writes.  Indices are natural numbers: the index
  \<open>usize::MAX\<close>, for which \<open>ranges_from_bits\<close> and \<open>first\<close> overflow, is out of scope.

  \<^bold>\<open>Tries\<close> (\<open>src/ipld/amt\<close>, \<open>src/ipld/hamt\<close>, \<open>src/ipld/blockstore\<close>).  \<open>Amt\<close> and \<open>Hamt\<close> model the nodes with links,
  caches and modified children over the content-addressed store of \<open>Blockstore\<close>; \<open>Amt_Correct\<close> and
  \<open>Hamt_Correct\<close> prove that every operation implements a finite map, that a flushed trie loads as the
  same map, and that its identifier depends on the map only.  The identifier function is a parameter,
  injective where a theorem says so.  The recursion of the HAMT is bounded by \<open>HAMT_LEVELS = 257\<close>, one
  more than the 256 bits of a hash can give levels; \<open>spread\<close> says that at most three keys agree on all
  their levels, without which the code ends in \<open>MaxDepth\<close>.  The AMT recurses on its height.

  \<^bold>\<open>Addresses and types.\<close>  \<open>Address\<close> models \<open>src/vm/address\<close> with its byte and text forms.  \<open>Actor_Types\<close>
  holds exit codes, errors, code identifiers, the singleton addresses and the state structure of each
  actor.  From here on an identifier of a block is modelled by the block, and a table behind a trie by
  a partial function (or an association list where the code iterates over it), which is what the
  theorems on the tries allow; the error cases of a corrupted store are left out with it.
  One more case is left out: where the code deletes a key that is absent (flushing a deleted actor that was never
  stored, executing a multisig transaction, removing a verifier) the tables stay as they are, while the trie may
  panic, as \<open>hamt_delete_absent_panics\<close> shows.

  \<^bold>\<open>State tree and runtime.\<close>  \<open>State_Tree\<close> models \<open>src/vm/state_tree\<close>: the table, the stack of snapshot
  layers with their caches and deletions; the locale \<open>snapshot_store\<close> is the contract of a store with
  snapshots.  \<open>Runtime\<close> models \<open>default_runtime.rs\<close>: caller validation, transactions, transfers, creation and deletion,
  and sends.  \<open>Runtime_Laws\<close> and \<open>Runtime_Triples\<close> are the proof layer: \<open>vstep\<close> are the changes of the
  actor table that a computation may make, \<open>runs C P m Q\<close> a triple for computations whose state
  commits are in \<open>C\<close>, and the locale \<open>commits\<close> what an interpreter promises about \<open>C\<close>.

  \<^bold>\<open>Actors\<close> (\<open>src/vm/actor/src/builtin\<close>).  \<open>Basic_Actors\<close> (system, account, init, cron), \<open>Multisig\<close>, \<open>Paych\<close>, \<open>Verifreg\<close> and
  \<open>Reward\<close> model every method with its guards in the order of the code, and the dispatch of each actor.
  Each extends \<open>commits\<close> by a locale of its own (\<open>multisig_commits\<close> and so on) in which its methods are
  proved to keep the invariant of its state.  Serialization is a record of decoders.

  \<^bold>\<open>Miner.\<close>  Of the storage miner three parts are modelled on their own.  \<open>Deadlines\<close> models the quantization of epochs and the
  windows of a deadline (\<open>src/types/src/deadlines\<close>, \<open>miner/deadlines.rs\<close>), with truncating division: which window is open, and
  when a deadline may be changed, disputed or compacted.  \<open>Miner_Queue\<close> models the queue of bit fields by epoch
  (\<open>miner/bitfield_queue.rs\<close>) on the entries of its array.  \<open>Miner_Funds\<close> models the vesting table and the accounts of the
  miner state (\<open>miner/vesting_state.rs\<close>, the section on funds of \<open>miner/state.rs\<close>): the schedule of a locked reward, the invariant
  that the locked funds are the sum of the table, the repayment of debt, and the clean-up of expired pre-commitments, the one
  operation that reports an error after it has changed the accounts.  The two loops over epochs are \<open>while_option\<close> and
  proved to end, for schedules with positive step and quantization (\<open>spec_ok\<close>).

  \<^bold>\<open>Interpreter\<close> (\<open>src/vm/interpreter\<close>).  \<open>Vm\<close> models the dispatch by code identifier, \<open>execute_send\<close> with its
  recursion through the actors, the gas settlement of \<open>apply_message\<close>, and the application of the
  blocks of a tipset with rewards and cron.  The recursion is bounded by fuel; \<open>Vm_Fuel\<close> shows that fuel for
  \<open>MAX_CALL_DEPTH\<close> levels is never used up.  \<open>Vm_Safety\<close> interprets the locales of the actors on
  \<open>vm_commit\<close> and concludes that every message makes permitted steps only; \<open>Vm_Ledger\<close> adds up balances:
  no message destroys tokens, none creates tokens while the payment channels stored in the base table are empty (a collected
  channel that is stored with a balance comes back with it), and gas is paid exactly.  The gas that an execution uses is
  a parameter, as are the methods of actors that are not modelled; \<open>code_ok\<close> says that those
  change the tree through the runtime only, \<open>code_uniform\<close> that they use a send only by calling it.

  \<^bold>\<open>Not modelled.\<close>  The methods of the storage miner, market and power actors (the parameters just
  named) with the sectors, partitions and expiration queues of a miner, the actors of earlier versions, which are a separate package the interpreter dispatches to,
  and the state migration.  The price list and the metering of gas, the proof and randomness system calls.  Chain store,
  synchronization, message pool, state manager, networking, RPC, command line, key store and
  serialization: asynchronous code, input and output, or wrappers of third-party packages around the
  state transition modelled here.
\<close>

end
